(* ===== verification/Prelude.thy ===== *)
theory Prelude
  imports Main "HOL-Library.Word" "HOL-Library.Multiset" "HOL-Library.List_Lexorder"
begin

text \<open>
  Shared vocabulary of the development: the machine types of the C++ sources, errors as values of
  a sum type (every C++ exception and every failed \<open>AD_CONTRACT_CHECK\<close> or
  \<open>AD_CORRECTNESS_CHECK\<close> is a constructor of \<open>error\<close>), the three-way comparison result, the
  standard-library searches on random-access ranges, and the generic list lemmas that the
  components use.
\<close>

section \<open>Machine types and errors\<close>

type_synonym u64 = "64 word"

datatype error =
    ContractViolation        \<comment> \<open>\<open>AD_CONTRACT_CHECK\<close>\<close>
  | CorrectnessViolation     \<comment> \<open>\<open>AD_CORRECTNESS_CHECK\<close> and \<open>AD_FAIL\<close>\<close>
  | OutOfRange               \<comment> \<open>\<open>std::out_of_range\<close>\<close>
  | IndexTooLargeException
  | EmptyPopException
  | NotInPQException
  | RuntimeError             \<comment> \<open>\<open>std::runtime_error\<close>\<close>
  | OverflowError            \<comment> \<open>\<open>std::overflow_error\<close>\<close>
  | UnderflowError           \<comment> \<open>\<open>std::underflow_error\<close>\<close>
  | CancellationException
  | BadVariantAccess         \<comment> \<open>\<open>std::bad_variant_access\<close>\<close>
  | AllocationExceedsLimitException

type_synonym 'a result = "error + 'a"

definition res_bind :: "'a result \<Rightarrow> ('a \<Rightarrow> 'b result) \<Rightarrow> 'b result" where
  "res_bind m f = (case m of Inl e \<Rightarrow> Inl e | Inr x \<Rightarrow> f x)"

lemma res_bind_simps [simp]:
  "res_bind (Inl e) f = Inl e"
  "res_bind (Inr x) f = f x"
  by (simp_all add: res_bind_def)

lemma res_bind_InrE [elim]:
  assumes "res_bind m f = Inr y"
  obtains x where "m = Inr x" and "f x = Inr y"
  using assms by (cases m) auto

text \<open>\<open>ensure e b\<close> raises \<open>e\<close> unless the checked condition \<open>b\<close> holds.\<close>

definition ensure :: "error \<Rightarrow> bool \<Rightarrow> unit result" where
  "ensure e b = (if b then Inr () else Inl e)"

lemma ensure_simps [simp]:
  "ensure e True = Inr ()"
  "ensure e False = Inl e"
  "ensure e b = Inr u \<longleftrightarrow> b"
  by (simp_all add: ensure_def)

section \<open>Three-way comparison\<close>

datatype ordering = Less | Equal | Greater

definition inverse_ordering :: "ordering \<Rightarrow> ordering" where
  "inverse_ordering r = (case r of Less \<Rightarrow> Greater | Equal \<Rightarrow> Equal | Greater \<Rightarrow> Less)"

definition three_way :: "'a::linorder \<Rightarrow> 'a \<Rightarrow> ordering" where
  "three_way a b = (if a < b then Less else if a = b then Equal else Greater)"

lemma three_way_iff [simp]:
  "three_way a b = Less \<longleftrightarrow> a < b"
  "three_way a b = Equal \<longleftrightarrow> a = b"
  "three_way a b = Greater \<longleftrightarrow> b < a"
  by (auto simp: three_way_def)

lemma three_way_less:
  "a < b \<Longrightarrow> three_way a b = Less"
  "a < b \<Longrightarrow> three_way b a = Greater"
  by (simp_all add: three_way_iff)

lemma inverse_ordering_iff [simp]:
  "inverse_ordering r = Less \<longleftrightarrow> r = Greater"
  "inverse_ordering r = Equal \<longleftrightarrow> r = Equal"
  "inverse_ordering r = Greater \<longleftrightarrow> r = Less"
  by (cases r; simp add: inverse_ordering_def)+

text \<open>Truncation keeps the lexicographic order in which the rows of a table are sorted.\<close>

lemma take_mono_lex: "a \<le> b \<Longrightarrow> take n a \<le> take n (b :: ('a::linorder) list)"
proof (induction n arbitrary: a b)
  case (Suc n)
  then show ?case by (cases a; cases b) (auto simp: Cons_le_Cons)
qed simp

end
