(* ===== verification/BitUtils.thy ===== *)
theory BitUtils
  imports Prelude
begin

text \<open>
  Models \<open>src/util/BitUtils.h\<close> (bit masks of a given width, the number of bits needed for a
  value) and \<open>src/util/NBitInteger.h\<close> (signed integers stored in \<open>N\<close> bits). A C++
  \<open>int64_t\<close> and a C++ \<open>uint64_t\<close> are the same 64 bits: \<open>sint\<close> reads a word as the former,
  \<open>unat\<close> as the latter. The template parameter \<open>N\<close> of \<open>NBitInteger\<close> is an argument.
\<close>

unbundle bit_operations_syntax

section \<open>Bit masks\<close>

definition bitMaskForLowerBits :: "u64 \<Rightarrow> u64 result" where
  "bitMaskForLowerBits numBits =
     (if numBits > 64 then Inl OutOfRange
      else if numBits = 64 then Inr (- 1)
      else Inr (push_bit (unat numBits) 1 - 1))"

definition bitMaskForHigherBits :: "u64 \<Rightarrow> u64 result" where
  "bitMaskForHigherBits numBits =
     res_bind (bitMaskForLowerBits (64 - numBits)) (\<lambda>m. Inr (NOT m))"

function bitMaskSizeForValue :: "u64 \<Rightarrow> int" where
  "bitMaskSizeForValue maxValue =
     (if maxValue = 0 then 0 else bitMaskSizeForValue (drop_bit 1 maxValue) + 1)"
  by pat_completeness auto
termination
proof (relation "measure unat")
  fix v :: u64
  assume "v \<noteq> 0"
  then have "0 < unat v"
    by (simp add: unat_gt_0)
  then show "(drop_bit 1 v, v) \<in> measure unat"
    by (simp add: drop_bit_eq_div unat_div)
qed simp

declare bitMaskSizeForValue.simps [simp del]

section \<open>N-bit integers\<close>

definition toNBit :: "nat \<Rightarrow> u64 \<Rightarrow> u64" where
  "toNBit N i = (case bitMaskForLowerBits (of_nat N) of Inl _ \<Rightarrow> 0 | Inr m \<Rightarrow> i AND m)"

definition fromNBit :: "nat \<Rightarrow> u64 \<Rightarrow> u64" where
  "fromNBit N t = signed_drop_bit (64 - N) (push_bit (64 - N) t)"

definition nbit_max :: "nat \<Rightarrow> u64" where
  "nbit_max N = signed_drop_bit (64 - N) (mask 63)"

definition nbit_min :: "nat \<Rightarrow> u64" where
  "nbit_min N = signed_drop_bit (64 - N) (push_bit 63 1)"

section \<open>Masks are masks\<close>

lemma unat_of_nat_le64: "n \<le> 64 \<Longrightarrow> unat (of_nat n :: u64) = n"
  by (simp add: unat_of_nat)

lemma bitMaskForLowerBits_eq:
  assumes "n \<le> 64"
  shows "bitMaskForLowerBits (of_nat n) = Inr (mask n)"
proof (cases "n = 64")
  case True
  then show ?thesis
    by (simp add: bitMaskForLowerBits_def mask_eq_exp_minus_1)
next
  case False
  note u = unat_of_nat_le64 [OF assms]
  have "(of_nat n :: u64) < 64"
    using assms False u by (simp add: word_less_nat_alt)
  then have "\<not> (of_nat n :: u64) > 64" and "(of_nat n :: u64) \<noteq> 64"
    by auto
  then show ?thesis
    using u by (simp add: bitMaskForLowerBits_def mask_eq_exp_minus_1 push_bit_eq_mult)
qed

lemma bitMaskForLowerBits_60: "bitMaskForLowerBits 60 = Inr (mask 60)"
  using bitMaskForLowerBits_eq [of 60] by simp

lemma bitMaskForHigherBits_eq:
  assumes "n \<le> 64"
  shows "bitMaskForHigherBits (of_nat n) = Inr (NOT (mask (64 - n)))"
proof -
  have "64 - of_nat n = (of_nat (64 - n) :: u64)"
    using assms by simp
  then show ?thesis
    using bitMaskForLowerBits_eq [of "64 - n"] by (simp add: bitMaskForHigherBits_def)
qed

text \<open>The lower mask has exactly the \<open>numBits\<close> lowest bits, the higher mask exactly the
  \<open>numBits\<close> highest, and more than 64 bits are refused by both.\<close>

lemma bitMasks_spec:
  "(\<exists>lo hi. bitMaskForLowerBits n = Inr lo \<and> bitMaskForHigherBits n = Inr hi
      \<and> (\<forall>i<64. bit lo i \<longleftrightarrow> i < unat n) \<and> (\<forall>i<64. bit hi i \<longleftrightarrow> 64 \<le> i + unat n))
   \<or> 64 < unat n \<and> bitMaskForLowerBits n = Inl OutOfRange \<and> bitMaskForHigherBits n = Inl OutOfRange"
proof (cases "64 < unat n")
  case True
  then have n: "n > 64"
    by (simp add: word_less_nat_alt)
  have "unat (64 - n) > 64"
  proof -
    have "unat (64 - n) = 2 ^ 64 + 64 - unat n"
      using True by (simp add: unat_sub_if' nat_diff_distrib)
    then show ?thesis
      using unsigned_less [of n, where ?'a = nat] by simp
  qed
  then have "64 - n > 64"
    by (simp add: word_less_nat_alt)
  with n True show ?thesis
    by (simp add: bitMaskForLowerBits_def bitMaskForHigherBits_def)
next
  case False
  then have n: "n = of_nat (unat n)" and le: "unat n \<le> 64"
    by auto
  have "bitMaskForLowerBits n = Inr (mask (unat n))"
    and "bitMaskForHigherBits n = Inr (NOT (mask (64 - unat n)))"
    using bitMaskForLowerBits_eq [OF le] bitMaskForHigherBits_eq [OF le] n by simp_all
  moreover have "\<forall>i<64. bit (mask (unat n) :: u64) i \<longleftrightarrow> i < unat n"
    by (simp add: bit_simps)
  moreover have "\<forall>i<64. bit (NOT (mask (64 - unat n)) :: u64) i \<longleftrightarrow> 64 \<le> i + unat n"
    by (auto simp: bit_simps)
  ultimately show ?thesis
    by blast
qed

lemma two_power_nat_diff:
  "1 \<le> k \<Longrightarrow> (2::nat) ^ nat k = 2 * 2 ^ nat (k - 1)"
  by (simp add: nat_diff_distrib flip: power_Suc)

lemma bitMaskSizeForValue_bounds:
  "0 \<le> bitMaskSizeForValue v \<and> unat v < 2 ^ nat (bitMaskSizeForValue v)
   \<and> (v \<noteq> 0 \<longrightarrow> 2 ^ nat (bitMaskSizeForValue v - 1) \<le> unat v)"
proof (induction v rule: bitMaskSizeForValue.induct)
  case (1 v)
  show ?case
  proof (cases "v = 0")
    case True
    then show ?thesis by (simp add: bitMaskSizeForValue.simps)
  next
    case False
    let ?w = "drop_bit 1 v"
    let ?k = "bitMaskSizeForValue ?w"
    have IH: "0 \<le> ?k" "unat ?w < 2 ^ nat ?k" "?w \<noteq> 0 \<longrightarrow> 2 ^ nat (?k - 1) \<le> unat ?w"
      using 1 False by auto
    have w: "unat ?w = unat v div 2"
      by (simp add: drop_bit_eq_div unat_div)
    have eq: "bitMaskSizeForValue v = ?k + 1"
      using False by (subst bitMaskSizeForValue.simps) simp
    have up: "unat v < 2 ^ nat (?k + 1)"
      using IH(1,2) w by (simp add: nat_add_distrib)
    have "2 ^ nat ?k \<le> unat v"
    proof (cases "?k = 0")
      case True
      then show ?thesis using False by (simp add: Suc_leI unat_gt_0)
    next
      case k0: False
      then have "?w \<noteq> 0"
        by (auto simp: bitMaskSizeForValue.simps)
      with IH w k0 two_power_nat_diff [of ?k] show ?thesis by simp
    qed
    then show ?thesis using eq up IH(1) by simp
  qed
qed

section \<open>N-bit integers round-trip on their range\<close>

lemma fromNBit_eq: "1 \<le> N \<Longrightarrow> N \<le> 64 \<Longrightarrow> fromNBit N t = signed_take_bit (N - 1) t"
  by (rule bit_eqI) (auto simp: fromNBit_def bit_simps)

lemma toNBit_eq: "N \<le> 64 \<Longrightarrow> toNBit N i = take_bit N i"
  by (simp add: toNBit_def bitMaskForLowerBits_eq take_bit_eq_mask)

lemma sint_signed_take_bit:
  "m < 64 \<Longrightarrow> sint (signed_take_bit m w :: u64) = signed_take_bit m (sint w)"
proof (cases "m = 63")
  case True
  then show ?thesis by (intro bit_eqI) (auto simp: bit_simps min_def)
next
  case False
  then show "m < 64 \<Longrightarrow> ?thesis" by (intro bit_eqI) (auto simp: bit_simps min_def)
qed

lemma fromNBit_toNBit:
  assumes "1 \<le> N" "N \<le> 64"
  shows "fromNBit N (toNBit N i) = signed_take_bit (N - 1) i"
proof -
  have "fromNBit N (take_bit N i) = signed_take_bit (N - 1) i"
    using assms by (intro bit_eqI) (auto simp: fromNBit_eq bit_simps min_def)
  then show ?thesis
    by (simp add: toNBit_eq assms)
qed

lemma two_power_63_split:
  "1 \<le> N \<Longrightarrow> N \<le> 64 \<Longrightarrow> (2::int) ^ 63 = 2 ^ (N - 1) * 2 ^ (64 - N)"
  by (simp flip: power_add)

lemma sint_nbit_max:
  assumes "1 \<le> N" "N \<le> 64"
  shows "sint (nbit_max N) = 2 ^ (N - 1) - 1"
proof -
  let ?d = "2 ^ (64 - N) :: int"
  have "(2 ^ 63 - 1 :: int) = (?d - 1) + (2 ^ (N - 1) - 1) * ?d"
    using two_power_63_split [OF assms] by (simp add: algebra_simps)
  also have "\<dots> div ?d = (2 ^ (N - 1) - 1) + (?d - 1) div ?d"
    by (rule div_mult_self1) simp
  also have "(?d - 1) div ?d = 0"
    by (rule div_pos_pos_trivial) simp_all
  finally have "(2 ^ 63 - 1 :: int) div ?d = 2 ^ (N - 1) - 1"
    by simp
  moreover have "sint (mask 63 :: u64) = 2 ^ 63 - 1"
    by (simp add: mask_eq_exp_minus_1)
  ultimately show ?thesis
    by (simp only: nbit_max_def sint_signed_drop_bit_eq drop_bit_eq_div)
qed

lemma sint_nbit_min:
  assumes "1 \<le> N" "N \<le> 64"
  shows "sint (nbit_min N) = - (2 ^ (N - 1))"
proof -
  have "(- (2 ^ 63) :: int) = - (2 ^ (N - 1)) * 2 ^ (64 - N)"
    using two_power_63_split [OF assms] by simp
  then have "(- (2 ^ 63) :: int) div 2 ^ (64 - N) = - (2 ^ (N - 1))"
    by (simp only: nonzero_mult_div_cancel_right power_not_zero zero_neq_numeral not_False_eq_True)
  moreover have "sint (push_bit 63 1 :: u64) = - (2 ^ 63)"
    by simp
  ultimately show ?thesis
    by (simp only: nbit_min_def sint_signed_drop_bit_eq drop_bit_eq_div)
qed

lemma sint_fromNBit_toNBit:
  assumes "1 \<le> N" "N \<le> 64"
  shows "sint (fromNBit N (toNBit N i)) = signed_take_bit (N - 1) (sint i)"
  using assms by (simp add: fromNBit_toNBit sint_signed_take_bit)

lemma nbit_roundtrip:
  assumes "1 \<le> N" "N \<le> 64"
    and "sint (nbit_min N) \<le> sint i" "sint i \<le> sint (nbit_max N)"
  shows "fromNBit N (toNBit N i) = i"
proof -
  have "signed_take_bit (N - 1) (sint i) = sint i"
    using assms by (simp add: sint_nbit_max sint_nbit_min signed_take_bit_int_eq_self)
  then have "sint (fromNBit N (toNBit N i)) = sint i"
    by (simp only: sint_fromNBit_toNBit [OF assms(1,2)])
  then show ?thesis
    by (rule signed_word_eqI)
qed

end
