(* ===== verification/ValueId.thy ===== *)
theory ValueId
  imports BitUtils
begin

text \<open>
  Models \<open>src/global/ValueId.h\<close>: the 64-bit identifiers of all RDF terms, with a 4-bit datatype
  tag above 60 bits of data. A \<open>ValueId\<close> is its member \<open>_bits\<close>. A \<open>double\<close> is its IEEE bit
  pattern (\<open>absl::bit_cast\<close>), a \<open>DateYearOrDuration\<close> and a \<open>GeoPoint\<close> their 60-bit
  representation, a \<open>LocalVocabIndex\<close> the address of a \<open>LocalVocabEntry\<close>. The entries that such
  addresses point to are the record \<open>local_vocab\<close>: the string of each entry, and the position in
  the vocabulary of the index that \<open>LocalVocabEntry::positionInVocab\<close> returns for it
  (\<open>src/index/LocalVocabEntry.h\<close>).
\<close>

unbundle bit_operations_syntax

section \<open>Datatypes\<close>

datatype Datatype =
    Undefined | Bool | Int_T | Double | VocabIndex | LocalVocabIndex | TextRecordIndex | Date
  | GeoPoint | WordVocabIndex | BlankNodeIndex

fun datatype_code :: "Datatype \<Rightarrow> u64" where
  "datatype_code Undefined = 0"
| "datatype_code Bool = 1"
| "datatype_code Int_T = 2"
| "datatype_code Double = 3"
| "datatype_code VocabIndex = 4"
| "datatype_code LocalVocabIndex = 5"
| "datatype_code TextRecordIndex = 6"
| "datatype_code Date = 7"
| "datatype_code GeoPoint = 8"
| "datatype_code WordVocabIndex = 9"
| "datatype_code BlankNodeIndex = 10"

text \<open>The cast of a 4-bit number to the enum; \<open>None\<close> where no enumerator has that number.\<close>

definition datatype_of_code :: "u64 \<Rightarrow> Datatype option" where
  "datatype_of_code c =
     (if c = 0 then Some Undefined else if c = 1 then Some Bool else if c = 2 then Some Int_T
      else if c = 3 then Some Double else if c = 4 then Some VocabIndex
      else if c = 5 then Some LocalVocabIndex else if c = 6 then Some TextRecordIndex
      else if c = 7 then Some Date else if c = 8 then Some GeoPoint
      else if c = 9 then Some WordVocabIndex else if c = 10 then Some BlankNodeIndex else None)"

fun toString :: "Datatype \<Rightarrow> string" where
  "toString Undefined = ''Undefined''"
| "toString Bool = ''Bool''"
| "toString Double = ''Double''"
| "toString Int_T = ''Int''"
| "toString VocabIndex = ''VocabIndex''"
| "toString LocalVocabIndex = ''LocalVocabIndex''"
| "toString TextRecordIndex = ''TextRecordIndex''"
| "toString WordVocabIndex = ''WordVocabIndex''"
| "toString Date = ''Date''"
| "toString GeoPoint = ''GeoPoint''"
| "toString BlankNodeIndex = ''BlankNodeIndex''"

definition stringTypes :: "Datatype list" where
  "stringTypes = [VocabIndex, LocalVocabIndex]"

instantiation Datatype :: linorder
begin

definition less_eq_Datatype :: "Datatype \<Rightarrow> Datatype \<Rightarrow> bool" where
  "less_eq_Datatype a b \<longleftrightarrow> datatype_code a \<le> datatype_code b"

definition less_Datatype :: "Datatype \<Rightarrow> Datatype \<Rightarrow> bool" where
  "less_Datatype a b \<longleftrightarrow> datatype_code a < datatype_code b"

instance
proof
  fix x y z :: Datatype
  have inj: "datatype_code x = datatype_code y \<Longrightarrow> x = y"
    by (cases x; cases y) simp_all
  show "(x < y) = (x \<le> y \<and> \<not> y \<le> x)"
    unfolding less_eq_Datatype_def less_Datatype_def by (rule less_le_not_le)
  show "x \<le> x"
    unfolding less_eq_Datatype_def by (rule order_refl)
  show "x \<le> y \<Longrightarrow> y \<le> z \<Longrightarrow> x \<le> z"
    unfolding less_eq_Datatype_def by (rule order_trans)
  show "x \<le> y \<or> y \<le> x"
    unfolding less_eq_Datatype_def by (rule linear)
  show "x \<le> y \<Longrightarrow> y \<le> x \<Longrightarrow> x = y"
    unfolding less_eq_Datatype_def by (rule inj) (rule order_antisym)
qed

end

section \<open>Bits\<close>

type_synonym ValueId = u64

definition numDatatypeBits :: nat where "numDatatypeBits = 4"
definition numDataBits :: nat where "numDataBits = 64 - numDatatypeBits"
definition maxIndex :: u64 where "maxIndex = push_bit numDataBits 1 - 1"

definition addDatatypeBits :: "u64 \<Rightarrow> Datatype \<Rightarrow> ValueId" where
  "addDatatypeBits bits type = bits OR push_bit numDataBits (datatype_code type)"

definition removeDatatypeBits :: "u64 \<Rightarrow> u64" where
  "removeDatatypeBits bits =
     (case bitMaskForLowerBits (of_nat numDataBits) of Inl _ \<Rightarrow> 0 | Inr m \<Rightarrow> bits AND m)"

definition getDatatype :: "ValueId \<Rightarrow> Datatype option" where
  "getDatatype v = datatype_of_code (drop_bit numDataBits v)"

section \<open>Factories and getters\<close>

definition makeUndefined :: ValueId where "makeUndefined = 0"

definition makeFromDouble :: "u64 \<Rightarrow> ValueId" where
  "makeFromDouble d = addDatatypeBits (drop_bit numDatatypeBits d) Double"

definition getDouble :: "ValueId \<Rightarrow> u64" where
  "getDouble v = push_bit numDatatypeBits v"

definition makeFromInt :: "u64 \<Rightarrow> ValueId" where
  "makeFromInt i = addDatatypeBits (toNBit numDataBits i) Int_T"

definition getInt :: "ValueId \<Rightarrow> u64" where
  "getInt v = fromNBit numDataBits v"

definition makeFromBool :: "bool \<Rightarrow> ValueId" where
  "makeFromBool b = addDatatypeBits (of_bool b) Bool"

definition makeBoolFromZeroOrOne :: "bool \<Rightarrow> ValueId" where
  "makeBoolFromZeroOrOne b = addDatatypeBits (of_bool b OR push_bit 1 1) Bool"

definition getBool :: "ValueId \<Rightarrow> bool" where
  "getBool v \<longleftrightarrow> removeDatatypeBits v AND 1 \<noteq> 0"

definition getBoolLiteral :: "ValueId \<Rightarrow> string" where
  "getBoolLiteral v =
     (let b = getBool v in
      if v AND 2 \<noteq> 0 then (if b then ''1'' else ''0'')
      else (if b then ''true'' else ''false''))"

definition makeFromIndex :: "u64 \<Rightarrow> Datatype \<Rightarrow> ValueId result" where
  "makeFromIndex i type =
     (if i > maxIndex then Inl IndexTooLargeException else Inr (addDatatypeBits i type))"

definition makeFromVocabIndex :: "u64 \<Rightarrow> ValueId result" where
  "makeFromVocabIndex index = makeFromIndex index VocabIndex"

definition makeFromTextRecordIndex :: "u64 \<Rightarrow> ValueId result" where
  "makeFromTextRecordIndex index = makeFromIndex index TextRecordIndex"

definition makeFromLocalVocabIndex :: "u64 \<Rightarrow> ValueId result" where
  "makeFromLocalVocabIndex index = makeFromIndex (drop_bit numDatatypeBits index) LocalVocabIndex"

definition makeFromWordVocabIndex :: "u64 \<Rightarrow> ValueId result" where
  "makeFromWordVocabIndex index = makeFromIndex index WordVocabIndex"

definition makeFromBlankNodeIndex :: "u64 \<Rightarrow> ValueId result" where
  "makeFromBlankNodeIndex index = makeFromIndex index BlankNodeIndex"

definition getVocabIndex :: "ValueId \<Rightarrow> u64" where "getVocabIndex v = removeDatatypeBits v"
definition getTextRecordIndex :: "ValueId \<Rightarrow> u64" where
  "getTextRecordIndex v = removeDatatypeBits v"
definition getLocalVocabIndex :: "ValueId \<Rightarrow> u64" where
  "getLocalVocabIndex v = push_bit numDatatypeBits v"
definition getWordVocabIndex :: "ValueId \<Rightarrow> u64" where
  "getWordVocabIndex v = removeDatatypeBits v"
definition getBlankNodeIndex :: "ValueId \<Rightarrow> u64" where
  "getBlankNodeIndex v = removeDatatypeBits v"

definition makeFromDate :: "u64 \<Rightarrow> ValueId" where
  "makeFromDate d = addDatatypeBits d Date"
definition getDate :: "ValueId \<Rightarrow> u64" where "getDate v = removeDatatypeBits v"

definition makeFromGeoPoint :: "u64 \<Rightarrow> ValueId" where
  "makeFromGeoPoint p = addDatatypeBits p GeoPoint"
definition getGeoPoint :: "ValueId \<Rightarrow> u64" where "getGeoPoint v = removeDatatypeBits v"

definition ValueId_min :: ValueId where "ValueId_min = 0"
definition ValueId_max :: ValueId where "ValueId_max = - 1"

text \<open>\<open>visit\<close> calls its visitor with the value of the stored datatype; the visitor's argument is
  the tagged union of the getters' return types.\<close>

datatype visited =
    VUndefined | VBool bool | VDouble u64 | VInt u64 | VVocabIndex u64 | VLocalVocabIndex u64
  | VTextRecordIndex u64 | VWordVocabIndex u64 | VDate u64 | VGeoPoint u64 | VBlankNodeIndex u64

definition visit :: "ValueId \<Rightarrow> visited result" where
  "visit v = (case getDatatype v of
       Some Undefined \<Rightarrow> Inr VUndefined
     | Some Bool \<Rightarrow> Inr (VBool (getBool v))
     | Some Double \<Rightarrow> Inr (VDouble (getDouble v))
     | Some Int_T \<Rightarrow> Inr (VInt (getInt v))
     | Some VocabIndex \<Rightarrow> Inr (VVocabIndex (getVocabIndex v))
     | Some LocalVocabIndex \<Rightarrow> Inr (VLocalVocabIndex (getLocalVocabIndex v))
     | Some TextRecordIndex \<Rightarrow> Inr (VTextRecordIndex (getTextRecordIndex v))
     | Some WordVocabIndex \<Rightarrow> Inr (VWordVocabIndex (getWordVocabIndex v))
     | Some Date \<Rightarrow> Inr (VDate (getDate v))
     | Some GeoPoint \<Rightarrow> Inr (VGeoPoint (getGeoPoint v))
     | Some BlankNodeIndex \<Rightarrow> Inr (VBlankNodeIndex (getBlankNodeIndex v))
     | None \<Rightarrow> Inl CorrectnessViolation)"

section \<open>Comparison and hashing\<close>

record 'w local_vocab =
  entryWord :: "u64 \<Rightarrow> 'w"                     \<comment> \<open>the \<open>LiteralOrIri\<close> at an address\<close>
  positionInVocab :: "u64 \<Rightarrow> u64 \<times> u64"        \<comment> \<open>\<open>lowerBound_\<close>, \<open>upperBound_\<close>\<close>

definition compareVocabAndLocalVocab :: "'w local_vocab \<Rightarrow> u64 \<Rightarrow> u64 \<Rightarrow> ordering" where
  "compareVocabAndLocalVocab lv vocabIndex localVocabIndex =
     (let (lowerBound, upperBound) = positionInVocab lv localVocabIndex in
      if vocabIndex < lowerBound then Less
      else if vocabIndex \<ge> upperBound then Greater
      else Equal)"

definition compareValueId :: "('w::linorder) local_vocab \<Rightarrow> ValueId \<Rightarrow> ValueId \<Rightarrow> ordering" where
  "compareValueId lv a b =
     (let type = getDatatype a; otherType = getDatatype b in
      if type \<noteq> Some LocalVocabIndex \<and> otherType \<noteq> Some LocalVocabIndex then three_way a b
      else if type = Some LocalVocabIndex \<and> otherType = Some LocalVocabIndex then
        three_way (entryWord lv (getLocalVocabIndex a)) (entryWord lv (getLocalVocabIndex b))
      else if type = Some VocabIndex \<and> otherType = Some LocalVocabIndex then
        compareVocabAndLocalVocab lv (getVocabIndex a) (getLocalVocabIndex b)
      else if type = Some LocalVocabIndex \<and> otherType = Some VocabIndex then
        inverse_ordering (compareVocabAndLocalVocab lv (getVocabIndex b) (getLocalVocabIndex a))
      else three_way a b)"

definition compareWithoutLocalVocab :: "ValueId \<Rightarrow> ValueId \<Rightarrow> ordering" where
  "compareWithoutLocalVocab a b = three_way a b"

definition eqValueId :: "('w::linorder) local_vocab \<Rightarrow> ValueId \<Rightarrow> ValueId \<Rightarrow> bool" where
  "eqValueId lv a b \<longleftrightarrow> compareValueId lv a b = Equal"

definition isUndefined :: "('w::linorder) local_vocab \<Rightarrow> ValueId \<Rightarrow> bool" where
  "isUndefined lv v \<longleftrightarrow> eqValueId lv v makeUndefined"

text \<open>What \<open>AbslHashValue\<close> combines into the hash state: a bit pattern with the marker 0, or a
  local vocabulary entry with the marker 1.\<close>

datatype 'w hash_expansion = HashBits u64 nat | HashEntry 'w nat

definition AbslHashValue :: "'w local_vocab \<Rightarrow> ValueId \<Rightarrow> 'w hash_expansion result" where
  "AbslHashValue lv v =
     (if getDatatype v \<noteq> Some LocalVocabIndex then Inr (HashBits v 0)
      else
        let (lower, upper) = positionInVocab lv (getLocalVocabIndex v) in
        if upper \<noteq> lower then
          res_bind (makeFromVocabIndex lower) (\<lambda>w. Inr (HashBits w 0))
        else Inr (HashEntry (entryWord lv (getLocalVocabIndex v)) 1))"

section \<open>Layout of the bits\<close>

lemma numBits [simp]: "numDatatypeBits = 4" "numDataBits = 60"
  by (simp_all add: numDatatypeBits_def numDataBits_def)

lemma datatype_code_inverse [simp]: "datatype_of_code (datatype_code t) = Some t"
  by (cases t) (simp_all add: datatype_of_code_def)

lemma datatype_of_code_Some: "datatype_of_code c = Some t \<longleftrightarrow> c = datatype_code t"
  by (cases t) (auto simp: datatype_of_code_def)

lemma getDatatype_Some: "getDatatype v = Some t \<longleftrightarrow> drop_bit 60 v = datatype_code t"
  by (simp add: getDatatype_def datatype_of_code_Some)

lemma push_datatype_code [simp]:
  "drop_bit 60 (push_bit 60 (datatype_code t)) = datatype_code t"
  "take_bit 60 (push_bit 60 (datatype_code t)) = 0"
  by (cases t; simp)+

lemma push_4_push_60: "push_bit 4 (push_bit 60 c :: u64) = 0"
  by (rule bit_eqI) (auto simp: bit_simps)

lemma removeDatatypeBits_eq: "removeDatatypeBits v = take_bit 60 v"
  by (simp add: removeDatatypeBits_def bitMaskForLowerBits_60 take_bit_eq_mask)

definition fits60 :: "u64 \<Rightarrow> bool" where
  "fits60 b \<longleftrightarrow> unat b < 2 ^ 60"

lemma fits60_iff: "fits60 b \<longleftrightarrow> take_bit 60 b = b"
proof -
  have "unat (take_bit 60 b) = take_bit 60 (unat b)"
    by (simp add: unsigned_take_bit_eq)
  then show ?thesis
    by (metis fits60_def take_bit_nat_eq_self_iff word_unat_eq_iff)
qed

lemma unat_maxIndex: "unat maxIndex = 2 ^ 60 - 1"
  by (simp add: maxIndex_def)

lemma le_maxIndex_iff: "b \<le> maxIndex \<longleftrightarrow> fits60 b"
  by (auto simp: word_le_nat_alt unat_maxIndex fits60_def)

lemma fits60_drop: "fits60 b \<Longrightarrow> drop_bit 60 (b :: u64) = 0"
  by (metis fits60_iff drop_bit_take_bit diff_self_eq_0 take_bit_0)

lemma fits60_push: "fits60 b \<Longrightarrow> take_bit 60 (b :: u64) = b"
  by (simp add: fits60_iff)

lemma getDatatype_addDatatypeBits:
  "fits60 b \<Longrightarrow> getDatatype (addDatatypeBits b t) = Some t"
  by (simp add: getDatatype_def addDatatypeBits_def fits60_drop)

lemma removeDatatypeBits_addDatatypeBits:
  "fits60 b \<Longrightarrow> removeDatatypeBits (addDatatypeBits b t) = b"
  by (simp add: removeDatatypeBits_eq addDatatypeBits_def fits60_push)

lemma push_4_addDatatypeBits: "push_bit 4 (addDatatypeBits b t) = push_bit 4 b"
  by (simp add: addDatatypeBits_def push_bit_or push_4_push_60 del: push_bit_push_bit)

lemma getInt_addDatatypeBits: "getInt (addDatatypeBits b t) = fromNBit 60 b"
  by (simp add: getInt_def fromNBit_def push_4_addDatatypeBits)

lemma fits60_shifted: "fits60 (drop_bit 4 b)"
proof -
  have "take_bit 60 (drop_bit 4 b) = drop_bit 4 b"
    by (rule bit_eqI) (auto simp: bit_simps dest: bit_imp_le_length)
  then show ?thesis by (simp only: fits60_iff)
qed

lemma fits60_toNBit: "fits60 (toNBit 60 i)"
proof -
  have "take_bit 60 (toNBit 60 i) = toNBit 60 i"
    by (simp add: toNBit_eq)
  then show ?thesis by (simp only: fits60_iff)
qed

lemma fits60_bool: "fits60 (of_bool b)" "fits60 (of_bool b OR 2)"
  by (cases b; simp add: fits60_def)+

lemma push_drop_4: "push_bit 4 (drop_bit 4 (d :: u64)) = d AND NOT 15"
proof -
  have 15: "(15 :: u64) = mask 4" by (simp add: mask_eq_exp_minus_1)
  show ?thesis
    unfolding 15 by (rule bit_eqI) (auto simp: bit_simps)
qed

lemmas fits60_facts = fits60_shifted fits60_toNBit fits60_bool

lemmas make_simps =
  makeUndefined_def makeFromDouble_def makeFromInt_def makeFromBool_def makeBoolFromZeroOrOne_def
  makeFromDate_def makeFromGeoPoint_def

lemmas get_simps =
  getDouble_def getBool_def getVocabIndex_def getTextRecordIndex_def getLocalVocabIndex_def
  getWordVocabIndex_def getBlankNodeIndex_def getDate_def getGeoPoint_def

lemmas bits_simps =
  getDatatype_addDatatypeBits removeDatatypeBits_addDatatypeBits push_4_addDatatypeBits
  getInt_addDatatypeBits

lemma makeFromIndex_eq:
  "makeFromIndex i t = (if fits60 i then Inr (addDatatypeBits i t) else Inl IndexTooLargeException)"
  using le_maxIndex_iff [of i] by (auto simp: makeFromIndex_def not_less)

lemma visit_immediate:
  "visit makeUndefined = Inr VUndefined"
  "visit (makeFromBool b) = Inr (VBool b)"
  "visit (makeBoolFromZeroOrOne b) = Inr (VBool b)"
  "visit (makeFromDouble d) = Inr (VDouble (d AND NOT 15))"
  "- (2 ^ 59) \<le> sint i \<Longrightarrow> sint i < 2 ^ 59 \<Longrightarrow> visit (makeFromInt i) = Inr (VInt i)"
  "fits60 d \<Longrightarrow> visit (makeFromDate d) = Inr (VDate d)"
  "fits60 p \<Longrightarrow> visit (makeFromGeoPoint p) = Inr (VGeoPoint p)"
proof -
  show "visit makeUndefined = Inr VUndefined"
    by (simp add: visit_def getDatatype_def makeUndefined_def datatype_of_code_def)
  show "visit (makeFromBool b) = Inr (VBool b)" "visit (makeBoolFromZeroOrOne b) = Inr (VBool b)"
    by (cases b; simp add: visit_def make_simps get_simps bits_simps fits60_def)+
  show "visit (makeFromDouble d) = Inr (VDouble (d AND NOT 15))"
    by (simp add: visit_def make_simps get_simps bits_simps fits60_facts push_drop_4)
  show "visit (makeFromInt i) = Inr (VInt i)" if "- (2 ^ 59) \<le> sint i" "sint i < 2 ^ 59"
    using that nbit_roundtrip [of 60 i]
    by (simp add: visit_def make_simps bits_simps fits60_facts sint_nbit_max sint_nbit_min)
  show "fits60 d \<Longrightarrow> visit (makeFromDate d) = Inr (VDate d)"
    by (simp add: visit_def make_simps get_simps bits_simps)
  show "fits60 p \<Longrightarrow> visit (makeFromGeoPoint p) = Inr (VGeoPoint p)"
    by (simp add: visit_def make_simps get_simps bits_simps)
qed

lemma visit_index:
  "res_bind (makeFromVocabIndex k) visit =
     (if fits60 k then Inr (VVocabIndex k) else Inl IndexTooLargeException)"
  "res_bind (makeFromTextRecordIndex k) visit =
     (if fits60 k then Inr (VTextRecordIndex k) else Inl IndexTooLargeException)"
  "res_bind (makeFromWordVocabIndex k) visit =
     (if fits60 k then Inr (VWordVocabIndex k) else Inl IndexTooLargeException)"
  "res_bind (makeFromBlankNodeIndex k) visit =
     (if fits60 k then Inr (VBlankNodeIndex k) else Inl IndexTooLargeException)"
  "res_bind (makeFromLocalVocabIndex k) visit = Inr (VLocalVocabIndex (k AND NOT 15))"
  by (simp_all add: makeFromVocabIndex_def makeFromTextRecordIndex_def makeFromWordVocabIndex_def
      makeFromBlankNodeIndex_def makeFromLocalVocabIndex_def makeFromIndex_eq visit_def get_simps
      bits_simps fits60_shifted push_drop_4)

section \<open>The comparison is a strong total order on the ids in use\<close>

text \<open>Abstractly an id is either a term of a non-string type that sorts below the strings, a
  string, or a term of a non-string type that sorts above them.\<close>

datatype 'w id_key = BelowStrings u64 | StringKey 'w | AboveStrings u64

instantiation id_key :: (linorder) linorder
begin

fun less_eq_id_key :: "'a id_key \<Rightarrow> 'a id_key \<Rightarrow> bool" where
  "less_eq_id_key (BelowStrings a) (BelowStrings b) = (a \<le> b)"
| "less_eq_id_key (BelowStrings a) _ = True"
| "less_eq_id_key (StringKey v) (StringKey w) = (v \<le> w)"
| "less_eq_id_key (StringKey v) (AboveStrings b) = True"
| "less_eq_id_key (StringKey v) (BelowStrings b) = False"
| "less_eq_id_key (AboveStrings a) (AboveStrings b) = (a \<le> b)"
| "less_eq_id_key (AboveStrings a) _ = False"

definition less_id_key :: "'a id_key \<Rightarrow> 'a id_key \<Rightarrow> bool" where
  "less_id_key a b \<longleftrightarrow> a \<le> b \<and> \<not> b \<le> a"

instance
proof
  fix x y z :: "'a id_key"
  show "(x < y) = (x \<le> y \<and> \<not> y \<le> x)"
    by (rule less_id_key_def)
  show "x \<le> x"
    by (cases x) simp_all
  show "x \<le> y \<Longrightarrow> y \<le> z \<Longrightarrow> x \<le> z"
    by (cases x; cases y; cases z) simp_all
  show "x \<le> y \<Longrightarrow> y \<le> x \<Longrightarrow> x = y"
    by (cases x; cases y) simp_all
  show "x \<le> y \<or> y \<le> x"
    by (cases x; cases y) (simp_all add: linear)
qed

end

lemma less_id_key_simps [simp]:
  "BelowStrings a < BelowStrings b \<longleftrightarrow> a < b"
  "BelowStrings a < StringKey w"
  "BelowStrings a < AboveStrings b"
  "StringKey v < StringKey w \<longleftrightarrow> v < w"
  "StringKey v < AboveStrings b"
  "\<not> StringKey v < BelowStrings b"
  "AboveStrings a < AboveStrings b \<longleftrightarrow> a < b"
  "\<not> AboveStrings a < StringKey w"
  "\<not> AboveStrings a < BelowStrings b"
  by (auto simp: less_id_key_def)

text \<open>\<open>vocab_coherent lv vocab live\<close>: the vocabulary of the index is strictly sorted, and for every
  live local entry \<open>positionInVocab\<close> is its lower and upper bound there.\<close>

definition vocab_coherent :: "('w::linorder) local_vocab \<Rightarrow> 'w list \<Rightarrow> u64 list \<Rightarrow> bool" where
  "vocab_coherent lv vocab live \<longleftrightarrow>
     sorted_wrt (<) vocab \<and> length vocab < 2 ^ 60 \<and>
     list_all (\<lambda>p. positionInVocab lv p =
         (of_nat (length (takeWhile (\<lambda>w. w < entryWord lv p) vocab)),
          of_nat (length (takeWhile (\<lambda>w. w \<le> entryWord lv p) vocab)))) live"

definition valid_id :: "'w list \<Rightarrow> u64 list \<Rightarrow> ValueId \<Rightarrow> bool" where
  "valid_id vocab live v \<longleftrightarrow>
     (getDatatype v = Some VocabIndex \<longrightarrow> unat (getVocabIndex v) < length vocab) \<and>
     (getDatatype v = Some LocalVocabIndex \<longrightarrow> getLocalVocabIndex v \<in> set live)"

definition id_key :: "'w local_vocab \<Rightarrow> 'w list \<Rightarrow> ValueId \<Rightarrow> 'w id_key" where
  "id_key lv vocab v =
     (if getDatatype v = Some VocabIndex then StringKey (vocab ! unat (getVocabIndex v))
      else if getDatatype v = Some LocalVocabIndex
        then StringKey (entryWord lv (getLocalVocabIndex v))
      else if drop_bit 60 v < 4 then BelowStrings v else AboveStrings v)"

lemma nth_less_length_takeWhile:
  assumes "sorted_wrt (<) (xs :: 'a::linorder list)" "i < length xs"
    and down: "\<And>a b. a < b \<Longrightarrow> P b \<Longrightarrow> P a"
  shows "i < length (takeWhile P xs) \<longleftrightarrow> P (xs ! i)"
proof
  assume "i < length (takeWhile P xs)"
  then show "P (xs ! i)"
    by (metis nth_mem set_takeWhileD takeWhile_nth)
next
  assume Pi: "P (xs ! i)"
  show "i < length (takeWhile P xs)"
  proof (rule ccontr)
    let ?k = "length (takeWhile P xs)"
    assume "\<not> i < ?k"
    then have k: "?k \<le> i" by simp
    then have "\<not> P (xs ! ?k)"
      using assms(2) by (simp add: nth_length_takeWhile)
    moreover have "?k < i \<Longrightarrow> xs ! ?k < xs ! i"
      using assms(1,2) by (simp add: sorted_wrt_iff_nth_less)
    ultimately show False
      using k Pi down by (cases "?k = i") auto
  qed
qed

lemma position_bounds:
  assumes "vocab_coherent lv vocab live" "p \<in> set live" "positionInVocab lv p = (lo, up)"
    and "unat i < length vocab"
  shows "i < lo \<longleftrightarrow> vocab ! unat i < entryWord lv p"
    and "i < up \<longleftrightarrow> vocab ! unat i \<le> entryWord lv p"
proof -
  have len: "length vocab < 2 ^ 60" and s: "sorted_wrt (<) vocab"
    using assms(1) by (simp_all add: vocab_coherent_def)
  have u: "unat (of_nat (length (takeWhile P vocab)) :: u64) = length (takeWhile P vocab)" for P
    using len length_takeWhile_le [of P vocab] by (simp add: unat_of_nat)
  have pos: "lo = of_nat (length (takeWhile (\<lambda>w. w < entryWord lv p) vocab))"
    "up = of_nat (length (takeWhile (\<lambda>w. w \<le> entryWord lv p) vocab))"
    using assms(1-3) by (auto simp: vocab_coherent_def list_all_iff)
  show "i < lo \<longleftrightarrow> vocab ! unat i < entryWord lv p"
    unfolding pos word_less_nat_alt u by (rule nth_less_length_takeWhile [OF s assms(4)]) auto
  show "i < up \<longleftrightarrow> vocab ! unat i \<le> entryWord lv p"
    unfolding pos word_less_nat_alt u by (rule nth_less_length_takeWhile [OF s assms(4)]) auto
qed

lemma compareVocabAndLocalVocab_eq:
  assumes "vocab_coherent lv vocab live" "p \<in> set live" "unat i < length vocab"
  shows "compareVocabAndLocalVocab lv i p = three_way (vocab ! unat i) (entryWord lv p)"
proof -
  obtain lo up where pos: "positionInVocab lv p = (lo, up)"
    by (cases "positionInVocab lv p")
  note b = position_bounds [OF assms(1,2) pos assms(3)]
  show ?thesis
    using b by (auto simp: compareVocabAndLocalVocab_def pos three_way_def)
qed

lemma word_eq_parts: "drop_bit 60 (a :: u64) = drop_bit 60 b \<Longrightarrow> take_bit 60 a = take_bit 60 b \<Longrightarrow> a = b"
  by (metis bits_ident)

lemma drop_60_mono: "a \<le> (b :: u64) \<Longrightarrow> drop_bit 60 a \<le> drop_bit 60 b"
  by (simp add: drop_bit_eq_div word_le_nat_alt unat_div div_le_mono)

lemma drop_60_less: "drop_bit 60 a < drop_bit 60 b \<Longrightarrow> a < (b :: u64)"
  by (meson drop_60_mono leD leI)

lemma less_same_type:
  assumes "drop_bit 60 a = drop_bit 60 (b :: u64)"
  shows "a < b \<longleftrightarrow> take_bit 60 a < take_bit 60 b"
proof -
  have "unat v = unat (drop_bit 60 v) * 2 ^ 60 + unat (take_bit 60 v)" for v :: u64
  proof -
    have "unat (drop_bit 60 v) = unat v div 2 ^ 60"
      by (simp add: drop_bit_eq_div unat_div)
    moreover have "unat (take_bit 60 v) = take_bit 60 (unat v)"
      by (simp add: unsigned_take_bit_eq)
    then have "unat (take_bit 60 v) = unat v mod 2 ^ 60"
      by (simp only: take_bit_eq_mod)
    ultimately show ?thesis
      by (simp only: div_mult_mod_eq)
  qed
  from this [of a] this [of b] assms show ?thesis
    by (simp add: word_less_nat_alt)
qed

lemma vocab_order:
  assumes "sorted_wrt (<) (vocab :: 'w::linorder list)" "i < length vocab" "j < length vocab"
  shows "three_way (vocab ! i) (vocab ! j) = three_way i j"
proof -
  have "i < j \<Longrightarrow> vocab ! i < vocab ! j" "j < i \<Longrightarrow> vocab ! j < vocab ! i"
    using assms by (simp_all add: sorted_wrt_iff_nth_less)
  then show ?thesis
    by (cases i j rule: linorder_cases) (auto simp: three_way_def)
qed

lemma compare_vocab_ids:
  assumes "sorted_wrt (<) (vocab :: 'w::linorder list)"
    and "getDatatype a = Some VocabIndex" "getDatatype b = Some VocabIndex"
    and "unat (getVocabIndex a) < length vocab" "unat (getVocabIndex b) < length vocab"
  shows "three_way a b = three_way (vocab ! unat (getVocabIndex a)) (vocab ! unat (getVocabIndex b))"
proof -
  have d: "drop_bit 60 a = drop_bit 60 b"
    using assms(2,3) by (simp add: getDatatype_Some)
  have "three_way (vocab ! unat (getVocabIndex a)) (vocab ! unat (getVocabIndex b))
      = three_way (unat (take_bit 60 a)) (unat (take_bit 60 b))"
    using vocab_order [OF assms(1,4,5)] by (simp add: getVocabIndex_def removeDatatypeBits_eq)
  also have "\<dots> = three_way a b"
    using less_same_type [OF d] less_same_type [OF d [symmetric]] word_eq_parts [OF d]
    by (auto simp: three_way_def word_less_nat_alt word_unat_eq_iff)
  finally show ?thesis ..
qed

lemma three_way_other_types:
  assumes "drop_bit 60 a \<noteq> drop_bit 60 (b :: u64)"
  shows "three_way a b = three_way (drop_bit 60 a) (drop_bit 60 b)"
  using assms drop_60_less [of a b] drop_60_less [of b a]
  by (cases "drop_bit 60 a" "drop_bit 60 b" rule: linorder_cases) (auto simp: three_way_def)

lemma id_key_non_string:
  assumes "getDatatype v \<noteq> Some VocabIndex" "getDatatype v \<noteq> Some LocalVocabIndex"
  shows "id_key lv vocab v = (if drop_bit 60 v < 4 then BelowStrings v else AboveStrings v)"
    and "drop_bit 60 v \<noteq> 4" "drop_bit 60 v \<noteq> 5"
  using assms by (simp_all add: id_key_def getDatatype_Some)

lemma three_way_keys [simp]:
  "three_way (BelowStrings a) (BelowStrings b :: 'w::linorder id_key) = three_way a b"
  "three_way (BelowStrings a) (StringKey w) = Less"
  "three_way (BelowStrings a) (AboveStrings b :: 'w id_key) = Less"
  "three_way (StringKey v) (BelowStrings b) = Greater"
  "three_way (StringKey v) (StringKey w) = three_way v (w :: 'w)"
  "three_way (StringKey v) (AboveStrings b) = Less"
  "three_way (AboveStrings a) (BelowStrings b :: 'w id_key) = Greater"
  "three_way (AboveStrings a) (StringKey w) = Greater"
  "three_way (AboveStrings a) (AboveStrings b :: 'w id_key) = three_way a b"
  by (simp_all add: three_way_def)

lemma id_key_non_string_cases:
  assumes "getDatatype v \<noteq> Some VocabIndex" "getDatatype v \<noteq> Some LocalVocabIndex"
  shows "id_key lv vocab v = BelowStrings v \<and> drop_bit 60 v < 4
       \<or> id_key lv vocab v = AboveStrings v \<and> 5 < drop_bit 60 v"
proof -
  have "\<not> drop_bit 60 v < 4 \<Longrightarrow> 5 < drop_bit 60 v"
    using assms unfolding getDatatype_Some datatype_code.simps by unat_arith
  then show ?thesis
    using assms by (simp add: id_key_def)
qed

lemma three_way_by_type:
  "drop_bit 60 v < 4 \<Longrightarrow> 5 < drop_bit 60 w \<Longrightarrow> three_way v (w :: u64) = Less"
  "drop_bit 60 v < 4 \<Longrightarrow> 5 < drop_bit 60 w \<Longrightarrow> three_way w v = Greater"
proof -
  assume "drop_bit 60 v < 4" "5 < drop_bit 60 w"
  moreover have "(4 :: u64) < 5"
    by simp
  ultimately have "drop_bit 60 v < drop_bit 60 w"
    by (meson less_trans)
  then have "v < w"
    by (rule drop_60_less)
  then show "three_way v w = Less" "three_way w v = Greater"
    by (simp_all only: three_way_iff)
qed

lemma three_way_non_string:
  assumes a: "getDatatype a \<noteq> Some VocabIndex" "getDatatype a \<noteq> Some LocalVocabIndex"
    and b: "getDatatype b \<noteq> Some VocabIndex" "getDatatype b \<noteq> Some LocalVocabIndex"
  shows "three_way (id_key lv vocab a) (id_key lv vocab b) = three_way a b"
  using id_key_non_string_cases [OF a, of lv vocab] id_key_non_string_cases [OF b, of lv vocab]
  by (elim disjE conjE) (simp_all add: three_way_by_type)

lemma three_way_string_non_string:
  assumes a: "getDatatype a \<noteq> Some VocabIndex" "getDatatype a \<noteq> Some LocalVocabIndex"
    and b: "getDatatype b = Some VocabIndex \<or> getDatatype b = Some LocalVocabIndex"
  shows "three_way (id_key lv vocab a) (StringKey w) = three_way a b
       \<and> three_way (StringKey w) (id_key lv vocab a) = three_way b a"
proof -
  have db: "4 \<le> drop_bit 60 b" "drop_bit 60 b \<le> 5"
    using b by (auto simp: getDatatype_Some)
  have "drop_bit 60 a < 4 \<Longrightarrow> a < b" "5 < drop_bit 60 a \<Longrightarrow> b < a"
    by (rule drop_60_less, erule less_le_trans, rule db(1))
      (rule drop_60_less, erule le_less_trans [OF db(2)])
  then show ?thesis
    using id_key_non_string_cases [OF a, of lv vocab]
    by (elim disjE conjE) (simp_all add: three_way_less)
qed

lemma compare_id_key:
  assumes coh: "vocab_coherent lv vocab live"
    and a: "valid_id vocab live a" and b: "valid_id vocab live b"
  shows "compareValueId lv a b = three_way (id_key lv vocab a) (id_key lv vocab b)"
proof -
  have s: "sorted_wrt (<) vocab" using coh by (simp add: vocab_coherent_def)
  consider (VV) "getDatatype a = Some VocabIndex" "getDatatype b = Some VocabIndex"
    | (VL) "getDatatype a = Some VocabIndex" "getDatatype b = Some LocalVocabIndex"
    | (LV) "getDatatype a = Some LocalVocabIndex" "getDatatype b = Some VocabIndex"
    | (LL) "getDatatype a = Some LocalVocabIndex" "getDatatype b = Some LocalVocabIndex"
    | (xS) "getDatatype a \<noteq> Some VocabIndex" "getDatatype a \<noteq> Some LocalVocabIndex"
        "getDatatype b = Some VocabIndex \<or> getDatatype b = Some LocalVocabIndex"
    | (Sx) "getDatatype a = Some VocabIndex \<or> getDatatype a = Some LocalVocabIndex"
        "getDatatype b \<noteq> Some VocabIndex" "getDatatype b \<noteq> Some LocalVocabIndex"
    | (xx) "getDatatype a \<noteq> Some VocabIndex" "getDatatype a \<noteq> Some LocalVocabIndex"
        "getDatatype b \<noteq> Some VocabIndex" "getDatatype b \<noteq> Some LocalVocabIndex"
    by blast
  then show ?thesis
  proof cases
    case VV
    then show ?thesis using a b compare_vocab_ids [OF s VV]
      by (simp add: compareValueId_def id_key_def valid_id_def)
  next
    case VL
    then show ?thesis using a b compareVocabAndLocalVocab_eq [OF coh]
      by (simp add: compareValueId_def id_key_def valid_id_def)
  next
    case LV
    then show ?thesis using a b compareVocabAndLocalVocab_eq [OF coh]
      by (auto simp: compareValueId_def id_key_def valid_id_def inverse_ordering_def three_way_def)
  next
    case LL
    then show ?thesis by (simp add: compareValueId_def id_key_def)
  next
    case xS
    then show ?thesis using three_way_string_non_string [OF xS, of lv vocab]
      by (auto simp: compareValueId_def id_key_def [of _ _ b])
  next
    case Sx
    then show ?thesis using three_way_string_non_string [OF Sx(2,3,1), of lv vocab]
      by (auto simp: compareValueId_def id_key_def [of _ _ a])
  next
    case xx
    then show ?thesis using three_way_non_string [OF xx, of lv vocab]
      by (simp add: compareValueId_def)
  qed
qed

lemma makeFromVocabIndex_getVocabIndex:
  assumes "getDatatype a = Some VocabIndex"
  shows "makeFromVocabIndex (getVocabIndex a) = Inr a"
proof -
  have "fits60 (getVocabIndex a)"
    by (simp add: fits60_iff getVocabIndex_def removeDatatypeBits_eq)
  moreover have "addDatatypeBits (getVocabIndex a) VocabIndex = a"
  proof (rule word_eq_parts)
    show "drop_bit 60 (addDatatypeBits (getVocabIndex a) VocabIndex) = drop_bit 60 a"
      using getDatatype_addDatatypeBits [OF calculation, of VocabIndex] assms
      by (simp add: getDatatype_Some)
    show "take_bit 60 (addDatatypeBits (getVocabIndex a) VocabIndex) = take_bit 60 a"
      using removeDatatypeBits_addDatatypeBits [OF calculation, of VocabIndex]
      by (simp add: removeDatatypeBits_eq getVocabIndex_def)
  qed
  ultimately show ?thesis
    by (simp add: makeFromVocabIndex_def makeFromIndex_eq)
qed

lemma hash_vocab_local:
  assumes coh: "vocab_coherent lv vocab live"
    and a: "valid_id vocab live a" "getDatatype a = Some VocabIndex"
    and b: "valid_id vocab live b" "getDatatype b = Some LocalVocabIndex"
    and eq: "vocab ! unat (getVocabIndex a) = entryWord lv (getLocalVocabIndex b)"
  shows "AbslHashValue lv b = Inr (HashBits a 0)"
proof -
  let ?i = "getVocabIndex a"
  let ?p = "getLocalVocabIndex b"
  obtain lo up where pos: "positionInVocab lv ?p = (lo, up)"
    by (cases "positionInVocab lv ?p")
  have i: "unat ?i < length vocab" and p: "?p \<in> set live"
    using a b by (simp_all add: valid_id_def)
  note bounds = position_bounds [OF coh p pos]
  have "\<not> ?i < lo" "?i < up"
    using bounds [OF i] eq by simp_all
  moreover have "\<not> lo < ?i"
  proof
    assume less: "lo < ?i"
    then have "unat lo < unat ?i" by (simp add: word_less_nat_alt)
    moreover have "vocab ! unat lo < vocab ! unat ?i"
      using coh calculation i by (simp add: vocab_coherent_def sorted_wrt_iff_nth_less)
    ultimately show False
      using bounds(1) [of lo] i eq by simp
  qed
  ultimately have "lo = ?i" "up \<noteq> lo"
    by auto
  then show ?thesis
    using b makeFromVocabIndex_getVocabIndex [OF a(2)] by (simp add: AbslHashValue_def pos)
qed

lemma hash_local_local:
  assumes coh: "vocab_coherent lv vocab live"
    and "valid_id vocab live a" "getDatatype a = Some LocalVocabIndex"
    and "valid_id vocab live b" "getDatatype b = Some LocalVocabIndex"
    and "entryWord lv (getLocalVocabIndex a) = entryWord lv (getLocalVocabIndex b)"
  shows "AbslHashValue lv a = AbslHashValue lv b"
proof -
  have "positionInVocab lv (getLocalVocabIndex a) = positionInVocab lv (getLocalVocabIndex b)"
    using assms by (simp add: vocab_coherent_def list_all_iff valid_id_def)
  then show ?thesis
    using assms by (simp add: AbslHashValue_def split: prod.split)
qed

lemma hash_agrees:
  assumes coh: "vocab_coherent lv vocab live"
    and a: "valid_id vocab live a" and b: "valid_id vocab live b"
    and eq: "compareValueId lv a b = Equal"
  shows "AbslHashValue lv a = AbslHashValue lv b"
proof -
  have k: "id_key lv vocab a = id_key lv vocab b"
    using eq compare_id_key [OF coh a b] by simp
  consider "getDatatype a = Some VocabIndex" "getDatatype b = Some LocalVocabIndex"
    | "getDatatype a = Some LocalVocabIndex" "getDatatype b = Some VocabIndex"
    | "getDatatype a = Some LocalVocabIndex" "getDatatype b = Some LocalVocabIndex"
    | "getDatatype a \<noteq> Some LocalVocabIndex" "getDatatype b \<noteq> Some LocalVocabIndex"
    | "getDatatype a = Some LocalVocabIndex" "getDatatype b \<noteq> Some VocabIndex" "getDatatype b \<noteq> Some LocalVocabIndex"
    | "getDatatype b = Some LocalVocabIndex" "getDatatype a \<noteq> Some VocabIndex" "getDatatype a \<noteq> Some LocalVocabIndex"
    by blast
  then show ?thesis
  proof cases
    case 1
    then show ?thesis using k hash_vocab_local [OF coh a _ b] by (simp add: id_key_def AbslHashValue_def)
  next
    case 2
    then show ?thesis using k hash_vocab_local [OF coh b _ a] by (simp add: id_key_def AbslHashValue_def)
  next
    case 3
    then show ?thesis using k hash_local_local [OF coh a _ b] by (simp add: id_key_def)
  next
    case 4
    then show ?thesis using eq by (simp add: compareValueId_def AbslHashValue_def)
  next
    case 5
    then show ?thesis using k by (simp add: id_key_def split: if_splits)
  next
    case 6
    then show ?thesis using k by (simp add: id_key_def split: if_splits)
  qed
qed

section \<open>Properties\<close>



text \<open>C12: for a strictly sorted vocabulary and local entries that know their position in it, the
  three-way comparison of ids is the comparison of their abstract keys (the term itself for
  non-strings, the string for vocabulary and local vocabulary ids alike), hence a strong total
  order that interleaves both kinds of strings.\<close>

theorem compareValueId_refines_key_order:
  assumes "vocab_coherent lv vocab live" and "valid_id vocab live a" and "valid_id vocab live b"
  shows "compareValueId lv a b = three_way (id_key lv vocab a) (id_key lv vocab b)"
  using assms by (rule compare_id_key)

definition example_lv :: "nat local_vocab" where
  "example_lv = \<lparr>entryWord = (\<lambda>p. if p = 16 then 20 else 25),
     positionInVocab = (\<lambda>p. if p = 16 then (1, 2) else (2, 2))\<rparr>"

theorem compareValueId_refines_key_order_witness:
  "compareValueId example_lv 0x5000000000000002 0x4000000000000002 = Less
   \<and> three_way (id_key example_lv [10, 20, 30] 0x5000000000000002)
       (id_key example_lv [10, 20, 30] 0x4000000000000002) = Less"
proof -
  have "vocab_coherent example_lv [10, 20, 30] [16, 32]"
    by (simp add: vocab_coherent_def example_lv_def)
  moreover have "valid_id [10, 20, 30 :: nat] [16, 32] 0x5000000000000002"
    "valid_id [10, 20, 30 :: nat] [16, 32] 0x4000000000000002"
    by (simp_all add: valid_id_def getDatatype_def datatype_of_code_def getLocalVocabIndex_def
        getVocabIndex_def removeDatatypeBits_eq)
  ultimately have "compareValueId example_lv 0x5000000000000002 0x4000000000000002 =
      three_way (id_key example_lv [10, 20, 30] 0x5000000000000002)
       (id_key example_lv [10, 20, 30] 0x4000000000000002)"
    by (rule compareValueId_refines_key_order)
  moreover have "three_way (id_key example_lv [10, 20, 30] 0x5000000000000002)
       (id_key example_lv [10, 20, 30] 0x4000000000000002) = Less"
    by (simp add: id_key_def getDatatype_def datatype_of_code_def getLocalVocabIndex_def
        getVocabIndex_def removeDatatypeBits_eq example_lv_def)
  ultimately show ?thesis by simp
qed

text \<open>C28: ids that compare equal have the same hash expansion, also when one of them is a
  vocabulary id and the other a local entry with the same string, so hash maps and hash sets keyed
  by ids are consistent with \<open>operator==\<close>.\<close>

theorem hash_consistent_with_equality:
  assumes "vocab_coherent lv vocab live" and "valid_id vocab live a" and "valid_id vocab live b"
    and "eqValueId lv a b"
  shows "AbslHashValue lv a = AbslHashValue lv b"
  using hash_agrees [OF assms(1-3)] assms(4) by (simp add: eqValueId_def)

theorem hash_consistent_with_equality_witness:
  "AbslHashValue example_lv 0x5000000000000001 = AbslHashValue example_lv 0x4000000000000001"
proof (rule hash_consistent_with_equality)
  show "vocab_coherent example_lv [10, 20, 30] [16, 32]"
    by (simp add: vocab_coherent_def example_lv_def)
  show "valid_id [10, 20, 30 :: nat] [16, 32] 0x5000000000000001"
    "valid_id [10, 20, 30 :: nat] [16, 32] 0x4000000000000001"
    by (simp_all add: valid_id_def getDatatype_def datatype_of_code_def getLocalVocabIndex_def
        getVocabIndex_def removeDatatypeBits_eq)
  show "eqValueId example_lv 0x5000000000000001 0x4000000000000001"
    by (simp add: eqValueId_def compareValueId_def compareVocabAndLocalVocab_def getDatatype_def
        datatype_of_code_def getLocalVocabIndex_def getVocabIndex_def removeDatatypeBits_eq
        example_lv_def inverse_ordering_def word_le_nat_alt)
qed

end
