(* ===== verification/SetOfIntervals.thy ===== *)
theory SetOfIntervals
  imports Prelude
begin

text \<open>
  Models \<open>src/engine/sparqlExpressions/SetOfIntervals.{h,cpp}\<close>: sets of row indices, represented
  as a vector of half-open intervals, that the expression evaluation combines by intersection,
  union and complement. A \<open>size_t\<close> is a natural number up to \<open>upperBound\<close>; iterators into the
  vectors are the lists of the elements still ahead of them.
\<close>

section \<open>The operations\<close>

type_synonym SetOfIntervals = "(nat \<times> nat) list"

definition upperBound :: nat where
  "upperBound = 2 ^ 64 - 1"

fun checkDisjoint :: "SetOfIntervals \<Rightarrow> bool" where
  "checkDisjoint (x # y # vec) \<longleftrightarrow> fst y \<ge> snd x \<and> checkDisjoint (y # vec)"
| "checkDisjoint _ \<longleftrightarrow> True"

definition SortAndCheckDisjointAndNonempty :: "SetOfIntervals \<Rightarrow> SetOfIntervals result" where
  "SortAndCheckDisjointAndNonempty input =
     (let vec = sort_key fst input in
      res_bind (ensure ContractViolation (list_all (\<lambda>i. snd i > fst i) vec)) (\<lambda>_.
      res_bind (ensure ContractViolation (checkDisjoint vec)) (\<lambda>_.
      Inr vec)))"

fun simplifyLoop :: "nat \<times> nat \<Rightarrow> SetOfIntervals \<Rightarrow> SetOfIntervals \<Rightarrow> SetOfIntervals result" where
  "simplifyLoop current [] res = Inr (res @ [current])"
| "simplifyLoop current (i # inputVec) res =
     res_bind (ensure ContractViolation (fst i \<ge> snd current)) (\<lambda>_.
       if fst i = snd current then simplifyLoop (fst current, snd i) inputVec res
       else simplifyLoop i inputVec (res @ [current]))"

fun CheckSortedAndDisjointAndSimplify :: "SetOfIntervals \<Rightarrow> SetOfIntervals result" where
  "CheckSortedAndDisjointAndSimplify [] = Inr []"
| "CheckSortedAndDisjointAndSimplify (current # inputVec) = simplifyLoop current inputVec []"

text \<open>The zipper loop of the intersection. Both iterators advance on the same condition,
  \<open>minIdxNotChecked >= it->second\<close>, so which of them is \<open>itSmaller\<close> does not matter there.\<close>

function intersectionLoop ::
    "SetOfIntervals \<Rightarrow> SetOfIntervals \<Rightarrow> nat \<Rightarrow> SetOfIntervals \<Rightarrow> SetOfIntervals" where
  "intersectionLoop [] B minIdxNotChecked res = res"
| "intersectionLoop (a # A) [] minIdxNotChecked res = res"
| "intersectionLoop (a # A) (b # B) minIdxNotChecked res =
     (let itSmaller = (if fst a < fst b then a else b);
          itGreaterEq = (if fst a < fst b then b else a);
          intersection = (max (fst itGreaterEq) minIdxNotChecked,
                          min (snd itGreaterEq) (snd itSmaller));
          minIdx = max minIdxNotChecked (snd intersection);
          res' = (if fst intersection < snd intersection then res @ [intersection] else res)
      in intersectionLoop (if minIdx \<ge> snd a then A else a # A)
           (if minIdx \<ge> snd b then B else b # B) minIdx res')"
  by pat_completeness auto
termination
proof (relation "measure (\<lambda>(A, B, m, r). length A + length B)", goal_cases)
  case 1
  show ?case by simp
next
  case (2 a A b B m res itSmaller itGreaterEq intersection minIdx res')
  from 2(1-4) have "minIdx \<ge> min (snd a) (snd b)"
    by (simp add: min.commute)
  then have "minIdx \<ge> snd a \<or> minIdx \<ge> snd b"
    by (simp add: min_le_iff_disj)
  then show ?case by auto
qed

definition Intersection :: "SetOfIntervals \<Rightarrow> SetOfIntervals \<Rightarrow> SetOfIntervals result" where
  "Intersection A B =
     res_bind (SortAndCheckDisjointAndNonempty A) (\<lambda>A.
     res_bind (SortAndCheckDisjointAndNonempty B) (\<lambda>B.
     res_bind (SortAndCheckDisjointAndNonempty (intersectionLoop A B 0 []))
       CheckSortedAndDisjointAndSimplify))"

definition truncateAndAppendInterval ::
    "nat \<times> nat \<Rightarrow> nat \<times> SetOfIntervals \<Rightarrow> nat \<times> SetOfIntervals" where
  "truncateAndAppendInterval interval = (\<lambda>(minIdxNotChecked, res).
     let first = max minIdxNotChecked (fst interval);
         minIdx = max minIdxNotChecked (snd interval)
     in (minIdx, if first < snd interval then res @ [(first, snd interval)] else res))"

function unionLoop ::
    "SetOfIntervals \<Rightarrow> SetOfIntervals \<Rightarrow> nat \<times> SetOfIntervals \<Rightarrow> nat \<times> SetOfIntervals" where
  "unionLoop [] B st = fold truncateAndAppendInterval B st"
| "unionLoop (a # A) [] st = fold truncateAndAppendInterval (a # A) st"
| "unionLoop (a # A) (b # B) st =
     (let itSmaller = (if fst a < fst b then a else b);
          itGreaterEq = (if fst a < fst b then b else a)
      in if snd itSmaller \<le> fst itGreaterEq then
           (if fst a < fst b
            then unionLoop A (b # B) (truncateAndAppendInterval itSmaller st)
            else unionLoop (a # A) B (truncateAndAppendInterval itSmaller st))
         else
           unionLoop A B (truncateAndAppendInterval
             (fst itSmaller, max (snd itGreaterEq) (snd itSmaller)) st))"
  by pat_completeness auto
termination
  by (relation "measure (\<lambda>(A, B, st). length A + length B)") simp_all

definition Union :: "SetOfIntervals \<Rightarrow> SetOfIntervals \<Rightarrow> SetOfIntervals result" where
  "Union A B =
     res_bind (SortAndCheckDisjointAndNonempty A) (\<lambda>A.
     res_bind (SortAndCheckDisjointAndNonempty B) (\<lambda>B.
     res_bind (SortAndCheckDisjointAndNonempty (snd (unionLoop A B (0, []))))
       CheckSortedAndDisjointAndSimplify))"

fun complementLoop :: "SetOfIntervals \<Rightarrow> nat \<Rightarrow> SetOfIntervals \<Rightarrow> nat \<times> SetOfIntervals" where
  "complementLoop [] lastElement intervals = (lastElement, intervals)"
| "complementLoop (i # s) lastElement intervals =
     complementLoop s (snd i)
       (if lastElement < fst i then intervals @ [(lastElement, fst i)] else intervals)"

definition Complement :: "SetOfIntervals \<Rightarrow> SetOfIntervals result" where
  "Complement s =
     res_bind (SortAndCheckDisjointAndNonempty s) (\<lambda>s.
       let (lastElement, intervals) = complementLoop s 0 [] in
       res_bind (ensure ContractViolation (lastElement \<le> upperBound)) (\<lambda>_.
         Inr (if lastElement < upperBound then intervals @ [(lastElement, upperBound)]
              else intervals)))"

text \<open>The bits written through the output iterator. A vector that is not sorted makes the code
  write outside of its range (\<open>begin - previousEnd\<close> wraps); the model reports that.\<close>

fun toBitVectorLoop :: "SetOfIntervals \<Rightarrow> nat \<Rightarrow> nat \<Rightarrow> bool list \<Rightarrow> bool list result" where
  "toBitVectorLoop [] targetSize previousEnd out = Inr out"
| "toBitVectorLoop (i # s) targetSize previousEnd out =
     res_bind (ensure ContractViolation (snd i \<le> targetSize)) (\<lambda>_.
     res_bind (ensure OutOfRange (previousEnd \<le> fst i \<and> fst i \<le> snd i)) (\<lambda>_.
       toBitVectorLoop s targetSize (snd i)
         (out @ replicate (fst i - previousEnd) False @ replicate (snd i - fst i) True)))"

definition toBitVector :: "SetOfIntervals \<Rightarrow> nat \<Rightarrow> bool list result" where
  "toBitVector a targetSize =
     res_bind (toBitVectorLoop a targetSize 0 []) (\<lambda>out.
       Inr (out @ replicate (targetSize - length out) False))"

section \<open>The represented set\<close>

definition elems :: "SetOfIntervals \<Rightarrow> nat set" where
  "elems s = (\<Union>i\<in>set s. {fst i..<snd i})"

text \<open>Sorted, disjoint and nonempty, the class invariant of the header; and the canonical form, in
  which neighbours do not touch either.\<close>

definition wf_intervals :: "SetOfIntervals \<Rightarrow> bool" where
  "wf_intervals s \<longleftrightarrow> list_all (\<lambda>i. fst i < snd i) s \<and> checkDisjoint s"

fun canonical :: "SetOfIntervals \<Rightarrow> bool" where
  "canonical [] \<longleftrightarrow> True"
| "canonical [i] \<longleftrightarrow> fst i < snd i"
| "canonical (i # j # s) \<longleftrightarrow> fst i < snd i \<and> snd i < fst j \<and> canonical (j # s)"

lemma elems_simps [simp]:
  "elems [] = {}"
  "elems (i # s) = {fst i..<snd i} \<union> elems s"
  "elems (s @ t) = elems s \<union> elems t"
  by (auto simp: elems_def)

lemma checkDisjoint_Cons:
  "list_all (\<lambda>i. fst i < snd i) s \<Longrightarrow>
   checkDisjoint (i # s) \<longleftrightarrow> (\<forall>j\<in>set s. snd i \<le> fst j) \<and> checkDisjoint s"
proof (induction s arbitrary: i)
  case (Cons j s)
  then have "\<forall>k\<in>set s. snd j \<le> fst k" if "checkDisjoint (j # s)"
    using that by simp
  with Cons.prems show ?case by fastforce
qed simp

lemma wf_intervals_simps [simp]:
  "wf_intervals []"
  "wf_intervals (i # s) \<longleftrightarrow> fst i < snd i \<and> (\<forall>j\<in>set s. snd i \<le> fst j) \<and> wf_intervals s"
  by (fastforce simp: wf_intervals_def checkDisjoint_Cons)+

lemma wf_intervals_snoc [simp]:
  "wf_intervals (s @ [i]) \<longleftrightarrow> wf_intervals s \<and> fst i < snd i \<and> (\<forall>j\<in>set s. snd j \<le> fst i)"
proof (induction s)
  case (Cons k s)
  then show ?case by (simp add: conj_ac)
qed simp

lemma canonical_Cons:
  "canonical (i # s) \<longleftrightarrow> fst i < snd i \<and> (\<forall>j\<in>set s. snd i < fst j) \<and> canonical s"
proof (induction s arbitrary: i)
  case (Cons j s)
  have "canonical (j # s) \<Longrightarrow> snd i < fst j \<Longrightarrow> \<forall>k\<in>set s. snd i < fst k"
    using Cons.IH [of j] by (meson less_trans)
  then show ?case
    by (metis canonical.simps(3) list.set_intros(1) set_ConsD)
qed simp

lemma canonical_snoc:
  "canonical (s @ [i]) \<longleftrightarrow> canonical s \<and> fst i < snd i \<and> (\<forall>j\<in>set s. snd j < fst i)"
  by (induction s) (auto simp: canonical_Cons)

lemma canonical_imp_wf: "canonical s \<Longrightarrow> wf_intervals s"
  by (induction s) (auto simp: canonical_Cons)

lemma elems_ge: "(\<forall>j\<in>set s. m \<le> fst j) \<Longrightarrow> x \<in> elems s \<Longrightarrow> m \<le> x"
  by (auto simp: elems_def)

lemma wf_sorted: "wf_intervals s \<Longrightarrow> sorted (map fst s)"
  by (induction s) force+

lemma SortAndCheck_eq:
  "SortAndCheckDisjointAndNonempty s =
     (if wf_intervals (sort_key fst s) then Inr (sort_key fst s) else Inl ContractViolation)"
  by (auto simp: SortAndCheckDisjointAndNonempty_def Let_def wf_intervals_def ensure_def)

lemma SortAndCheck_wf: "wf_intervals s \<Longrightarrow> SortAndCheckDisjointAndNonempty s = Inr s"
  by (simp add: SortAndCheck_eq sort_key_id_if_sorted wf_sorted)

lemma elems_sort_key [simp]: "elems (sort_key fst s) = elems s"
  by (simp add: elems_def)

lemma simplifyLoop_correct:
  "wf_intervals (current # s) \<Longrightarrow> canonical (res @ [current]) \<Longrightarrow>
   \<exists>r. simplifyLoop current s res = Inr r \<and> canonical r \<and> elems r = elems res \<union> elems (current # s)"
proof (induction current s res rule: simplifyLoop.induct)
  case (1 current res)
  then show ?case by simp
next
  case (2 current i s res)
  show ?case
  proof (cases "fst i = snd current")
    case True
    then have "wf_intervals ((fst current, snd i) # s)" "canonical (res @ [(fst current, snd i)])"
      using "2.prems" by (auto simp: canonical_snoc)
    from "2.IH"(1) [OF True this] obtain r where
      "simplifyLoop (fst current, snd i) s res = Inr r" "canonical r"
      "elems r = elems res \<union> elems ((fst current, snd i) # s)"
      using True by auto
    moreover have "{fst current..<snd i} = {fst current..<snd current} \<union> {fst i..<snd i}"
      using True "2.prems"(1) by auto
    ultimately show ?thesis using True by auto
  next
    case False
    have less: "snd current < fst i" "fst current < snd current"
      using False "2.prems"(1) by auto
    moreover have "\<forall>j\<in>set res. snd j < fst current"
      using "2.prems"(2) by (simp add: canonical_snoc)
    ultimately have "\<forall>j\<in>set res. snd j < fst i"
      by (meson less_trans)
    with less "2.prems" have "wf_intervals (i # s)" "canonical ((res @ [current]) @ [i])"
      by (simp, simp add: canonical_snoc del: append_assoc)
    from "2.IH"(2) [OF False this] show ?thesis
      using False "2.prems"(1) by auto
  qed
qed

lemma simplify_correct:
  assumes "wf_intervals s"
  obtains r where "CheckSortedAndDisjointAndSimplify s = Inr r" "canonical r" "elems r = elems s"
proof (cases s)
  case Nil
  with that show thesis by simp
next
  case (Cons i t)
  with assms simplifyLoop_correct [of i t "[]"] that show thesis by auto
qed

lemma finish_correct:
  assumes "wf_intervals s"
  shows "\<exists>r. res_bind (SortAndCheckDisjointAndNonempty s) CheckSortedAndDisjointAndSimplify = Inr r
     \<and> canonical r \<and> elems r = elems s"
  using simplify_correct [OF assms] by (metis SortAndCheck_wf assms res_bind_simps(2))

lemma intersection_split:
  assumes "wf_intervals (a # A)" "wf_intervals (b # B)"
    and m': "m' = max m (min (snd a) (snd b))"
  shows "elems (a # A) \<inter> elems (b # B) \<inter> {m..} =
     {max (max (fst a) (fst b)) m..<min (snd a) (snd b)} \<union>
     elems (if m' \<ge> snd a then A else a # A) \<inter> elems (if m' \<ge> snd b then B else b # B) \<inter> {m'..}"
proof -
  have A: "x \<in> elems A \<Longrightarrow> snd a \<le> x" and B: "x \<in> elems B \<Longrightarrow> snd b \<le> x" for x
    using assms(1,2) by (auto intro: elems_ge)
  have low: "x \<in> elems (a # A) \<inter> elems (b # B) \<inter> {m..} \<longleftrightarrow>
      x \<in> {max (max (fst a) (fst b)) m..<min (snd a) (snd b)}" if "x < m'" for x
    using that A [of x] B [of x] by (auto simp: m')
  have high: "x \<in> elems (a # A) \<inter> elems (b # B) \<inter> {m..} \<longleftrightarrow>
      x \<in> elems (if m' \<ge> snd a then A else a # A) \<inter> elems (if m' \<ge> snd b then B else b # B) \<inter> {m'..}"
    if "m' \<le> x" for x
    using that by (auto simp: m')
  have "x \<notin> {max (max (fst a) (fst b)) m..<min (snd a) (snd b)}" if "m' \<le> x" for x
    using that by (auto simp: m')
  with low high show ?thesis
    by (intro set_eqI) (metis IntD2 Un_iff atLeast_iff linorder_not_less)
qed

lemma intersectionLoop_step:
  assumes "i = (max (max (fst a) (fst b)) m, min (snd a) (snd b))" "m' = max m (snd i)"
  shows "intersectionLoop (a # A) (b # B) m res =
     intersectionLoop (if m' \<ge> snd a then A else a # A) (if m' \<ge> snd b then B else b # B) m'
       (if fst i < snd i then res @ [i] else res)"
  using assms
  by (cases "fst a < fst b") (simp_all add: Let_def min.commute max_absorb1 max_absorb2)

declare intersectionLoop.simps(3) [simp del]

lemma intersectionLoop_correct:
  "wf_intervals A \<Longrightarrow> wf_intervals B \<Longrightarrow> wf_intervals res \<Longrightarrow> \<forall>j\<in>set res. snd j \<le> m \<Longrightarrow>
   wf_intervals (intersectionLoop A B m res) \<and>
   elems (intersectionLoop A B m res) = elems res \<union> elems A \<inter> elems B \<inter> {m..}"
proof (induction "length A + length B" arbitrary: A B m res rule: less_induct)
  case less
  show ?case
  proof (cases "A = [] \<or> B = []")
    case True
    then show ?thesis using less.prems(3) by (cases A) auto
  next
    case False
    then obtain a A1 b B1 where AB: "A = a # A1" "B = b # B1"
      by (meson list.exhaust)
    define i where "i = (max (max (fst a) (fst b)) m, min (snd a) (snd b))"
    define m' where "m' = max m (snd i)"
    define res' where "res' = (if fst i < snd i then res @ [i] else res)"
    define A' where "A' = (if m' \<ge> snd a then A1 else a # A1)"
    define B' where "B' = (if m' \<ge> snd b then B1 else b # B1)"
    have step: "intersectionLoop A B m res = intersectionLoop A' B' m' res'"
      unfolding AB A'_def B'_def res'_def by (rule intersectionLoop_step [OF i_def m'_def])
    have "snd a \<le> m' \<or> snd b \<le> m'"
      by (auto simp: m'_def i_def le_max_iff_disj)
    then have len: "length A' + length B' < length A + length B"
      by (auto simp: A'_def B'_def AB)
    have wf: "wf_intervals A'" "wf_intervals B'"
      using less.prems(1,2) by (auto simp: A'_def B'_def AB)
    have "\<forall>j\<in>set res. snd j \<le> m'"
      using less.prems(4) by (auto simp: m'_def intro: le_trans [OF _ max.cobounded1])
    moreover have "snd i \<le> m'"
      by (simp add: m'_def)
    ultimately have le: "\<forall>j\<in>set res'. snd j \<le> m'"
      by (simp add: res'_def)
    have wfr: "wf_intervals res'"
      using less.prems(3,4) by (auto simp: res'_def i_def le_max_iff_disj)
    have "elems res' = elems res \<union> {fst i..<snd i}"
      by (auto simp: res'_def)
    moreover have "elems A \<inter> elems B \<inter> {m..} = {fst i..<snd i} \<union> elems A' \<inter> elems B' \<inter> {m'..}"
      unfolding AB A'_def B'_def i_def fst_conv snd_conv
      by (rule intersection_split) (use less.prems(1,2) in \<open>simp_all add: AB m'_def i_def\<close>)
    ultimately show ?thesis
      using less.hyps [OF len wf wfr le] by (simp add: step Un_assoc)
  qed
qed

definition union_inv :: "nat \<Rightarrow> nat \<times> SetOfIntervals \<Rightarrow> bool" where
  "union_inv s st \<longleftrightarrow> wf_intervals (snd st) \<and> (\<forall>j\<in>set (snd st). snd j \<le> fst st) \<and> {s..<fst st} \<subseteq> elems (snd st)"

lemma truncate_correct:
  assumes "union_inv s st" "s \<le> fst i" "fst i < snd i"
  shows "union_inv (fst i) (truncateAndAppendInterval i st)"
    and "elems (snd (truncateAndAppendInterval i st)) = elems (snd st) \<union> {fst i..<snd i}"
proof -
  define m res where "m = fst st" and "res = snd st"
  define m' f where "m' = max m (snd i)" and "f = max m (fst i)"
  define res' where "res' = (if f < snd i then res @ [(f, snd i)] else res)"
  have inv: "wf_intervals res" "\<forall>j\<in>set res. snd j \<le> m" "{s..<m} \<subseteq> elems res"
    using assms(1) by (simp_all add: union_inv_def m_def res_def)
  have t: "truncateAndAppendInterval i st = (m', res')"
    by (simp add: truncateAndAppendInterval_def m_def res_def m'_def f_def res'_def split_def Let_def)
  have cov: "{fst i..<m} \<subseteq> elems res"
    using inv(3) assms(2) by (auto simp: subset_iff)
  have new: "elems res' = elems res \<union> {f..<snd i}"
    by (auto simp: res'_def)
  moreover have "{fst i..<snd i} \<subseteq> {fst i..<m} \<union> {f..<snd i}" "{f..<snd i} \<subseteq> {fst i..<snd i}"
    by (auto simp: f_def)
  ultimately have el: "elems res' = elems res \<union> {fst i..<snd i}"
    using cov by blast
  then show "elems (snd (truncateAndAppendInterval i st)) = elems (snd st) \<union> {fst i..<snd i}"
    by (simp add: t res_def)
  have le: "\<forall>j\<in>set res. snd j \<le> m'" "\<forall>j\<in>set res. snd j \<le> f"
    using inv(2) by (auto simp: m'_def f_def intro: le_trans [OF _ max.cobounded1])
  have "{fst i..<m'} \<subseteq> {fst i..<m} \<union> {fst i..<snd i}"
    by (auto simp: m'_def)
  then have "{fst i..<m'} \<subseteq> elems res'"
    using cov el by blast
  with le inv(1) show "union_inv (fst i) (truncateAndAppendInterval i st)"
    by (simp add: union_inv_def t res'_def m'_def)
qed

lemma fold_truncate_correct:
  "union_inv s st \<Longrightarrow> wf_intervals B \<Longrightarrow> \<forall>j\<in>set B. s \<le> fst j \<Longrightarrow>
   wf_intervals (snd (fold truncateAndAppendInterval B st)) \<and>
   elems (snd (fold truncateAndAppendInterval B st)) = elems (snd st) \<union> elems B"
proof (induction B arbitrary: s st)
  case Nil
  then show ?case by (simp add: union_inv_def)
next
  case (Cons i B)
  then have i: "s \<le> fst i" "fst i < snd i" by auto
  note t = truncate_correct [OF Cons.prems(1) i]
  have "\<forall>j\<in>set B. fst i \<le> fst j"
    using Cons.prems(2) i(2) by (auto intro: le_trans [OF less_imp_le])
  then show ?case
    using Cons.IH [OF t(1)] Cons.prems(2) t(2) by auto
qed

lemma unionLoop_steps:
  "fst a < fst b \<Longrightarrow> snd a \<le> fst b \<Longrightarrow>
     unionLoop (a # A) (b # B) st = unionLoop A (b # B) (truncateAndAppendInterval a st)"
  "\<not> fst a < fst b \<Longrightarrow> snd b \<le> fst a \<Longrightarrow>
     unionLoop (a # A) (b # B) st = unionLoop (a # A) B (truncateAndAppendInterval b st)"
  "fst a < fst b \<Longrightarrow> \<not> snd a \<le> fst b \<Longrightarrow> unionLoop (a # A) (b # B) st =
     unionLoop A B (truncateAndAppendInterval (fst a, max (snd b) (snd a)) st)"
  "\<not> fst a < fst b \<Longrightarrow> \<not> snd b \<le> fst a \<Longrightarrow> unionLoop (a # A) (b # B) st =
     unionLoop A B (truncateAndAppendInterval (fst b, max (snd a) (snd b)) st)"
  by (simp_all add: Let_def)

declare unionLoop.simps(3) [simp del]

lemma unionLoop_correct:
  "union_inv s st \<Longrightarrow> wf_intervals A \<Longrightarrow> wf_intervals B \<Longrightarrow>
   \<forall>j\<in>set A. s \<le> fst j \<Longrightarrow> \<forall>j\<in>set B. s \<le> fst j \<Longrightarrow>
   wf_intervals (snd (unionLoop A B st)) \<and>
   elems (snd (unionLoop A B st)) = elems (snd st) \<union> elems A \<union> elems B"
proof (induction "length A + length B" arbitrary: A B s st rule: less_induct)
  case less
  show ?case
  proof (cases A)
    case Nil
    then show ?thesis using fold_truncate_correct [OF less.prems(1,3,5)] by simp
  next
    case A: (Cons a A')
    show ?thesis
    proof (cases B)
      case Nil
      then show ?thesis using A fold_truncate_correct [OF less.prems(1,2,4)] by simp
    next
      case B: (Cons b B')
      have ab: "fst a < snd a" "fst b < snd b" "s \<le> fst a" "s \<le> fst b"
        "wf_intervals A'" "wf_intervals B'"
        using less.prems A B by auto
      have mono: "\<forall>j\<in>set A'. fst a \<le> fst j" "\<forall>j\<in>set B'. fst b \<le> fst j"
        using less.prems(2,3) A B by (auto intro: le_trans [OF less_imp_le])
      have union: "{fst a..<max (snd b) (snd a)} = {fst a..<snd a} \<union> {fst b..<snd b}"
        if "fst a < fst b" "\<not> snd a \<le> fst b"
        using that ab by auto
      have union': "{fst b..<max (snd a) (snd b)} = {fst a..<snd a} \<union> {fst b..<snd b}"
        if "\<not> fst a < fst b" "\<not> snd b \<le> fst a"
        using that ab by auto
      consider (A) "fst a < fst b" "snd a \<le> fst b" | (B) "\<not> fst a < fst b" "snd b \<le> fst a"
        | (AB) "fst a < fst b" "\<not> snd a \<le> fst b" | (BA) "\<not> fst a < fst b" "\<not> snd b \<le> fst a"
        by blast
      then show ?thesis
      proof cases
        case 1: A
        note t = truncate_correct [OF less.prems(1) ab(3,1)]
        have "\<forall>j\<in>set B. fst a \<le> fst j"
          using mono(2) 1(1) B by auto
        then show ?thesis
          using less.hyps [OF _ t(1), of A' B] less.prems(3) ab mono t(2)
          by (auto simp: A B unionLoop_steps(1) [OF 1])
      next
        case 2: B
        note t = truncate_correct [OF less.prems(1) ab(4,2)]
        have "\<forall>j\<in>set A. fst b \<le> fst j"
          using mono(1) 2(1) A by auto
        then show ?thesis
          using less.hyps [OF _ t(1), of A B'] less.prems(2) ab mono t(2)
          by (auto simp: A B unionLoop_steps(2) [OF 2])
      next
        case 3: AB
        note t = truncate_correct [OF less.prems(1), of "(fst a, max (snd b) (snd a))"]
        have "\<forall>j\<in>set B'. fst a \<le> fst j"
          using mono(2) 3(1) by auto
        then show ?thesis
          using less.hyps [of A' B' "fst a"] ab mono t union [OF 3]
          by (auto simp: A B unionLoop_steps(3) [OF 3] less_max_iff_disj)
      next
        case 4: BA
        note t = truncate_correct [OF less.prems(1), of "(fst b, max (snd a) (snd b))"]
        have "\<forall>j\<in>set A'. fst b \<le> fst j"
          using mono(1) 4(1) by auto
        then show ?thesis
          using less.hyps [of A' B' "fst b"] ab mono t union' [OF 4]
          by (auto simp: A B unionLoop_steps(4) [OF 4] less_max_iff_disj)
      qed
    qed
  qed
qed

section \<open>The operations implement the set operations\<close>

definition valid_intervals :: "SetOfIntervals \<Rightarrow> bool" where
  "valid_intervals s \<longleftrightarrow> wf_intervals (sort_key fst s)"

lemma canonical_imp_valid: "canonical s \<Longrightarrow> valid_intervals s"
  by (simp add: valid_intervals_def canonical_imp_wf sort_key_id_if_sorted wf_sorted)

lemma SortAndCheck_valid:
  "valid_intervals s \<Longrightarrow> SortAndCheckDisjointAndNonempty s = Inr (sort_key fst s)"
  "\<not> valid_intervals s \<Longrightarrow> SortAndCheckDisjointAndNonempty s = Inl ContractViolation"
  by (simp_all add: valid_intervals_def SortAndCheck_eq)

lemma Intersection_ok:
  assumes "valid_intervals A" "valid_intervals B"
  shows "\<exists>r. Intersection A B = Inr r \<and> canonical r \<and> elems r = elems A \<inter> elems B"
proof -
  have "wf_intervals (sort_key fst A)" "wf_intervals (sort_key fst B)"
    using assms by (simp_all add: valid_intervals_def)
  from intersectionLoop_correct [OF this, of "[]" 0]
  have "wf_intervals (intersectionLoop (sort_key fst A) (sort_key fst B) 0 [])"
    "elems (intersectionLoop (sort_key fst A) (sort_key fst B) 0 []) = elems A \<inter> elems B"
    by simp_all
  from finish_correct [OF this(1)] this(2) show ?thesis
    using assms by (simp add: Intersection_def SortAndCheck_valid)
qed

lemma Union_ok:
  assumes "valid_intervals A" "valid_intervals B"
  shows "\<exists>r. Union A B = Inr r \<and> canonical r \<and> elems r = elems A \<union> elems B"
proof -
  have "wf_intervals (sort_key fst A)" "wf_intervals (sort_key fst B)"
    using assms by (simp_all add: valid_intervals_def)
  moreover have "union_inv 0 (0, [])"
    by (simp add: union_inv_def)
  ultimately have "wf_intervals (snd (unionLoop (sort_key fst A) (sort_key fst B) (0, [])))"
    "elems (snd (unionLoop (sort_key fst A) (sort_key fst B) (0, []))) = elems A \<union> elems B"
    using unionLoop_correct [of 0 "(0, [])"] by simp_all
  from finish_correct [OF this(1)] this(2) show ?thesis
    using assms by (simp add: Union_def SortAndCheck_valid)
qed

lemma complementLoop_correct:
  assumes "complementLoop s l res = (l', res')"
    and "wf_intervals s" "\<forall>j\<in>set s. l \<le> fst j" "canonical res" "\<forall>j\<in>set res. snd j < l"
  shows "canonical res' \<and> (\<forall>j\<in>set res'. snd j < l') \<and> l \<le> l'
    \<and> elems res' \<union> {l'..} = elems res \<union> ({l..} - elems s) \<and> (\<forall>j\<in>set s. snd j \<le> l')"
  using assms
proof (induction s l res rule: complementLoop.induct)
  case (1 l res)
  then show ?case by auto
next
  case (2 i s l res)
  define r where "r = (if l < fst i then res @ [(l, fst i)] else res)"
  have loop: "complementLoop s (snd i) r = (l', res')"
    using "2.prems"(1) by (simp add: r_def)
  have i: "fst i < snd i" "l \<le> fst i" "wf_intervals s" "\<forall>j\<in>set s. snd i \<le> fst j"
    using "2.prems"(2,3) by auto
  have c: "canonical r"
    using "2.prems"(4,5) by (simp add: r_def canonical_snoc)
  have "\<forall>j\<in>set res. snd j < snd i"
    using "2.prems"(5) i(1,2) by (meson less_le_trans less_trans)
  then have less: "\<forall>j\<in>set r. snd j < snd i"
    using i(1) by (simp add: r_def)
  have IH: "canonical res' \<and> (\<forall>j\<in>set res'. snd j < l') \<and> snd i \<le> l'
    \<and> elems res' \<union> {l'..} = elems r \<union> ({snd i..} - elems s) \<and> (\<forall>j\<in>set s. snd j \<le> l')"
    using "2.IH" [folded r_def, OF loop i(3,4) c less] .
  have "elems r = elems res \<union> {l..<fst i}"
    by (auto simp: r_def)
  moreover have "{l..} - elems (i # s) = {l..<fst i} \<union> ({snd i..} - elems s)"
    using i elems_ge [OF i(4)] by fastforce
  ultimately show ?case
    using IH i by auto
qed

lemma complementLoop_le:
  "complementLoop s l res = (l', res') \<Longrightarrow> l \<le> n \<Longrightarrow> \<forall>j\<in>set s. snd j \<le> n \<Longrightarrow> l' \<le> n"
  by (induction s l res rule: complementLoop.induct) auto

lemma Complement_ok:
  assumes "valid_intervals s" "\<forall>j\<in>set s. snd j \<le> upperBound"
  shows "\<exists>r. Complement s = Inr r \<and> canonical r \<and> elems r = {0..<upperBound} - elems s"
proof -
  let ?s = "sort_key fst s"
  obtain l r where loop: "complementLoop ?s 0 [] = (l, r)"
    by (cases "complementLoop ?s 0 []")
  have inv: "canonical r" "\<forall>j\<in>set r. snd j < l" "elems r \<union> {l..} = - elems s"
    using complementLoop_correct [OF loop] assms(1) by (auto simp: valid_intervals_def)
  have "l \<le> upperBound"
    using complementLoop_le [OF loop] assms(2) by simp
  moreover have "elems s \<subseteq> {0..<upperBound}"
    using assms(2) by (force simp: elems_def)
  moreover have "elems r \<subseteq> {0..<l}"
    using inv(2) by (force simp: elems_def)
  ultimately have "elems r \<union> {l..<upperBound} = {0..<upperBound} - elems s"
    using inv(3) by (auto; fastforce)
  then show ?thesis
    using inv(1,2) assms(1) loop \<open>l \<le> upperBound\<close>
    by (auto simp: Complement_def SortAndCheck_valid canonical_snoc ensure_def)
qed

lemma toBitVectorLoop_correct:
  "wf_intervals s \<Longrightarrow> \<forall>j\<in>set s. length out \<le> fst j \<and> snd j \<le> n \<Longrightarrow> length out \<le> n \<Longrightarrow>
   \<exists>out'. toBitVectorLoop s n (length out) out = Inr out' \<and> length out' \<le> n
     \<and> (\<forall>k<length out'. out' ! k \<longleftrightarrow> (if k < length out then out ! k else k \<in> elems s))
     \<and> (\<forall>x\<in>elems s. x < length out') \<and> length out \<le> length out'"
proof (induction s arbitrary: out)
  case Nil
  then show ?case by simp
next
  case (Cons i s)
  define new where "new = out @ replicate (fst i - length out) False @ replicate (snd i - fst i) True"
  have i: "length out \<le> fst i" "fst i < snd i" "snd i \<le> n" "wf_intervals s"
    "\<forall>j\<in>set s. snd i \<le> fst j \<and> snd j \<le> n"
    using Cons.prems by auto
  then have len: "length new = snd i"
    by (simp add: new_def)
  have bits: "new ! k \<longleftrightarrow> (if k < length out then out ! k else fst i \<le> k)" if "k < snd i" for k
    using that i by (auto simp: new_def nth_append)
  obtain out' where out': "toBitVectorLoop s n (length new) new = Inr out'" "length out' \<le> n"
    "\<forall>k<length out'. out' ! k \<longleftrightarrow> (if k < length new then new ! k else k \<in> elems s)"
    "\<forall>x\<in>elems s. x < length out'" "length new \<le> length out'"
    using Cons.IH [of new] i len by auto
  have "toBitVectorLoop (i # s) n (length out) out = Inr out'"
    using out'(1) i by (simp add: new_def [symmetric] len)
  moreover have "out' ! k \<longleftrightarrow> (if k < length out then out ! k else k \<in> elems (i # s))"
    if "k < length out'" for k
  proof -
    have "k < snd i \<Longrightarrow> k \<notin> elems s"
      using elems_ge [of s "snd i" k] i(5) by auto
    then show ?thesis
      using that out'(3) bits [of k] len i(1,2) by auto
  qed
  ultimately show ?case
    using out' len i by auto
qed

lemma toBitVector_ok:
  assumes "wf_intervals s" "\<forall>j\<in>set s. snd j \<le> n"
  shows "\<exists>bits. toBitVector s n = Inr bits \<and> length bits = n \<and> (\<forall>k<n. bits ! k \<longleftrightarrow> k \<in> elems s)"
proof -
  obtain out where out: "toBitVectorLoop s n 0 [] = Inr out" "length out \<le> n"
    "\<forall>k<length out. out ! k \<longleftrightarrow> k \<in> elems s" "\<forall>x\<in>elems s. x < length out"
    using toBitVectorLoop_correct [OF assms(1), of "[]" n] assms(2) by auto
  have "(out @ replicate (n - length out) False) ! k \<longleftrightarrow> k \<in> elems s" if "k < n" for k
    using that out by (auto simp: nth_append)
  then show ?thesis
    using out(1,2) by (simp add: toBitVector_def)
qed

lemma toBitVectorLoop_error:
  "wf_intervals s \<Longrightarrow> \<forall>j\<in>set s. p \<le> fst j \<Longrightarrow> \<not> (\<forall>j\<in>set s. snd j \<le> n) \<Longrightarrow>
   toBitVectorLoop s n p out = Inl ContractViolation"
  by (induction s n p out rule: toBitVectorLoop.induct) (auto simp: ensure_def less_imp_le)

lemma toBitVector_error:
  "wf_intervals s \<Longrightarrow> \<not> (\<forall>j\<in>set s. snd j \<le> n) \<Longrightarrow> toBitVector s n = Inl ContractViolation"
  using toBitVectorLoop_error [of s 0 n "[]"] by (simp add: toBitVector_def)

section \<open>The canonical form is unique\<close>

lemma canonical_head:
  assumes "canonical (i # s)" "canonical (j # t)" "elems (i # s) = elems (j # t)"
  shows "fst i \<le> fst j \<and> snd i \<le> snd j"
proof -
  have i: "fst i < snd i" "\<forall>k\<in>set s. snd i < fst k" and j: "fst j < snd j" "\<forall>k\<in>set t. snd j < fst k"
    using assms(1,2) by (simp_all add: canonical_Cons)
  have ge: "fst i \<le> x" if "x \<in> elems (i # s)" for x
    using that i elems_ge [of s "snd i" x] by (auto simp: less_imp_le)
  have notin: "snd j \<notin> elems (j # t)"
    using j(2) elems_ge [of t "Suc (snd j)" "snd j"] by (auto simp: Suc_le_eq)
  have "fst j \<in> elems (j # t)"
    using j(1) by simp
  then have 1: "fst i \<le> fst j"
    using ge assms(3) by blast
  have "\<not> (fst i \<le> snd j \<and> snd j < snd i)"
    using notin assms(3) by auto
  then show ?thesis
    using 1 j(1) by linarith
qed

lemma canonical_unique:
  "canonical s \<Longrightarrow> canonical t \<Longrightarrow> elems s = elems t \<Longrightarrow> s = t"
proof (induction s arbitrary: t)
  case Nil
  then show ?case by (cases t) (auto simp: canonical_Cons)
next
  case (Cons i s)
  then obtain j t' where t: "t = j # t'"
    by (cases t) (auto simp: canonical_Cons)
  have "i = j"
    using canonical_head [of i s j t'] canonical_head [of j t' i s] Cons.prems t
    by (simp add: prod_eq_iff)
  have rest: "elems u = elems (i # u) - {fst i..<snd i}" if "canonical (i # u)" for u
    using that elems_ge [of u "snd i"] by (fastforce simp: canonical_Cons)
  have "elems s = elems t'"
    using rest [of s] rest [of t'] Cons.prems t \<open>i = j\<close> by simp
  then show ?case
    using Cons t \<open>i = j\<close> by (simp add: canonical_Cons)
qed


lemma bounded_iff:
  "canonical s \<Longrightarrow> (\<forall>j\<in>set s. snd j \<le> n) \<longleftrightarrow> elems s \<subseteq> {0..<n}"
proof
  assume c: "canonical s" and sub: "elems s \<subseteq> {0..<n}"
  show "\<forall>j\<in>set s. snd j \<le> n"
  proof
    fix j assume j: "j \<in> set s"
    then have "fst j < snd j"
      using canonical_imp_wf [OF c] by (auto simp: wf_intervals_def list_all_iff)
    then have "snd j - 1 \<in> elems s"
      using j by (force simp: elems_def)
    with sub \<open>fst j < snd j\<close> show "snd j \<le> n" by auto
  qed
qed (force simp: elems_def)

section \<open>The contract of the class\<close>

text \<open>What the expression evaluation relies on: a set algebra below a bound whose operations succeed
  on every value that satisfies the invariant, and whose values represent a set uniquely.\<close>

locale bounded_set_algebra =
  fixes invar :: "'s \<Rightarrow> bool"
    and abs :: "'s \<Rightarrow> nat set"
    and bound :: nat
    and inter :: "'s \<Rightarrow> 's \<Rightarrow> 's result"
    and union :: "'s \<Rightarrow> 's \<Rightarrow> 's result"
    and compl :: "'s \<Rightarrow> 's result"
  assumes abs_bound: "invar a \<Longrightarrow> abs a \<subseteq> {0..<bound}"
    and abs_inj: "invar a \<Longrightarrow> invar b \<Longrightarrow> abs a = abs b \<Longrightarrow> a = b"
    and inter_ok: "invar a \<Longrightarrow> invar b \<Longrightarrow> \<exists>r. inter a b = Inr r \<and> invar r \<and> abs r = abs a \<inter> abs b"
    and union_ok: "invar a \<Longrightarrow> invar b \<Longrightarrow> \<exists>r. union a b = Inr r \<and> invar r \<and> abs r = abs a \<union> abs b"
    and compl_ok: "invar a \<Longrightarrow> \<exists>r. compl a = Inr r \<and> invar r \<and> abs r = {0..<bound} - abs a"
begin

lemma compl_compl:
  assumes "invar a"
  shows "res_bind (compl a) compl = Inr a"
proof -
  obtain r where r: "compl a = Inr r" "invar r" "abs r = {0..<bound} - abs a"
    using compl_ok [OF assms] by blast
  obtain q where q: "compl r = Inr q" "invar q" "abs q = {0..<bound} - abs r"
    using compl_ok [OF r(2)] by blast
  have "abs q = abs a"
    using q(3) r(3) abs_bound [OF assms] by blast
  then show ?thesis
    using abs_inj [OF q(2) assms] q(1) r(1) by simp
qed

lemma de_morgan:
  assumes "invar a" "invar b"
  shows "res_bind (union a b) compl =
    res_bind (compl a) (\<lambda>a'. res_bind (compl b) (\<lambda>b'. inter a' b'))"
proof -
  obtain u where u: "union a b = Inr u" "invar u" "abs u = abs a \<union> abs b"
    using union_ok [OF assms] by blast
  obtain cu where cu: "compl u = Inr cu" "invar cu" "abs cu = {0..<bound} - abs u"
    using compl_ok [OF u(2)] by blast
  obtain a' where a': "compl a = Inr a'" "invar a'" "abs a' = {0..<bound} - abs a"
    using compl_ok [OF assms(1)] by blast
  obtain b' where b': "compl b = Inr b'" "invar b'" "abs b' = {0..<bound} - abs b"
    using compl_ok [OF assms(2)] by blast
  obtain i where i: "inter a' b' = Inr i" "invar i" "abs i = abs a' \<inter> abs b'"
    using inter_ok [OF a'(2) b'(2)] by blast
  have "abs cu = abs i"
    using u(3) cu(3) a'(3) b'(3) i(3) by blast
  then have "cu = i"
    by (rule abs_inj [OF cu(2) i(2)])
  then show ?thesis
    using u(1) cu(1) a'(1) b'(1) i(1) by simp
qed

end

definition interval_invar :: "SetOfIntervals \<Rightarrow> bool" where
  "interval_invar s \<longleftrightarrow> canonical s \<and> list_all (\<lambda>i. snd i \<le> upperBound) s"

lemma interval_invar_iff:
  "interval_invar s \<longleftrightarrow> canonical s \<and> elems s \<subseteq> {0..<upperBound}"
  using bounded_iff by (auto simp: interval_invar_def list_all_iff)

interpretation intervals: bounded_set_algebra interval_invar elems upperBound
  Intersection Union Complement
proof
  fix a b
  assume a: "interval_invar a"
  then have va: "valid_intervals a"
    by (simp add: interval_invar_iff canonical_imp_valid)
  show "elems a \<subseteq> {0..<upperBound}"
    using a by (simp add: interval_invar_iff)
  show "\<exists>r. Complement a = Inr r \<and> interval_invar r \<and> elems r = {0..<upperBound} - elems a"
    using Complement_ok [OF va] a by (auto simp: interval_invar_def interval_invar_iff list_all_iff bounded_iff)
  assume b: "interval_invar b"
  then have vb: "valid_intervals b"
    by (simp add: interval_invar_iff canonical_imp_valid)
  show "elems a = elems b \<Longrightarrow> a = b"
    using a b canonical_unique by (simp add: interval_invar_iff)
  show "\<exists>r. Intersection a b = Inr r \<and> interval_invar r \<and> elems r = elems a \<inter> elems b"
    using Intersection_ok [OF va vb] a by (auto simp: interval_invar_iff)
  show "\<exists>r. Union a b = Inr r \<and> interval_invar r \<and> elems r = elems a \<union> elems b"
    using Union_ok [OF va vb] a b by (auto simp: interval_invar_iff)
qed

section \<open>Properties\<close>

text \<open>C25: the intersection and the union of two vectors of intervals, in any order of their
  elements, succeed exactly when both are nonempty and disjoint, and return the canonical
  representation of the intersection and the union of the represented sets; any other input is
  refused as a contract violation.\<close>

theorem intersection_union_correct:
  "(if valid_intervals A \<and> valid_intervals B then
      (\<exists>r. Intersection A B = Inr r \<and> canonical r \<and> elems r = elems A \<inter> elems B) \<and>
      (\<exists>r. Union A B = Inr r \<and> canonical r \<and> elems r = elems A \<union> elems B)
    else Intersection A B = Inl ContractViolation \<and> Union A B = Inl ContractViolation)"
  using Intersection_ok [of A B] Union_ok [of A B]
  by (cases "valid_intervals A")
    (auto simp: Intersection_def Union_def SortAndCheck_valid)

text \<open>C26: complementing twice is the identity on canonical vectors, and De Morgan's law holds for
  the returned vectors themselves, not only for the sets they represent.\<close>

theorem complement_involution_and_de_morgan:
  assumes "interval_invar a" and "interval_invar b"
  shows "res_bind (Complement a) Complement = Inr a
    \<and> res_bind (Union a b) Complement =
        res_bind (Complement a) (\<lambda>a'. res_bind (Complement b) (\<lambda>b'. Intersection a' b'))"
  using intervals.compl_compl [OF assms(1)] intervals.de_morgan [OF assms] by blast

theorem complement_involution_and_de_morgan_witness:
  "res_bind (Complement [(1, 3), (7, 9)]) Complement = Inr [(1, 3), (7, 9)]"
proof -
  have "interval_invar [(1, 3), (7, 9)]" "interval_invar [(2, 8)]"
    by (simp_all add: interval_invar_def upperBound_def)
  from complement_involution_and_de_morgan [OF this] show ?thesis
    by simp
qed

text \<open>the bit vector of a sorted vector of disjoint intervals has \<open>targetSize\<close> bits, and its
  \<open>k\<close>-th bit is set exactly when \<open>k\<close> is in the represented set; an interval that ends after
  \<open>targetSize\<close> violates the contract.\<close>

theorem toBitVector_correct:
  assumes "wf_intervals s"
  shows "if \<forall>j\<in>set s. snd j \<le> n
    then \<exists>bits. toBitVector s n = Inr bits \<and> length bits = n \<and> (\<forall>k<n. bits ! k \<longleftrightarrow> k \<in> elems s)
    else toBitVector s n = Inl ContractViolation"
  using toBitVector_ok [OF assms] toBitVector_error [OF assms] by simp

theorem toBitVector_correct_witness:
  "\<exists>bits. toBitVector [(1, 3), (4, 5)] 6 = Inr bits \<and> length bits = 6
     \<and> (\<forall>k<6. bits ! k \<longleftrightarrow> k \<in> elems [(1, 3), (4, 5)])"
  using toBitVector_correct [of "[(1, 3), (4, 5)]" 6] by (simp del: elems_simps)

end
