(* ===== verification/JoinAlgorithms.thy ===== *)
theory JoinAlgorithms
  imports Prelude
begin

text \<open>
  Models \<open>src/util/JoinAlgorithms/JoinAlgorithms.h\<close>: the zipper join with UNDEF handling, the
  galloping join and the special optional join. An iterator is an index into its range. The calls
  of \<open>compatibleRowAction\<close> and \<open>elFromFirstNotFoundAction\<close> are the events of the run, in order.
  \<open>checkCancellation\<close> either does nothing or ends the run with an exception, so the model is the
  run in which it does nothing.
\<close>

section \<open>The zipper join\<close>

datatype join_event = Match nat nat | NotFound nat

text \<open>The template parameters. \<open>None\<close> is the \<open>noop\<close> of the finder arguments; a finder gets the row
  and the searched range and returns the iterators it yields and whether it sets
  \<open>outOfOrderFound\<close>.\<close>

type_synonym 'row undef_finder = "'row \<Rightarrow> 'row list \<Rightarrow> nat list \<times> bool"

record 'row zipper_args =
  lessThan :: "'row \<Rightarrow> 'row \<Rightarrow> bool"
  findSmallerUndefRangesLeft :: "'row undef_finder option"
  findSmallerUndefRangesRight :: "'row undef_finder option"
  rowHasNoUndef :: "'row \<Rightarrow> bool"
  hasNotFoundAction :: bool
  CoverUndefRanges :: bool

record zipper_state =
  events :: "join_event list"
  coveredFromLeft :: "bool list"
  outOfOrderFound :: bool

definition cover :: "'row zipper_args \<Rightarrow> nat \<Rightarrow> zipper_state \<Rightarrow> zipper_state" where
  "cover z i st =
     (if hasNotFoundAction z then st\<lparr>coveredFromLeft := (coveredFromLeft st)[i := True]\<rparr> else st)"

definition compatibleRowAction :: "nat \<Rightarrow> nat \<Rightarrow> zipper_state \<Rightarrow> zipper_state" where
  "compatibleRowAction i j st = st\<lparr>events := events st @ [Match i j]\<rparr>"

definition elFromFirstNotFoundAction ::
    "'row zipper_args \<Rightarrow> nat \<Rightarrow> zipper_state \<Rightarrow> zipper_state" where
  "elFromFirstNotFoundAction z i st =
     (if hasNotFoundAction z then st\<lparr>events := events st @ [NotFound i]\<rparr> else st)"

definition runFinder ::
    "'row undef_finder \<Rightarrow> 'row \<Rightarrow> 'row list \<Rightarrow> zipper_state \<Rightarrow> nat list \<times> zipper_state" where
  "runFinder f row xs st =
     (let (its, unsorted) = f row xs
      in (its, st\<lparr>outOfOrderFound := outOfOrderFound st \<or> unsorted\<rparr>))"

definition mergeWithUndefLeft ::
    "'row zipper_args \<Rightarrow> 'row list \<Rightarrow> 'row list \<Rightarrow> nat \<Rightarrow> nat \<Rightarrow> zipper_state \<Rightarrow> zipper_state" where
  "mergeWithUndefLeft z left right itFromRight leftEnd st =
     (case findSmallerUndefRangesLeft z of
        None \<Rightarrow> st
      | Some f \<Rightarrow>
          let (its, st') = runFinder f (right ! itFromRight) (take leftEnd left) st in
          fold (\<lambda>it st.
            if lessThan z (left ! it) (right ! itFromRight) then
              let st = compatibleRowAction it itFromRight st in
              if CoverUndefRanges z then cover z it st else st
            else st) its st')"

definition containsNoUndefined :: "'row zipper_args \<Rightarrow> 'row \<Rightarrow> bool" where
  "containsNoUndefined z row =
     (if findSmallerUndefRangesLeft z = None \<and> findSmallerUndefRangesRight z = None then True
      else rowHasNoUndef z row)"

definition notFoundStep ::
    "'row zipper_args \<Rightarrow> 'row list \<Rightarrow> nat \<Rightarrow> bool \<Rightarrow> zipper_state \<Rightarrow> zipper_state" where
  "notFoundStep z left itFromLeft hasNoMatch st =
     (if hasNoMatch \<and> containsNoUndefined z (left ! itFromLeft)
      then cover z itFromLeft (elFromFirstNotFoundAction z itFromLeft st) else st)"

definition mergeWithUndefRight ::
    "'row zipper_args \<Rightarrow> 'row list \<Rightarrow> 'row list \<Rightarrow> nat \<Rightarrow> nat \<Rightarrow> bool \<Rightarrow> zipper_state \<Rightarrow> zipper_state"
  where
  "mergeWithUndefRight z left right itFromLeft endRight hasNoMatch st =
     (case findSmallerUndefRangesRight z of
        None \<Rightarrow> notFoundStep z left itFromLeft hasNoMatch st
      | Some f \<Rightarrow>
          let (its, st') = runFinder f (left ! itFromLeft) (take endRight right) st;
              (compatibleWasFound, st'') =
                fold (\<lambda>it (found, st).
                  if lessThan z (right ! it) (left ! itFromLeft)
                  then (True, compatibleRowAction itFromLeft it st)
                  else (found, st)) its (False, st')
          in if compatibleWasFound then cover z itFromLeft st''
             else notFoundStep z left itFromLeft hasNoMatch st'')"

text \<open>The two inner \<open>while\<close> loops; a result at the end of the range is the early \<open>return\<close>.\<close>

function skipLeft ::
    "'row zipper_args \<Rightarrow> 'row list \<Rightarrow> 'row list \<Rightarrow> nat \<Rightarrow> nat \<Rightarrow> zipper_state \<Rightarrow> nat \<times> zipper_state"
  where
  "skipLeft z left right it1 it2 st =
     (if it1 < length left \<and> lessThan z (left ! it1) (right ! it2)
      then skipLeft z left right (Suc it1) it2 (mergeWithUndefRight z left right it1 it2 True st)
      else (it1, st))"
  by pat_completeness auto
termination by (relation "measure (\<lambda>(z, left, right, it1, it2, st). length left - it1)") auto

function skipRight ::
    "'row zipper_args \<Rightarrow> 'row list \<Rightarrow> 'row list \<Rightarrow> nat \<Rightarrow> nat \<Rightarrow> zipper_state \<Rightarrow> nat \<times> zipper_state"
  where
  "skipRight z left right it1 it2 st =
     (if it2 < length right \<and> lessThan z (right ! it2) (left ! it1)
      then skipRight z left right it1 (Suc it2) (mergeWithUndefLeft z left right it2 it1 st)
      else (it2, st))"
  by pat_completeness auto
termination by (relation "measure (\<lambda>(z, left, right, it1, it2, st). length right - it2)") auto

definition find_if_not :: "('row \<Rightarrow> bool) \<Rightarrow> 'row list \<Rightarrow> nat \<Rightarrow> nat" where
  "find_if_not P xs i = i + length (takeWhile P (drop i xs))"

definition eqRows :: "('row \<Rightarrow> 'row \<Rightarrow> bool) \<Rightarrow> 'row \<Rightarrow> 'row \<Rightarrow> bool" where
  "eqRows lt a b \<longleftrightarrow> \<not> lt a b \<and> \<not> lt b a"

text \<open>The body of the outer loop once both inner loops have stopped inside their ranges.\<close>

definition joinEqualRanges ::
    "'row zipper_args \<Rightarrow> 'row list \<Rightarrow> 'row list \<Rightarrow> nat \<Rightarrow> nat \<Rightarrow> nat \<Rightarrow> nat \<Rightarrow> zipper_state
      \<Rightarrow> zipper_state" where
  "joinEqualRanges z left right it1 endSame1 it2 endSame2 st =
     (let st = fold (\<lambda>it. mergeWithUndefRight z left right it it2 False) [it1..<endSame1] st;
          st = fold (\<lambda>it. mergeWithUndefLeft z left right it it1) [it2..<endSame2] st
      in fold (\<lambda>it st. fold (compatibleRowAction it) [it2..<endSame2] (cover z it st))
           [it1..<endSame1] st)"

declare skipLeft.simps [simp del] skipRight.simps [simp del]

lemma skipLeft_ge: "it1 \<le> fst (skipLeft z left right it1 it2 st)"
proof (induction z left right it1 it2 st rule: skipLeft.induct)
  case (1 z left right it1 it2 st)
  then show ?case by (subst skipLeft.simps) auto
qed

lemma skipRight_ge: "it2 \<le> fst (skipRight z left right it1 it2 st)"
proof (induction z left right it1 it2 st rule: skipRight.induct)
  case (1 z left right it1 it2 st)
  then show ?case by (subst skipRight.simps) auto
qed

lemma skipLeft_stop:
  "fst (skipLeft z left right it1 it2 st) < length left \<Longrightarrow>
   \<not> lessThan z (left ! fst (skipLeft z left right it1 it2 st)) (right ! it2)"
proof (induction z left right it1 it2 st rule: skipLeft.induct)
  case (1 z left right it1 it2 st)
  show ?case
    using 1 by (auto simp: skipLeft.simps [of z left right it1 it2 st] split: if_splits)
qed

lemma skipRight_stop:
  "fst (skipRight z left right it1 it2 st) < length right \<Longrightarrow>
   \<not> lessThan z (right ! fst (skipRight z left right it1 it2 st)) (left ! it1)"
proof (induction z left right it1 it2 st rule: skipRight.induct)
  case (1 z left right it1 it2 st)
  show ?case
    using 1 by (auto simp: skipRight.simps [of z left right it1 it2 st] split: if_splits)
qed

lemma find_if_not_bounds:
  "i \<le> find_if_not P xs i"
  "i \<le> length xs \<Longrightarrow> find_if_not P xs i \<le> length xs"
  "i < length xs \<Longrightarrow> P (xs ! i) \<Longrightarrow> i < find_if_not P xs i"
proof -
  show "i \<le> find_if_not P xs i" by (simp add: find_if_not_def)
  show "i \<le> length xs \<Longrightarrow> find_if_not P xs i \<le> length xs"
    using length_takeWhile_le [of P "drop i xs"] by (simp add: find_if_not_def)
  show "i < length xs \<Longrightarrow> P (xs ! i) \<Longrightarrow> i < find_if_not P xs i"
    by (simp add: find_if_not_def Cons_nth_drop_Suc [symmetric])
qed

function zipperLoop ::
    "'row zipper_args \<Rightarrow> 'row list \<Rightarrow> 'row list \<Rightarrow> nat \<Rightarrow> nat \<Rightarrow> zipper_state
      \<Rightarrow> nat \<times> nat \<times> zipper_state" where
  "zipperLoop z left right it1 it2 st =
     (if it1 < length left \<and> it2 < length right then
        (case skipLeft z left right it1 it2 st of (it1, st) \<Rightarrow>
         if it1 \<ge> length left then (it1, it2, st) else
         (case skipRight z left right it1 it2 st of (it2, st) \<Rightarrow>
          if it2 \<ge> length right then (it1, it2, st) else
          let endSame1 = find_if_not (\<lambda>row. eqRows (lessThan z) row (right ! it2)) left it1;
              endSame2 = find_if_not (\<lambda>row. eqRows (lessThan z) (left ! it1) row) right it2
          in zipperLoop z left right endSame1 endSame2
               (joinEqualRanges z left right it1 endSame1 it2 endSame2 st)))
      else (it1, it2, st))"
  by pat_completeness auto
termination
proof (relation "measure (\<lambda>(z, left, right, it1, it2, st).
    (length left - it1) + (length right - it2))", goal_cases)
  case 1
  then show ?case by simp
next
  case (2 z left right it1 it2 st it1' st1 it2' st2 endSame1 endSame2)
  have fsts: "fst (skipLeft z left right it1 it2 st) = it1'"
      "fst (skipRight z left right it1' it2 st1) = it2'"
    using 2 by (metis fst_conv)+
  have ge: "it1 \<le> it1'" "it2 \<le> it2'"
    using skipLeft_ge [of it1 z left right it2 st] skipRight_ge [of it2 z left right it1' st1] fsts
    by simp_all
  have ends: "it1' \<le> endSame1" "endSame1 \<le> length left" "it2' \<le> endSame2" "endSame2 \<le> length right"
    using 2 find_if_not_bounds(1) by (auto intro!: find_if_not_bounds(2))
  have "it1 < endSame1 \<or> it2 < endSame2"
  proof (cases "it1' = it1 \<and> it2' = it2")
    case True
    then have "eqRows (lessThan z) (left ! it1') (right ! it2')"
      using 2 skipLeft_stop [of z left right it1 it2 st]
        skipRight_stop [of z left right it1' it2 st1] fsts by (auto simp: eqRows_def)
    then show ?thesis using True 2 find_if_not_bounds(3) [of it1' left] by auto
  next
    case False
    then show ?thesis using ge ends by linarith
  qed
  then show ?case using ge ends 2 by auto
qed

definition initialState :: "'row zipper_args \<Rightarrow> 'row list \<Rightarrow> zipper_state" where
  "initialState z left =
     \<lparr>events = [],
      coveredFromLeft = (if hasNotFoundAction z then replicate (length left) False else []),
      outOfOrderFound = False\<rparr>"

text \<open>The run up to the point where only the uncovered rows of the left input are left.\<close>

definition zipperRun :: "'row zipper_args \<Rightarrow> 'row list \<Rightarrow> 'row list \<Rightarrow> zipper_state" where
  "zipperRun z left right =
     (let (it1, it2, st) = zipperLoop z left right 0 0 (initialState z left);
          st = fold (\<lambda>it. mergeWithUndefLeft z left right it (length left)) [it2..<length right] st
      in fold (\<lambda>it. mergeWithUndefRight z left right it (length right) True) [it1..<length left] st)"

definition zipperJoinWithUndef ::
    "'row zipper_args \<Rightarrow> 'row list \<Rightarrow> 'row list \<Rightarrow> nat \<times> join_event list" where
  "zipperJoinWithUndef z left right =
     (let st = zipperRun z left right;
          atEnd = filter (\<lambda>i. \<not> coveredFromLeft st ! i) [0..<length (coveredFromLeft st)];
          st = fold (elFromFirstNotFoundAction z) atEnd st;
          numOutOfOrder = (if outOfOrderFound st then 2 ^ 64 - 1 else length atEnd)
      in (numOutOfOrder, events st))"

section \<open>The effect of the merge steps\<close>

definition undefRight :: "'row zipper_args \<Rightarrow> 'row list \<Rightarrow> 'row list \<Rightarrow> nat \<Rightarrow> nat \<Rightarrow> nat list" where
  "undefRight z left right i n =
     (case findSmallerUndefRangesRight z of None \<Rightarrow> []
      | Some f \<Rightarrow> filter (\<lambda>j. lessThan z (right ! j) (left ! i)) (fst (f (left ! i) (take n right))))"

definition undefLeft :: "'row zipper_args \<Rightarrow> 'row list \<Rightarrow> 'row list \<Rightarrow> nat \<Rightarrow> nat \<Rightarrow> nat list" where
  "undefLeft z left right j n =
     (case findSmallerUndefRangesLeft z of None \<Rightarrow> []
      | Some f \<Rightarrow> filter (\<lambda>i. lessThan z (left ! i) (right ! j)) (fst (f (right ! j) (take n left))))"

definition coverAll :: "nat list \<Rightarrow> bool list \<Rightarrow> bool list" where
  "coverAll is c = fold (\<lambda>i c. c[i := True]) is c"

lemma coverAll_simps [simp]:
  "coverAll [] c = c"
  "coverAll (i # is) c = coverAll is (c[i := True])"
  "coverAll (is @ js) c = coverAll js (coverAll is c)"
  by (simp_all add: coverAll_def)

lemma length_coverAll [simp]: "length (coverAll is c) = length c"
  by (induction "is" arbitrary: c) auto

lemma nth_coverAll: "i < length c \<Longrightarrow> coverAll is c ! i \<longleftrightarrow> i \<in> set is \<or> c ! i"
proof (induction "is" arbitrary: c)
  case (Cons a "is")
  then show ?case by (cases "a = i") auto
qed simp

lemma coverAll_snoc: "coverAll (is @ [i]) c = (coverAll is c)[i := True]"
  by (simp add: coverAll_def)

lemma cover_effect [simp]:
  "events (cover z i st) = events st"
  "outOfOrderFound (cover z i st) = outOfOrderFound st"
  "coveredFromLeft (cover z i st) =
     (if hasNotFoundAction z then (coveredFromLeft st)[i := True] else coveredFromLeft st)"
  by (simp_all add: cover_def)

lemma compatibleRowAction_effect [simp]:
  "events (compatibleRowAction i j st) = events st @ [Match i j]"
  "outOfOrderFound (compatibleRowAction i j st) = outOfOrderFound st"
  "coveredFromLeft (compatibleRowAction i j st) = coveredFromLeft st"
  by (simp_all add: compatibleRowAction_def)

lemma elFromFirstNotFoundAction_effect [simp]:
  "events (elFromFirstNotFoundAction z i st) =
     events st @ (if hasNotFoundAction z then [NotFound i] else [])"
  "outOfOrderFound (elFromFirstNotFoundAction z i st) = outOfOrderFound st"
  "coveredFromLeft (elFromFirstNotFoundAction z i st) = coveredFromLeft st"
  by (simp_all add: elFromFirstNotFoundAction_def)

lemma fold_compatibleRowAction [simp]:
  "events (fold (compatibleRowAction i) js st) = events st @ map (Match i) js"
  "outOfOrderFound (fold (compatibleRowAction i) js st) = outOfOrderFound st"
  "coveredFromLeft (fold (compatibleRowAction i) js st) = coveredFromLeft st"
  by (induction js arbitrary: st) auto

lemma fold_elFromFirstNotFoundAction [simp]:
  "events (fold (elFromFirstNotFoundAction z) is st) =
     events st @ (if hasNotFoundAction z then map NotFound is else [])"
  "outOfOrderFound (fold (elFromFirstNotFoundAction z) is st) = outOfOrderFound st"
  "coveredFromLeft (fold (elFromFirstNotFoundAction z) is st) = coveredFromLeft st"
  by (induction "is" arbitrary: st) auto

lemma mergeLeft_loop:
  fixes z :: "'row zipper_args"
  defines "step \<equiv> \<lambda>P j it st. if P it then
       let st = compatibleRowAction it j st in
       if CoverUndefRanges z then cover z it st else st
     else st"
  shows "events (fold (step P j) its st) = events st @ map (\<lambda>i. Match i j) (filter P its)"
    and "coveredFromLeft (fold (step P j) its st) =
      (if hasNotFoundAction z \<and> CoverUndefRanges z then coverAll (filter P its) (coveredFromLeft st)
       else coveredFromLeft st)"
    and "outOfOrderFound (fold (step P j) its st) = outOfOrderFound st"
  by (induction its arbitrary: st) (auto simp: step_def Let_def)

lemma mergeRight_loop:
  fixes i :: nat
  defines "step \<equiv> \<lambda>P it (found, st). if P it
     then (True, compatibleRowAction i it st) else (found, st)"
  shows "fold (step P) its (b, st) =
    (b \<or> filter P its \<noteq> [], fold (compatibleRowAction i) (filter P its) st)"
  by (induction its arbitrary: b st) (auto simp: step_def)

lemma mergeWithUndefLeft_effect [simp]:
  "events (mergeWithUndefLeft z left right j n st) =
     events st @ map (\<lambda>i. Match i j) (undefLeft z left right j n)"
  "coveredFromLeft (mergeWithUndefLeft z left right j n st) =
     (if hasNotFoundAction z \<and> CoverUndefRanges z
      then coverAll (undefLeft z left right j n) (coveredFromLeft st) else coveredFromLeft st)"
  by (auto simp: mergeWithUndefLeft_def undefLeft_def runFinder_def mergeLeft_loop
      split: option.split prod.split)

lemma mergeWithUndefRight_effect [simp]:
  "events (mergeWithUndefRight z left right i n hasNoMatch st) =
     events st @ map (Match i) (undefRight z left right i n) @
     (if undefRight z left right i n = [] \<and> hasNoMatch \<and> containsNoUndefined z (left ! i) \<and>
        hasNotFoundAction z then [NotFound i] else [])"
  "coveredFromLeft (mergeWithUndefRight z left right i n hasNoMatch st) =
     (if hasNotFoundAction z \<and>
        (undefRight z left right i n \<noteq> [] \<or> hasNoMatch \<and> containsNoUndefined z (left ! i))
      then (coveredFromLeft st)[i := True] else coveredFromLeft st)"
  by (auto simp: mergeWithUndefRight_def undefRight_def notFoundStep_def runFinder_def
      mergeRight_loop split: option.split prod.split)

lemma fold_mergeWithUndefLeft:
  "events (fold (\<lambda>j. mergeWithUndefLeft z left right j n) js st) =
     events st @ concat (map (\<lambda>j. map (\<lambda>i. Match i j) (undefLeft z left right j n)) js)"
  "coveredFromLeft (fold (\<lambda>j. mergeWithUndefLeft z left right j n) js st) =
     (if hasNotFoundAction z \<and> CoverUndefRanges z
      then coverAll (concat (map (\<lambda>j. undefLeft z left right j n) js)) (coveredFromLeft st)
      else coveredFromLeft st)"
  by (induction js arbitrary: st) auto

lemma fold_mergeWithUndefRight_noNotFound:
  "events (fold (\<lambda>i. mergeWithUndefRight z left right i n False) is st) =
     events st @ concat (map (\<lambda>i. map (Match i) (undefRight z left right i n)) is)"
  "coveredFromLeft (fold (\<lambda>i. mergeWithUndefRight z left right i n False) is st) =
     (if hasNotFoundAction z
      then coverAll (filter (\<lambda>i. undefRight z left right i n \<noteq> []) is) (coveredFromLeft st)
      else coveredFromLeft st)"
  by (induction "is" arbitrary: st) auto

lemma fold_equal_block:
  "events (fold (\<lambda>i st. fold (compatibleRowAction i) js (cover z i st)) is st) =
     events st @ concat (map (\<lambda>i. map (Match i) js) is)"
  "coveredFromLeft (fold (\<lambda>i st. fold (compatibleRowAction i) js (cover z i st)) is st) =
     (if hasNotFoundAction z then coverAll is (coveredFromLeft st) else coveredFromLeft st)"
  by (induction "is" arbitrary: st) auto

lemma joinEqualRanges_effect:
  "events (joinEqualRanges z left right it1 e1 it2 e2 st) =
     events st @ concat (map (\<lambda>i. map (Match i) (undefRight z left right i it2)) [it1..<e1]) @
     concat (map (\<lambda>j. map (\<lambda>i. Match i j) (undefLeft z left right j it1)) [it2..<e2]) @
     concat (map (\<lambda>i. map (Match i) [it2..<e2]) [it1..<e1])"
  "coveredFromLeft (joinEqualRanges z left right it1 e1 it2 e2 st) =
     (if hasNotFoundAction z \<and> CoverUndefRanges z then
        coverAll (filter (\<lambda>i. undefRight z left right i it2 \<noteq> []) [it1..<e1] @
          concat (map (\<lambda>j. undefLeft z left right j it1) [it2..<e2]) @ [it1..<e1]) (coveredFromLeft st)
      else if hasNotFoundAction z then
        coverAll (filter (\<lambda>i. undefRight z left right i it2 \<noteq> []) [it1..<e1] @ [it1..<e1])
          (coveredFromLeft st)
      else coveredFromLeft st)"
  by (simp_all add: joinEqualRanges_def Let_def fold_mergeWithUndefLeft
      fold_mergeWithUndefRight_noNotFound fold_equal_block)

lemma distinct_concat_map:
  assumes "distinct xs" and "\<And>x. x \<in> set xs \<Longrightarrow> distinct (f x)"
    and "\<And>x y. x \<in> set xs \<Longrightarrow> y \<in> set xs \<Longrightarrow> x \<noteq> y \<Longrightarrow> set (f x) \<inter> set (f y) = {}"
  shows "distinct (concat (map f xs))"
  using assms
proof (induction xs)
  case (Cons x xs)
  have "set (f x) \<inter> set (f y) = {}" if "y \<in> set xs" for y
    using Cons.prems(1,3) that by (metis distinct.simps(2) list.set_intros)
  then show ?case using Cons by auto
qed simp

section \<open>The interface of the zipper join\<close>

definition matches :: "join_event list \<Rightarrow> (nat \<times> nat) set" where
  "matches evs = {(i, j). Match i j \<in> set evs}"

definition notFounds :: "join_event list \<Rightarrow> nat set" where
  "notFounds evs = {i. NotFound i \<in> set evs}"

lemma matches_append [simp]: "matches (xs @ ys) = matches xs \<union> matches ys"
  by (auto simp: matches_def)

lemma notFounds_append [simp]: "notFounds (xs @ ys) = notFounds xs \<union> notFounds ys"
  by (auto simp: notFounds_def)

lemma events_simps [simp]:
  "matches [] = {}" "notFounds [] = {}"
  "matches (map (Match i) js) = {i} \<times> set js"
  "matches (map (\<lambda>i. Match i j) is) = set is \<times> {j}"
  "matches (map NotFound is) = {}"
  "notFounds (map (Match i) js) = {}"
  "notFounds (map (\<lambda>i. Match i j) is) = {}"
  "notFounds (map NotFound is) = set is"
  "matches [NotFound i] = {}" "notFounds [NotFound i] = {i}"
  by (auto simp: matches_def notFounds_def)

lemma events_concat [simp]:
  "matches (concat (map f xs)) = (\<Union>x\<in>set xs. matches (f x))"
  "notFounds (concat (map f xs)) = (\<Union>x\<in>set xs. notFounds (f x))"
  by (auto simp: matches_def notFounds_def)

lemma disjoint_events:
  "set xs \<inter> set ys = {} \<longleftrightarrow>
   matches xs \<inter> matches ys = {} \<and> notFounds xs \<inter> notFounds ys = {}"
proof -
  have iff: "(\<exists>e\<in>set xs. e \<in> set ys) \<longleftrightarrow>
      (\<exists>i j. Match i j \<in> set xs \<and> Match i j \<in> set ys) \<or>
      (\<exists>i. NotFound i \<in> set xs \<and> NotFound i \<in> set ys)"
    by (metis join_event.exhaust)
  then show ?thesis by (auto simp: matches_def notFounds_def disjoint_iff)
qed

lemma find_if_not_spec:
  "i \<le> k \<Longrightarrow> k < find_if_not P xs i \<Longrightarrow> P (xs ! k)"
  "i \<le> length xs \<Longrightarrow> find_if_not P xs i < length xs \<Longrightarrow> \<not> P (xs ! find_if_not P xs i)"
proof -
  show "P (xs ! k)" if k: "i \<le> k" "k < find_if_not P xs i"
  proof -
    have "k - i < length (takeWhile P (drop i xs))" using k by (simp add: find_if_not_def)
    moreover from this have "takeWhile P (drop i xs) ! (k - i) = xs ! k"
      using k length_takeWhile_le [of P "drop i xs"]
      by (simp add: takeWhile_nth nth_drop)
    ultimately show ?thesis by (metis nth_mem set_takeWhileD)
  qed
  show "\<not> P (xs ! find_if_not P xs i)" if "i \<le> length xs" "find_if_not P xs i < length xs"
    using that nth_length_takeWhile [of P "drop i xs"] by (simp add: find_if_not_def nth_drop)
qed

section \<open>Rows ordered by a strict weak order\<close>

text \<open>The contract of \<open>lessThan\<close>: a strict weak order on the rows that occur in the inputs.\<close>

locale row_order =
  fixes lt :: "'row \<Rightarrow> 'row \<Rightarrow> bool"
    and valid :: "'row \<Rightarrow> bool"
  assumes asym: "valid a \<Longrightarrow> valid b \<Longrightarrow> lt a b \<Longrightarrow> \<not> lt b a"
    and neg_trans: "valid a \<Longrightarrow> valid b \<Longrightarrow> valid c \<Longrightarrow> lt a b \<Longrightarrow> lt a c \<or> lt c b"
begin

definition input :: "'row list \<Rightarrow> bool" where
  "input xs \<longleftrightarrow> list_all valid xs \<and> sorted_wrt (\<lambda>a b. \<not> lt b a) xs"

lemma input_valid: "input xs \<Longrightarrow> i < length xs \<Longrightarrow> valid (xs ! i)"
  by (simp add: input_def list_all_length)

lemma input_take: "input xs \<Longrightarrow> input (take n xs)"
  by (auto simp: input_def list_all_iff sorted_wrt_take dest: in_set_takeD)

lemma input_sorted: "input xs \<Longrightarrow> i \<le> j \<Longrightarrow> j < length xs \<Longrightarrow> \<not> lt (xs ! j) (xs ! i)"
  using asym [OF input_valid input_valid, of xs j xs i]
  by (cases "i = j") (auto simp: input_def sorted_wrt_iff_nth_less)

lemma less_le_trans:
  assumes "valid a" "valid b" "valid c" "lt a b" "\<not> lt c b"
  shows "lt a c"
  using assms neg_trans [of a b c] by simp

lemma le_less_trans:
  assumes "valid a" "valid b" "valid c" "\<not> lt b a" "lt b c"
  shows "lt a c"
  using assms neg_trans [of b c a] by simp

lemma eq_trans:
  assumes "valid a" "valid b" "valid c" "eqRows lt a b" "eqRows lt b c"
  shows "eqRows lt a c"
  using assms neg_trans [of a c b] neg_trans [of c a b] by (auto simp: eqRows_def)

lemma eq_less_trans:
  assumes "valid a" "valid b" "valid c" "eqRows lt a b" "lt b c"
  shows "lt a c"
  using assms neg_trans [of b c a] by (auto simp: eqRows_def)

lemma eqRows_sym: "eqRows lt a b \<Longrightarrow> eqRows lt b a"
  by (auto simp: eqRows_def)

text \<open>A range of rows equal to a given row ends where the rows become larger.\<close>

lemma equal_range:
  assumes xs: "input xs" and b: "valid b" and it: "it < length xs" and eq: "eqRows lt (xs ! it) b"
    and e: "e = find_if_not P xs it" and P: "\<And>row. P row \<longleftrightarrow> eqRows lt row b"
  shows "it < e" "e \<le> length xs"
    and "\<And>i. it \<le> i \<Longrightarrow> i < e \<Longrightarrow> eqRows lt (xs ! i) b"
    and "\<And>i. e \<le> i \<Longrightarrow> i < length xs \<Longrightarrow> lt b (xs ! i)"
proof -
  show "it < e" "e \<le> length xs" using find_if_not_bounds(2) [of it xs P] find_if_not_bounds(3) [of it xs P] it eq
    by (simp_all add: e P)
  show "eqRows lt (xs ! i) b" if "it \<le> i" "i < e" for i
    using find_if_not_spec(1) [of it i P xs] that by (simp add: e P)
  show "lt b (xs ! i)" if i: "e \<le> i" "i < length xs" for i
  proof -
    have ge: "\<not> lt (xs ! e) (xs ! it)" "\<not> lt (xs ! i) (xs ! e)"
      using input_sorted [OF xs] i \<open>it < e\<close> by auto
    have "\<not> eqRows lt (xs ! e) b" using find_if_not_spec(2) [of it xs P] i it by (auto simp: e P)
    then have "lt b (xs ! e)"
      using neg_trans [of "xs ! e" b "xs ! it"] ge eq i it b input_valid [OF xs]
      by (auto simp: eqRows_def)
    then show ?thesis using less_le_trans [of b "xs ! e" "xs ! i"] ge i b input_valid [OF xs] by auto
  qed
qed

end

text \<open>What the arguments of the join promise: \<open>lessThan\<close> is a strict weak order on the rows, the
  finders yield exactly the compatible rows among the smaller rows of the other input, provided that
  the searched range contains all smaller rows, and a row without UNDEF is compatible with no larger
  row. A \<open>noop\<close> finder yields nothing. The finder for the left input may be built for one
  particular left input (\<open>leftOk\<close>).\<close>

definition found :: "'row undef_finder option \<Rightarrow> 'row \<Rightarrow> 'row list \<Rightarrow> nat list" where
  "found f row xs = (case f of None \<Rightarrow> [] | Some f \<Rightarrow> fst (f row xs))"

definition finder_exact ::
    "('row \<Rightarrow> 'row \<Rightarrow> bool) \<Rightarrow> 'row undef_finder option \<Rightarrow> ('row \<Rightarrow> bool) \<Rightarrow> 'row \<Rightarrow> 'row list \<Rightarrow> nat \<Rightarrow> bool"
  where
  "finder_exact lt f compatible row xs n \<longleftrightarrow>
     distinct (found f row (take n xs)) \<and>
     {i \<in> set (found f row (take n xs)). lt (xs ! i) row} =
     {i. i < n \<and> lt (xs ! i) row \<and> compatible (xs ! i)}"

locale zipper_join = row_order "lessThan z" valid
  for z :: "'row zipper_args" and valid :: "'row \<Rightarrow> bool" +
  fixes compat :: "'row \<Rightarrow> 'row \<Rightarrow> bool"
    and leftOk :: "'row list \<Rightarrow> bool"
  assumes equal_compat: "valid a \<Longrightarrow> valid b \<Longrightarrow> \<not> lessThan z a b \<Longrightarrow> \<not> lessThan z b a \<Longrightarrow> compat a b"
    and foundLeft: "valid row \<Longrightarrow> input xs \<Longrightarrow> leftOk xs \<Longrightarrow> n \<le> length xs \<Longrightarrow>
      (\<And>i. n \<le> i \<Longrightarrow> i < length xs \<Longrightarrow> \<not> lessThan z (xs ! i) row) \<Longrightarrow>
      finder_exact (lessThan z) (findSmallerUndefRangesLeft z) (\<lambda>a. compat a row) row xs n"
    and foundRight: "valid row \<Longrightarrow> input xs \<Longrightarrow> n \<le> length xs \<Longrightarrow>
      (\<And>i. n \<le> i \<Longrightarrow> i < length xs \<Longrightarrow> \<not> lessThan z (xs ! i) row) \<Longrightarrow>
      finder_exact (lessThan z) (findSmallerUndefRangesRight z) (\<lambda>a. compat row a) row xs n"
    and noUndef_incompat: "valid a \<Longrightarrow> valid b \<Longrightarrow> containsNoUndefined z a \<Longrightarrow> lessThan z a b \<Longrightarrow>
      \<not> compat a b"
    and covers: "CoverUndefRanges z"
begin

lemma undefRight_spec:
  assumes "input left" "input right" "i < length left" "n \<le> length right"
    and "\<And>j. n \<le> j \<Longrightarrow> j < length right \<Longrightarrow> \<not> lessThan z (right ! j) (left ! i)"
  shows "distinct (undefRight z left right i n)"
    and "set (undefRight z left right i n) =
      {j. j < n \<and> lessThan z (right ! j) (left ! i) \<and> compat (left ! i) (right ! j)}"
proof -
  have "undefRight z left right i n = filter (\<lambda>j. lessThan z (right ! j) (left ! i))
      (found (findSmallerUndefRangesRight z) (left ! i) (take n right))"
    by (simp add: undefRight_def found_def split: option.split)
  then show "distinct (undefRight z left right i n)" and "set (undefRight z left right i n) =
      {j. j < n \<and> lessThan z (right ! j) (left ! i) \<and> compat (left ! i) (right ! j)}"
    using foundRight [OF input_valid [OF assms(1,3)] assms(2,4,5)] by (simp_all add: finder_exact_def)
qed

lemma undefLeft_spec:
  assumes "input left" "leftOk left" "input right" "j < length right" "n \<le> length left"
    and "\<And>i. n \<le> i \<Longrightarrow> i < length left \<Longrightarrow> \<not> lessThan z (left ! i) (right ! j)"
  shows "distinct (undefLeft z left right j n)"
    and "set (undefLeft z left right j n) =
      {i. i < n \<and> lessThan z (left ! i) (right ! j) \<and> compat (left ! i) (right ! j)}"
proof -
  have "undefLeft z left right j n = filter (\<lambda>i. lessThan z (left ! i) (right ! j))
      (found (findSmallerUndefRangesLeft z) (right ! j) (take n left))"
    by (simp add: undefLeft_def found_def split: option.split)
  then show "distinct (undefLeft z left right j n)" and "set (undefLeft z left right j n) =
      {i. i < n \<and> lessThan z (left ! i) (right ! j) \<and> compat (left ! i) (right ! j)}"
    using foundLeft [OF input_valid [OF assms(3,4)] assms(1,2,5,6)] by (simp_all add: finder_exact_def)
qed

text \<open>The state of the algorithm when the iterators are at \<open>it1\<close> and \<open>it2\<close>: everything before the
  two iterators has been joined, and nothing else.\<close>

definition separated :: "'row list \<Rightarrow> 'row list \<Rightarrow> nat \<Rightarrow> nat \<Rightarrow> bool" where
  "separated left right it1 it2 \<longleftrightarrow>
     (\<forall>i j. i < it1 \<longrightarrow> it2 \<le> j \<longrightarrow> j < length right \<longrightarrow> lessThan z (left ! i) (right ! j)) \<and>
     (\<forall>i j. j < it2 \<longrightarrow> it1 \<le> i \<longrightarrow> i < length left \<longrightarrow> lessThan z (right ! j) (left ! i))"

definition joined :: "'row list \<Rightarrow> 'row list \<Rightarrow> nat \<Rightarrow> nat \<Rightarrow> (nat \<times> nat) set" where
  "joined left right it1 it2 = {(i, j). i < it1 \<and> j < it2 \<and> compat (left ! i) (right ! j)}"

definition unmatched :: "'row list \<Rightarrow> 'row list \<Rightarrow> nat \<Rightarrow> nat \<Rightarrow> nat set" where
  "unmatched left right it1 it2 = {i. i < it1 \<and> (\<forall>j<it2. \<not> compat (left ! i) (right ! j))}"

definition zinv :: "'row list \<Rightarrow> 'row list \<Rightarrow> nat \<Rightarrow> nat \<Rightarrow> zipper_state \<Rightarrow> bool" where
  "zinv left right it1 it2 st \<longleftrightarrow>
     it1 \<le> length left \<and> it2 \<le> length right \<and> separated left right it1 it2 \<and>
     distinct (events st) \<and> matches (events st) = joined left right it1 it2 \<and>
     notFounds (events st) = (if hasNotFoundAction z
       then {i \<in> unmatched left right it1 it2. containsNoUndefined z (left ! i)} else {}) \<and>
     length (coveredFromLeft st) = (if hasNotFoundAction z then length left else 0) \<and>
     (hasNotFoundAction z \<longrightarrow> (\<forall>i<length left. coveredFromLeft st ! i \<longleftrightarrow>
       i < it1 \<and> (containsNoUndefined z (left ! i) \<or> i \<notin> unmatched left right it1 it2)))"

lemma zinv_stepLeft:
  assumes inp: "input left" "leftOk left" "input right" and inv: "zinv left right it1 it2 st"
    and it1: "it1 < length left"
    and less: "\<And>j. it2 \<le> j \<Longrightarrow> j < length right \<Longrightarrow> lessThan z (left ! it1) (right ! j)"
  shows "zinv left right (Suc it1) it2 (mergeWithUndefRight z left right it1 it2 True st)"
proof -
  have it2: "it2 \<le> length right" and sep: "separated left right it1 it2"
    using inv by (auto simp: zinv_def)
  have notLess: "\<not> lessThan z (right ! j) (left ! it1)" if "it2 \<le> j" "j < length right" for j
    using asym less [OF that] input_valid [OF inp(1) it1] input_valid [OF inp(3) that(2)] by blast
  have R: "set (undefRight z left right it1 it2) = {j. j < it2 \<and> compat (left ! it1) (right ! j)}"
    using undefRight_spec(2) [OF inp(1,3) it1 it2 notLess] sep it1 by (auto simp: separated_def)
  have empty: "undefRight z left right it1 it2 = [] \<longleftrightarrow>
      (\<forall>j<it2. \<not> compat (left ! it1) (right ! j))"
    using R by (metis (no_types, lifting) empty_Collect_eq set_empty)
  have joined: "joined left right (Suc it1) it2 = joined left right it1 it2 \<union>
      {it1} \<times> set (undefRight z left right it1 it2)"
    unfolding R by (auto simp: joined_def less_Suc_eq)
  have unm: "unmatched left right (Suc it1) it2 = unmatched left right it1 it2 \<union>
      (if undefRight z left right it1 it2 = [] then {it1} else {})"
    unfolding empty by (auto simp: unmatched_def less_Suc_eq)
  have notin: "it1 \<notin> unmatched left right it1 it2" by (simp add: unmatched_def)
  have sep': "separated left right (Suc it1) it2"
    using sep less by (auto simp: separated_def less_Suc_eq)
  have "it1 \<notin> fst ` matches (events st)" "it1 \<notin> notFounds (events st)"
    using inv by (auto simp: zinv_def joined_def unmatched_def)
  then have new: "Match it1 j \<notin> set (events st)" "NotFound it1 \<notin> set (events st)" for j
    by (force simp: matches_def notFounds_def)+
  let ?st = "mergeWithUndefRight z left right it1 it2 True st"
  have dist: "distinct (events ?st)"
    using new inv undefRight_spec(1) [OF inp(1,3) it1 it2 notLess]
    by (auto simp: zinv_def distinct_map inj_on_def)
  have len: "length (coveredFromLeft ?st) = (if hasNotFoundAction z then length left else 0)"
    using inv by (auto simp: zinv_def)
  have nf: "notFounds (events ?st) = (if hasNotFoundAction z
       then {i \<in> unmatched left right (Suc it1) it2. containsNoUndefined z (left ! i)} else {})"
    using inv by (auto simp: zinv_def unm)
  have cov: "coveredFromLeft ?st ! i \<longleftrightarrow>
       i < Suc it1 \<and> (containsNoUndefined z (left ! i) \<or> i \<notin> unmatched left right (Suc it1) it2)"
    if "hasNotFoundAction z" "i < length left" for i
    using inv that notin by (cases "i = it1") (auto simp: zinv_def unm)
  show ?thesis
    using it1 it2 sep' dist len nf cov inv unfolding zinv_def by (simp add: joined)
qed

lemma undefLeft_noUndef:
  assumes "input left" "leftOk left" "input right" "j < length right" "n \<le> length left"
    and "\<And>i. n \<le> i \<Longrightarrow> i < length left \<Longrightarrow> \<not> lessThan z (left ! i) (right ! j)"
    and "i \<in> set (undefLeft z left right j n)"
  shows "\<not> containsNoUndefined z (left ! i)"
  using assms undefLeft_spec(2) [OF assms(1-6)]
    noUndef_incompat [OF input_valid [OF assms(1)] input_valid [OF assms(3,4)]] by auto

lemma zinv_stepRight:
  assumes inp: "input left" "leftOk left" "input right" and inv: "zinv left right it1 it2 st"
    and it2: "it2 < length right"
    and less: "\<And>i. it1 \<le> i \<Longrightarrow> i < length left \<Longrightarrow> lessThan z (right ! it2) (left ! i)"
  shows "zinv left right it1 (Suc it2) (mergeWithUndefLeft z left right it2 it1 st)"
proof -
  have it1: "it1 \<le> length left" and sep: "separated left right it1 it2"
    using inv by (auto simp: zinv_def)
  let ?L = "undefLeft z left right it2 it1"
  have notLess: "\<not> lessThan z (left ! i) (right ! it2)" if "it1 \<le> i" "i < length left" for i
    using asym less [OF that] input_valid [OF inp(3) it2] input_valid [OF inp(1) that(2)] by blast
  have L: "set ?L = {i. i < it1 \<and> compat (left ! i) (right ! it2)}"
    using undefLeft_spec(2) [OF inp it2 it1 notLess] sep it2 by (auto simp: separated_def)
  note noU = undefLeft_noUndef [OF inp it2 it1 notLess]
  have joined: "joined left right it1 (Suc it2) = joined left right it1 it2 \<union> set ?L \<times> {it2}"
    unfolding L by (auto simp: joined_def less_Suc_eq)
  have unm: "unmatched left right it1 (Suc it2) = unmatched left right it1 it2 - set ?L"
    unfolding L by (auto simp: unmatched_def less_Suc_eq)
  have sep': "separated left right it1 (Suc it2)"
    using sep less by (auto simp: separated_def less_Suc_eq)
  have "it2 \<notin> snd ` matches (events st)" using inv by (auto simp: zinv_def joined_def)
  then have new: "Match i it2 \<notin> set (events st)" for i by (force simp: matches_def)
  let ?st = "mergeWithUndefLeft z left right it2 it1 st"
  have dist: "distinct (events ?st)"
    using new inv undefLeft_spec(1) [OF inp it2 it1 notLess]
    by (auto simp: zinv_def distinct_map inj_on_def)
  have len: "length (coveredFromLeft ?st) = (if hasNotFoundAction z then length left else 0)"
    using inv by (auto simp: zinv_def)
  have nf: "notFounds (events ?st) = (if hasNotFoundAction z
       then {i \<in> unmatched left right it1 (Suc it2). containsNoUndefined z (left ! i)} else {})"
    using inv noU by (auto simp: zinv_def unm)
  have cov: "coveredFromLeft ?st ! i \<longleftrightarrow>
       i < it1 \<and> (containsNoUndefined z (left ! i) \<or> i \<notin> unmatched left right it1 (Suc it2))"
    if "hasNotFoundAction z" "i < length left" for i
    using inv that covers L unfolding zinv_def unm by (simp add: nth_coverAll) blast
  show ?thesis
    using it1 it2 sep' dist len nf cov inv unfolding zinv_def by (simp add: joined)
qed

lemma zinv_equalRanges:
  assumes inp: "input left" "leftOk left" "input right" and inv: "zinv left right it1 it2 st"
    and e: "it1 \<le> e1" "e1 \<le> length left" "it2 \<le> e2" "e2 \<le> length right" "it1 < e1 \<Longrightarrow> it2 < e2"
    and same: "\<And>i j. it1 \<le> i \<Longrightarrow> i < e1 \<Longrightarrow> it2 \<le> j \<Longrightarrow> j < e2 \<Longrightarrow> eqRows (lessThan z) (left ! i) (right ! j)"
    and sep': "separated left right e1 e2"
  shows "zinv left right e1 e2 (joinEqualRanges z left right it1 e1 it2 e2 st)"
proof -
  have sep: "separated left right it1 it2" using inv by (auto simp: zinv_def)
  have same': "compat (left ! i) (right ! j)" if "it1 \<le> i" "i < e1" "it2 \<le> j" "j < e2" for i j
    using same [OF that] equal_compat [of "left ! i" "right ! j"] that e
      input_valid [OF inp(1)] input_valid [OF inp(3)] by (auto simp: eqRows_def)
  have preL: "\<not> lessThan z (left ! i) (right ! j)" if "it2 \<le> j" "j < e2" "it1 \<le> i" "i < length left" for i j
    using that same [of i j] sep' asym [of "right ! j" "left ! i"] e
      input_valid [OF inp(1)] input_valid [OF inp(3)]
    by (cases "i < e1") (auto simp: eqRows_def separated_def not_less)
  have preR: "\<not> lessThan z (right ! j) (left ! i)" if "it1 \<le> i" "i < e1" "it2 \<le> j" "j < length right" for i j
    using that same [of i j] sep' asym [of "left ! i" "right ! j"] e
      input_valid [OF inp(1)] input_valid [OF inp(3)]
    by (cases "j < e2") (auto simp: eqRows_def separated_def not_less)
  let ?L = "\<lambda>j. undefLeft z left right j it1" and ?R = "\<lambda>i. undefRight z left right i it2"
  have L: "set (?L j) = {i. i < it1 \<and> compat (left ! i) (right ! j)}"
    if "it2 \<le> j" "j < e2" for j
    using undefLeft_spec(2) [OF inp _ _ preL [OF that]] sep that e by (auto simp: separated_def)
  have R: "set (?R i) = {j. j < it2 \<and> compat (left ! i) (right ! j)}"
    if "it1 \<le> i" "i < e1" for i
    using undefRight_spec(2) [OF inp(1,3) _ _ preR [OF that]] sep that e by (auto simp: separated_def)
  have noU: "\<not> containsNoUndefined z (left ! i)" if "i \<in> set (?L j)" "it2 \<le> j" "j < e2" for i j
    using undefLeft_noUndef [OF inp _ _ preL [OF that(2,3)] that(1)] that e by auto
  have cross: "(\<Union>i\<in>set [it1..<e1]. matches (map (Match i) [it2..<e2])) = {it1..<e1} \<times> {it2..<e2}"
    by auto
  have joined: "joined left right e1 e2 = joined left right it1 it2 \<union>
      ((\<Union>i\<in>{it1..<e1}. {i} \<times> set (?R i)) \<union> ((\<Union>j\<in>{it2..<e2}. set (?L j) \<times> {j}) \<union>
        {it1..<e1} \<times> {it2..<e2}))"
  proof -
    have "(\<Union>i\<in>{it1..<e1}. {i} \<times> set (?R i)) =
        {(i, j). it1 \<le> i \<and> i < e1 \<and> j < it2 \<and> compat (left ! i) (right ! j)}" using R by auto
    moreover have "(\<Union>j\<in>{it2..<e2}. set (?L j) \<times> {j}) =
        {(i, j). i < it1 \<and> it2 \<le> j \<and> j < e2 \<and> compat (left ! i) (right ! j)}" using L by auto
    ultimately show ?thesis using e same' by (auto simp: joined_def not_less)
  qed
  have unm: "unmatched left right e1 e2 = unmatched left right it1 it2 - (\<Union>j\<in>{it2..<e2}. set (?L j))"
  proof -
    have "(\<Union>j\<in>{it2..<e2}. set (?L j)) =
        {i. i < it1 \<and> (\<exists>j. it2 \<le> j \<and> j < e2 \<and> compat (left ! i) (right ! j))}" using L by auto
    moreover have "i < it1" if "i \<in> unmatched left right e1 e2" for i
      using that e same' [of i it2] unfolding unmatched_def by (cases "it1 \<le> i") auto
    ultimately show ?thesis using e by (auto simp: unmatched_def not_less) (meson not_less)
  qed
  let ?A = "concat (map (\<lambda>i. map (Match i) (?R i)) [it1..<e1])"
    and ?B = "concat (map (\<lambda>j. map (\<lambda>i. Match i j) (?L j)) [it2..<e2])"
    and ?C = "concat (map (\<lambda>i. map (Match i) [it2..<e2]) [it1..<e1])"
  let ?st = "joinEqualRanges z left right it1 e1 it2 e2 st"
  have A: "\<exists>i j. e = Match i j \<and> \<not> i < it1 \<and> j < it2" if "e \<in> set ?A" for e
    using that R by auto
  have B: "\<exists>i j. e = Match i j \<and> i < it1 \<and> \<not> j < it2" if "e \<in> set ?B" for e
    using that L by auto
  have C: "\<exists>i j. e = Match i j \<and> \<not> i < it1 \<and> \<not> j < it2" if "e \<in> set ?C" for e
    using that by auto
  have "matches (events st) \<subseteq> {..<it1} \<times> {..<it2}" using inv by (auto simp: zinv_def joined_def)
  then have E: "i < it1 \<and> j < it2" if "Match i j \<in> set (events st)" for i j
    using that by (auto simp: matches_def)
  have disj: "set (events st) \<inter> set ?A = {}" "set (events st) \<inter> set ?B = {}"
      "set (events st) \<inter> set ?C = {}" "set ?A \<inter> set ?B = {}" "set ?A \<inter> set ?C = {}"
      "set ?B \<inter> set ?C = {}"
    unfolding disjoint_iff using A B C E by (metis join_event.inject(1))+
  have "distinct ?A"
    using undefRight_spec(1) [OF inp(1,3) _ _ preR] e
    by (intro distinct_concat_map) (auto simp: distinct_map inj_on_def)
  moreover have "distinct ?B"
    using undefLeft_spec(1) [OF inp _ _ preL] e
    by (intro distinct_concat_map) (auto simp: distinct_map inj_on_def)
  moreover have "distinct ?C"
    by (intro distinct_concat_map) (auto simp: distinct_map inj_on_def)
  ultimately have dist: "distinct (events ?st)"
    unfolding joinEqualRanges_effect distinct_append set_append
    using disj inv by (simp add: zinv_def Int_Un_distrib)
  have len: "length (coveredFromLeft ?st) = (if hasNotFoundAction z then length left else 0)"
    using inv by (auto simp: zinv_def joinEqualRanges_effect)
  have nf: "notFounds (events ?st) = (if hasNotFoundAction z
       then {i \<in> unmatched left right e1 e2. containsNoUndefined z (left ! i)} else {})"
  proof -
    have "notFounds (events ?st) = notFounds (events st)" by (simp add: joinEqualRanges_effect)
    also have "\<dots> = (if hasNotFoundAction z
        then {i \<in> unmatched left right it1 it2. containsNoUndefined z (left ! i)} else {})"
      using inv by (simp add: zinv_def)
    also have "{i \<in> unmatched left right it1 it2. containsNoUndefined z (left ! i)} =
        {i \<in> unmatched left right e1 e2. containsNoUndefined z (left ! i)}"
      unfolding unm using noU by auto
    finally show ?thesis .
  qed
  have cov: "coveredFromLeft ?st ! i \<longleftrightarrow>
       i < e1 \<and> (containsNoUndefined z (left ! i) \<or> i \<notin> unmatched left right e1 e2)"
    if "hasNotFoundAction z" "i < length left" for i
  proof -
    have "length (coveredFromLeft st) = length left" and
      "coveredFromLeft st ! i \<longleftrightarrow>
        i < it1 \<and> (containsNoUndefined z (left ! i) \<or> i \<notin> unmatched left right it1 it2)"
      using inv that by (auto simp: zinv_def)
    moreover have "(\<Union>j\<in>{it2..<e2}. set (?L j)) \<subseteq> {..<it1}" using L by auto
    moreover have "unmatched left right it1 it2 \<subseteq> {..<it1}" by (auto simp: unmatched_def)
    moreover have "coveredFromLeft ?st ! i \<longleftrightarrow> it1 \<le> i \<and> i < e1 \<or>
        i \<in> (\<Union>j\<in>{it2..<e2}. set (?L j)) \<or> coveredFromLeft st ! i"
      unfolding joinEqualRanges_effect using that covers calculation(1)
      by (simp add: nth_coverAll del: coverAll_simps) auto
    ultimately show ?thesis using e(1) unfolding unm by (auto simp: subset_iff)
  qed
  have "matches (events ?st) = joined left right e1 e2"
    unfolding joined joinEqualRanges_effect using inv by (simp add: zinv_def) auto
  then show ?thesis using e sep' dist len nf cov unfolding zinv_def by simp
qed

end

declare zipperLoop.simps [simp del]

text \<open>A rule for invariants of the outer loop.\<close>

lemma zipperLoop_rule:
  assumes init: "I it1 it2 st"
    and skipL: "\<And>it1 it2 st. I it1 it2 st \<Longrightarrow> it2 < length right \<Longrightarrow>
      I (fst (skipLeft z left right it1 it2 st)) it2 (snd (skipLeft z left right it1 it2 st))"
    and skipR: "\<And>it1 it2 st. I it1 it2 st \<Longrightarrow> it1 < length left \<Longrightarrow>
      I it1 (fst (skipRight z left right it1 it2 st)) (snd (skipRight z left right it1 it2 st))"
    and equal: "\<And>it1 it2 st e1 e2. I it1 it2 st \<Longrightarrow> it1 < length left \<Longrightarrow> it2 < length right \<Longrightarrow>
      \<not> lessThan z (right ! it2) (left ! it1) \<Longrightarrow>
      e1 = find_if_not (\<lambda>row. eqRows (lessThan z) row (right ! it2)) left it1 \<Longrightarrow>
      e2 = find_if_not (\<lambda>row. eqRows (lessThan z) (left ! it1) row) right it2 \<Longrightarrow>
      I e1 e2 (joinEqualRanges z left right it1 e1 it2 e2 st)"
    and bounds: "\<And>it1 it2 st. I it1 it2 st \<Longrightarrow> it1 \<le> length left \<and> it2 \<le> length right"
  shows "zipperLoop z left right it1 it2 st = (k1, k2, st') \<Longrightarrow>
    I k1 k2 st' \<and> (k1 = length left \<or> k2 = length right)"
  using init skipL skipR equal bounds
proof (induction z left right it1 it2 st rule: zipperLoop.induct)
  case (1 z left right it1 it2 st)
  show ?case
  proof (cases "it1 < length left \<and> it2 < length right")
    case True
    obtain a s1 where s1: "skipLeft z left right it1 it2 st = (a, s1)" by fastforce
    obtain b s2 where s2: "skipRight z left right a it2 s1 = (b, s2)" by fastforce
    have I1: "I a it2 s1" using "1.prems"(3) [OF "1.prems"(2)] True s1 by simp
    show ?thesis
    proof (cases "length left \<le> a")
      case True': True
      then show ?thesis
        using "1.prems"(1) I1 "1.prems"(6) [OF I1] True s1
        by (simp add: zipperLoop.simps [of z left right it1 it2 st])
    next
      case a: False
      have I2: "I a b s2" using "1.prems"(4) [OF I1] a s2 by simp
      show ?thesis
      proof (cases "length right \<le> b")
        case True': True
        then show ?thesis
          using "1.prems"(1) I2 "1.prems"(6) [OF I2] True s1 s2 a
          by (simp add: zipperLoop.simps [of z left right it1 it2 st])
      next
        case b: False
        have ng: "\<not> lessThan z (right ! b) (left ! a)"
          using skipRight_stop [of z left right a it2 s1] s2 b by simp
        note I3 = "1.prems"(5) [OF I2 _ _ ng refl refl]
        show ?thesis
          using "1.IH" [OF True s1 [symmetric] a s2 [symmetric] b refl refl]
            "1.prems"(1,3-6) I3 True s1 s2 a b
          by (simp add: zipperLoop.simps [of z left right it1 it2 st] Let_def)
      qed
    qed
  next
    case False
    then show ?thesis
      using "1.prems"(1,2) "1.prems"(6) [OF "1.prems"(2)]
      by (auto simp: zipperLoop.simps [of z left right it1 it2 st])
  qed
qed

context zipper_join
begin

lemma zinv_skipLeft:
  assumes inp: "input left" "leftOk left" "input right" and it2: "it2 < length right"
  shows "zinv left right it1 it2 st \<Longrightarrow>
    zinv left right (fst (skipLeft z left right it1 it2 st)) it2 (snd (skipLeft z left right it1 it2 st))"
proof (induction "length left - it1" arbitrary: it1 st rule: less_induct)
  case less
  show ?case
  proof (cases "it1 < length left \<and> lessThan z (left ! it1) (right ! it2)")
    case True
    have "lessThan z (left ! it1) (right ! j)" if "it2 \<le> j" "j < length right" for j
      using less_le_trans [of "left ! it1" "right ! it2" "right ! j"] True it2 that
        input_valid [OF inp(1)] input_valid [OF inp(3)] input_sorted [OF inp(3)] by blast
    then have "zinv left right (Suc it1) it2 (mergeWithUndefRight z left right it1 it2 True st)"
      using zinv_stepLeft [OF inp less.prems] True by blast
    then show ?thesis
      using less.hyps [of "Suc it1"] True diff_less_mono2 [of it1 "Suc it1"] by (simp add: skipLeft.simps [of z left right it1 it2 st])
  next
    case False
    then show ?thesis using less.prems by (auto simp: skipLeft.simps [of z left right it1 it2 st])
  qed
qed

lemma zinv_skipRight:
  assumes inp: "input left" "leftOk left" "input right" and it1: "it1 < length left"
  shows "zinv left right it1 it2 st \<Longrightarrow>
    zinv left right it1 (fst (skipRight z left right it1 it2 st))
      (snd (skipRight z left right it1 it2 st))"
proof (induction "length right - it2" arbitrary: it2 st rule: less_induct)
  case less
  show ?case
  proof (cases "it2 < length right \<and> lessThan z (right ! it2) (left ! it1)")
    case True
    have "lessThan z (right ! it2) (left ! i)" if "it1 \<le> i" "i < length left" for i
      using less_le_trans [of "right ! it2" "left ! it1" "left ! i"] True it1 that
        input_valid [OF inp(1)] input_valid [OF inp(3)] input_sorted [OF inp(1)] by blast
    then have "zinv left right it1 (Suc it2) (mergeWithUndefLeft z left right it2 it1 st)"
      using zinv_stepRight [OF inp less.prems] True by blast
    then show ?thesis
      using less.hyps [of "Suc it2"] True diff_less_mono2 [of it2 "Suc it2"] by (simp add: skipRight.simps [of z left right it1 it2 st])
  next
    case False
    then show ?thesis using less.prems by (auto simp: skipRight.simps [of z left right it1 it2 st])
  qed
qed

lemma zinv_equalStep:
  assumes inp: "input left" "leftOk left" "input right" and inv: "zinv left right it1 it2 st"
    and it: "it1 < length left" "it2 < length right"
    and notGreater: "\<not> lessThan z (right ! it2) (left ! it1)"
    and e1: "e1 = find_if_not (\<lambda>row. eqRows (lessThan z) row (right ! it2)) left it1"
    and e2: "e2 = find_if_not (\<lambda>row. eqRows (lessThan z) (left ! it1) row) right it2"
  shows "zinv left right e1 e2 (joinEqualRanges z left right it1 e1 it2 e2 st)"
proof (cases "lessThan z (left ! it1) (right ! it2)")
  case True
  then have "e1 = it1" "e2 = it2"
    unfolding e1 e2 find_if_not_def using it by (simp_all add: Cons_nth_drop_Suc [symmetric] eqRows_def)
  then show ?thesis
    using inv it zinv_equalRanges [OF inp inv, of it1 it2] by (auto simp: zinv_def)
next
  case False
  note valid1 = input_valid [OF inp(1)] and valid2 = input_valid [OF inp(3)]
  have eq: "eqRows (lessThan z) (left ! it1) (right ! it2)" using False notGreater by (simp add: eqRows_def)
  note r1 = equal_range [OF inp(1) valid2 [OF it(2)] it(1) eq e1 refl]
  have "(\<lambda>row. eqRows (lessThan z) (left ! it1) row) = (\<lambda>row. eqRows (lessThan z) row (left ! it1))"
    using eqRows_sym by blast
  note r2 = equal_range [OF inp(3) valid1 [OF it(1)] it(2) eqRows_sym [OF eq] e2 [unfolded this] refl]
  have eqLR: "eqRows (lessThan z) (left ! i) (right ! j)"
    if "it1 \<le> i" "i < e1" "it2 \<le> j" "j < e2" for i j
    using that r1(2,3) r2(2,3) eq eqRows_sym it
      eq_trans [of "left ! i" "right ! it2" "left ! it1"] eq_trans [of "left ! i" "left ! it1" "right ! j"]
      valid1 valid2 by (metis order_less_le_trans)
  have sep1: "lessThan z (left ! i) (right ! j)" if "i < e1" "e2 \<le> j" "j < length right" for i j
  proof (cases "i < it1")
    case True
    then show ?thesis using inv that r2(1) by (auto simp: zinv_def separated_def)
  next
    case False
    then show ?thesis
      using that r2(4) [of j] eqLR [of i it2] eq eqRows_sym it r1(2) r2(1)
        eq_trans [of "left ! i" "right ! it2" "left ! it1"]
        eq_less_trans [of "left ! i" "left ! it1" "right ! j"] valid1 valid2
      by (meson le_refl not_less order_less_le_trans)
  qed
  have sep2: "lessThan z (right ! j) (left ! i)" if "j < e2" "e1 \<le> i" "i < length left" for i j
  proof (cases "j < it2")
    case True
    then show ?thesis using inv that r1(1) by (auto simp: zinv_def separated_def)
  next
    case False
    then show ?thesis
      using that r1(4) [of i] eqLR [of it1 j] eq eqRows_sym it r2(2) r1(1)
        eq_trans [of "right ! j" "left ! it1" "right ! it2"]
        eq_less_trans [of "right ! j" "right ! it2" "left ! i"] valid1 valid2
      by (meson le_refl not_less order_less_le_trans)
  qed
  have "separated left right e1 e2" using sep1 sep2 by (auto simp: separated_def)
  then show ?thesis
    using zinv_equalRanges [OF inp inv] eqLR r1(1,2) r2(1,2) by auto
qed

lemma zinv_bounds: "zinv left right it1 it2 st \<Longrightarrow> it1 \<le> length left \<and> it2 \<le> length right"
  by (simp add: zinv_def)

lemma zinv_zipperLoop:
  assumes inp: "input left" "leftOk left" "input right" and inv: "zinv left right it1 it2 st"
    and run: "zipperLoop z left right it1 it2 st = (k1, k2, st')"
  shows "zinv left right k1 k2 st' \<and> (k1 = length left \<or> k2 = length right)"
  by (rule zipperLoop_rule [where I = "zinv left right", OF inv _ _ _ _ run])
    (blast intro: zinv_skipLeft [OF inp] zinv_skipRight [OF inp] zinv_equalStep [OF inp] dest: zinv_bounds)+

lemma zinv_restRight:
  assumes inp: "input left" "leftOk left" "input right"
  shows "zinv left right (length left) it2 st \<Longrightarrow> zinv left right (length left) (length right)
    (fold (\<lambda>j. mergeWithUndefLeft z left right j (length left)) [it2..<length right] st)"
proof (induction "length right - it2" arbitrary: it2 st)
  case 0
  then show ?case using zinv_bounds by fastforce
next
  case (Suc n)
  then have "it2 < length right" by simp
  moreover from this have "zinv left right (length left) (Suc it2)
      (mergeWithUndefLeft z left right it2 (length left) st)"
    using zinv_stepRight [OF inp Suc.prems] by simp
  ultimately show ?case using Suc.hyps(1) [of "Suc it2"] Suc.hyps(2) by (simp add: upt_conv_Cons)
qed

lemma zinv_restLeft:
  assumes inp: "input left" "leftOk left" "input right"
  shows "zinv left right it1 (length right) st \<Longrightarrow> zinv left right (length left) (length right)
    (fold (\<lambda>i. mergeWithUndefRight z left right i (length right) True) [it1..<length left] st)"
proof (induction "length left - it1" arbitrary: it1 st)
  case 0
  then show ?case using zinv_bounds by fastforce
next
  case (Suc n)
  then have "it1 < length left" by simp
  moreover from this have "zinv left right (Suc it1) (length right)
      (mergeWithUndefRight z left right it1 (length right) True st)"
    using zinv_stepLeft [OF inp Suc.prems] by simp
  ultimately show ?case using Suc.hyps(1) [of "Suc it1"] Suc.hyps(2) by (simp add: upt_conv_Cons)
qed

lemma zipperRun_inv:
  assumes inp: "input left" "leftOk left" "input right"
  shows "zinv left right (length left) (length right) (zipperRun z left right)"
proof -
  obtain k1 k2 st where run: "zipperLoop z left right 0 0 (initialState z left) = (k1, k2, st)"
    by (metis prod_cases3)
  have "zinv left right 0 0 (initialState z left)"
    by (simp add: zinv_def initialState_def separated_def joined_def unmatched_def)
  then have inv: "zinv left right k1 k2 st" and stop: "k1 = length left \<or> k2 = length right"
    using zinv_zipperLoop [OF inp _ run] by auto
  show ?thesis
  proof (cases "k1 = length left")
    case True
    then show ?thesis using zinv_restRight [OF inp, of k2 st] inv by (simp add: zipperRun_def run)
  next
    case False
    then show ?thesis
      using zinv_restLeft [OF inp, of k1 st] inv stop by (simp add: zipperRun_def run)
  qed
qed

text \<open>The join emits every pair of compatible rows exactly once and, for OPTIONAL and MINUS,
  reports exactly the left rows that have no compatible row, each once.\<close>

lemma zipperJoin_correct:
  assumes inp: "input left" "leftOk left" "input right" and run: "zipperJoinWithUndef z left right = (n, evs)"
  shows "distinct evs"
    and "matches evs = {(i, j). i < length left \<and> j < length right \<and> compat (left ! i) (right ! j)}"
    and "notFounds evs = (if hasNotFoundAction z
      then {i. i < length left \<and> (\<forall>j<length right. \<not> compat (left ! i) (right ! j))} else {})"
proof -
  define st where "st = zipperRun z left right"
  have inv: "zinv left right (length left) (length right) st"
    unfolding st_def by (rule zipperRun_inv [OF inp])
  define atEnd where "atEnd = filter (\<lambda>i. \<not> coveredFromLeft st ! i) [0..<length (coveredFromLeft st)]"
  have evs: "evs = events st @ (if hasNotFoundAction z then map NotFound atEnd else [])"
    using run by (auto simp: zipperJoinWithUndef_def Let_def atEnd_def st_def [symmetric]
        split: if_splits)
  let ?U = "unmatched left right (length left) (length right)"
  have atEnd: "set atEnd = {i \<in> ?U. \<not> containsNoUndefined z (left ! i)}" if "hasNotFoundAction z"
    using inv that unfolding zinv_def atEnd_def by (auto simp: unmatched_def)
  have nf: "notFounds (events st) = (if hasNotFoundAction z
      then {i \<in> ?U. containsNoUndefined z (left ! i)} else {})"
    using inv by (simp add: zinv_def)
  show "distinct evs"
  proof (cases "hasNotFoundAction z")
    case True
    then have "notFounds (events st) \<inter> set atEnd = {}" using nf atEnd by auto
    then have "set (events st) \<inter> set (map NotFound atEnd) = {}" unfolding disjoint_events by simp
    moreover have "distinct (map NotFound atEnd)" by (simp add: distinct_map inj_on_def atEnd_def)
    ultimately show ?thesis using inv True unfolding zinv_def evs by simp
  next
    case False
    then show ?thesis using inv by (simp add: evs zinv_def)
  qed
  show "matches evs = {(i, j). i < length left \<and> j < length right \<and> compat (left ! i) (right ! j)}"
    using inv by (simp add: evs zinv_def joined_def)
  show "notFounds evs = (if hasNotFoundAction z
      then {i. i < length left \<and> (\<forall>j<length right. \<not> compat (left ! i) (right ! j))} else {})"
    using nf atEnd by (auto simp: evs unmatched_def)
qed

end

section \<open>When the result of the zipper join is sorted\<close>

definition neverUnsorted :: "'row zipper_args \<Rightarrow> bool" where
  "neverUnsorted z \<longleftrightarrow>
     (\<forall>f row xs. findSmallerUndefRangesLeft z = Some f \<or> findSmallerUndefRangesRight z = Some f \<longrightarrow>
        \<not> snd (f row xs))"

lemma neverUnsorted_merge:
  assumes "neverUnsorted z"
  shows "outOfOrderFound (mergeWithUndefLeft z left right j n st) = outOfOrderFound st"
    and "outOfOrderFound (mergeWithUndefRight z left right i n b st) = outOfOrderFound st"
proof -
  show "outOfOrderFound (mergeWithUndefLeft z left right j n st) = outOfOrderFound st"
    using assms unfolding neverUnsorted_def
    by (auto simp: mergeWithUndefLeft_def runFinder_def mergeLeft_loop split: option.split prod.split)
      (metis snd_conv)
  show "outOfOrderFound (mergeWithUndefRight z left right i n b st) = outOfOrderFound st"
    using assms unfolding neverUnsorted_def
    by (auto simp: mergeWithUndefRight_def notFoundStep_def runFinder_def mergeRight_loop
        split: option.split prod.split) (metis snd_conv)+
qed

lemma neverUnsorted_folds:
  assumes "neverUnsorted z"
  shows "outOfOrderFound (fold (\<lambda>it. mergeWithUndefLeft z left right it n) its st) = outOfOrderFound st"
    and "outOfOrderFound (fold (\<lambda>it. mergeWithUndefRight z left right it n b) its st) = outOfOrderFound st"
  by (induction its arbitrary: st) (simp_all add: neverUnsorted_merge [OF assms])

lemma outOfOrderFound_equal_block:
  "outOfOrderFound (fold (\<lambda>i st. fold (compatibleRowAction i) js (cover z i st)) is st) =
   outOfOrderFound st"
  by (induction "is" arbitrary: st) auto

lemma neverUnsorted_loops:
  assumes "neverUnsorted z"
  shows "outOfOrderFound (snd (skipLeft z left right it1 it2 st)) = outOfOrderFound st"
    and "outOfOrderFound (snd (skipRight z left right it1 it2 st)) = outOfOrderFound st"
    and "outOfOrderFound (joinEqualRanges z left right it1 e1 it2 e2 st) = outOfOrderFound st"
proof -
  show "outOfOrderFound (snd (skipLeft z left right it1 it2 st)) = outOfOrderFound st"
    using assms
  proof (induction z left right it1 it2 st rule: skipLeft.induct)
    case (1 z left right it1 it2 st)
    then show ?case
      by (subst skipLeft.simps) (auto simp: neverUnsorted_merge)
  qed
  show "outOfOrderFound (snd (skipRight z left right it1 it2 st)) = outOfOrderFound st"
    using assms
  proof (induction z left right it1 it2 st rule: skipRight.induct)
    case (1 z left right it1 it2 st)
    then show ?case
      by (subst skipRight.simps) (auto simp: neverUnsorted_merge)
  qed
  show "outOfOrderFound (joinEqualRanges z left right it1 e1 it2 e2 st) = outOfOrderFound st"
    by (simp add: joinEqualRanges_def outOfOrderFound_equal_block neverUnsorted_folds [OF assms])
qed

lemma neverUnsorted_zipperLoop:
  "neverUnsorted z \<Longrightarrow>
   outOfOrderFound (snd (snd (zipperLoop z left right it1 it2 st))) = outOfOrderFound st"
proof (induction z left right it1 it2 st rule: zipperLoop.induct)
  case (1 z left right it1 it2 st)
  note loops = neverUnsorted_loops [OF 1(2)]
  obtain a s1 where s1: "skipLeft z left right it1 it2 st = (a, s1)" by fastforce
  obtain b s2 where s2: "skipRight z left right a it2 s1 = (b, s2)" by fastforce
  have "outOfOrderFound s1 = outOfOrderFound st" "outOfOrderFound s2 = outOfOrderFound s1"
    using loops(1) [of left right it1 it2 st] loops(2) [of left right a it2 s1] s1 s2 by simp_all
  then show ?case
    using 1 s1 s2 by (simp add: zipperLoop.simps [of z left right it1 it2 st] Let_def loops(3))
qed

context zipper_join
begin

lemma zipperJoin_sorted:
  assumes inp: "input left" "leftOk left" "input right" and never: "neverUnsorted z"
    and undefMatched: "\<And>i. i < length left \<Longrightarrow> \<not> containsNoUndefined z (left ! i) \<Longrightarrow>
      \<exists>j<length right. compat (left ! i) (right ! j)"
  shows "fst (zipperJoinWithUndef z left right) = 0"
proof -
  let ?st = "zipperRun z left right"
  have inv: "zinv left right (length left) (length right) ?st" by (rule zipperRun_inv [OF inp])
  have "\<not> outOfOrderFound ?st"
    using neverUnsorted_zipperLoop [OF never, of left right 0 0 "initialState z left"]
    by (auto simp: zipperRun_def neverUnsorted_folds [OF never] initialState_def split: prod.split)
  moreover have "coveredFromLeft ?st ! i" if "i < length (coveredFromLeft ?st)" for i
    using that inv undefMatched [of i] by (auto simp: zinv_def unmatched_def split: if_splits)
  ultimately show ?thesis by (simp add: zipperJoinWithUndef_def Let_def filter_empty_conv)
qed

end

end
