(* ===== verification/GallopingJoin.thy ===== *)
theory GallopingJoin
  imports JoinAlgorithms
begin

text \<open>
  Models \<open>gallopingJoin\<close> of \<open>src/util/JoinAlgorithms/JoinAlgorithms.h\<close>: the join of a small with a
  large input by exponential and binary search. It is equal, event for event, to the nested-loop
  join of the two inputs, and so is the zipper join without UNDEF.
\<close>

section \<open>The algorithm\<close>

text \<open>\<open>step\<close> is doubled in every round, so it is \<open>2 ^ k\<close> in round \<open>k\<close>.\<close>

function exponentialSearch ::
    "('row \<Rightarrow> 'row \<Rightarrow> bool) \<Rightarrow> 'row list \<Rightarrow> 'row \<Rightarrow> nat \<Rightarrow> nat \<Rightarrow> nat \<Rightarrow> nat \<times> nat" where
  "exponentialSearch lt larger needle k lower itL =
     (if itL < length larger \<and> lt (larger ! itL) needle then
        if itL + 2 ^ k \<ge> length larger then (itL, length larger)
        else exponentialSearch lt larger needle (Suc k) itL (itL + 2 ^ k)
      else (lower, itL + 1))"
  by pat_completeness auto
termination
  by (relation "measure (\<lambda>(lt, larger, needle, k, lower, itL). length larger - itL)")
    (auto intro!: diff_less_mono2)

text \<open>\<open>std::lower_bound\<close> on the sub-range from \<open>lower\<close> to \<open>upper\<close>: the first position whose element is
  not smaller than the needle.\<close>

definition lowerBoundInRange :: "('row \<Rightarrow> bool) \<Rightarrow> 'row list \<Rightarrow> nat \<Rightarrow> nat \<Rightarrow> nat" where
  "lowerBoundInRange P xs lower upper =
     lower + length (takeWhile P (take (upper - lower) (drop lower xs)))"

function skipSmaller ::
    "('row \<Rightarrow> 'row \<Rightarrow> bool) \<Rightarrow> bool \<Rightarrow> 'row list \<Rightarrow> 'row \<Rightarrow> nat \<Rightarrow> join_event list
      \<Rightarrow> nat \<times> join_event list" where
  "skipSmaller lt hasNotFound smaller elLarge itSmall evs =
     (if itSmall < length smaller \<and> lt (smaller ! itSmall) elLarge
      then skipSmaller lt hasNotFound smaller elLarge (Suc itSmall)
             (if hasNotFound then evs @ [NotFound itSmall] else evs)
      else (itSmall, evs))"
  by pat_completeness auto
termination
  by (relation "measure (\<lambda>(lt, h, smaller, elLarge, itSmall, evs). length smaller - itSmall)") auto

declare exponentialSearch.simps [simp del] skipSmaller.simps [simp del]

lemma skipSmaller_stop:
  "skipSmaller lt h smaller el it evs = (k, evs') \<Longrightarrow>
   it \<le> k \<and> (it \<le> length smaller \<longrightarrow> k \<le> length smaller) \<and>
   (\<forall>i. it \<le> i \<and> i < k \<longrightarrow> lt (smaller ! i) el) \<and>
   (k < length smaller \<longrightarrow> \<not> lt (smaller ! k) el) \<and>
   evs' = evs @ (if h then map NotFound [it..<k] else [])"
proof (induction lt h smaller el it evs rule: skipSmaller.induct)
  case (1 lt h smaller el it evs)
  show ?case
  proof (cases "it < length smaller \<and> lt (smaller ! it) el")
    case True
    have run: "skipSmaller lt h smaller el (Suc it) (if h then evs @ [NotFound it] else evs) = (k, evs')"
      using True "1.prems" by (simp add: skipSmaller.simps [of lt h smaller el it evs])
    note IH = "1.IH" [OF True run]
    have "\<forall>i. it \<le> i \<and> i < k \<longrightarrow> lt (smaller ! i) el"
      using IH True by (metis Suc_leI le_neq_implies_less)
    then show ?thesis using IH True by (auto simp: upt_conv_Cons [of it k])
  next
    case False
    then show ?thesis using "1.prems" by (auto simp: skipSmaller.simps [of lt h smaller el it evs])
  qed
qed

lemma exponentialSearch_spec:
  "exponentialSearch lt larger needle k lower itL = (lo, up) \<Longrightarrow> itL < length larger \<Longrightarrow> lower \<le> itL \<Longrightarrow>
   lower \<le> lo \<and> lo < up \<and> up \<le> length larger \<and>
   (lo = lower \<or> lt (larger ! lo) needle) \<and>
   (up = length larger \<and> lt (larger ! lo) needle \<or> \<not> lt (larger ! (up - 1)) needle) \<and>
   (if lt (larger ! itL) needle then itL \<le> lo \<and> lt (larger ! lo) needle else lo = lower \<and> up = Suc itL)"
proof (induction lt larger needle k lower itL rule: exponentialSearch.induct)
  case (1 lt larger needle k lower itL)
  note eq = exponentialSearch.simps [of lt larger needle k lower itL]
  consider "\<not> lt (larger ! itL) needle" | "lt (larger ! itL) needle" "length larger \<le> itL + 2 ^ k"
    | "lt (larger ! itL) needle" "\<not> length larger \<le> itL + 2 ^ k" by blast
  then show ?case
  proof cases
    case 3
    then have run: "exponentialSearch lt larger needle (Suc k) itL (itL + 2 ^ k) = (lo, up)"
      using 1 eq by simp
    then show ?thesis
      using "1.IH" [OF _ _ run] "1.prems"(2,3) 3 by (auto split: if_splits)
  qed (use 1 eq in auto)
qed

lemma lowerBoundInRange_spec:
  assumes "lower \<le> upper" "upper \<le> length xs" "r = lowerBoundInRange P xs lower upper"
  shows "lower \<le> r" "r \<le> upper" "\<And>i. lower \<le> i \<Longrightarrow> i < r \<Longrightarrow> P (xs ! i)" "r < upper \<Longrightarrow> \<not> P (xs ! r)"
proof -
  let ?ys = "take (upper - lower) (drop lower xs)"
  have len: "length ?ys = upper - lower" using assms by simp
  have r: "r = lower + length (takeWhile P ?ys)" using assms(3) by (simp add: lowerBoundInRange_def)
  show "lower \<le> r" by (simp add: r)
  have "length (takeWhile P ?ys) \<le> upper - lower" using length_takeWhile_le [of P ?ys] len by metis
  then show "r \<le> upper" using assms(1) unfolding r by linarith
  show "P (xs ! i)" if "lower \<le> i" "i < r" for i
  proof -
    have "i - lower < length (takeWhile P ?ys)" using that by (simp add: r)
    moreover from this have "takeWhile P ?ys ! (i - lower) = xs ! i"
      using that length_takeWhile_le [of P ?ys] len assms by (simp add: takeWhile_nth)
    ultimately show ?thesis by (metis nth_mem set_takeWhileD)
  qed
  show "\<not> P (xs ! r)" if "r < upper"
    using that nth_length_takeWhile [of P ?ys] len assms by (simp add: r)
qed

text \<open>One round of the search: from a position \<open>itL\<close> on, the first element not smaller than the
  needle, or the end.\<close>

definition gallop :: "('row \<Rightarrow> 'row \<Rightarrow> bool) \<Rightarrow> 'row list \<Rightarrow> nat \<Rightarrow> 'row \<Rightarrow> nat" where
  "gallop lt larger itLarge needle =
     (let (lower, upper) = exponentialSearch lt larger needle 0 itLarge itLarge
      in lowerBoundInRange (\<lambda>a. lt a needle) larger lower upper)"

lemma gallop_progress:
  assumes "itL < length larger"
  shows "itL \<le> gallop lt larger itL needle" "gallop lt larger itL needle \<le> length larger"
    and "gallop lt larger itL needle < length larger \<Longrightarrow>
      \<not> lt (larger ! gallop lt larger itL needle) needle"
    and "lt (larger ! itL) needle \<Longrightarrow> itL < gallop lt larger itL needle"
proof -
  obtain lo up where run: "exponentialSearch lt larger needle 0 itL itL = (lo, up)" by fastforce
  define r where "r = gallop lt larger itL needle"
  have r: "r = lowerBoundInRange (\<lambda>a. lt a needle) larger lo up"
    using run by (simp add: r_def gallop_def)
  note sp = exponentialSearch_spec [OF run assms order_refl]
  have "lo \<le> up" "up \<le> length larger" using sp by auto
  note lb = lowerBoundInRange_spec [OF this r]
  have "\<not> lt (larger ! r) needle" if "r < length larger"
  proof (cases "r < up")
    case False
    then have "r = up" using lb(2) by simp
    moreover have "lo \<le> up - 1" "up - 1 < up" using sp by auto
    ultimately show ?thesis using sp that lb(3) [of "up - 1"] by auto
  qed (use lb(4) in blast)
  moreover have "itL < r" if less: "lt (larger ! itL) needle"
  proof (rule ccontr)
    assume "\<not> itL < r"
    then have "r = lo" using sp less lb(1) by auto
    then show False using sp less lb(4) by auto
  qed
  ultimately have "itL \<le> r \<and> r \<le> length larger \<and> (r < length larger \<longrightarrow> \<not> lt (larger ! r) needle) \<and>
      (lt (larger ! itL) needle \<longrightarrow> itL < r)"
    using sp lb(1,2) by auto
  then show "itL \<le> gallop lt larger itL needle" "gallop lt larger itL needle \<le> length larger"
    "gallop lt larger itL needle < length larger \<Longrightarrow> \<not> lt (larger ! gallop lt larger itL needle) needle"
    "lt (larger ! itL) needle \<Longrightarrow> itL < gallop lt larger itL needle"
    unfolding r_def [symmetric] by auto
qed

function gallopingLoop ::
    "('row \<Rightarrow> 'row \<Rightarrow> bool) \<Rightarrow> bool \<Rightarrow> 'row list \<Rightarrow> 'row list \<Rightarrow> nat \<Rightarrow> nat \<Rightarrow> join_event list
      \<Rightarrow> nat \<times> join_event list" where
  "gallopingLoop lt hasNotFound smaller larger itSmall itLarge evs =
     (if itSmall < length smaller \<and> itLarge < length larger then
        (case skipSmaller lt hasNotFound smaller (larger ! itLarge) itSmall evs of (itS, evs1) \<Rightarrow>
         if itS \<ge> length smaller then (itS, evs1) else
         let itL = gallop lt larger itLarge (smaller ! itS) in
         if itL = length larger then (itS, evs1) else
         let endSameSmall = find_if_not (\<lambda>row. eqRows lt row (larger ! itL)) smaller itS;
             endSameLarge = find_if_not (\<lambda>row. eqRows lt row (smaller ! itS)) larger itL;
             evs2 = evs1 @ concat (map (\<lambda>i. map (Match i) [itL..<endSameLarge]) [itS..<endSameSmall])
         in gallopingLoop lt hasNotFound smaller larger endSameSmall endSameLarge evs2)
      else (itSmall, evs))"
  by pat_completeness auto
termination
proof (relation "measure (\<lambda>(lt, h, smaller, larger, itSmall, itLarge, evs).
    (length smaller - itSmall) + (length larger - itLarge))", goal_cases)
  case 1
  then show ?case by simp
next
  case (2 lt h smaller larger itSmall itLarge evs itS evs1 itL endS endL evs2)
  note skip = skipSmaller_stop [OF 2(2) [symmetric]]
  have lens: "itSmall < length smaller" "itLarge < length larger" using 2 by auto
  note g = gallop_progress [OF lens(2), of lt "smaller ! itS", folded 2(4)]
  have itL: "itL < length larger" using g(2) 2 by simp
  have ends: "itS \<le> endS" "endS \<le> length smaller" "itL \<le> endL" "endL \<le> length larger"
    using 2 itL find_if_not_bounds(1) by (auto intro!: find_if_not_bounds(2))
  have "itSmall < endS \<or> itLarge < endL"
  proof (cases "itS = itSmall \<and> itL = itLarge")
    case True
    then have "eqRows lt (smaller ! itS) (larger ! itL)"
      using skip g(3,4) itL lens by (auto simp: eqRows_def)
    then show ?thesis using True lens 2 find_if_not_bounds(3) [of itS smaller] by auto
  next
    case False
    then show ?thesis using skip g(1) ends by linarith
  qed
  then show ?case using skip g(1) ends lens by auto
qed

definition gallopingJoin ::
    "('row \<Rightarrow> 'row \<Rightarrow> bool) \<Rightarrow> bool \<Rightarrow> 'row list \<Rightarrow> 'row list \<Rightarrow> join_event list" where
  "gallopingJoin lt hasNotFound smaller larger =
     (let (itSmall, evs) = gallopingLoop lt hasNotFound smaller larger 0 0 []
      in evs @ (if hasNotFound then map NotFound [itSmall..<length smaller] else []))"

section \<open>The nested-loop join as reference\<close>

definition rowEvents :: "('row \<Rightarrow> 'row \<Rightarrow> bool) \<Rightarrow> bool \<Rightarrow> 'row list \<Rightarrow> 'row list \<Rightarrow> nat \<Rightarrow> join_event list"
  where
  "rowEvents lt hasNotFound left right i =
     (let js = filter (\<lambda>j. eqRows lt (left ! i) (right ! j)) [0..<length right]
      in if js = [] then (if hasNotFound then [NotFound i] else []) else map (Match i) js)"

definition nestedLoopJoin ::
    "('row \<Rightarrow> 'row \<Rightarrow> bool) \<Rightarrow> bool \<Rightarrow> 'row list \<Rightarrow> 'row list \<Rightarrow> join_event list" where
  "nestedLoopJoin lt hasNotFound left right =
     concat (map (rowEvents lt hasNotFound left right) [0..<length left])"

lemma filter_upt_range:
  assumes "b \<le> n"
  shows "filter (\<lambda>j. a \<le> j \<and> j < b) [0..<n] = [a..<b]"
proof (cases "a \<le> b")
  case True
  have "[0..<n] = [0..<a] @ [a..<b] @ [b..<n]"
    using True assms upt_add_eq_append [of 0 a "n - a"] upt_add_eq_append [of a b "n - b"] by simp
  moreover have "filter (\<lambda>j. a \<le> j \<and> j < b) [a..<b] = [a..<b]" by (auto simp: filter_id_conv)
  ultimately show ?thesis by (auto simp: filter_empty_conv)
qed (auto simp: filter_empty_conv)

lemma filter_upt_range': "b \<le> n \<Longrightarrow> (\<And>j. j < n \<Longrightarrow> P j \<longleftrightarrow> a \<le> j \<and> j < b) \<Longrightarrow> filter P [0..<n] = [a..<b]"
  using filter_upt_range [of b n a] filter_cong [of "[0..<n]" "[0..<n]" P "\<lambda>j. a \<le> j \<and> j < b"] by simp

lemma rowEvents_range:
  assumes "b \<le> length right" "a < b"
    and "\<And>j. j < length right \<Longrightarrow> eqRows lt (left ! i) (right ! j) \<longleftrightarrow> a \<le> j \<and> j < b"
  shows "rowEvents lt h left right i = map (Match i) [a..<b]"
  using filter_upt_range' [OF assms(1,3)] assms(2) by (simp add: rowEvents_def Let_def)

lemma rowEvents_none:
  assumes "\<And>j. j < length right \<Longrightarrow> \<not> eqRows lt (left ! i) (right ! j)"
  shows "rowEvents lt h left right i = (if h then [NotFound i] else [])"
  using assms by (simp add: rowEvents_def filter_empty_conv)

lemma concat_notFound:
  assumes "\<And>i. a \<le> i \<Longrightarrow> i < b \<Longrightarrow> rowEvents lt h left right i = (if h then [NotFound i] else [])"
  shows "concat (map (rowEvents lt h left right) [a..<b]) = (if h then map NotFound [a..<b] else [])"
proof -
  have "map (rowEvents lt h left right) [a..<b] = map (\<lambda>i. if h then [NotFound i] else []) [a..<b]"
    using assms by simp
  also have "concat \<dots> = (if h then map NotFound [a..<b] else [])" by (simp add: concat_map_singleton)
  finally show ?thesis .
qed

declare gallopingLoop.simps [simp del]

lemma gallopingLoop_rule:
  assumes "I itS itL evs"
    and skip: "\<And>itS itL evs k evs'. I itS itL evs \<Longrightarrow> itL < length larger \<Longrightarrow>
      skipSmaller lt h smaller (larger ! itL) itS evs = (k, evs') \<Longrightarrow> I k itL evs'"
    and leap: "\<And>itS itL evs k. I itS itL evs \<Longrightarrow> itS < length smaller \<Longrightarrow> itL < length larger \<Longrightarrow>
      \<not> lt (smaller ! itS) (larger ! itL) \<Longrightarrow> k = gallop lt larger itL (smaller ! itS) \<Longrightarrow> I itS k evs"
    and equal: "\<And>itS itL evs e1 e2. I itS itL evs \<Longrightarrow> itS < length smaller \<Longrightarrow> itL < length larger \<Longrightarrow>
      \<not> lt (larger ! itL) (smaller ! itS) \<Longrightarrow>
      e1 = find_if_not (\<lambda>row. eqRows lt row (larger ! itL)) smaller itS \<Longrightarrow>
      e2 = find_if_not (\<lambda>row. eqRows lt row (smaller ! itS)) larger itL \<Longrightarrow>
      I e1 e2 (evs @ concat (map (\<lambda>i. map (Match i) [itL..<e2]) [itS..<e1]))"
    and bounds: "\<And>itS itL evs. I itS itL evs \<Longrightarrow> itS \<le> length smaller \<and> itL \<le> length larger"
  shows "gallopingLoop lt h smaller larger itS itL evs = (k, evs') \<Longrightarrow>
    \<exists>l. I k l evs' \<and> (k = length smaller \<or> l = length larger)"
  using assms
proof (induction lt h smaller larger itS itL evs rule: gallopingLoop.induct)
  case (1 lt h smaller larger itS itL evs)
  note eq = gallopingLoop.simps [of lt h smaller larger itS itL evs]
  note skip = "1.prems"(3) and leap = "1.prems"(4) and equal = "1.prems"(5) and bounds = "1.prems"(6)
  show ?case
  proof (cases "itS < length smaller \<and> itL < length larger")
    case True
    obtain a evs1 where s1: "skipSmaller lt h smaller (larger ! itL) itS evs = (a, evs1)" by fastforce
    have I1: "I a itL evs1" using skip [OF "1.prems"(2) _ s1] True by simp
    define b where "b = gallop lt larger itL (smaller ! a)"
    show ?thesis
    proof (cases "length smaller \<le> a")
      case a: True
      then show ?thesis using "1.prems"(1) I1 bounds [OF I1] True s1 unfolding eq by auto
    next
      case a: False
      have "\<not> lt (smaller ! a) (larger ! itL)" using skipSmaller_stop [OF s1] a by auto
      then have I2: "I a b evs1" using leap [OF I1] True a b_def by auto
      show ?thesis
      proof (cases "b = length larger")
        case b: True
        then show ?thesis using "1.prems"(1) I2 True s1 a by (auto simp: eq b_def Let_def)
      next
        case b: False
        then have b': "b < length larger" using bounds [OF I2] by simp
        have ng: "\<not> lt (larger ! b) (smaller ! a)"
          using gallop_progress(3) [of itL larger lt "smaller ! a"] True b' by (simp add: b_def)
        note I3 = equal [OF I2 _ b' ng refl refl]
        define e1 where "e1 = find_if_not (\<lambda>row. eqRows lt row (larger ! b)) smaller a"
        define e2 where "e2 = find_if_not (\<lambda>row. eqRows lt row (smaller ! a)) larger b"
        define evs2 where "evs2 = evs1 @ concat (map (\<lambda>i. map (Match i) [b..<e2]) [a..<e1])"
        have run: "gallopingLoop lt h smaller larger e1 e2 evs2 = (k, evs')"
          using "1.prems"(1) True s1 a b by (simp add: eq Let_def b_def [symmetric] e1_def e2_def evs2_def)
        have "I e1 e2 evs2" using I3 a unfolding e1_def e2_def evs2_def by simp
        note IH = "1.IH" [OF True s1 [symmetric] a b_def b e1_def e2_def evs2_def run this]
        show ?thesis
          apply (rule IH)
             apply (rule skip; assumption)
            apply (rule leap; assumption)
           apply (rule equal; assumption)
          apply (rule bounds; assumption)
          done
      qed
    qed
  next
    case False
    then show ?thesis using "1.prems"(1,2) bounds [OF "1.prems"(2)] by (auto simp: eq)
  qed
qed

section \<open>Both joins are the nested-loop join\<close>

context row_order
begin

definition ginv :: "bool \<Rightarrow> 'row list \<Rightarrow> 'row list \<Rightarrow> nat \<Rightarrow> nat \<Rightarrow> join_event list \<Rightarrow> bool" where
  "ginv h left right i j evs \<longleftrightarrow> i \<le> length left \<and> j \<le> length right \<and>
     evs = concat (map (rowEvents lt h left right) [0..<i]) \<and>
     (\<forall>i' j'. j' < j \<longrightarrow> i \<le> i' \<longrightarrow> i' < length left \<longrightarrow> lt (right ! j') (left ! i'))"

lemma ginv_append:
  assumes "ginv h left right i j evs" "i \<le> k" "k \<le> length left"
  shows "ginv h left right k j (evs @ concat (map (rowEvents lt h left right) [i..<k]))"
  using assms upt_add_eq_append [of 0 i "k - i"] by (auto simp: ginv_def)

lemma ginv_notFound:
  assumes inp: "input left" "input right" and inv: "ginv h left right i j evs"
    and k: "i \<le> k" "k \<le> length left"
    and less: "\<And>i'. i \<le> i' \<Longrightarrow> i' < k \<Longrightarrow> j < length right \<Longrightarrow> lt (left ! i') (right ! j)"
  shows "ginv h left right k j (evs @ (if h then map NotFound [i..<k] else []))"
proof -
  have "\<not> eqRows lt (left ! i') (right ! j')" if "i \<le> i'" "i' < k" "j' < length right" for i' j'
  proof (cases "j' < j")
    case True
    then show ?thesis using inv that k by (auto simp: ginv_def eqRows_def)
  next
    case False
    then have "lt (left ! i') (right ! j')"
      using less_le_trans [of "left ! i'" "right ! j" "right ! j'"] less [OF that(1,2)] that k
        input_valid [OF inp(1)] input_valid [OF inp(2)] input_sorted [OF inp(2), of j j'] by auto
    then show ?thesis by (simp add: eqRows_def)
  qed
  then have "rowEvents lt h left right i' = (if h then [NotFound i'] else [])"
    if "i \<le> i'" "i' < k" for i' using that rowEvents_none by metis
  from concat_notFound [OF this] show ?thesis using ginv_append [OF inv k] by simp
qed

lemma ginv_leap:
  assumes inp: "input left" "input right" and inv: "ginv h left right i j evs"
    and i: "i < length left" and k: "j \<le> k" "k \<le> length right"
    and less: "j < k \<Longrightarrow> lt (right ! (k - 1)) (left ! i)"
  shows "ginv h left right i k evs"
proof -
  have "lt (right ! j') (left ! i')" if "j' < k" "i \<le> i'" "i' < length left" for i' j'
  proof (cases "j' < j")
    case False
    then have "lt (right ! j') (left ! i)"
      using le_less_trans [of "right ! j'" "right ! (k - 1)" "left ! i"] less that k i
        input_valid [OF inp(1)] input_valid [OF inp(2)] input_sorted [OF inp(2), of j' "k - 1"] by auto
    then show ?thesis
      using less_le_trans [of "right ! j'" "left ! i" "left ! i'"] that k i
        input_valid [OF inp(1)] input_valid [OF inp(2)] input_sorted [OF inp(1), of i i'] by auto
  qed (use inv that in \<open>auto simp: ginv_def\<close>)
  then show ?thesis using inv k by (auto simp: ginv_def)
qed

lemma ginv_equal:
  assumes inp: "input left" "input right" and inv: "ginv h left right i j evs"
    and ij: "i < length left" "j < length right" and ng: "\<not> lt (right ! j) (left ! i)"
    and e1: "e1 = find_if_not (\<lambda>row. eqRows lt row (right ! j)) left i"
    and e2: "e2 = find_if_not (\<lambda>row. eqRows lt row (left ! i)) right j"
  shows "ginv h left right e1 e2 (evs @ concat (map (\<lambda>i. map (Match i) [j..<e2]) [i..<e1]))"
proof (cases "lt (left ! i) (right ! j)")
  case True
  then have "e1 = i" "e2 = j"
    unfolding e1 e2 find_if_not_def using ij by (simp_all add: Cons_nth_drop_Suc [symmetric] eqRows_def)
  then show ?thesis using inv by simp
next
  case False
  note valid1 = input_valid [OF inp(1)] and valid2 = input_valid [OF inp(2)]
  have eq: "eqRows lt (left ! i) (right ! j)" using False ng by (simp add: eqRows_def)
  note r1 = equal_range [OF inp(1) valid2 [OF ij(2)] ij(1) eq e1 refl]
  note r2 = equal_range [OF inp(2) valid1 [OF ij(1)] ij(2) eqRows_sym [OF eq] e2 refl]
  have eqi: "eqRows lt (left ! i') (left ! i)" if "i \<le> i'" "i' < e1" for i'
    using eq_trans [of "left ! i'" "right ! j" "left ! i"] r1(2) r1(3) [OF that] eqRows_sym [OF eq]
      that ij valid1 valid2 by auto
  have iff: "eqRows lt (left ! i') (right ! j') \<longleftrightarrow> j \<le> j' \<and> j' < e2"
    if i': "i \<le> i'" "i' < e1" and j': "j' < length right" for i' j'
  proof -
    consider "j' < j" | "j \<le> j'" "j' < e2" | "e2 \<le> j'" by linarith
    then show ?thesis
    proof cases
      case 1
      then show ?thesis using inv i' r1(2) by (auto simp: ginv_def eqRows_def)
    next
      case 2
      then show ?thesis
        using eq_trans [of "left ! i'" "left ! i" "right ! j'"] eqi [OF i'] r2(3) [of j'] eqRows_sym
          i' j' ij r1(2) valid1 valid2 by auto
    next
      case 3
      then have "lt (left ! i') (right ! j')"
        using eq_less_trans [of "left ! i'" "left ! i" "right ! j'"] eqi [OF i'] r2(4) [of j']
          i' j' ij r1(2) valid1 valid2 by auto
      then show ?thesis using 3 by (auto simp: eqRows_def)
    qed
  qed
  have "rowEvents lt h left right i' = map (Match i') [j..<e2]" if "i \<le> i'" "i' < e1" for i'
    using rowEvents_range [OF r2(2,1) iff [OF that]] .
  then have "concat (map (rowEvents lt h left right) [i..<e1]) =
      concat (map (\<lambda>i. map (Match i) [j..<e2]) [i..<e1])"
    by (intro arg_cong [where f = concat]) simp
  then have step: "ginv h left right e1 j (evs @ concat (map (\<lambda>i. map (Match i) [j..<e2]) [i..<e1]))"
    using ginv_append [OF inv, of e1] r1(1,2) by simp
  show ?thesis
  proof (cases "e1 < length left")
    case True
    have "eqRows lt (right ! (e2 - 1)) (left ! i)" using r2(1) r2(3) [of "e2 - 1"] by auto
    then have "eqRows lt (right ! (e2 - 1)) (right ! j)"
      using eq eq_trans [of "right ! (e2 - 1)" "left ! i" "right ! j"] valid1 valid2 ij r2(1,2) by auto
    then have "lt (right ! (e2 - 1)) (left ! e1)"
      using r1(4) [of e1] True eq_less_trans [of "right ! (e2 - 1)" "right ! j" "left ! e1"]
        valid1 valid2 ij r2(1,2) by auto
    then show ?thesis using ginv_leap [OF inp step True, of e2] r2(1,2) by simp
  next
    case False
    then show ?thesis using step r2(2) by (auto simp: ginv_def)
  qed
qed

lemma gallop_reaches:
  assumes inp: "input larger" and v: "valid needle" and itL: "itL < length larger"
  shows "itL < gallop lt larger itL needle \<Longrightarrow> lt (larger ! (gallop lt larger itL needle - 1)) needle"
proof -
  define r where "r = gallop lt larger itL needle"
  obtain lo up where run: "exponentialSearch lt larger needle 0 itL itL = (lo, up)" by fastforce
  have r: "r = lowerBoundInRange (\<lambda>a. lt a needle) larger lo up"
    using run by (simp add: r_def gallop_def)
  note sp = exponentialSearch_spec [OF run itL order_refl]
  have "lo \<le> up" "up \<le> length larger" using sp by auto
  note lb = lowerBoundInRange_spec [OF this r]
  show ?thesis if "itL < gallop lt larger itL needle"
  proof (cases "lo < r")
    case True
    then show ?thesis using lb(3) [of "r - 1"] unfolding r_def [symmetric] by auto
  next
    case False
    then show ?thesis using that lb(1) sp lb(3) [of lo] lb(4) unfolding r_def [symmetric]
      by (auto split: if_splits)
  qed
qed

lemma gallopingJoin_nestedLoop:
  assumes inp: "input smaller" "input larger"
  shows "gallopingJoin lt h smaller larger = nestedLoopJoin lt h smaller larger"
proof -
  obtain k evs where run: "gallopingLoop lt h smaller larger 0 0 [] = (k, evs)" by fastforce
  have "\<exists>l. ginv h smaller larger k l evs \<and> (k = length smaller \<or> l = length larger)"
  proof (rule gallopingLoop_rule [where I = "ginv h smaller larger", OF _ _ _ _ _ run], goal_cases)
    case 1
    show ?case by (simp add: ginv_def)
  next
    case (2 itS itL evs k evs')
    note stop = skipSmaller_stop [OF 2(3)]
    show ?case
      using ginv_notFound [OF inp 2(1), of k] stop 2(1) by (auto simp: ginv_def)
  next
    case (3 itS itL evs k)
    note g = gallop_progress [OF 3(3), of lt "smaller ! itS", folded 3(5)]
    show ?case
      using ginv_leap [OF inp 3(1,2) g(1,2)]
        gallop_reaches [OF inp(2) input_valid [OF inp(1) 3(2)] 3(3), folded 3(5)] by blast
  next
    case (4 itS itL evs e1 e2)
    then show ?case using ginv_equal [OF inp] by blast
  next
    case (5 itS itL evs)
    then show ?case by (simp add: ginv_def)
  qed
  then obtain l where l: "ginv h smaller larger k l evs" "k = length smaller \<or> l = length larger" by blast
  have "ginv h smaller larger (length smaller) l
      (evs @ (if h then map NotFound [k..<length smaller] else []))"
    using ginv_notFound [OF inp l(1), of "length smaller"] l by (auto simp: ginv_def)
  then show ?thesis by (simp add: gallopingJoin_def run nestedLoopJoin_def ginv_def)
qed

end

text \<open>The zipper join whose two finders are \<open>noop\<close>.\<close>

definition noopArgs :: "('row \<Rightarrow> 'row \<Rightarrow> bool) \<Rightarrow> bool \<Rightarrow> 'row zipper_args" where
  "noopArgs lt h = \<lparr>lessThan = lt, findSmallerUndefRangesLeft = None,
     findSmallerUndefRangesRight = None, rowHasNoUndef = (\<lambda>_. True), hasNotFoundAction = h,
     CoverUndefRanges = True\<rparr>"

lemma noopArgs_steps [simp]:
  "lessThan (noopArgs lt h) = lt"
  "hasNotFoundAction (noopArgs lt h) = h"
  "mergeWithUndefLeft (noopArgs lt h) left right j n st = st"
  "mergeWithUndefRight (noopArgs lt h) left right i n b st =
     (if b \<and> h then st\<lparr>events := events st @ [NotFound i],
        coveredFromLeft := (coveredFromLeft st)[i := True]\<rparr> else st)"
  by (simp_all add: noopArgs_def mergeWithUndefLeft_def mergeWithUndefRight_def notFoundStep_def
      containsNoUndefined_def cover_def elFromFirstNotFoundAction_def)

context row_order
begin

definition noopInv :: "bool \<Rightarrow> 'row list \<Rightarrow> 'row list \<Rightarrow> nat \<Rightarrow> nat \<Rightarrow> zipper_state \<Rightarrow> bool" where
  "noopInv h left right i j st \<longleftrightarrow> ginv h left right i j (events st) \<and> \<not> outOfOrderFound st \<and>
     length (coveredFromLeft st) = (if h then length left else 0) \<and>
     (h \<longrightarrow> (\<forall>i'<i. coveredFromLeft st ! i'))"

lemma noopInv_left:
  assumes inp: "input left" "input right" and inv: "noopInv h left right i j st"
    and i: "i < length left" and less: "j < length right \<Longrightarrow> lt (left ! i) (right ! j)"
  shows "noopInv h left right (Suc i) j (mergeWithUndefRight (noopArgs lt h) left right i n True st)"
  using inv ginv_notFound [OF inp, of h i j "events st" "Suc i"] i less
  by (auto simp: noopInv_def nth_list_update less_Suc_eq)

lemma noopInv_skipLeft:
  assumes inp: "input left" "input right" and j: "j < length right"
  shows "noopInv h left right i j st \<Longrightarrow>
    noopInv h left right (fst (skipLeft (noopArgs lt h) left right i j st)) j
      (snd (skipLeft (noopArgs lt h) left right i j st))"
proof (induction "length left - i" arbitrary: i st rule: less_induct)
  case less
  note eq = skipLeft.simps [of "noopArgs lt h" left right i j st]
  show ?case
  proof (cases "i < length left \<and> lt (left ! i) (right ! j)")
    case True
    then have "noopInv h left right (Suc i) j
        (mergeWithUndefRight (noopArgs lt h) left right i j True st)"
      using noopInv_left [OF inp less.prems] by blast
    then show ?thesis
      using less.hyps [of "Suc i"] True diff_less_mono2 [of i "Suc i"]
      unfolding eq by (simp del: noopArgs_steps(4))
  next
    case False
    then show ?thesis using less.prems unfolding eq by auto
  qed
qed

lemma noopInv_skipRight:
  assumes inp: "input left" "input right" and i: "i < length left"
  shows "noopInv h left right i j st \<Longrightarrow>
    noopInv h left right i (fst (skipRight (noopArgs lt h) left right i j st))
      (snd (skipRight (noopArgs lt h) left right i j st))"
proof (induction "length right - j" arbitrary: j st rule: less_induct)
  case less
  note eq = skipRight.simps [of "noopArgs lt h" left right i j st]
  show ?case
  proof (cases "j < length right \<and> lt (right ! j) (left ! i)")
    case True
    then have "noopInv h left right i (Suc j) st"
      using ginv_leap [OF inp _ i, of h j "events st" "Suc j"] less.prems by (auto simp: noopInv_def)
    then show ?thesis
      using less.hyps [of "Suc j"] True diff_less_mono2 [of j "Suc j"] unfolding eq by simp
  next
    case False
    then show ?thesis using less.prems unfolding eq by auto
  qed
qed

lemma noop_fold_right: "fold (\<lambda>it. mergeWithUndefRight (noopArgs lt h) left right it n False) xs st = st"
  by (induction xs) auto

lemma noop_fold_left: "fold (\<lambda>it. mergeWithUndefLeft (noopArgs lt h) left right it n) xs st = st"
  by (induction xs) auto

lemma noopInv_equal:
  assumes inp: "input left" "input right" and inv: "noopInv h left right i j st"
    and ij: "i < length left" "j < length right" and ng: "\<not> lt (right ! j) (left ! i)"
    and e1: "e1 = find_if_not (\<lambda>row. eqRows lt row (right ! j)) left i"
    and e2: "e2 = find_if_not (\<lambda>row. eqRows lt (left ! i) row) right j"
  shows "noopInv h left right e1 e2 (joinEqualRanges (noopArgs lt h) left right i e1 j e2 st)"
proof -
  have e2': "e2 = find_if_not (\<lambda>row. eqRows lt row (left ! i)) right j"
    unfolding e2 using eqRows_sym by (metis (no_types, lifting))
  have g: "ginv h left right i j (events st)" using inv by (simp add: noopInv_def)
  have e1': "e1 \<le> length left" unfolding e1 by (rule find_if_not_bounds(2)) (use ij in simp)
  have oo: "outOfOrderFound (fold (\<lambda>i st. fold (compatibleRowAction i) js (cover z i st)) is st) =
      outOfOrderFound st" for z :: "'row zipper_args" and js "is" st
    by (induction "is" arbitrary: st) auto
  show ?thesis
    using ginv_equal [OF inp g ij ng e1 e2'] inv e1'
    unfolding noopInv_def joinEqualRanges_def noop_fold_right noop_fold_left Let_def
    by (auto simp: fold_equal_block oo nth_coverAll not_less)
qed

lemma noopInv_bounds: "noopInv h left right i j st \<Longrightarrow> i \<le> length left \<and> j \<le> length right"
  by (simp add: noopInv_def ginv_def)

lemma noopInv_restLeft:
  assumes inp: "input left" "input right"
  shows "noopInv h left right i j st \<Longrightarrow> i = length left \<or> j = length right \<Longrightarrow>
    noopInv h left right (length left) j
      (fold (\<lambda>i. mergeWithUndefRight (noopArgs lt h) left right i n True) [i..<length left] st)"
proof (induction "length left - i" arbitrary: i st)
  case 0
  then show ?case using noopInv_bounds by fastforce
next
  case (Suc m)
  then have "i < length left" by simp
  moreover from this have "noopInv h left right (Suc i) j
      (mergeWithUndefRight (noopArgs lt h) left right i n True st)"
    using noopInv_left [OF inp Suc.prems(1)] Suc.prems(2) by blast
  ultimately show ?case
    using Suc.hyps(1) [of "Suc i"] Suc.hyps(2) Suc.prems(2)
    by (simp add: upt_conv_Cons del: noopArgs_steps(4))
qed

lemma zipperJoin_nestedLoop:
  assumes inp: "input left" "input right"
  shows "zipperJoinWithUndef (noopArgs lt h) left right = (0, nestedLoopJoin lt h left right)"
proof -
  obtain k1 k2 st where run: "zipperLoop (noopArgs lt h) left right 0 0 (initialState (noopArgs lt h) left) =
      (k1, k2, st)" by (metis prod_cases3)
  have inv0: "noopInv h left right 0 0 (initialState (noopArgs lt h) left)"
    by (simp add: noopInv_def initialState_def ginv_def)
  have "noopInv h left right k1 k2 st \<and> (k1 = length left \<or> k2 = length right)"
    by (rule zipperLoop_rule [where I = "noopInv h left right", OF inv0 _ _ _ _ run])
      (use noopInv_skipLeft [OF inp] noopInv_skipRight [OF inp] noopInv_equal [OF inp] in
        \<open>auto simp: noopInv_bounds\<close>)
  then have inv: "noopInv h left right k1 k2 st" and stop: "k1 = length left \<or> k2 = length right"
    by auto
  have "noopInv h left right (length left) k2 (zipperRun (noopArgs lt h) left right)"
    using noopInv_restLeft [OF inp inv] stop
    by (auto simp: zipperRun_def run noop_fold_left simp del: noopArgs_steps)
  then have fin: "events (zipperRun (noopArgs lt h) left right) = nestedLoopJoin lt h left right"
      "\<not> outOfOrderFound (zipperRun (noopArgs lt h) left right)"
      "filter (\<lambda>i. \<not> coveredFromLeft (zipperRun (noopArgs lt h) left right) ! i)
        [0..<length (coveredFromLeft (zipperRun (noopArgs lt h) left right))] = []"
    by (auto simp: noopInv_def ginv_def nestedLoopJoin_def filter_empty_conv split: if_splits)
  then show ?thesis by (simp add: zipperJoinWithUndef_def)
qed

end

section \<open>Rows compared by a key\<close>

interpretation keyed_rows: row_order "\<lambda>a b. key a < key b" "\<lambda>_. True"
  for key :: "'row \<Rightarrow> 'k::linorder"
  by unfold_locales auto

interpretation noop_zipper: zipper_join "noopArgs (\<lambda>a b. key a < key b) h" "\<lambda>_. True"
    "\<lambda>a b. key a = key b" "\<lambda>_. True"
  for key :: "'row \<Rightarrow> 'k::linorder" and h
  by unfold_locales (auto simp: finder_exact_def found_def noopArgs_def)

lemma keyed_input: "row_order.input (\<lambda>a b. key a < (key b :: 'k::linorder)) (\<lambda>_. True) xs \<longleftrightarrow>
   sorted (map key xs)"
  unfolding keyed_rows.input_def by (simp add: sorted_map not_less list_all_iff)

text \<open>C11: on sorted inputs the galloping join and the zipper join without UNDEF perform the calls of the
  nested-loop join, in its order: for every left row the pairs with all equal right rows, or the
  not-found action. The zipper join reports a sorted result.\<close>

theorem joins_are_nested_loop:
  fixes key :: "'row \<Rightarrow> 'k::linorder"
  assumes "sorted (map key left)" "sorted (map key right)"
  shows "gallopingJoin (\<lambda>a b. key a < key b) h left right =
           nestedLoopJoin (\<lambda>a b. key a < key b) h left right \<and>
         zipperJoinWithUndef (noopArgs (\<lambda>a b. key a < key b) h) left right =
           (0, nestedLoopJoin (\<lambda>a b. key a < key b) h left right)"
  using assms keyed_rows.gallopingJoin_nestedLoop [of key left right h]
    keyed_rows.zipperJoin_nestedLoop [of key left right h]
  by (simp add: keyed_input)

theorem joins_are_nested_loop_witness:
  "sorted (map id [1, 3, 3, 5 :: nat]) \<and> sorted (map id [3, 3, 4 :: nat]) \<and>
   gallopingJoin (\<lambda>a b. id a < id b) True [1, 3, 3, 5 :: nat] [3, 3, 4] =
     [NotFound 0, Match 1 0, Match 1 1, Match 2 0, Match 2 1, NotFound 3]"
proof -
  have s: "sorted (map id [1, 3, 3, 5 :: nat])" "sorted (map id [3, 3, 4 :: nat])" by simp_all
  have "nestedLoopJoin (\<lambda>a b. id a < id b) True [1, 3, 3, 5 :: nat] [3, 3, 4] =
     [NotFound 0, Match 1 0, Match 1 1, Match 2 0, Match 2 1, NotFound 3]"
    by (simp add: nestedLoopJoin_def rowEvents_def eqRows_def upt_rec)
  then show ?thesis using joins_are_nested_loop [OF s, of True] s by simp
qed

end
