(* ===== verification/SpecialOptionalJoin.thy ===== *)
theory SpecialOptionalJoin
  imports JoinAlgorithms
begin

text \<open>
  Models \<open>specialOptionalJoin\<close> of \<open>src/util/JoinAlgorithms/JoinAlgorithms.h\<close>: the OPTIONAL join for
  the case that UNDEF occurs only in the last join column of the left input. The rows are lists of
  ids. An id is an element of a linear order whose least element \<open>bot\<close> is UNDEF; the comparison of
  \<open>ValueId\<close>s is such an order by the refinement theorem of theory \<open>ValueId\<close>.
\<close>

section \<open>The algorithm\<close>

type_synonym 'id row = "'id list"

fun compareAllButLast :: "('id::linorder) list \<Rightarrow> 'id list \<Rightarrow> nat \<Rightarrow> bool" where
  "compareAllButLast (a # as) (b # bs) (Suc n) =
     (if a \<noteq> b then a < b else compareAllButLast as bs n)"
| "compareAllButLast _ _ _ = False"

fun compareEqButLast :: "'id list \<Rightarrow> 'id list \<Rightarrow> nat \<Rightarrow> bool" where
  "compareEqButLast (a # as) (b # bs) (Suc n) =
     (if a \<noteq> b then False else compareEqButLast as bs n)"
| "compareEqButLast _ _ _ = True"

text \<open>The arguments of the one-column join on a block of rows that agree on all but the last column.
  The finder yields the leading UNDEF entries of the block, whatever range it is called with.\<close>

definition lastColumnArgs :: "('id::{linorder,order_bot}) list \<Rightarrow> 'id zipper_args" where
  "lastColumnArgs leftSub =
     (let endOfUndef = find_if_not (\<lambda>id. id = bot) leftSub 0
      in \<lparr>lessThan = (<), findSmallerUndefRangesLeft = Some (\<lambda>_ _. ([0..<endOfUndef], False)),
          findSmallerUndefRangesRight = None, rowHasNoUndef = (\<lambda>id. id \<noteq> bot),
          hasNotFoundAction = True, CoverUndefRanges = True\<rparr>)"

fun shiftEvent :: "nat \<Rightarrow> nat \<Rightarrow> join_event \<Rightarrow> join_event" where
  "shiftEvent it1 it2 (Match i j) = Match (it1 + i) (it2 + j)"
| "shiftEvent it1 it2 (NotFound i) = NotFound (it1 + i)"

definition subColumn :: "'id row list \<Rightarrow> nat \<Rightarrow> nat \<Rightarrow> nat \<Rightarrow> 'id list" where
  "subColumn rows c beg en = map (\<lambda>row. row ! c) (take (en - beg) (drop beg rows))"

lemma compareAllButLast_asym: "compareAllButLast a b n \<Longrightarrow> \<not> compareAllButLast b a n"
  by (induction a b n rule: compareAllButLast.induct) (auto split: if_splits)

lemma compareEqButLast_if:
  "compareEqButLast a b n \<longleftrightarrow> \<not> compareAllButLast a b n \<and> \<not> compareAllButLast b a n"
  by (induction a b n rule: compareAllButLast.induct) auto

function specialLoop ::
    "('id::{linorder,order_bot}) row list \<Rightarrow> 'id row list \<Rightarrow> nat \<Rightarrow> nat \<Rightarrow> nat \<Rightarrow> join_event list
      \<Rightarrow> (nat \<times> join_event list) result" where
  "specialLoop left right n it1 it2 evs =
     (if it1 < length left \<and> it2 < length right then
        let it2' = find_if_not (\<lambda>row. compareAllButLast row (left ! it1) (n - 1)) right it2 in
        if it2' = length right then Inr (it1, evs) else
        let next1 = find_if_not (\<lambda>row. compareAllButLast row (right ! it2') (n - 1)) left it1;
            evs1 = evs @ map NotFound [it1..<next1] in
        if next1 = length left then Inr (next1, evs1) else
        let endSame1 = find_if_not (\<lambda>row. compareEqButLast row (right ! it2') (n - 1)) left next1;
            endSame2 = find_if_not (\<lambda>row. compareEqButLast (left ! next1) row (n - 1)) right it2' in
        if endSame1 = next1 then specialLoop left right n next1 it2' evs1
        else
          let leftSub = subColumn left (n - 1) next1 endSame1;
              rightSub = subColumn right (n - 1) it2' endSame2;
              (numOutOfOrder, joinEvs) = zipperJoinWithUndef (lastColumnArgs leftSub) leftSub rightSub in
          if numOutOfOrder \<noteq> 0 then Inl CorrectnessViolation else
          specialLoop left right n endSame1 endSame2 (evs1 @ map (shiftEvent next1 it2') joinEvs)
      else Inr (it1, evs))"
  by pat_completeness auto
termination
proof (relation "measure (\<lambda>(left, right, n, it1, it2, evs).
    (length left - it1) + (length right - it2))", goal_cases)
  case 1
  then show ?case by simp
next
  case (2 left right n it1 it2 evs it2' next1 evs1 endSame1 endSame2)
  have ge: "it2 \<le> it2'" "it1 \<le> next1" using 2 find_if_not_bounds(1) by auto
  have lt: "it2' < length right" "next1 < length left"
    using 2 find_if_not_bounds(2) [of it2 right "\<lambda>row. compareAllButLast row (left ! it1) (n - 1)"]
      find_if_not_bounds(2) [of it1 left "\<lambda>row. compareAllButLast row (right ! it2') (n - 1)"]
    by auto
  have "next1 = it1 \<and> it2' = it2 \<longrightarrow> False"
  proof
    assume same: "next1 = it1 \<and> it2' = it2"
    have "\<not> compareAllButLast (right ! it2) (left ! it1) (n - 1)"
        "\<not> compareAllButLast (left ! it1) (right ! it2) (n - 1)"
      using 2 same lt find_if_not_bounds(3) by (metis less_irrefl)+
    then have "compareEqButLast (left ! next1) (right ! it2') (n - 1)"
      using same by (simp add: compareEqButLast_if)
    then show False
      using 2 lt find_if_not_bounds(3)
        [of next1 left "\<lambda>row. compareEqButLast row (right ! it2') (n - 1)"] by simp
  qed
  then have "it1 < next1 \<or> it2 < it2'" using ge by auto
  then show ?case using ge lt by (simp add: add_mono_thms_linordered_field) arith
next
  case (3 left right n it1 it2 evs it2' next1 evs1 endSame1 endSame2)
  have ge: "it2 \<le> it2'" "it1 \<le> next1" "next1 \<le> endSame1" "it2' \<le> endSame2"
    by (subst 3(2) 3(4) 3(7) 3(8), rule find_if_not_bounds(1))+
  have "next1 \<le> length left" using 3(1) unfolding 3(4) by (intro find_if_not_bounds(2)) simp
  then have "next1 < length left" "next1 < endSame1" using 3(6,9) ge by linarith+
  then show ?case using ge by auto
qed

definition specialOptionalJoin ::
    "('id::{linorder,order_bot}) row list \<Rightarrow> 'id row list \<Rightarrow> join_event list result" where
  "specialOptionalJoin left right =
     (if left = [] then Inr []
      else res_bind (specialLoop left right (length (hd left)) 0 0 []) (\<lambda>(it1, evs).
        Inr (evs @ map NotFound [it1..<length left])))"

section \<open>Correctness\<close>

text \<open>The join on the last column is an instance of the zipper join: an UNDEF entry on the left is
  compatible with everything.\<close>

lemma endOfUndef_sorted:
  fixes xs :: "('id::{linorder,order_bot}) list"
  assumes "sorted xs"
  shows "set [0..<find_if_not (\<lambda>id. id = bot) xs 0] = {i. i < length xs \<and> xs ! i = bot}"
proof -
  define e where "e = find_if_not (\<lambda>id. id = bot) xs 0"
  have le: "e \<le> length xs" unfolding e_def by (rule find_if_not_bounds(2)) simp
  have "xs ! i = bot \<longleftrightarrow> i < e" if i: "i < length xs" for i
  proof
    assume "xs ! i = bot"
    show "i < e"
    proof (rule ccontr)
      assume "\<not> i < e"
      then have "xs ! e \<le> xs ! i" "e < length xs" using assms i by (simp_all add: sorted_iff_nth_mono)
      then show False
        using find_if_not_spec(2) [of 0 xs "\<lambda>id. id = bot"] \<open>xs ! i = bot\<close>
        by (simp add: e_def [symmetric] bot_unique)
    qed
  next
    assume "i < e"
    then show "xs ! i = bot" using find_if_not_spec(1) [of 0 i "\<lambda>id. id = bot" xs] by (simp add: e_def)
  qed
  then show ?thesis using le by (auto simp: e_def [symmetric])
qed

interpretation linorder_rows: row_order "(<) :: 'a::linorder \<Rightarrow> 'a \<Rightarrow> bool" "\<lambda>_. True"
  by unfold_locales auto

lemma linorder_input: "row_order.input (<) (\<lambda>_. True) xs \<longleftrightarrow> sorted (xs :: 'a::linorder list)"
  by (simp add: linorder_rows.input_def not_less list_all_iff)

lemma lastColumnArgs_simps [simp]:
  "lessThan (lastColumnArgs leftSub) = (<)"
  "findSmallerUndefRangesRight (lastColumnArgs leftSub) = None"
  "hasNotFoundAction (lastColumnArgs leftSub)"
  "CoverUndefRanges (lastColumnArgs leftSub)"
  "containsNoUndefined (lastColumnArgs leftSub) a \<longleftrightarrow> a \<noteq> bot"
  "found (findSmallerUndefRangesLeft (lastColumnArgs leftSub)) row xs =
     [0..<find_if_not (\<lambda>id. id = bot) leftSub 0]"
  by (simp_all add: lastColumnArgs_def containsNoUndefined_def found_def)

lemma lastColumn_finder:
  fixes xs :: "('id::{linorder,order_bot}) list"
  assumes "sorted xs" and pre: "\<And>i. n \<le> i \<Longrightarrow> i < length xs \<Longrightarrow> \<not> xs ! i < row" and "n \<le> length xs"
  shows "finder_exact (<) (findSmallerUndefRangesLeft (lastColumnArgs xs))
    (\<lambda>a. a = row \<or> a = bot) row xs n"
proof -
  have "i < length xs \<and> xs ! i = bot \<and> xs ! i < row \<longleftrightarrow> i < n \<and> xs ! i < row \<and> (xs ! i = row \<or> xs ! i = bot)"
    for i
    using pre [of i] assms(3) by (cases "i < n") auto
  then show ?thesis
    unfolding finder_exact_def lastColumnArgs_simps endOfUndef_sorted [OF assms(1)] by auto
qed

interpretation last_column: zipper_join "lastColumnArgs leftSub" "\<lambda>_. True" "\<lambda>a b. a = b \<or> a = bot"
    "\<lambda>xs. xs = leftSub"
  for leftSub :: "('id::{linorder,order_bot}) list"
proof (unfold_locales, goal_cases)
  case (4 row xs n)
  then show ?case using lastColumn_finder [of xs n row] by (simp add: linorder_input)
qed (auto simp: finder_exact_def found_def)

lemma lastColumn_join:
  fixes leftSub :: "('id::{linorder,order_bot}) list"
  assumes "sorted leftSub" "sorted rightSub" "rightSub \<noteq> []"
    and "zipperJoinWithUndef (lastColumnArgs leftSub) leftSub rightSub = (k, evs)"
  shows "k = 0" "distinct evs"
    and "matches evs = {(i, j). i < length leftSub \<and> j < length rightSub \<and>
      (leftSub ! i = rightSub ! j \<or> leftSub ! i = bot)}"
    and "notFounds evs = {i. i < length leftSub \<and>
      (\<forall>j<length rightSub. \<not> (leftSub ! i = rightSub ! j \<or> leftSub ! i = bot))}"
proof -
  have inp: "row_order.input (lessThan (lastColumnArgs leftSub)) (\<lambda>_. True) leftSub"
      "row_order.input (lessThan (lastColumnArgs leftSub)) (\<lambda>_. True) rightSub"
    using assms by (simp_all add: linorder_input)
  note run = last_column.zipperJoin_correct [OF inp(1) refl inp(2) assms(4)]
  show "distinct evs"
    "matches evs = {(i, j). i < length leftSub \<and> j < length rightSub \<and>
      (leftSub ! i = rightSub ! j \<or> leftSub ! i = bot)}"
    "notFounds evs = {i. i < length leftSub \<and>
      (\<forall>j<length rightSub. \<not> (leftSub ! i = rightSub ! j \<or> leftSub ! i = bot))}"
    using run by simp_all
  have "neverUnsorted (lastColumnArgs leftSub)" by (simp add: neverUnsorted_def lastColumnArgs_def Let_def)
  from last_column.zipperJoin_sorted [OF inp(1) refl inp(2) this] assms(3,4) show "k = 0" by auto
qed

text \<open>Two rows are compatible if they agree in every column in which both are defined.\<close>

definition rowCompat :: "('id::order_bot) row \<Rightarrow> 'id row \<Rightarrow> bool" where
  "rowCompat = list_all2 (\<lambda>x y. x = y \<or> x = bot \<or> y = bot)"

definition specialInput :: "nat \<Rightarrow> ('id::{linorder,order_bot}) row list \<Rightarrow> 'id row list \<Rightarrow> bool" where
  "specialInput m left right \<longleftrightarrow>
     sorted left \<and> sorted right \<and> (\<forall>row\<in>set left \<union> set right. length row = Suc m) \<and>
     (\<forall>row\<in>set left. bot \<notin> set (take m row)) \<and> (\<forall>row\<in>set right. bot \<notin> set row)"

lemma compareAllButLast_take:
  "m \<le> length a \<Longrightarrow> m \<le> length b \<Longrightarrow> compareAllButLast a b m \<longleftrightarrow> take m a < take m b"
  by (induction a b m rule: compareAllButLast.induct) auto

lemma compareEqButLast_take:
  "m \<le> length a \<Longrightarrow> m \<le> length b \<Longrightarrow> compareEqButLast a b m \<longleftrightarrow> take m a = take m b"
  by (induction a b m rule: compareEqButLast.induct) auto

lemma last_mono_lex:
  "(a :: 'a::linorder list) \<le> b \<Longrightarrow> length a = Suc m \<Longrightarrow> length b = Suc m \<Longrightarrow> take m a = take m b \<Longrightarrow>
   a ! m \<le> b ! m"
proof (induction a b m rule: compareAllButLast.induct)
  case (1 a as b bs n)
  then show ?case by auto
qed (auto simp: take_Cons length_Suc_conv split: nat.splits list.splits)

lemma rowCompat_special:
  assumes "length a = Suc m" "length b = Suc m" "bot \<notin> set (take m a)" "bot \<notin> set b"
  shows "rowCompat a b \<longleftrightarrow> take m a = take m b \<and> (a ! m = b ! m \<or> a ! m = bot)"
proof -
  have a: "a ! k \<noteq> bot" if "k < m" for k
    using assms(1,3) that by (metis in_set_conv_nth length_take min.absorb4 nth_take less_Suc_eq)
  have b: "b ! k \<noteq> bot" if "k < Suc m" for k using assms(2,4) that by (metis nth_mem)
  have "rowCompat a b \<longleftrightarrow> (\<forall>k<Suc m. a ! k = b ! k \<or> a ! k = bot \<or> b ! k = bot)"
    using assms(1,2) by (auto simp: rowCompat_def list_all2_conv_all_nth)
  also have "\<dots> \<longleftrightarrow> (\<forall>k<m. a ! k = b ! k) \<and> (a ! m = b ! m \<or> a ! m = bot)"
    using a b by (auto simp: less_Suc_eq)
  also have "(\<forall>k<m. a ! k = b ! k) \<longleftrightarrow> take m a = take m b"
    using assms(1,2) by (auto simp: list_eq_iff_nth_eq)
  finally show ?thesis .
qed

lemma specialInput_facts:
  assumes "specialInput m left right"
  shows "i \<le> k \<Longrightarrow> k < length left \<Longrightarrow> take m (left ! i) \<le> take m (left ! k)"
    and "j \<le> l \<Longrightarrow> l < length right \<Longrightarrow> take m (right ! j) \<le> take m (right ! l)"
    and "i < length left \<Longrightarrow> length (left ! i) = Suc m"
    and "j < length right \<Longrightarrow> length (right ! j) = Suc m"
    and "i < length left \<Longrightarrow> j < length right \<Longrightarrow> rowCompat (left ! i) (right ! j) \<longleftrightarrow>
      take m (left ! i) = take m (right ! j) \<and> (left ! i ! m = right ! j ! m \<or> left ! i ! m = bot)"
proof -
  show "i \<le> k \<Longrightarrow> k < length left \<Longrightarrow> take m (left ! i) \<le> take m (left ! k)"
    using assms by (intro take_mono_lex) (auto simp: specialInput_def sorted_iff_nth_mono)
  show "j \<le> l \<Longrightarrow> l < length right \<Longrightarrow> take m (right ! j) \<le> take m (right ! l)"
    using assms by (intro take_mono_lex) (auto simp: specialInput_def sorted_iff_nth_mono)
  show len: "length (left ! i) = Suc m" if "i < length left" for i
    using assms that by (auto simp: specialInput_def)
  show len': "length (right ! j) = Suc m" if "j < length right" for j
    using assms that by (auto simp: specialInput_def)
  show "i < length left \<Longrightarrow> j < length right \<Longrightarrow> rowCompat (left ! i) (right ! j) \<longleftrightarrow>
      take m (left ! i) = take m (right ! j) \<and> (left ! i ! m = right ! j ! m \<or> left ! i ! m = bot)"
    using assms len len' by (intro rowCompat_special) (auto simp: specialInput_def)
qed

definition specialInv ::
    "nat \<Rightarrow> ('id::{linorder,order_bot}) row list \<Rightarrow> 'id row list \<Rightarrow> nat \<Rightarrow> nat \<Rightarrow> join_event list \<Rightarrow> bool" where
  "specialInv m left right it1 it2 evs \<longleftrightarrow> it1 \<le> length left \<and> it2 \<le> length right \<and>
     (\<forall>i j. j < it2 \<longrightarrow> it1 \<le> i \<longrightarrow> i < length left \<longrightarrow> take m (right ! j) < take m (left ! i)) \<and>
     distinct evs \<and>
     matches evs = {(i, j). i < it1 \<and> j < length right \<and> rowCompat (left ! i) (right ! j)} \<and>
     notFounds evs = {i. i < it1 \<and> (\<forall>j<length right. \<not> rowCompat (left ! i) (right ! j))}"

lemma specialInv_right:
  assumes inp: "specialInput m left right" and inv: "specialInv m left right it1 it2 evs"
    and k: "it2 \<le> k" "k \<le> length right"
    and less: "\<And>j. it2 \<le> j \<Longrightarrow> j < k \<Longrightarrow> take m (right ! j) < take m (left ! it1)"
  shows "specialInv m left right it1 k evs"
proof -
  have "take m (right ! j) < take m (left ! i)" if "j < k" "it1 \<le> i" "i < length left" for i j
  proof (cases "j < it2")
    case False
    then show ?thesis
      using less [of j] that specialInput_facts(1) [OF inp that(2,3)] by (simp add: order_less_le_trans)
  qed (use inv that in \<open>auto simp: specialInv_def\<close>)
  then show ?thesis using inv k by (auto simp: specialInv_def)
qed

text \<open>The events for the left rows from \<open>it1\<close> to \<open>k\<close> extend the invariant.\<close>

lemma specialInv_extend:
  assumes inv: "specialInv m left right it1 it2 evs" and k: "it1 \<le> k" "k \<le> length left"
    and new: "distinct new"
      "matches new = {(i, j). it1 \<le> i \<and> i < k \<and> j < length right \<and> rowCompat (left ! i) (right ! j)}"
      "notFounds new = {i. it1 \<le> i \<and> i < k \<and> (\<forall>j<length right. \<not> rowCompat (left ! i) (right ! j))}"
  shows "specialInv m left right k it2 (evs @ new)"
proof -
  have m: "matches evs = {(i, j). i < it1 \<and> j < length right \<and> rowCompat (left ! i) (right ! j)}"
    and n: "notFounds evs = {i. i < it1 \<and> (\<forall>j<length right. \<not> rowCompat (left ! i) (right ! j))}"
    using inv by (simp_all add: specialInv_def)
  have "matches evs \<inter> matches new = {}" "notFounds evs \<inter> notFounds new = {}"
    unfolding m n new(2,3) by auto
  then have "set evs \<inter> set new = {}" by (simp add: disjoint_events)
  moreover have "matches (evs @ new) = {(i, j). i < k \<and> j < length right \<and> rowCompat (left ! i) (right ! j)}"
    unfolding matches_append m new(2) using k(1) by auto
  moreover have "notFounds (evs @ new) = {i. i < k \<and> (\<forall>j<length right. \<not> rowCompat (left ! i) (right ! j))}"
    unfolding notFounds_append n new(3) using k(1) by auto
  ultimately show ?thesis using inv k new(1) by (simp add: specialInv_def)
qed

lemma specialInv_notFound:
  assumes inp: "specialInput m left right" and inv: "specialInv m left right it1 it2 evs"
    and k: "it1 \<le> k" "k \<le> length left"
    and less: "\<And>i. it1 \<le> i \<Longrightarrow> i < k \<Longrightarrow> it2 < length right \<Longrightarrow> take m (left ! i) < take m (right ! it2)"
  shows "specialInv m left right k it2 (evs @ map NotFound [it1..<k])"
proof -
  have none: "\<not> rowCompat (left ! i) (right ! j)" if "it1 \<le> i" "i < k" "j < length right" for i j
  proof (cases "j < it2")
    case True
    then have "take m (right ! j) < take m (left ! i)" using inv that k by (auto simp: specialInv_def)
    then show ?thesis using that k specialInput_facts(5) [OF inp, of i j] by auto
  next
    case False
    then have "take m (left ! i) < take m (right ! j)"
      using less [OF that(1,2)] specialInput_facts(2) [OF inp, of it2 j] that
      by (auto intro: order_less_le_trans)
    then show ?thesis using specialInput_facts(5) [OF inp, of i j] that k by auto
  qed
  show ?thesis
    by (rule specialInv_extend [OF inv k]) (use none in \<open>auto simp: distinct_map inj_on_def\<close>)
qed

lemma prefix_block:
  fixes xs :: "('id::linorder) row list"
  assumes mono: "\<forall>i k. i \<le> k \<longrightarrow> k < length xs \<longrightarrow> take m (xs ! i) \<le> take m (xs ! k)"
    and it: "it < length xs" "take m (xs ! it) = B"
    and P: "\<forall>row\<in>set xs. P row \<longleftrightarrow> take m row = B" and e: "e = find_if_not P xs it"
  shows "it < e" "e \<le> length xs" "\<And>i. it \<le> i \<Longrightarrow> i < e \<Longrightarrow> take m (xs ! i) = B"
    "\<And>i. e \<le> i \<Longrightarrow> i < length xs \<Longrightarrow> B < take m (xs ! i)"
proof -
  show le: "e \<le> length xs" unfolding e by (rule find_if_not_bounds(2)) (use it in simp)
  show lt: "it < e" unfolding e by (rule find_if_not_bounds(3)) (use it P in simp_all)
  show "take m (xs ! i) = B" if "it \<le> i" "i < e" for i
    using find_if_not_spec(1) [of it i P xs] that P le by (auto simp: e)
  show "B < take m (xs ! i)" if i: "e \<le> i" "i < length xs" for i
  proof -
    have "\<not> P (xs ! e)" using find_if_not_spec(2) [of it xs P] i it by (simp add: e)
    then have "take m (xs ! e) \<noteq> B" using P i by (auto simp: nth_mem)
    then have "B < take m (xs ! e)" using mono [rule_format, of it e] lt i it(2) by (simp add: order_less_le)
    then show ?thesis using mono [rule_format, OF i] by (rule order_less_le_trans)
  qed
qed

lemma all_shift: "(\<forall>j<e - b. Q (b + j)) \<longleftrightarrow> (\<forall>j. b \<le> j \<and> j < e \<longrightarrow> Q (j :: nat))"
proof
  assume all: "\<forall>j<e - b. Q (b + j)"
  show "\<forall>j. b \<le> j \<and> j < e \<longrightarrow> Q j"
  proof (intro allI impI)
    fix j assume "b \<le> j \<and> j < e"
    then show "Q j" using all [rule_format, of "j - b"] diff_less_mono [of j e b] by simp
  qed
qed auto

lemma subColumn_nth:
  assumes "b \<le> e" "e \<le> length rows"
  shows "length (subColumn rows c b e) = e - b"
    and "i < e - b \<Longrightarrow> subColumn rows c b e ! i = rows ! (b + i) ! c"
  using assms by (simp_all add: subColumn_def)

lemma subColumn_sorted:
  fixes rows :: "('id::linorder) row list"
  assumes "sorted rows" "b \<le> e" "e \<le> length rows" "\<And>i. i < length rows \<Longrightarrow> length (rows ! i) = Suc m"
    and "\<And>i. b \<le> i \<Longrightarrow> i < e \<Longrightarrow> take m (rows ! i) = B"
  shows "sorted (subColumn rows m b e)"
proof -
  have "rows ! (b + i) ! m \<le> rows ! (b + k) ! m" if "i \<le> k" "k < e - b" for i k
  proof (rule last_mono_lex)
    show "rows ! (b + i) \<le> rows ! (b + k)" using assms(1,3) that by (simp add: sorted_iff_nth_mono)
    show "length (rows ! (b + i)) = Suc m" "length (rows ! (b + k)) = Suc m"
      using assms(3,4) that by simp_all
    show "take m (rows ! (b + i)) = take m (rows ! (b + k))"
      using assms(5) [of "b + i"] assms(5) [of "b + k"] that by simp
  qed
  then show ?thesis by (simp add: sorted_iff_nth_mono subColumn_nth [OF assms(2,3)])
qed

lemma image_shift:
  "(i, j) \<in> (\<lambda>(i, j). (a + i, b + j)) ` S \<longleftrightarrow> a \<le> i \<and> b \<le> j \<and> (i - a :: nat, j - b :: nat) \<in> S"
proof
  assume "a \<le> i \<and> b \<le> j \<and> (i - a, j - b) \<in> S"
  then show "(i, j) \<in> (\<lambda>(i, j). (a + i, b + j)) ` S"
    by (intro image_eqI [of _ _ "(i - a, j - b)"]) auto
qed auto

lemma shift_events:
  "distinct evs \<Longrightarrow> distinct (map (shiftEvent a b) evs)"
  "matches (map (shiftEvent a b) evs) = (\<lambda>(i, j). (a + i, b + j)) ` matches evs"
  "notFounds (map (shiftEvent a b) evs) = (+) a ` notFounds evs"
proof -
  have inj: "inj (shiftEvent a b)"
  proof (rule injI)
    show "x = y" if "shiftEvent a b x = shiftEvent a b y" for x y
      using that by (cases x; cases y) auto
  qed
  then show "distinct evs \<Longrightarrow> distinct (map (shiftEvent a b) evs)" by (simp add: distinct_map inj_on_subset [OF inj])
  have iff: "Match i j = shiftEvent a b e \<longleftrightarrow> (\<exists>i' j'. e = Match i' j' \<and> i = a + i' \<and> j = b + j')"
      "NotFound i = shiftEvent a b e \<longleftrightarrow> (\<exists>i'. e = NotFound i' \<and> i = a + i')" for i j e
    by (cases e; auto)+
  show "matches (map (shiftEvent a b) evs) = (\<lambda>(i, j). (a + i, b + j)) ` matches evs"
    by (auto simp: matches_def image_iff iff)
  show "notFounds (map (shiftEvent a b) evs) = (+) a ` notFounds evs"
    by (auto simp: notFounds_def image_iff iff)
qed

lemma specialInv_block:
  assumes inp: "specialInput m left right" and inv: "specialInv m left right it1 it2 evs"
    and it: "it1 < length left" "it2 < length right" and same: "take m (left ! it1) = take m (right ! it2)"
    and e1: "e1 = find_if_not (\<lambda>row. compareEqButLast row (right ! it2) m) left it1"
    and e2: "e2 = find_if_not (\<lambda>row. compareEqButLast (left ! it1) row m) right it2"
    and run: "zipperJoinWithUndef (lastColumnArgs (subColumn left m it1 e1))
      (subColumn left m it1 e1) (subColumn right m it2 e2) = (k, new)"
  shows "k = 0" "specialInv m left right e1 e2 (evs @ map (shiftEvent it1 it2) new)"
proof -
  note facts = specialInput_facts [OF inp]
  let ?B = "take m (right ! it2)" and ?L = "subColumn left m it1 e1" and ?R = "subColumn right m it2 e2"
  have rows: "\<forall>row\<in>set left. m \<le> length row" "\<forall>row\<in>set right. m \<le> length row"
    using inp by (auto simp: specialInput_def)
  have P1: "\<forall>row\<in>set left. compareEqButLast row (right ! it2) m \<longleftrightarrow> take m row = ?B"
    using rows it by (simp add: compareEqButLast_take)
  have "\<forall>i k. i \<le> k \<longrightarrow> k < length left \<longrightarrow> take m (left ! i) \<le> take m (left ! k)"
    using facts(1) by blast
  note b1 = prefix_block [OF this it(1) same P1 e1]
  have P2: "\<forall>row\<in>set right. compareEqButLast (left ! it1) row m \<longleftrightarrow> take m row = ?B"
    using rows it same by (auto simp: compareEqButLast_take)
  have "\<forall>i k. i \<le> k \<longrightarrow> k < length right \<longrightarrow> take m (right ! i) \<le> take m (right ! k)"
    using facts(2) by blast
  note b2 = prefix_block [OF this it(2) refl P2 e2]
  note L = subColumn_nth [OF less_imp_le [OF b1(1)] b1(2), where c = m]
    and R = subColumn_nth [OF less_imp_le [OF b2(1)] b2(2), where c = m]
  have "sorted left" "sorted right" using inp by (simp_all add: specialInput_def)
  then have sorted: "sorted ?L" "sorted ?R"
    by (auto intro!: subColumn_sorted [OF _ less_imp_le [OF b1(1)] b1(2)]
        subColumn_sorted [OF _ less_imp_le [OF b2(1)] b2(2)] facts(3,4) b1(3) b2(3))
  have "?R \<noteq> []" using R(1) b2(1) by auto
  note join = lastColumn_join [OF sorted this run]
  show "k = 0" by (rule join(1))
  have compat: "rowCompat (left ! i) (right ! j) \<longleftrightarrow>
      it2 \<le> j \<and> j < e2 \<and> (left ! i ! m = right ! j ! m \<or> left ! i ! m = bot)"
    if "it1 \<le> i" "i < e1" "j < length right" for i j
  proof -
    have "take m (left ! i) = take m (right ! j) \<longleftrightarrow> it2 \<le> j \<and> j < e2"
    proof -
      consider "j < it2" | "it2 \<le> j" "j < e2" | "e2 \<le> j" by linarith
      then show ?thesis
      proof cases
        case 1
        then have "take m (right ! j) < take m (left ! i)"
          using inv that b1(2) by (auto simp: specialInv_def)
        then show ?thesis using 1 by auto
      next
        case 2
        then show ?thesis using b1(3) [OF that(1,2)] b2(3) [OF 2] by simp
      next
        case 3
        then show ?thesis using b1(3) [OF that(1,2)] b2(4) [of j] that by auto
      qed
    qed
    then show ?thesis using facts(5) [of i j] that b1(2) by auto
  qed
  have "specialInv m left right e1 it2 (evs @ map (shiftEvent it1 it2) new)"
  proof (rule specialInv_extend [OF inv less_imp_le [OF b1(1)] b1(2)])
    show "distinct (map (shiftEvent it1 it2) new)" by (rule shift_events(1) [OF join(2)])
    show "matches (map (shiftEvent it1 it2) new) = {(i, j). it1 \<le> i \<and> i < e1 \<and> j < length right \<and>
        rowCompat (left ! i) (right ! j)}" (is "_ = ?M")
    proof -
      have "(i, j) \<in> (\<lambda>(i, j). (it1 + i, it2 + j)) ` matches new \<longleftrightarrow> (i, j) \<in> ?M" for i j
      proof -
        have "(i, j) \<in> (\<lambda>(i, j). (it1 + i, it2 + j)) ` matches new \<longleftrightarrow>
            it1 \<le> i \<and> it2 \<le> j \<and> (i - it1, j - it2) \<in> matches new"
          by (rule image_shift)
        also have "\<dots> \<longleftrightarrow> it1 \<le> i \<and> i < e1 \<and> it2 \<le> j \<and> j < e2 \<and>
            (left ! i ! m = right ! j ! m \<or> left ! i ! m = bot)"
          unfolding join(3) using b1(1) b2(1)
          by (cases "it1 \<le> i \<and> it2 \<le> j \<and> i - it1 < e1 - it1 \<and> j - it2 < e2 - it2") (auto simp: L R)
        also have "\<dots> \<longleftrightarrow> (i, j) \<in> ?M" using compat [of i j] b2(2) by auto
        finally show ?thesis .
      qed
      then show ?thesis unfolding shift_events(2) set_eq_iff split_paired_All by blast
    qed
    show "notFounds (map (shiftEvent it1 it2) new) = {i. it1 \<le> i \<and> i < e1 \<and>
        (\<forall>j<length right. \<not> rowCompat (left ! i) (right ! j))}" (is "_ = ?N")
    proof -
      have "i \<in> (+) it1 ` notFounds new \<longleftrightarrow> i \<in> ?N" for i
      proof -
        have "i \<in> (+) it1 ` notFounds new \<longleftrightarrow> it1 \<le> i \<and> i - it1 \<in> notFounds new"
          by (auto simp: image_iff) (metis le_add_diff_inverse)
        also have "\<dots> \<longleftrightarrow> it1 \<le> i \<and> i < e1 \<and> (\<forall>j<e2 - it2.
            \<not> (left ! i ! m = right ! (it2 + j) ! m \<or> left ! i ! m = bot))"
          unfolding join(4) using b1(1) by (cases "it1 \<le> i \<and> i - it1 < e1 - it1") (auto simp: L R)
        also have "\<dots> \<longleftrightarrow> i \<in> ?N"
        proof (cases "it1 \<le> i \<and> i < e1")
          case True
          have "(\<forall>j<e2 - it2. \<not> (left ! i ! m = right ! (it2 + j) ! m \<or> left ! i ! m = bot)) \<longleftrightarrow>
              (\<forall>j. it2 \<le> j \<and> j < e2 \<longrightarrow> \<not> (left ! i ! m = right ! j ! m \<or> left ! i ! m = bot))"
            by (rule all_shift)
          also have "\<dots> \<longleftrightarrow> (\<forall>j<length right. \<not> rowCompat (left ! i) (right ! j))"
          proof (intro iffI allI impI)
            fix j assume "\<forall>j. it2 \<le> j \<and> j < e2 \<longrightarrow> \<not> (left ! i ! m = right ! j ! m \<or> left ! i ! m = bot)"
              and "j < length right"
            then show "\<not> rowCompat (left ! i) (right ! j)" using compat [of i j] True by simp
          next
            fix j assume all: "\<forall>j<length right. \<not> rowCompat (left ! i) (right ! j)" and j: "it2 \<le> j \<and> j < e2"
            then have "j < length right" using b2(2) by simp
            then show "\<not> (left ! i ! m = right ! j ! m \<or> left ! i ! m = bot)"
              using compat [of i j] True all j by simp
          qed
          finally show ?thesis using True by simp
        qed auto
        finally show ?thesis .
      qed
      then show ?thesis unfolding shift_events(3) by auto
    qed
  qed
  note inv' = this
  show "specialInv m left right e1 e2 (evs @ map (shiftEvent it1 it2) new)"
  proof (cases "e1 < length left")
    case True
    have "take m (right ! j) < take m (left ! e1)" if "it2 \<le> j" "j < e2" for j
      unfolding b2(3) [OF that] by (rule b1(4) [OF order_refl True])
    then show ?thesis by (rule specialInv_right [OF inp inv' less_imp_le [OF b2(1)] b2(2)])
  next
    case False
    then show ?thesis using inv' b2(2) by (auto simp: specialInv_def)
  qed
qed

declare specialLoop.simps [simp del]

lemma find_if_not_prefix:
  fixes xs :: "('id::linorder) row list"
  assumes rows: "\<forall>row\<in>set xs. m \<le> length row" and b: "m \<le> length b" and it: "it < length xs"
    and k: "k = find_if_not (\<lambda>row. compareAllButLast row b m) xs it"
  shows "it \<le> k" "k \<le> length xs" "\<And>i. it \<le> i \<Longrightarrow> i < k \<Longrightarrow> take m (xs ! i) < take m b"
    "k < length xs \<Longrightarrow> \<not> take m (xs ! k) < take m b"
proof -
  show "it \<le> k" using find_if_not_bounds(1) by (simp add: k)
  show le: "k \<le> length xs" unfolding k by (rule find_if_not_bounds(2)) (use it in simp)
  have row: "m \<le> length (xs ! i)" if "i < length xs" for i using rows that by simp
  show "take m (xs ! i) < take m b" if "it \<le> i" "i < k" for i
    using find_if_not_spec(1) [of it i "\<lambda>row. compareAllButLast row b m" xs] that le b row [of i]
    by (simp add: k compareAllButLast_take)
  show "\<not> take m (xs ! k) < take m b" if "k < length xs"
    using find_if_not_spec(2) [of it xs "\<lambda>row. compareAllButLast row b m"] that it b row [of k]
    by (simp add: k compareAllButLast_take)
qed

lemma specialLoop_correct:
  assumes "specialInput m left right" "specialInv m left right it1 it2 evs" "n = Suc m"
  shows "\<exists>k1 k2 evs'. specialLoop left right n it1 it2 evs = Inr (k1, evs') \<and>
    specialInv m left right k1 k2 evs' \<and> (k1 = length left \<or> k2 = length right)"
  using assms
proof (induction left right n it1 it2 evs rule: specialLoop.induct)
  case (1 left right n it1 it2 evs)
  note inp = "1.prems"(1) and inv = "1.prems"(2)
  have n: "n - 1 = m" using "1.prems"(3) by simp
  note eq = specialLoop.simps [of left right n it1 it2 evs, unfolded n]
  have rows: "\<forall>row\<in>set left. m \<le> length row" "\<forall>row\<in>set right. m \<le> length row"
    using inp by (auto simp: specialInput_def)
  show ?case
  proof (cases "it1 < length left \<and> it2 < length right")
    case False
    then show ?thesis using inv by (auto simp: eq specialInv_def)
  next
    case True
    define it2' where "it2' = find_if_not (\<lambda>row. compareAllButLast row (left ! it1) m) right it2"
    note f2 = find_if_not_prefix [OF rows(2) _ _ it2'_def]
    have inv2: "specialInv m left right it1 it2' evs"
      using specialInv_right [OF inp inv] f2 True rows(1) by simp
    show ?thesis
    proof (cases "it2' = length right")
      case end2: True
      then show ?thesis using inv2 True by (auto simp: eq it2'_def [symmetric] Let_def)
    next
      case end2: False
      then have it2': "it2' < length right" using f2(2) True rows(1) by simp
      define next1 where "next1 = find_if_not (\<lambda>row. compareAllButLast row (right ! it2') m) left it1"
      note f1 = find_if_not_prefix [OF rows(1) _ _ next1_def]
      define evs1 where "evs1 = evs @ map NotFound [it1..<next1]"
      have inv1: "specialInv m left right next1 it2' evs1"
        unfolding evs1_def using specialInv_notFound [OF inp inv2] f1 True rows(2) it2' by simp
      show ?thesis
      proof (cases "next1 = length left")
        case True': True
        then show ?thesis
          using inv1 True end2 by (auto simp: eq it2'_def [symmetric] next1_def [symmetric] evs1_def Let_def)
      next
        case end1: False
        then have next1: "next1 < length left" using f1(2) True rows(2) it2' by simp
        define e1 where "e1 = find_if_not (\<lambda>row. compareEqButLast row (right ! it2') m) left next1"
        define e2 where "e2 = find_if_not (\<lambda>row. compareEqButLast (left ! next1) row m) right it2'"
        have lens: "m \<le> length (left ! next1)" "m \<le> length (right ! it2')"
          using rows next1 it2' by simp_all
        have notLess: "\<not> take m (left ! next1) < take m (right ! it2')"
          using f1(4) next1 True rows(2) it2' by simp
        show ?thesis
        proof (cases "e1 = next1")
          case e1: True
          then have "specialLoop left right n it1 it2 evs = specialLoop left right n next1 it2' evs1"
            using True end1 end2
            by (simp add: eq it2'_def [symmetric] next1_def [symmetric] evs1_def e1_def [symmetric] Let_def)
          then show ?thesis
            using "1.IH"(1) [unfolded n, OF True it2'_def end2 next1_def evs1_def end1 e1_def e2_def e1 inp inv1]
              "1.prems"(3) by simp
        next
          case e1: False
          obtain k new where run: "zipperJoinWithUndef (lastColumnArgs (subColumn left m next1 e1))
              (subColumn left m next1 e1) (subColumn right m it2' e2) = (k, new)" by fastforce
          have "compareEqButLast (left ! next1) (right ! it2') m"
            using e1 next1 unfolding e1_def find_if_not_def
            by (auto simp: Cons_nth_drop_Suc [symmetric] split: if_splits)
          then have same: "take m (left ! next1) = take m (right ! it2')"
            using lens by (simp add: compareEqButLast_take)
          note block = specialInv_block [OF inp inv1 next1 it2' same e1_def e2_def run]
          have "specialLoop left right n it1 it2 evs =
              specialLoop left right n e1 e2 (evs1 @ map (shiftEvent next1 it2') new)"
            using True end1 end2 e1 run block(1)
            by (simp add: eq it2'_def [symmetric] next1_def [symmetric] evs1_def e1_def [symmetric]
                e2_def [symmetric] Let_def)
          then show ?thesis
            using "1.IH"(2) [unfolded n, OF True it2'_def end2 next1_def evs1_def end1 e1_def e2_def e1 refl refl
                run [symmetric] refl _ inp block(2)] block(1) "1.prems"(3) by simp
        qed
      qed
    qed
  qed
qed

text \<open>C10: for inputs as the function expects them (sorted rows, UNDEF only in the last column of the
  left input) the special OPTIONAL join passes its correctness check, emits every pair of compatible
  rows exactly once, and reports exactly the left rows without a compatible row, each once.\<close>

theorem specialOptionalJoin_correct:
  assumes "specialInput m left right"
  shows "\<exists>evs. specialOptionalJoin left right = Inr evs \<and> distinct evs \<and>
    matches evs = {(i, j). i < length left \<and> j < length right \<and> rowCompat (left ! i) (right ! j)} \<and>
    notFounds evs = {i. i < length left \<and> (\<forall>j<length right. \<not> rowCompat (left ! i) (right ! j))}"
proof (cases "left = []")
  case True
  then show ?thesis by (simp add: specialOptionalJoin_def)
next
  case False
  then have n: "length (hd left) = Suc m" using assms by (auto simp: specialInput_def)
  have "specialInv m left right 0 0 []" by (simp add: specialInv_def)
  then obtain k1 k2 evs where run: "specialLoop left right (Suc m) 0 0 [] = Inr (k1, evs)"
    and inv: "specialInv m left right k1 k2 evs" and stop: "k1 = length left \<or> k2 = length right"
    using specialLoop_correct [OF assms _ refl] by blast
  have "specialInv m left right (length left) k2 (evs @ map NotFound [k1..<length left])"
    using specialInv_notFound [OF assms inv, of "length left"] inv stop by (auto simp: specialInv_def)
  then show ?thesis using False n run by (auto simp: specialOptionalJoin_def specialInv_def)
qed

theorem specialOptionalJoin_correct_witness:
  "specialInput 1 [[1, 0], [1, 2], [3, 1 :: nat]] [[1, 2], [1, 3]] \<and>
   (\<exists>evs. specialOptionalJoin [[1, 0], [1, 2], [3, 1 :: nat]] [[1, 2], [1, 3]] = Inr evs \<and>
      distinct evs \<and> {(0, 0), (0, 1), (1, 0)} \<subseteq> matches evs \<and> (1, 1) \<notin> matches evs \<and>
      2 \<in> notFounds evs)"
proof -
  have inp: "specialInput 1 [[1, 0], [1, 2], [3, 1 :: nat]] [[1, 2], [1, 3]]"
    by (simp add: specialInput_def bot_nat_def)
  obtain evs where evs: "specialOptionalJoin [[1, 0], [1, 2], [3, 1 :: nat]] [[1, 2], [1, 3]] = Inr evs"
      "distinct evs" and
    m: "matches evs = {(i, j). i < length [[1, 0], [1, 2], [3, 1 :: nat]] \<and>
      j < length [[1, 2], [1, 3 :: nat]] \<and>
      rowCompat ([[1, 0], [1, 2], [3, 1 :: nat]] ! i) ([[1, 2], [1, 3]] ! j)}" and
    n: "notFounds evs = {i. i < length [[1, 0], [1, 2], [3, 1 :: nat]] \<and>
      (\<forall>j<length [[1, 2], [1, 3 :: nat]].
        \<not> rowCompat ([[1, 0], [1, 2], [3, 1 :: nat]] ! i) ([[1, 2], [1, 3]] ! j))}"
    using specialOptionalJoin_correct [OF inp] by blast
  have "{(0, 0), (0, 1), (1, 0)} \<subseteq> matches evs" "(1, 1) \<notin> matches evs" "2 \<in> notFounds evs"
    unfolding m n by (simp_all add: rowCompat_def bot_nat_def All_less_Suc)
  then show ?thesis using inp evs by blast
qed

end
