(* ===== verification/FindUndefRanges.thy ===== *)
theory FindUndefRanges
  imports JoinAlgorithms ValueId
begin

text \<open>
  Models \<open>src/util/JoinAlgorithms/FindUndefRanges.h\<close>: for a row of ids, the smaller compatible rows of a
  sorted range. Rows are lists of \<open>ValueId\<close>s, compared lexicographically with \<open>compareValueId\<close>. A
  generator is the list of the yielded iterators (indices) together with the information whether
  \<open>resultMightBeUnsorted\<close> is set while it is consumed.
\<close>

section \<open>The search functions\<close>

definition idLess :: "('w::linorder) local_vocab \<Rightarrow> ValueId \<Rightarrow> ValueId \<Rightarrow> bool" where
  "idLess lv a b \<longleftrightarrow> compareValueId lv a b = Less"

text \<open>\<open>ql::ranges::lexicographical_compare\<close>.\<close>

fun rowLess :: "('w::linorder) local_vocab \<Rightarrow> ValueId list \<Rightarrow> ValueId list \<Rightarrow> bool" where
  "rowLess lv [] ys \<longleftrightarrow> ys \<noteq> []"
| "rowLess lv (x # xs) [] \<longleftrightarrow> False"
| "rowLess lv (x # xs) (y # ys) \<longleftrightarrow>
     (if idLess lv x y then True else if idLess lv y x then False else rowLess lv xs ys)"

text \<open>\<open>std::lower_bound\<close> and the end of \<open>ql::ranges::equal_range\<close>.\<close>

definition lowerBoundRow :: "('w::linorder) local_vocab \<Rightarrow> ValueId list list \<Rightarrow> ValueId list \<Rightarrow> nat" where
  "lowerBoundRow lv xs row = length (takeWhile (\<lambda>x. rowLess lv x row) xs)"

definition upperBoundRow :: "('w::linorder) local_vocab \<Rightarrow> ValueId list list \<Rightarrow> ValueId list \<Rightarrow> nat" where
  "upperBoundRow lv xs row = length (takeWhile (\<lambda>x. \<not> rowLess lv row x) xs)"

definition getIthMask :: "nat \<Rightarrow> ValueId list \<Rightarrow> nat \<Rightarrow> ValueId list" where
  "getIthMask n row i =
     map (\<lambda>j. if j < n then (if bit i (n - j - 1) then row ! j else makeUndefined) else row ! j)
       [0..<length row]"

definition findSmallerUndefRangesForRowsWithoutUndef ::
    "('w::linorder) local_vocab \<Rightarrow> ValueId list \<Rightarrow> ValueId list list \<Rightarrow> nat list \<times> bool" where
  "findSmallerUndefRangesForRowsWithoutUndef lv row xs =
     (let numJoinColumns = length row;
          permutations = map (getIthMask numJoinColumns row) [0..<2 ^ numJoinColumns - 1]
      in (concat (map (\<lambda>r. [lowerBoundRow lv xs r..<upperBoundRow lv xs r]) permutations), False))"

definition findSmallerUndefRangesForRowsWithUndefInLastColumns ::
    "('w::linorder) local_vocab \<Rightarrow> ValueId list \<Rightarrow> nat \<Rightarrow> ValueId list list \<Rightarrow> nat list \<times> bool" where
  "findSmallerUndefRangesForRowsWithUndefInLastColumns lv row numLastUndefined xs =
     (let numDefinedColumns = length row - numLastUndefined;
          permutations = map (getIthMask numDefinedColumns row)
            [0..<(if numLastUndefined = 0 then 0 else 2 ^ numDefinedColumns - 1)]
      in (concat (map (\<lambda>r.
            let begOfUndef = lowerBoundRow lv xs r;
                endOfUndef = lowerBoundRow lv xs
                  (r[numDefinedColumns - 1 := r ! (numDefinedColumns - 1) + 1])
            in [begOfUndef..<endOfUndef]) permutations), permutations \<noteq> []))"

definition isCompatible :: "('w::linorder) local_vocab \<Rightarrow> ValueId list \<Rightarrow> ValueId list \<Rightarrow> bool" where
  "isCompatible lv row otherRow =
     list_all (\<lambda>k. eqValueId lv (row ! k) makeUndefined \<or> eqValueId lv (otherRow ! k) makeUndefined \<or>
       eqValueId lv (row ! k) (otherRow ! k)) [0..<length row]"

definition findSmallerUndefRangesArbitrary ::
    "('w::linorder) local_vocab \<Rightarrow> ValueId list \<Rightarrow> ValueId list list \<Rightarrow> nat list \<times> bool" where
  "findSmallerUndefRangesArbitrary lv row xs =
     (let its = filter (\<lambda>it. isCompatible lv row (xs ! it)) [0..<lowerBoundRow lv xs row]
      in (its, its \<noteq> []))"

definition findSmallerUndefRanges ::
    "('w::linorder) local_vocab \<Rightarrow> ValueId list \<Rightarrow> ValueId list list \<Rightarrow> nat list \<times> bool" where
  "findSmallerUndefRanges lv row xs =
     (let numLastUndefined = length (takeWhile (\<lambda>id. eqValueId lv id makeUndefined) (rev row)) in
      if list_ex (\<lambda>id. eqValueId lv id makeUndefined) (drop numLastUndefined (rev row))
      then findSmallerUndefRangesArbitrary lv row xs
      else if numLastUndefined = 0 then findSmallerUndefRangesForRowsWithoutUndef lv row xs
      else findSmallerUndefRangesForRowsWithUndefInLastColumns lv row numLastUndefined xs)"

section \<open>Ids without local vocabulary\<close>

text \<open>Ids that are not local vocabulary ids are ordered by their bits, and rows of such ids
  lexicographically. The search for rows with trailing UNDEF also forms the successor of the bits of
  an id; for a plain id this is an id of the same kind (which excludes the vocabulary id with the
  largest index and the id with all bits set).\<close>

definition bitId :: "ValueId \<Rightarrow> bool" where
  "bitId v \<longleftrightarrow> getDatatype v \<noteq> Some LocalVocabIndex"

definition plainId :: "ValueId \<Rightarrow> bool" where
  "plainId v \<longleftrightarrow> bitId v \<and> bitId (v + 1) \<and> v \<noteq> - 1"

definition plainRow :: "nat \<Rightarrow> ValueId list \<Rightarrow> bool" where
  "plainRow n row \<longleftrightarrow> length row = n \<and> list_all plainId row"

lemma bit_compare: "bitId a \<Longrightarrow> bitId b \<Longrightarrow> compareValueId lv a b = three_way a b"
  by (simp add: compareValueId_def bitId_def)

lemma bit_eq: "bitId a \<Longrightarrow> bitId b \<Longrightarrow> eqValueId lv a b \<longleftrightarrow> a = b"
  by (simp add: eqValueId_def bit_compare)

lemma bit_idLess: "bitId a \<Longrightarrow> bitId b \<Longrightarrow> idLess lv a b \<longleftrightarrow> a < b"
  by (simp add: idLess_def bit_compare)

lemma bit_undefined [simp]: "bitId 0"
  by (simp add: bitId_def getDatatype_def datatype_of_code_def)

lemma plain_undefined [simp]: "plainId 0"
proof -
  have "drop_bit 60 (1 :: u64) = 0" by simp
  then show ?thesis by (simp add: plainId_def bitId_def getDatatype_def datatype_of_code_def)
qed

lemma plain_bit: "plainId a \<Longrightarrow> bitId a"
  by (simp add: plainId_def)

lemma bit_rowLess:
  "list_all bitId xs \<Longrightarrow> list_all bitId ys \<Longrightarrow> rowLess lv xs ys \<longleftrightarrow> xs < ys"
proof (induction lv xs ys rule: rowLess.induct)
  case (1 lv ys)
  then show ?case by (cases ys) simp_all
qed (auto simp: bit_idLess)

lemma plainRow_bits: "plainRow n row \<Longrightarrow> list_all bitId row"
  by (auto simp: plainRow_def list_all_iff plain_bit)

section \<open>Masks\<close>

lemma getIthMask_full:
  "length row = n \<Longrightarrow> getIthMask n row i = map (\<lambda>j. if bit i (n - j - 1) then row ! j else 0) [0..<n]"
  by (simp add: getIthMask_def makeUndefined_def)

lemma getIthMask_append:
  assumes "length d = n"
  shows "getIthMask n (d @ u) i = getIthMask n d i @ u"
proof (rule nth_equalityI)
  show "length (getIthMask n (d @ u) i) = length (getIthMask n d i @ u)" by (simp add: getIthMask_def)
  fix k assume "k < length (getIthMask n (d @ u) i)"
  then show "getIthMask n (d @ u) i ! k = (getIthMask n d i @ u) ! k"
    using assms by (auto simp: getIthMask_def nth_append)
qed

lemma bit_take_nat: "k < n \<Longrightarrow> bit (i mod 2 ^ n :: nat) k \<longleftrightarrow> bit i k"
  using bit_take_bit_iff [of n i k] by (simp add: take_bit_eq_mod)

lemma getIthMask_Cons:
  assumes "length rs = n"
  shows "getIthMask (Suc n) (r # rs) i = (if bit i n then r else 0) # getIthMask n rs (i mod 2 ^ n)"
proof -
  have "getIthMask (Suc n) (r # rs) i = (if bit i n then r else 0) #
      map (\<lambda>j. if bit i (n - Suc j) then rs ! j else 0) [0..<n]"
    using assms by (simp add: getIthMask_full upt_conv_Cons map_Suc_upt [symmetric] del: upt_Suc)
  also have "map (\<lambda>j. if bit i (n - Suc j) then rs ! j else 0) [0..<n] = getIthMask n rs (i mod 2 ^ n)"
    using assms by (auto simp: getIthMask_full bit_take_nat)
  finally show ?thesis .
qed

text \<open>The masks of a row are the rows obtained by replacing some entries by UNDEF; for a row without
  UNDEF they are pairwise different, and the last one is the row itself.\<close>

definition maskOf :: "ValueId list \<Rightarrow> ValueId list \<Rightarrow> bool" where
  "maskOf x row \<longleftrightarrow> list_all2 (\<lambda>a r. a = r \<or> a = 0) x row"

lemma nat_bits_split: "i < 2 ^ Suc n \<Longrightarrow> (i :: nat) = (if bit i n then 2 ^ n else 0) + i mod 2 ^ n"
proof -
  assume "i < 2 ^ Suc n"
  then have "i div 2 ^ n < 2" by (simp add: less_mult_imp_div_less)
  then have "i div 2 ^ n = (if bit i n then 1 else 0)"
    by (auto simp: bit_iff_odd less_2_cases_iff)
  then show ?thesis by (metis add.commute mod_div_mult_eq mult_1 mult_zero_left)
qed

lemma masks_image:
  "length row = n \<Longrightarrow> getIthMask n row ` {..<2 ^ n} = {x. maskOf x row}"
proof (induction row arbitrary: n)
  case Nil
  then show ?case by (auto simp: maskOf_def getIthMask_def)
next
  case (Cons r rs)
  then obtain m where n: "n = Suc m" and len: "length rs = m" by auto
  have "x \<in> getIthMask n (r # rs) ` {..<2 ^ n} \<longleftrightarrow> maskOf x (r # rs)" for x
  proof
    assume "x \<in> getIthMask n (r # rs) ` {..<2 ^ n}"
    then obtain i where "x = (if bit i m then r else 0) # getIthMask m rs (i mod 2 ^ m)"
      using len by (auto simp: n getIthMask_Cons)
    moreover have "maskOf (getIthMask m rs (i mod 2 ^ m)) rs" using Cons.IH [OF len] by auto
    ultimately show "maskOf x (r # rs)" by (auto simp: maskOf_def)
  next
    assume "maskOf x (r # rs)"
    then obtain a y where x: "x = a # y" "a = r \<or> a = 0" "maskOf y rs"
      by (auto simp: maskOf_def list_all2_Cons2)
    then obtain k where k: "k < 2 ^ m" "y = getIthMask m rs k" using Cons.IH [OF len] by auto
    have b: "\<not> bit k m" using k(1) by (simp add: bit_iff_odd)
    show "x \<in> getIthMask n (r # rs) ` {..<2 ^ n}"
    proof (cases "a = r")
      case True
      have "bit (k + 2 ^ m) m" using k(1) by (simp add: bit_iff_odd div_add_self2)
      then have "x = getIthMask n (r # rs) (k + 2 ^ m)" using x k len True by (simp add: n getIthMask_Cons)
      then show ?thesis using k(1) by (auto simp: n)
    next
      case False
      then have "x = getIthMask n (r # rs) k" using x k len b by (simp add: n getIthMask_Cons)
      then show ?thesis using k(1) by (auto simp: n)
    qed
  qed
  then show ?case by blast
qed

lemma masks_inj:
  "length row = n \<Longrightarrow> 0 \<notin> set row \<Longrightarrow> inj_on (getIthMask n row) {..<2 ^ n}"
proof (induction row arbitrary: n)
  case (Cons r rs)
  then obtain m where n: "n = Suc m" and len: "length rs = m" by auto
  show ?case
  proof (rule inj_onI)
    fix i k assume ik: "i \<in> {..<2 ^ n}" "k \<in> {..<2 ^ n}" "getIthMask n (r # rs) i = getIthMask n (r # rs) k"
    then have "bit i m = bit k m" "getIthMask m rs (i mod 2 ^ m) = getIthMask m rs (k mod 2 ^ m)"
      using Cons.prems len by (auto simp: n getIthMask_Cons split: if_splits)
    moreover from this(2) have "i mod 2 ^ m = k mod 2 ^ m"
      using Cons.IH [OF len] Cons.prems by (auto dest!: inj_onD)
    ultimately show "i = k" using nat_bits_split [of i m] nat_bits_split [of k m] ik by (simp add: n)
  qed
qed (simp add: inj_on_def)

lemma mask_last: "length row = n \<Longrightarrow> getIthMask n row (2 ^ n - 1) = row"
proof -
  have "bit (2 ^ n - 1 :: nat) k" if "k < n" for k
    using that bit_mask_iff [of n k, where 'a = nat] by (simp add: mask_eq_exp_minus_1)
  then show "length row = n \<Longrightarrow> getIthMask n row (2 ^ n - 1) = row"
    by (auto simp: getIthMask_full intro!: nth_equalityI)
qed

lemma proper_masks:
  assumes "length row = n" "0 \<notin> set row"
  shows "set (map (getIthMask n row) [0..<2 ^ n - 1]) = {x. maskOf x row \<and> x \<noteq> row}"
    and "distinct (map (getIthMask n row) [0..<2 ^ n - 1])"
proof -
  have inj: "inj_on (getIthMask n row) {..<2 ^ n}" by (rule masks_inj [OF assms])
  have eq: "{..<2 ^ n} - {2 ^ n - 1} = {..<2 ^ n - 1 :: nat}" by auto
  have "getIthMask n row ` ({..<2 ^ n} - {2 ^ n - 1}) = getIthMask n row ` {..<2 ^ n} - {row}"
    using inj_on_image_set_diff [OF inj, of "{..<2 ^ n}" "{2 ^ n - 1}"] mask_last [OF assms(1)] by simp
  then show "set (map (getIthMask n row) [0..<2 ^ n - 1]) = {x. maskOf x row \<and> x \<noteq> row}"
    unfolding eq masks_image [OF assms(1)] by (auto simp: lessThan_atLeast0)
  show "distinct (map (getIthMask n row) [0..<2 ^ n - 1])"
    unfolding distinct_map by (auto intro: inj_on_subset [OF inj])
qed

section \<open>The finders are exact\<close>

lemma takeWhile_sorted_iff:
  fixes xs :: "'a::linorder list"
  assumes "sorted xs" and down: "\<And>a b. a \<le> b \<Longrightarrow> P b \<Longrightarrow> P a"
  shows "i < length (takeWhile P xs) \<longleftrightarrow> i < length xs \<and> P (xs ! i)"
proof
  assume i: "i < length (takeWhile P xs)"
  then show "i < length xs \<and> P (xs ! i)"
    by (metis length_takeWhile_le nth_mem order_less_le_trans set_takeWhileD takeWhile_nth)
next
  assume i: "i < length xs \<and> P (xs ! i)"
  show "i < length (takeWhile P xs)"
  proof (rule ccontr)
    assume n: "\<not> i < length (takeWhile P xs)"
    let ?k = "length (takeWhile P xs)"
    have "?k < length xs" using i n by simp
    moreover have "P (xs ! ?k)" using down [of "xs ! ?k" "xs ! i"] assms(1) i n by (simp add: sorted_iff_nth_mono)
    ultimately show False using nth_length_takeWhile by blast
  qed
qed

text \<open>Compatibility of rows of plain ids.\<close>

definition compatIds :: "ValueId list \<Rightarrow> ValueId list \<Rightarrow> bool" where
  "compatIds = list_all2 (\<lambda>a b. a = b \<or> a = 0 \<or> b = 0)"

lemma compatIds_sym: "compatIds a b \<longleftrightarrow> compatIds b a"
  by (auto simp: compatIds_def list_all2_conv_all_nth)

lemma compat_noUndef: "0 \<notin> set row \<Longrightarrow> compatIds x row \<longleftrightarrow> maskOf x row"
  unfolding compatIds_def maskOf_def list_all2_conv_all_nth by (metis nth_mem)

lemma mask_le: "maskOf x row \<Longrightarrow> x \<le> row"
  unfolding maskOf_def by (induction rule: list_all2_induct) (auto simp: word_gt_0)

lemma noUndef_less_incompat:
  assumes "length a = length b" "0 \<notin> set a" "a < b"
  shows "\<not> compatIds a b"
  using assms by (induction a b rule: list_induct2) (auto simp: compatIds_def)

lemma lowerBound_plain:
  assumes "sorted xs" "\<forall>x\<in>set xs. list_all bitId x" "list_all bitId r"
  shows "i < lowerBoundRow lv xs r \<longleftrightarrow> i < length xs \<and> xs ! i < r"
proof -
  have "takeWhile (\<lambda>x. rowLess lv x r) xs = takeWhile (\<lambda>x. x < r) xs"
    by (rule takeWhile_cong) (use assms in \<open>auto simp: bit_rowLess\<close>)
  then show ?thesis
    using takeWhile_sorted_iff [OF assms(1), of "\<lambda>x. x < r" i] by (auto simp: lowerBoundRow_def)
qed

lemma upperBound_plain:
  assumes "sorted xs" "\<forall>x\<in>set xs. list_all bitId x" "list_all bitId r"
  shows "i < upperBoundRow lv xs r \<longleftrightarrow> i < length xs \<and> xs ! i \<le> r"
proof -
  have "takeWhile (\<lambda>x. \<not> rowLess lv r x) xs = takeWhile (\<lambda>x. x \<le> r) xs"
    by (rule takeWhile_cong) (use assms in \<open>auto simp: bit_rowLess not_less\<close>)
  then show ?thesis
    using takeWhile_sorted_iff [OF assms(1), of "\<lambda>x. x \<le> r" i] by (auto simp: upperBoundRow_def)
qed

lemma range_set:
  fixes a b :: nat
  assumes "\<And>i. i < a \<longleftrightarrow> P i" "\<And>i. i < b \<longleftrightarrow> Q i"
  shows "set [a..<b] = {i. \<not> P i \<and> Q i}"
  using assms by (auto simp: not_less [symmetric])

lemma withoutUndef_exact:
  assumes xs: "sorted xs" "\<forall>x\<in>set xs. plainRow (length row) x" and row: "list_all bitId row" "0 \<notin> set row"
  shows "set (fst (findSmallerUndefRangesForRowsWithoutUndef lv row xs)) =
      {i. i < length xs \<and> xs ! i < row \<and> compatIds (xs ! i) row}"
    and "distinct (fst (findSmallerUndefRangesForRowsWithoutUndef lv row xs))"
proof -
  let ?n = "length row"
  let ?masks = "map (getIthMask ?n row) [0..<2 ^ ?n - 1]"
  have plain: "\<forall>x\<in>set xs. list_all bitId x" using xs(2) plainRow_bits by blast
  have masks: "set ?masks = {x. maskOf x row \<and> x \<noteq> row}" "distinct ?masks"
    using proper_masks [OF refl row(2)] by simp_all
  have mplain: "list_all bitId r" if "maskOf r row" for r
    using that row(1) unfolding maskOf_def
    by (induction rule: list_all2_induct) auto
  have range: "set [lowerBoundRow lv xs r..<upperBoundRow lv xs r] = {i. i < length xs \<and> xs ! i = r}"
    if "maskOf r row" for r
    using range_set [OF lowerBound_plain [OF xs(1) plain mplain [OF that]]
        upperBound_plain [OF xs(1) plain mplain [OF that]]]
    by auto
  have f: "fst (findSmallerUndefRangesForRowsWithoutUndef lv row xs) =
      concat (map (\<lambda>r. [lowerBoundRow lv xs r..<upperBoundRow lv xs r]) ?masks)"
    by (simp add: findSmallerUndefRangesForRowsWithoutUndef_def Let_def)
  show "set (fst (findSmallerUndefRangesForRowsWithoutUndef lv row xs)) =
      {i. i < length xs \<and> xs ! i < row \<and> compatIds (xs ! i) row}"
  proof -
    have "set (fst (findSmallerUndefRangesForRowsWithoutUndef lv row xs)) =
        (\<Union>r\<in>{x. maskOf x row \<and> x \<noteq> row}. {i. i < length xs \<and> xs ! i = r})"
      unfolding f set_concat set_map image_image [symmetric] masks(1) [unfolded set_map]
      using range by (auto simp del: set_upt)
    also have "\<dots> = {i. i < length xs \<and> maskOf (xs ! i) row \<and> xs ! i \<noteq> row}" by auto
    also have "\<dots> = {i. i < length xs \<and> xs ! i < row \<and> compatIds (xs ! i) row}"
      using mask_le compat_noUndef [OF row(2)] by (auto simp: order_less_le)
    finally show ?thesis .
  qed
  show "distinct (fst (findSmallerUndefRangesForRowsWithoutUndef lv row xs))"
    unfolding f using masks range by (intro distinct_concat_map) (auto simp del: set_upt)
qed

lemma not_less_zeros: "length x = k \<Longrightarrow> \<not> x < replicate k (0 :: u64)"
  by (induction x arbitrary: k) auto

lemma word_less_succ_iff: "a \<noteq> (- 1 :: u64) \<Longrightarrow> b < a + 1 \<longleftrightarrow> b \<le> a"
  by (meson inc_less_eq_iff linorder_not_less)

text \<open>The rows between a prefix and the prefix with its last entry incremented are the rows with
  that prefix.\<close>

lemma between_successor:
  assumes "m \<noteq> []" "length x = length m + k" "last m \<noteq> (- 1 :: u64)"
  shows "\<not> x < m @ replicate k 0 \<and>
      x < (m[length m - 1 := m ! (length m - 1) + 1]) @ replicate k 0 \<longleftrightarrow> take (length m) x = m"
  using assms
proof (induction m arbitrary: x)
  case (Cons a m)
  then obtain b y where x: "x = b # y" "length y = length m + k" by (cases x) auto
  show ?case
  proof (cases "m = []")
    case True
    then show ?thesis
      using Cons.prems x not_less_zeros [of y k] by (auto simp: word_less_succ_iff)
  next
    case False
    then have "(a # m)[length (a # m) - 1 := (a # m) ! (length (a # m) - 1) + 1] =
        a # m[length m - 1 := m ! (length m - 1) + 1]"
      by (cases m) auto
    then show ?thesis using Cons.IH [OF False x(2)] Cons.prems False x by auto
  qed
qed simp

lemma mask_ids: "maskOf r row \<Longrightarrow> P 0 \<Longrightarrow> list_all P row \<Longrightarrow> list_all P r"
  unfolding maskOf_def by (induction rule: list_all2_induct) auto

lemma less_with_zeros:
  assumes "length x = length d + k"
  shows "x < d @ replicate k 0 \<longleftrightarrow> take (length d) x < (d :: u64 list)"
  using assms
proof (induction d arbitrary: x)
  case Nil
  then show ?case using not_less_zeros [of x k] by simp
next
  case (Cons a d)
  then obtain b y where x: "x = b # y" "length y = length d + k" by (cases x) auto
  then show ?case using Cons.IH [OF x(2)] by simp
qed

lemma compat_with_zeros:
  assumes "length x = length d + k" "0 \<notin> set d"
  shows "compatIds x (d @ replicate k 0) \<longleftrightarrow> maskOf (take (length d) x) d"
proof -
  have "compatIds x (d @ replicate k 0) \<longleftrightarrow> compatIds (take (length d) x) d"
    using assms(1) by (auto simp: compatIds_def list_all2_conv_all_nth nth_append)
  then show ?thesis using compat_noUndef [OF assms(2)] by simp
qed

lemma lastColumns_exact:
  assumes xs: "sorted xs" "\<forall>x\<in>set xs. plainRow (length d + k) x"
    and row: "list_all plainId d" "0 \<notin> set d" "0 < k"
  defines "row \<equiv> d @ replicate k 0"
  shows "set (fst (findSmallerUndefRangesForRowsWithUndefInLastColumns lv row k xs)) =
      {i. i < length xs \<and> xs ! i < row \<and> compatIds (xs ! i) row}"
    and "distinct (fst (findSmallerUndefRangesForRowsWithUndefInLastColumns lv row k xs))"
proof -
  let ?n = "length d"
  let ?masks = "map (getIthMask ?n d) [0..<2 ^ ?n - 1]"
  define inc where "inc = (\<lambda>m :: u64 list. m[?n - 1 := m ! (?n - 1) + 1])"
  have bits: "\<forall>x\<in>set xs. list_all bitId x" using xs(2) plainRow_bits by blast
  have len: "length (xs ! i) = ?n + k" if "i < length xs" for i
    using xs(2) that by (simp add: plainRow_def)
  have masks: "set ?masks = {x. maskOf x d \<and> x \<noteq> d}" "distinct ?masks"
    using proper_masks [OF refl row(2)] by simp_all
  define F where "F = (\<lambda>m. [lowerBoundRow lv xs (m @ replicate k 0)..<lowerBoundRow lv xs (inc m @ replicate k 0)])"
  have range: "set (F m) = {i. i < length xs \<and> take ?n (xs ! i) = m}"
    if m: "maskOf m d" "m \<noteq> d" for m
  proof -
    have mlen: "length m = ?n" using m(1) by (simp add: maskOf_def list_all2_lengthD)
    then have ne: "m \<noteq> []" using m(2) by auto
    have mp: "list_all plainId m" using mask_ids [OF m(1) _ row(1)] by simp
    have "m ! (?n - 1) \<in> set m" using ne mlen by (intro nth_mem) (cases m; simp)
    then have pl: "plainId (m ! (?n - 1))" using mp by (simp add: list_all_iff)
    have b1: "list_all bitId (m @ replicate k 0)" using mp by (auto simp: list_all_iff plain_bit)
    have "bitId x" if "x \<in> set (inc m)" for x
    proof -
      have "x = m ! (?n - 1) + 1 \<or> x \<in> set m"
        using that set_update_subset_insert [of m "?n - 1" "m ! (?n - 1) + 1"] unfolding inc_def by blast
      then show ?thesis using pl mp unfolding plainId_def list_all_iff by blast
    qed
    then have b2: "list_all bitId (inc m @ replicate k 0)" by (auto simp: list_all_iff)
    have last: "last m \<noteq> - 1" using pl ne mlen by (simp add: last_conv_nth plainId_def)
    have iff: "\<not> xs ! i < m @ replicate k 0 \<and> xs ! i < inc m @ replicate k 0 \<longleftrightarrow> take ?n (xs ! i) = m"
      if "i < length xs" for i
      using between_successor [OF ne, of "xs ! i" k] len [OF that] mlen last by (simp add: inc_def)
    have "set (F m) = {i. \<not> (i < length xs \<and> xs ! i < m @ replicate k 0) \<and>
        (i < length xs \<and> xs ! i < inc m @ replicate k 0)}"
      unfolding F_def by (rule range_set [OF lowerBound_plain [OF xs(1) bits b1] lowerBound_plain [OF xs(1) bits b2]])
    then show ?thesis using iff by auto
  qed
  have f: "fst (findSmallerUndefRangesForRowsWithUndefInLastColumns lv row k xs) = concat (map F ?masks)"
  proof -
    have "getIthMask ?n row i = getIthMask ?n d i @ replicate k 0" for i
      unfolding row_def by (rule getIthMask_append) simp
    moreover have "(getIthMask ?n d i @ replicate k 0)[?n - 1 := (getIthMask ?n d i @ replicate k 0) ! (?n - 1) + 1] =
        inc (getIthMask ?n d i) @ replicate k 0" if "?n \<noteq> 0" for i
      using that by (simp add: inc_def list_update_append nth_append getIthMask_def)
    moreover have "?n \<noteq> 0" if "i < 2 ^ ?n - 1" for i :: nat using that by (cases ?n) auto
    ultimately have "map (\<lambda>r. [lowerBoundRow lv xs r..<lowerBoundRow lv xs
          (r[?n - 1 := r ! (?n - 1) + 1])]) (map (getIthMask ?n row) [0..<2 ^ ?n - 1]) = map F ?masks"
      by (simp add: F_def)
    then show ?thesis
      using row(3) by (simp add: findSmallerUndefRangesForRowsWithUndefInLastColumns_def row_def Let_def del: map_map)
  qed
  show "set (fst (findSmallerUndefRangesForRowsWithUndefInLastColumns lv row k xs)) =
      {i. i < length xs \<and> xs ! i < row \<and> compatIds (xs ! i) row}"
  proof -
    have "set (fst (findSmallerUndefRangesForRowsWithUndefInLastColumns lv row k xs)) =
        (\<Union>m\<in>{m. maskOf m d \<and> m \<noteq> d}. {i. i < length xs \<and> take ?n (xs ! i) = m})"
    proof -
      have "set (concat (map F ?masks)) = (\<Union>m\<in>set ?masks. set (F m))" by simp
      also have "\<dots> = (\<Union>m\<in>{m. maskOf m d \<and> m \<noteq> d}. {i. i < length xs \<and> take ?n (xs ! i) = m})"
        unfolding masks(1) using range by (intro SUP_cong) auto
      finally show ?thesis unfolding f .
    qed
    also have "\<dots> = {i. i < length xs \<and> maskOf (take ?n (xs ! i)) d \<and> take ?n (xs ! i) \<noteq> d}" by auto
    also have "\<dots> = {i. i < length xs \<and> xs ! i < row \<and> compatIds (xs ! i) row}"
      using mask_le len less_with_zeros [of _ d k] compat_with_zeros [of _ d k] row(2)
      by (auto simp: order_less_le row_def)
    finally show ?thesis .
  qed
  show "distinct (fst (findSmallerUndefRangesForRowsWithUndefInLastColumns lv row k xs))"
    unfolding f using masks range by (intro distinct_concat_map) (auto simp: F_def simp del: set_upt)
qed

lemma isCompatible_plain:
  assumes "list_all bitId row" "list_all bitId x" "length x = length row"
  shows "isCompatible lv row x \<longleftrightarrow> compatIds x row"
proof -
  have "bitId (row ! k)" "bitId (x ! k)" if "k < length row" for k
    using assms that by (auto simp: list_all_length)
  then show ?thesis
    using assms(3)
    by (auto simp: isCompatible_def compatIds_def list_all2_conv_all_nth list_all_iff bit_eq makeUndefined_def)
qed

lemma arbitrary_exact:
  assumes xs: "sorted xs" "\<forall>x\<in>set xs. plainRow (length row) x" and row: "list_all bitId row"
  shows "set (fst (findSmallerUndefRangesArbitrary lv row xs)) =
      {i. i < length xs \<and> xs ! i < row \<and> compatIds (xs ! i) row}"
    and "distinct (fst (findSmallerUndefRangesArbitrary lv row xs))"
proof -
  have bits: "\<forall>x\<in>set xs. list_all bitId x" using xs(2) plainRow_bits by blast
  have "isCompatible lv row (xs ! i) \<longleftrightarrow> compatIds (xs ! i) row" if "i < length xs" for i
    using isCompatible_plain [OF row, where lv = lv] bits xs(2) that by (simp add: plainRow_def)
  then show "set (fst (findSmallerUndefRangesArbitrary lv row xs)) =
      {i. i < length xs \<and> xs ! i < row \<and> compatIds (xs ! i) row}"
    using lowerBound_plain [OF xs(1) bits row, of _ lv]
    by (auto simp: findSmallerUndefRangesArbitrary_def Let_def)
  show "distinct (fst (findSmallerUndefRangesArbitrary lv row xs))"
    by (simp add: findSmallerUndefRangesArbitrary_def Let_def)
qed

text \<open>The dispatch splits the row into its defined part and its trailing UNDEF entries.\<close>

lemma trailing_undef:
  assumes "list_all bitId row" "k = length (takeWhile (\<lambda>id. eqValueId lv id makeUndefined) (rev row))"
  shows "row = take (length row - k) row @ replicate k 0" "k \<le> length row"
    and "list_ex (\<lambda>id. eqValueId lv id makeUndefined) (drop k (rev row)) \<longleftrightarrow>
      0 \<in> set (take (length row - k) row)"
proof -
  have eq: "eqValueId lv id makeUndefined \<longleftrightarrow> id = 0" if "id \<in> set row" for id
    using assms(1) that by (simp add: list_all_iff bit_eq makeUndefined_def)
  have tw: "takeWhile (\<lambda>id. eqValueId lv id makeUndefined) (rev row) = takeWhile (\<lambda>id. id = 0) (rev row)"
    by (rule takeWhile_cong) (auto simp: eq)
  have k: "k = length (takeWhile (\<lambda>id. id = 0) (rev row))" by (simp add: assms(2) tw)
  show le: "k \<le> length row" using length_takeWhile_le [of "\<lambda>id. id = 0" "rev row"] by (simp add: k)
  have "takeWhile (\<lambda>id. id = 0) (rev row) = replicate k 0"
    unfolding k by (intro replicate_eqI) (auto dest: set_takeWhileD)
  then have "rev row = replicate k 0 @ drop k (rev row)"
    using takeWhile_dropWhile_id [of "\<lambda>id. id = 0" "rev row"] dropWhile_eq_drop [of "\<lambda>id. id = 0" "rev row"]
    by (simp add: k)
  then have "row = rev (drop k (rev row)) @ replicate k 0" by (metis rev_append rev_replicate rev_rev_ident)
  moreover have "rev (drop k (rev row)) = take (length row - k) row" by (simp add: rev_drop)
  ultimately show "row = take (length row - k) row @ replicate k 0" by simp
  have "set (drop k (rev row)) = set (take (length row - k) row)"
    using arg_cong [OF \<open>rev (drop k (rev row)) = _\<close>, of set] by simp
  then show "list_ex (\<lambda>id. eqValueId lv id makeUndefined) (drop k (rev row)) \<longleftrightarrow>
      0 \<in> set (take (length row - k) row)"
    using eq by (auto simp: list_ex_iff dest: in_set_takeD)
qed

lemma findSmallerUndefRanges_exact:
  assumes xs: "sorted xs" "\<forall>x\<in>set xs. plainRow (length row) x" and row: "list_all plainId row"
  shows "set (fst (findSmallerUndefRanges lv row xs)) =
      {i. i < length xs \<and> xs ! i < row \<and> compatIds (xs ! i) row} \<and>
    distinct (fst (findSmallerUndefRanges lv row xs))"
proof -
  have bits: "list_all bitId row" using row by (auto simp: list_all_iff plain_bit)
  define k where "k = length (takeWhile (\<lambda>id. eqValueId lv id makeUndefined) (rev row))"
  note tr = trailing_undef [OF bits k_def]
  let ?d = "take (length row - k) row"
  show ?thesis
  proof (cases "0 \<in> set ?d")
    case True
    then have "findSmallerUndefRanges lv row xs = findSmallerUndefRangesArbitrary lv row xs"
      using tr(3) by (simp add: findSmallerUndefRanges_def k_def [symmetric])
    then show ?thesis using arbitrary_exact [OF xs bits, of lv] by simp
  next
    case False
    then have f: "findSmallerUndefRanges lv row xs = (if k = 0
        then findSmallerUndefRangesForRowsWithoutUndef lv row xs
        else findSmallerUndefRangesForRowsWithUndefInLastColumns lv row k xs)"
      using tr(3) by (simp add: findSmallerUndefRanges_def k_def [symmetric])
    show ?thesis
    proof (cases "k = 0")
      case True
      then show ?thesis using withoutUndef_exact [OF xs bits, of lv] f False True by simp
    next
      case k: False
      have "list_all plainId ?d" using row by (auto simp: list_all_iff dest: in_set_takeD)
      moreover have "\<forall>x\<in>set xs. plainRow (length ?d + k) x" using xs(2) tr(2) by simp
      ultimately show ?thesis
        using lastColumns_exact [OF xs(1) _ _ False, of k lv] f k tr(1) by simp
    qed
  qed
qed

section \<open>The zipper join on rows with UNDEF in any column\<close>

text \<open>The arguments that the joins on several columns pass to \<open>zipperJoinWithUndef\<close>.\<close>

definition undefJoinArgs :: "('w::linorder) local_vocab \<Rightarrow> bool \<Rightarrow> ValueId list zipper_args" where
  "undefJoinArgs lv h =
     \<lparr>lessThan = rowLess lv, findSmallerUndefRangesLeft = Some (findSmallerUndefRanges lv),
      findSmallerUndefRangesRight = Some (findSmallerUndefRanges lv),
      rowHasNoUndef = (\<lambda>row. \<not> list_ex (\<lambda>id. eqValueId lv id makeUndefined) row),
      hasNotFoundAction = h, CoverUndefRanges = True\<rparr>"

lemma undefJoinArgs_simps [simp]:
  "lessThan (undefJoinArgs lv h) = rowLess lv"
  "hasNotFoundAction (undefJoinArgs lv h) = h"
  "CoverUndefRanges (undefJoinArgs lv h)"
  "found (findSmallerUndefRangesLeft (undefJoinArgs lv h)) row xs = fst (findSmallerUndefRanges lv row xs)"
  "found (findSmallerUndefRangesRight (undefJoinArgs lv h)) row xs = fst (findSmallerUndefRanges lv row xs)"
  by (simp_all add: undefJoinArgs_def found_def)

lemma plain_less: "plainRow n a \<Longrightarrow> plainRow n b \<Longrightarrow> rowLess lv a b \<longleftrightarrow> a < b"
  by (simp add: bit_rowLess plainRow_bits)

interpretation plain_rows: row_order "rowLess lv" "plainRow n" for lv :: "('w::linorder) local_vocab" and n
  by unfold_locales (auto simp: plain_less)

lemma plain_input:
  "row_order.input (rowLess lv) (plainRow n) xs \<longleftrightarrow> list_all (plainRow n) xs \<and> sorted xs"
proof -
  have "sorted_wrt (\<lambda>a b. \<not> rowLess lv b a) xs \<longleftrightarrow> sorted xs" if "list_all (plainRow n) xs"
  proof -
    have "rowLess lv b a \<longleftrightarrow> b < a" if "a \<in> set xs" "b \<in> set xs" for a b
      using \<open>list_all (plainRow n) xs\<close> that by (intro plain_less [of n]) (auto simp: list_all_iff)
    then show ?thesis
      using sorted_wrt_mono_rel [of xs "\<lambda>a b. \<not> rowLess lv b a" "(\<le>)"]
        sorted_wrt_mono_rel [of xs "(\<le>)" "\<lambda>a b. \<not> rowLess lv b a"] by (auto simp: not_less)
  qed
  then show ?thesis by (auto simp: plain_rows.input_def)
qed

lemma undef_finder_exact:
  assumes "plainRow n row" "list_all (plainRow n) xs" "sorted xs" "m \<le> length xs"
  shows "finder_exact (rowLess lv) (Some (findSmallerUndefRanges lv)) (\<lambda>a. compatIds a row) row xs m"
proof -
  have "sorted (take m xs)" using assms(3) by (rule sorted_wrt_take)
  moreover have "\<forall>x\<in>set (take m xs). plainRow (length row) x"
    using assms(1,2) by (auto simp: list_all_iff plainRow_def dest: in_set_takeD)
  ultimately have f: "set (fst (findSmallerUndefRanges lv row (take m xs))) =
        {i. i < m \<and> xs ! i < row \<and> compatIds (xs ! i) row}"
      "distinct (fst (findSmallerUndefRanges lv row (take m xs)))"
    using findSmallerUndefRanges_exact [of "take m xs" row lv] assms(1,4)
    by (auto simp: plainRow_def)
  moreover have "rowLess lv (xs ! i) row \<longleftrightarrow> xs ! i < row" if "i < m" for i
    using assms that by (intro plain_less [of n]) (auto simp: list_all_length)
  ultimately show ?thesis unfolding finder_exact_def found_def option.case f(1) by auto
qed

interpretation undef_zipper: zipper_join "undefJoinArgs lv h" "plainRow n" compatIds "\<lambda>_. True"
  for lv :: "('w::linorder) local_vocab" and h n
proof (unfold_locales, goal_cases)
  case (3 a b)
  then have "a = b" by (auto simp: plain_less)
  then show ?case by (simp add: compatIds_def list.rel_refl)
next
  case (4 row xs m)
  then show ?case
    using undef_finder_exact [of n row xs m lv] by (simp add: plain_input undefJoinArgs_def)
next
  case (5 row xs m)
  then show ?case
    using undef_finder_exact [of n row xs m lv] by (simp add: plain_input undefJoinArgs_def compatIds_sym)
next
  case (6 a b)
  have "eqValueId lv id makeUndefined \<longleftrightarrow> id = 0" if "id \<in> set a" for id
    using 6(1) that plainRow_bits by (auto simp: list_all_iff bit_eq makeUndefined_def)
  then have "0 \<notin> set a"
    using 6(3) by (auto simp: containsNoUndefined_def undefJoinArgs_def list_ex_iff)
  then show ?case using noUndef_less_incompat 6 by (auto simp: plain_less plainRow_def)
qed (auto simp: plain_less)



lemmas id_eval = idLess_def eqValueId_def compareValueId_def compareVocabAndLocalVocab_def getDatatype_def
  datatype_of_code_def getLocalVocabIndex_def getVocabIndex_def removeDatatypeBits_eq example_lv_def
  inverse_ordering_def makeUndefined_def

lemma example_compare:
  "\<not> rowLess example_lv [0, 0x5000000000000002, 0] [0, 0, 0]"
  "\<not> rowLess example_lv [0, 0x5000000000000002, 0] [0, 1, 0]"
  "\<not> rowLess example_lv [0, 0x5000000000000002, 0] [0, 0x4000000000000001, 0]"
  "rowLess example_lv [0, 0x5000000000000002, 0] [0, 0x4000000000000002, 0]"
  "rowLess example_lv [0, 0x5000000000000002, 0] [0x2000000000000005, 0, 0]"
  "rowLess example_lv [0, 0x5000000000000002, 0] [0x2000000000000005, 1, 0]"
  "rowLess example_lv [0, 0x5000000000000002, 0] [0x2000000000000005, 0x4000000000000001, 0]"
  "\<not> eqValueId example_lv 0x2000000000000005 0" "\<not> eqValueId example_lv 0x4000000000000001 0"
  "\<not> eqValueId example_lv 0x5000000000000002 0" "eqValueId example_lv 0 0"
  "\<not> eqValueId example_lv 0x4000000000000001 0x5000000000000002"
  by (simp_all add: id_eval word_le_nat_alt)

lemma example_masks:
  "getIthMask (Suc (Suc 0)) [0x2000000000000005, 0x4000000000000001, 0] 0 = [0, 0, 0]"
  "getIthMask (Suc (Suc 0)) [0x2000000000000005, 0x4000000000000001, 0] (Suc 0) =
     [0, 0x4000000000000001, 0]"
  "getIthMask (Suc (Suc 0)) [0x2000000000000005, 0x4000000000000001, 0] (Suc (Suc 0)) =
     [0x2000000000000005, 0, 0]"
  by code_simp+

lemma finder_eval:
  "findSmallerUndefRanges example_lv [0x2000000000000005, 0x4000000000000001, 0] [[0, 0x5000000000000002, 0]] =
     ([0], True)"
  "fst (findSmallerUndefRanges example_lv [0, 0x5000000000000002, 0] []) = []"
proof -
  show "findSmallerUndefRanges example_lv [0x2000000000000005, 0x4000000000000001, 0]
      [[0, 0x5000000000000002, 0]] = ([0], True)"
    by (simp add: findSmallerUndefRanges_def findSmallerUndefRangesForRowsWithUndefInLastColumns_def
        makeUndefined_def example_compare lowerBoundRow_def Let_def example_masks numeral_3_eq_3
        del: rowLess.simps)
  show "fst (findSmallerUndefRanges example_lv [0, 0x5000000000000002, 0] []) = []"
    by (simp add: findSmallerUndefRanges_def findSmallerUndefRangesArbitrary_def makeUndefined_def
        example_compare lowerBoundRow_def Let_def)
qed

text \<open>the search for rows with trailing UNDEF takes the successor of the bits of an id as the
  end of its range, which is wrong when local vocabulary entries lie between two neighbouring
  vocabulary ids: the join then emits a pair of incompatible rows. Here the local entry with the word
  25 lies between the vocabulary words 20 and 30.\<close>

theorem undefInLastColumns_localVocab_incompatible:
  "vocab_coherent example_lv [10, 20, 30] [16, 32] \<and>
   list_all (list_all (valid_id [10, 20, 30 :: nat] [16, 32]))
     [[0, 0x5000000000000002, 0], [0x2000000000000005, 0x4000000000000001, 0]] \<and>
   Match 0 0 \<in> set (snd (zipperJoinWithUndef (undefJoinArgs example_lv False)
     [[0, 0x5000000000000002, 0]] [[0x2000000000000005, 0x4000000000000001, 0]])) \<and>
   \<not> isCompatible example_lv [0x2000000000000005, 0x4000000000000001, 0] [0, 0x5000000000000002, 0]"
proof -
  let ?z = "undefJoinArgs example_lv False"
    and ?l = "[[0, 0x5000000000000002, 0]] :: ValueId list list"
    and ?r = "[[0x2000000000000005, 0x4000000000000001, 0]] :: ValueId list list"
  obtain st where skip: "skipLeft ?z ?l ?r 0 0 (initialState ?z ?l) = (Suc 0, st)"
    by (simp add: skipLeft.simps [of ?z ?l ?r 0 0] skipLeft.simps [of ?z ?l ?r "Suc 0"] example_compare
        del: rowLess.simps)
  have loop: "zipperLoop ?z ?l ?r 0 0 (initialState ?z ?l) = (Suc 0, 0, st)"
    by (simp add: zipperLoop.simps [of ?z ?l ?r 0 0] skip del: rowLess.simps)
  have "undefLeft ?z ?l ?r 0 1 = [0]"
    by (simp add: undefLeft_def undefJoinArgs_def finder_eval example_compare del: rowLess.simps)
  then have "Match 0 0 \<in> set (events (zipperRun ?z ?l ?r))"
    by (simp add: zipperRun_def loop)
  then have "Match 0 0 \<in> set (snd (zipperJoinWithUndef ?z ?l ?r))"
    by (simp add: zipperJoinWithUndef_def Let_def)
  moreover have "vocab_coherent example_lv [10, 20, 30] [16, 32]"
    by (simp add: vocab_coherent_def example_lv_def)
  moreover have "list_all (list_all (valid_id [10, 20, 30 :: nat] [16, 32]))
     [[0, 0x5000000000000002, 0], [0x2000000000000005, 0x4000000000000001, 0]]"
    by (simp add: valid_id_def getDatatype_def datatype_of_code_def getLocalVocabIndex_def
        getVocabIndex_def removeDatatypeBits_eq)
  moreover have "\<not> isCompatible example_lv [0x2000000000000005, 0x4000000000000001, 0] [0, 0x5000000000000002, 0]"
    by (simp add: isCompatible_def makeUndefined_def example_compare)
  ultimately show ?thesis by blast
qed

end
