(* ===== verification/LocatedTriples.thy ===== *)
theory LocatedTriples
  imports Prelude
begin

text \<open>
  Models \<open>src/index/LocatedTriples.{h,cpp}\<close> with \<open>src/global/IdTriple.h\<close> and \<open>src/index/KeyOrder.h\<close>: the
  triples inserted into or deleted from the blocks of a permutation of the index, and their merge
  with the rows of a block. Ids are elements of a linear order with least element \<open>bot\<close> (UNDEF);
  triples (arrays of four ids) and rows are lists of ids, compared lexicographically. A \<open>std::set\<close>
  of located triples is a strictly sorted list, an iterator into it the element it points to.
\<close>

section \<open>Key orders and triples\<close>

type_synonym KeyOrder = "nat list"
type_synonym 'id IdTriple = "'id list"

definition NumKeys :: nat where "NumKeys = 4"

definition makeKeyOrder :: "nat \<Rightarrow> nat \<Rightarrow> nat \<Rightarrow> nat \<Rightarrow> KeyOrder result" where
  "makeKeyOrder a b c d =
     (let keys = [a, b, c, d] in
      res_bind (ensure ContractViolation (list_all (\<lambda>x. x < NumKeys) keys)) (\<lambda>_.
      res_bind (ensure ContractViolation (distinct_adj (sort keys))) (\<lambda>_. Inr keys)))"

definition permuteTuple :: "KeyOrder \<Rightarrow> 'id IdTriple \<Rightarrow> 'id IdTriple" where
  "permuteTuple keys input = map (\<lambda>k. input ! k) keys"

definition permuteTriple :: "KeyOrder \<Rightarrow> 'id list \<Rightarrow> 'id list result" where
  "permuteTriple keys input =
     res_bind (ensure ContractViolation (keys ! 3 = 3)) (\<lambda>_.
       Inr (map (\<lambda>k. input ! k) (take 3 keys)))"

section \<open>Located triples\<close>

record 'id LocatedTriple =
  ltBlock :: nat
  ltTriple :: "'id IdTriple"
  ltInsert :: bool

record 'id CompressedBlockMetadata =
  offsetsAndCompressedSize :: "(int \<times> nat) list"
  numRows :: nat
  firstTriple :: "'id IdTriple"
  lastTriple :: "'id IdTriple"
  graphInfo :: "'id list option"
  containsDuplicatesWithDifferentGraphs :: bool
  metaBlockIndex :: nat

definition lowerBoundBlock :: "('id::linorder) CompressedBlockMetadata list \<Rightarrow> 'id IdTriple \<Rightarrow> nat" where
  "lowerBoundBlock blockMetadata triple = length (takeWhile (\<lambda>b. lastTriple b < triple) blockMetadata)"

definition locateTriplesInPermutation ::
    "('id::linorder) IdTriple list \<Rightarrow> 'id CompressedBlockMetadata list \<Rightarrow> KeyOrder \<Rightarrow> bool
      \<Rightarrow> 'id LocatedTriple list" where
  "locateTriplesInPermutation triples blockMetadata keyOrder insertOrDelete =
     map (\<lambda>t. let triple = permuteTuple keyOrder t in
            \<lparr>ltBlock = lowerBoundBlock blockMetadata triple, ltTriple = triple,
             ltInsert = insertOrDelete\<rparr>) triples"

type_synonym 'id LocatedTriples = "'id LocatedTriple list"

text \<open>\<open>emplace\<close> of the set ordered by \<open>LocatedTripleCompare\<close>, with the flag whether it was inserted.\<close>

fun emplace :: "('id::linorder) LocatedTriple \<Rightarrow> 'id LocatedTriples \<Rightarrow> 'id LocatedTriples \<times> bool" where
  "emplace lt [] = ([lt], True)"
| "emplace lt (x # xs) =
     (if ltTriple lt < ltTriple x then (lt # x # xs, True)
      else if ltTriple x < ltTriple lt then (let (ys, b) = emplace lt xs in (x # ys, b))
      else (x # xs, False))"

record 'id LocatedTriplesPerBlock =
  numTriples :: nat
  ltMap :: "nat \<rightharpoonup> 'id LocatedTriples"
  augmentedMetadata :: "'id CompressedBlockMetadata list option"
  originalMetadata :: "'id CompressedBlockMetadata list option"

definition hasUpdates :: "'id LocatedTriplesPerBlock \<Rightarrow> nat \<Rightarrow> bool" where
  "hasUpdates l blockIndex \<longleftrightarrow> ltMap l blockIndex \<noteq> None"

definition numTriplesInBlock :: "'id LocatedTriplesPerBlock \<Rightarrow> nat \<Rightarrow> nat \<times> nat" where
  "numTriplesInBlock l blockIndex =
     (case ltMap l blockIndex of None \<Rightarrow> (0, 0) | Some lts \<Rightarrow> (length lts, length lts))"

section \<open>Merging\<close>

definition tieIdTableRow :: "nat \<Rightarrow> bool \<Rightarrow> 'id list \<Rightarrow> 'id list" where
  "tieIdTableRow numIndexColumns includeGraphColumn row =
     map (\<lambda>i. row ! i) [0..<numIndexColumns + of_bool includeGraphColumn]"

definition tieLocatedTriple :: "nat \<Rightarrow> bool \<Rightarrow> 'id LocatedTriple \<Rightarrow> 'id list" where
  "tieLocatedTriple numIndexColumns includeGraphColumn lt =
     map (\<lambda>i. ltTriple lt ! i)
       (map (\<lambda>i. 3 - numIndexColumns + i) [0..<numIndexColumns] @ (if includeGraphColumn then [3] else []))"

definition writeLocatedTripleToResult ::
    "nat \<Rightarrow> bool \<Rightarrow> nat \<Rightarrow> ('id::order_bot) LocatedTriple \<Rightarrow> 'id list" where
  "writeLocatedTripleToResult numIndexColumns includeGraphColumn numColumns lt =
     map (\<lambda>i. if i < numIndexColumns + of_bool includeGraphColumn
              then ltTriple lt ! (3 - numIndexColumns + i) else bot) [0..<numColumns]"

text \<open>The loop of \<open>mergeTriplesImpl\<close> with the two final copies. The result table is written from
  front to back, so it is the list of the rows written.\<close>

fun mergeLoop ::
    "nat \<Rightarrow> bool \<Rightarrow> nat \<Rightarrow> ('id::{linorder,order_bot}) list list \<Rightarrow> 'id LocatedTriples \<Rightarrow> 'id list list" where
  "mergeLoop n g c (row # block) (lt # lts) =
     (if tieLocatedTriple n g lt < tieIdTableRow n g row then
        (if ltInsert lt then [writeLocatedTripleToResult n g c lt] else []) @
        mergeLoop n g c (row # block) lts
      else if tieLocatedTriple n g lt = tieIdTableRow n g row then
        (if \<not> ltInsert lt then mergeLoop n g c block lts else mergeLoop n g c (row # block) lts)
      else row # mergeLoop n g c block (lt # lts))"
| "mergeLoop n g c [] lts = map (writeLocatedTripleToResult n g c) (filter ltInsert lts)"
| "mergeLoop n g c block [] = block"

definition mergeTriplesImpl ::
    "('id::{linorder,order_bot}) LocatedTriplesPerBlock \<Rightarrow> nat \<Rightarrow> bool \<Rightarrow> nat \<Rightarrow> nat \<Rightarrow> 'id list list
      \<Rightarrow> 'id list list result" where
  "mergeTriplesImpl l numIndexColumns includeGraphColumn blockIndex numColumns block =
     (case ltMap l blockIndex of
        None \<Rightarrow> Inl ContractViolation
      | Some lts \<Rightarrow>
          if \<not> numIndexColumns + of_bool includeGraphColumn \<le> numColumns then Inl ContractViolation
          else Inr (mergeLoop numIndexColumns includeGraphColumn numColumns block lts))"

definition mergeTriples ::
    "('id::{linorder,order_bot}) LocatedTriplesPerBlock \<Rightarrow> nat \<Rightarrow> nat \<Rightarrow> 'id list list \<Rightarrow> nat \<Rightarrow> bool
      \<Rightarrow> 'id list list result" where
  "mergeTriples l blockIndex numColumns block numIndexColumns includeGraphColumn =
     (if numIndexColumns = 3 \<or> numIndexColumns = 2
      then mergeTriplesImpl l numIndexColumns includeGraphColumn blockIndex numColumns block
      else res_bind (ensure CorrectnessViolation (numIndexColumns = 1)) (\<lambda>_.
        mergeTriplesImpl l 1 includeGraphColumn blockIndex numColumns block))"

section \<open>Metadata\<close>

definition MAX_NUM_GRAPHS_STORED_IN_BLOCK_METADATA :: nat where
  "MAX_NUM_GRAPHS_STORED_IN_BLOCK_METADATA = 20"

definition ADDITIONAL_COLUMN_GRAPH_ID :: nat where "ADDITIONAL_COLUMN_GRAPH_ID = 3"

text \<open>The hash set of graphs is a list without duplicates; \<open>None\<close> is the early return that resets the
  graph info.\<close>

fun addGraphs :: "'id LocatedTriples \<Rightarrow> 'id list \<Rightarrow> 'id list option" where
  "addGraphs [] newGraphs = Some newGraphs"
| "addGraphs (lt # lts) newGraphs =
     (if \<not> ltInsert lt then addGraphs lts newGraphs
      else let newGraphs = List.insert (ltTriple lt ! ADDITIONAL_COLUMN_GRAPH_ID) newGraphs in
        if length newGraphs > MAX_NUM_GRAPHS_STORED_IN_BLOCK_METADATA then None
        else addGraphs lts newGraphs)"

definition updateGraphMetadata ::
    "('id::linorder) CompressedBlockMetadata \<Rightarrow> 'id LocatedTriples \<Rightarrow> 'id CompressedBlockMetadata" where
  "updateGraphMetadata blockMetadata lts =
     (let b = blockMetadata\<lparr>containsDuplicatesWithDifferentGraphs := True\<rparr> in
      case graphInfo b of
        None \<Rightarrow> b
      | Some graphs \<Rightarrow> b\<lparr>graphInfo := map_option sort (addGraphs lts (remdups graphs))\<rparr>)"

definition updateBlock ::
    "('id::linorder) LocatedTriplesPerBlock \<Rightarrow> nat \<Rightarrow> 'id CompressedBlockMetadata \<Rightarrow> 'id CompressedBlockMetadata"
  where
  "updateBlock l blockIndex b =
     (case ltMap l blockIndex of
        None \<Rightarrow> b
      | Some blockUpdates \<Rightarrow>
          updateGraphMetadata
            (b\<lparr>firstTriple := min (firstTriple b) (ltTriple (hd blockUpdates)),
               lastTriple := max (lastTriple b) (ltTriple (last blockUpdates))\<rparr>) blockUpdates)"

definition updateAugmentedMetadata ::
    "('id::linorder) LocatedTriplesPerBlock \<Rightarrow> 'id LocatedTriplesPerBlock" where
  "updateAugmentedMetadata l =
     (let original = (case originalMetadata l of None \<Rightarrow> [] | Some m \<Rightarrow> m);
          updated = map (\<lambda>(i, b). updateBlock l i b) (enumerate 0 original);
          blockIndex = length original;
          lastBlocks = (case ltMap l blockIndex of
              None \<Rightarrow> []
            | Some blockUpdates \<Rightarrow>
                [updateGraphMetadata
                   \<lparr>offsetsAndCompressedSize = replicate 4 (0, 0), numRows = 0,
                    firstTriple = ltTriple (hd blockUpdates), lastTriple = ltTriple (last blockUpdates),
                    graphInfo = Some [], containsDuplicatesWithDifferentGraphs = True,
                    metaBlockIndex = blockIndex\<rparr> blockUpdates])
      in l\<lparr>augmentedMetadata := Some (updated @ lastBlocks)\<rparr>)"

definition setOriginalMetadata ::
    "'id CompressedBlockMetadata list \<Rightarrow> 'id LocatedTriplesPerBlock \<Rightarrow> 'id LocatedTriplesPerBlock" where
  "setOriginalMetadata metadata l = l\<lparr>originalMetadata := Some metadata\<rparr>"

definition getAugmentedMetadata :: "'id LocatedTriplesPerBlock \<Rightarrow> 'id CompressedBlockMetadata list result" where
  "getAugmentedMetadata l =
     (case augmentedMetadata l of
        Some m \<Rightarrow> Inr m
      | None \<Rightarrow> (case originalMetadata l of None \<Rightarrow> Inl ContractViolation | Some m \<Rightarrow> Inr m))"

section \<open>Adding and erasing\<close>

fun addLoop ::
    "('id::linorder) LocatedTriple list \<Rightarrow> 'id LocatedTriplesPerBlock \<Rightarrow> 'id LocatedTriplesPerBlock result" where
  "addLoop [] l = Inr l"
| "addLoop (lt # lts) l =
     (let (block, wasInserted) = emplace lt (case ltMap l (ltBlock lt) of None \<Rightarrow> [] | Some b \<Rightarrow> b) in
      if \<not> wasInserted then Inl CorrectnessViolation
      else addLoop lts (l\<lparr>ltMap := (ltMap l)(ltBlock lt \<mapsto> block), numTriples := numTriples l + 1\<rparr>))"

definition add ::
    "('id::linorder) LocatedTriple list \<Rightarrow> 'id LocatedTriplesPerBlock
      \<Rightarrow> (('id LocatedTriple list) \<times> 'id LocatedTriplesPerBlock) result" where
  "add lts l = res_bind (addLoop lts l) (\<lambda>l'. Inr (lts, updateAugmentedMetadata l'))"

definition eraseLocated ::
    "nat \<Rightarrow> 'id LocatedTriple \<Rightarrow> 'id LocatedTriplesPerBlock \<Rightarrow> 'id LocatedTriplesPerBlock result" where
  "eraseLocated blockIndex iter l =
     (case ltMap l blockIndex of
        None \<Rightarrow> Inl ContractViolation
      | Some block \<Rightarrow>
          let block' = remove1 iter block;
              l' = l\<lparr>ltMap := (ltMap l)(blockIndex \<mapsto> block'), numTriples := numTriples l - 1\<rparr>
          in Inr (if block' = [] then l'\<lparr>ltMap := (ltMap l')(blockIndex := None)\<rparr> else l'))"

definition clearLocated :: "'id LocatedTriplesPerBlock \<Rightarrow> 'id LocatedTriplesPerBlock" where
  "clearLocated l = l\<lparr>ltMap := (\<lambda>_. None), numTriples := 0, augmentedMetadata := None\<rparr>"

section \<open>The merge is the update of the set of rows\<close>

lemma tie_write:
  assumes "n \<le> 3" "n + of_bool g \<le> c"
  shows "tieIdTableRow n g (writeLocatedTripleToResult n g c lt) = tieLocatedTriple n g lt"
  using assms
  by (cases g) (auto simp: tieIdTableRow_def tieLocatedTriple_def writeLocatedTripleToResult_def)

text \<open>The rows of a block that are not deleted, and the inserted triples that are not in the block.\<close>

definition keptRows :: "nat \<Rightarrow> bool \<Rightarrow> 'id list list \<Rightarrow> 'id LocatedTriples \<Rightarrow> 'id list set" where
  "keptRows n g block lts = {row \<in> set block.
     \<forall>lt\<in>set lts. \<not> ltInsert lt \<longrightarrow> tieLocatedTriple n g lt \<noteq> tieIdTableRow n g row}"

definition newTriples :: "nat \<Rightarrow> bool \<Rightarrow> 'id list list \<Rightarrow> 'id LocatedTriples \<Rightarrow> 'id LocatedTriple set" where
  "newTriples n g block lts = {lt \<in> set lts. ltInsert lt \<and>
     tieLocatedTriple n g lt \<notin> tieIdTableRow n g ` set block}"

lemma mergeLoop_sets:
  fixes row :: "('id::linorder) list"
  assumes "\<forall>r\<in>set block. tieIdTableRow n g row < tieIdTableRow n g r"
    and "\<forall>l\<in>set lts. tieLocatedTriple n g lt < tieLocatedTriple n g l"
  shows "tieLocatedTriple n g lt < tieIdTableRow n g row \<Longrightarrow>
      keptRows n g (row # block) (lt # lts) = keptRows n g (row # block) lts \<and>
      newTriples n g (row # block) (lt # lts) =
        newTriples n g (row # block) lts \<union> (if ltInsert lt then {lt} else {})"
    and "tieLocatedTriple n g lt = tieIdTableRow n g row \<Longrightarrow> \<not> ltInsert lt \<Longrightarrow>
      keptRows n g (row # block) (lt # lts) = keptRows n g block lts \<and>
      newTriples n g (row # block) (lt # lts) = newTriples n g block lts"
    and "tieLocatedTriple n g lt = tieIdTableRow n g row \<Longrightarrow> ltInsert lt \<Longrightarrow>
      keptRows n g (row # block) (lt # lts) = keptRows n g (row # block) lts \<and>
      newTriples n g (row # block) (lt # lts) = newTriples n g (row # block) lts"
    and "tieIdTableRow n g row < tieLocatedTriple n g lt \<Longrightarrow>
      keptRows n g (row # block) (lt # lts) = insert row (keptRows n g block (lt # lts)) \<and>
      newTriples n g (row # block) (lt # lts) = newTriples n g block (lt # lts)"
proof -
  let ?K = "tieIdTableRow n g" and ?L = "tieLocatedTriple n g"
  show "?L lt < ?K row \<Longrightarrow> keptRows n g (row # block) (lt # lts) = keptRows n g (row # block) lts \<and>
      newTriples n g (row # block) (lt # lts) =
        newTriples n g (row # block) lts \<union> (if ltInsert lt then {lt} else {})"
  proof -
    assume less: "?L lt < ?K row"
    then have "?L lt \<noteq> ?K r" if "r \<in> set (row # block)" for r
      using assms(1) that by (metis less_irrefl order_less_trans set_ConsD)
    then show ?thesis by (auto simp: keptRows_def newTriples_def)
  qed
  show "?L lt = ?K row \<Longrightarrow> \<not> ltInsert lt \<Longrightarrow>
      keptRows n g (row # block) (lt # lts) = keptRows n g block lts \<and>
      newTriples n g (row # block) (lt # lts) = newTriples n g block lts"
    using assms by (auto simp: keptRows_def newTriples_def)
  show "?L lt = ?K row \<Longrightarrow> ltInsert lt \<Longrightarrow>
      keptRows n g (row # block) (lt # lts) = keptRows n g (row # block) lts \<and>
      newTriples n g (row # block) (lt # lts) = newTriples n g (row # block) lts"
    by (auto simp: keptRows_def newTriples_def)
  show "?K row < ?L lt \<Longrightarrow> keptRows n g (row # block) (lt # lts) = insert row (keptRows n g block (lt # lts)) \<and>
      newTriples n g (row # block) (lt # lts) = newTriples n g block (lt # lts)"
  proof -
    assume greater: "?K row < ?L lt"
    then have "?L l \<noteq> ?K row" if "l \<in> set (lt # lts)" for l
      using assms(2) that by (metis less_irrefl order_less_trans set_ConsD)
    then show ?thesis by (auto simp: keptRows_def newTriples_def)
  qed
qed

lemma mergeLoop_set:
  assumes "n \<le> 3" "n + of_bool g \<le> c"
    and "sorted_wrt (\<lambda>a b. tieIdTableRow n g a < tieIdTableRow n g b) block"
    and "sorted_wrt (\<lambda>a b. tieLocatedTriple n g a < tieLocatedTriple n g b) lts"
  shows "set (mergeLoop n g c block lts) =
      keptRows n g block lts \<union> writeLocatedTripleToResult n g c ` newTriples n g block lts"
    and "sorted_wrt (\<lambda>a b. tieIdTableRow n g a < tieIdTableRow n g b) (mergeLoop n g c block lts)"
  using assms
proof (induction n g c block lts rule: mergeLoop.induct)
  case (1 n g c row block lt lts)
  let ?K = "tieIdTableRow n g" and ?L = "tieLocatedTriple n g"
  note IH = "1.IH"
  have facts: "\<forall>r\<in>set block. ?K row < ?K r" "\<forall>l\<in>set lts. ?L lt < ?L l"
      "sorted_wrt (\<lambda>a b. ?K a < ?K b) block" "sorted_wrt (\<lambda>a b. ?L a < ?L b) lts"
    if "sorted_wrt (\<lambda>a b. ?K a < ?K b) (row # block)" "sorted_wrt (\<lambda>a b. ?L a < ?L b) (lt # lts)"
    using that by auto
  consider (less) "?L lt < ?K row" | (delete) "?L lt = ?K row" "\<not> ltInsert lt"
    | (keep) "?L lt = ?K row" "ltInsert lt" | (greater) "?K row < ?L lt" by fastforce
  note cases = this
  {
    case 1
    note f = facts [OF 1(3,4)]
    note sets = mergeLoop_sets [OF f(1,2)]
    show ?case
    proof (cases rule: cases)
      case less
      then show ?thesis using IH(1) [OF less 1(1,2,3) f(4)] sets(1) [OF less] by auto
    next
      case delete
      then show ?thesis using IH(3) [OF _ delete 1(1,2) f(3,4)] sets(2) [OF delete] by auto
    next
      case keep
      then show ?thesis using IH(5) [OF _ keep(1) _ 1(1,2,3) f(4)] sets(3) [OF keep] by auto
    next
      case greater
      then have "\<not> ?L lt < ?K row" "?L lt \<noteq> ?K row" by auto
      then show ?thesis using IH(7) [OF _ _ 1(1,2) f(3) 1(4)] sets(4) [OF greater] by auto
    qed
  next
    case 2
    note f = facts [OF 2(3,4)]
    show ?case
    proof (cases rule: cases)
      case less
      have "?L lt < ?K r" if "r \<in> set (mergeLoop n g c (row # block) lts)" for r
        using that IH(1) [OF less 2(1,2,3) f(4)] less f(1,2)
        by (auto simp: tie_write [OF 2(1,2)] keptRows_def newTriples_def intro: order_less_trans)
      then show ?thesis using IH(2) [OF less 2(1,2,3) f(4)] less by (auto simp: tie_write [OF 2(1,2)])
    next
      case delete
      then show ?thesis using IH(4) [OF _ delete 2(1,2) f(3,4)] by auto
    next
      case keep
      then show ?thesis using IH(6) [OF _ keep(1) _ 2(1,2,3) f(4)] by auto
    next
      case greater
      then have ng: "\<not> ?L lt < ?K row" "?L lt \<noteq> ?K row" by auto
      have "?K row < ?K r" if "r \<in> set (mergeLoop n g c block (lt # lts))" for r
        using that IH(7) [OF ng 2(1,2) f(3) 2(4)] greater f(1,2)
        by (auto simp: tie_write [OF 2(1,2)] keptRows_def newTriples_def intro: order_less_trans)
      then show ?thesis using IH(8) [OF ng 2(1,2) f(3) 2(4)] ng by auto
    qed
  }
next
  case (2 n g c lts)
  {
    case 1
    then show ?case by (auto simp: keptRows_def newTriples_def)
  next
    case 2
    then show ?case by (auto simp: sorted_wrt_map tie_write sorted_wrt_filter)
  }
next
  case (3 n g c row block)
  {
    case 1
    then show ?case by (auto simp: keptRows_def newTriples_def)
  next
    case 2
    then show ?case by auto
  }
qed

section \<open>The invariant of the located triples\<close>

definition blockOkLt :: "nat \<Rightarrow> ('id::linorder) LocatedTriples \<Rightarrow> bool" where
  "blockOkLt b lts \<longleftrightarrow> lts \<noteq> [] \<and> sorted_wrt (\<lambda>x y. ltTriple x < ltTriple y) lts \<and> (\<forall>lt\<in>set lts. ltBlock lt = b)"

definition ltOk :: "('id::linorder) LocatedTriplesPerBlock \<Rightarrow> bool" where
  "ltOk l \<longleftrightarrow> finite (dom (ltMap l)) \<and> (\<forall>b lts. ltMap l b = Some lts \<longrightarrow> blockOkLt b lts) \<and>
     numTriples l = (\<Sum>b\<in>dom (ltMap l). length (the (ltMap l b)))"

definition locatedSet :: "'id LocatedTriplesPerBlock \<Rightarrow> 'id LocatedTriple set" where
  "locatedSet l = {lt. \<exists>b lts. ltMap l b = Some lts \<and> lt \<in> set lts}"

definition ltKey :: "'id LocatedTriple \<Rightarrow> nat \<times> 'id IdTriple" where
  "ltKey lt = (ltBlock lt, ltTriple lt)"

lemma emplace_spec:
  assumes "sorted_wrt (\<lambda>x y. ltTriple x < ltTriple y) lts"
  shows "snd (emplace lt lts) \<longleftrightarrow> ltTriple lt \<notin> ltTriple ` set lts"
    and "snd (emplace lt lts) \<Longrightarrow> set (fst (emplace lt lts)) = insert lt (set lts) \<and>
      length (fst (emplace lt lts)) = Suc (length lts)"
    and "sorted_wrt (\<lambda>x y. ltTriple x < ltTriple y) (fst (emplace lt lts))"
proof -
  have "(snd (emplace lt lts) \<longleftrightarrow> ltTriple lt \<notin> ltTriple ` set lts) \<and>
      (snd (emplace lt lts) \<longrightarrow> set (fst (emplace lt lts)) = insert lt (set lts) \<and>
        length (fst (emplace lt lts)) = Suc (length lts)) \<and>
      set (fst (emplace lt lts)) \<subseteq> insert lt (set lts) \<and>
      sorted_wrt (\<lambda>x y. ltTriple x < ltTriple y) (fst (emplace lt lts))"
    using assms
  proof (induction lts)
    case (Cons x xs)
    obtain ys b where e: "emplace lt xs = (ys, b)" by (cases "emplace lt xs")
    consider "ltTriple lt < ltTriple x" | "ltTriple x < ltTriple lt" | "ltTriple lt = ltTriple x" by fastforce
    then show ?case
    proof cases
      case 1
      then have "ltTriple lt < ltTriple y" if "y \<in> set (x # xs)" for y
        using that Cons.prems by (auto intro: order_less_trans)
      then show ?thesis using 1 Cons.prems by (auto simp: image_iff) blast+
    next
      case 2
      then show ?thesis using Cons e by (auto simp: not_less_iff_gr_or_eq)
    next
      case 3
      then show ?thesis using Cons.prems by auto
    qed
  qed simp
  then show "snd (emplace lt lts) \<longleftrightarrow> ltTriple lt \<notin> ltTriple ` set lts"
    and "snd (emplace lt lts) \<Longrightarrow> set (fst (emplace lt lts)) = insert lt (set lts) \<and>
      length (fst (emplace lt lts)) = Suc (length lts)"
    and "sorted_wrt (\<lambda>x y. ltTriple x < ltTriple y) (fst (emplace lt lts))" by blast+
qed

lemma ltKey_block:
  assumes "ltOk l" "ltMap l (ltBlock lt) = Some lts"
  shows "ltKey lt \<in> ltKey ` locatedSet l \<longleftrightarrow> ltTriple lt \<in> ltTriple ` set lts"
proof
  assume "ltKey lt \<in> ltKey ` locatedSet l"
  then obtain x b ys where x: "ltMap l b = Some ys" "x \<in> set ys" "ltBlock x = ltBlock lt" "ltTriple x = ltTriple lt"
    by (auto simp: locatedSet_def ltKey_def)
  then have "b = ltBlock lt" using assms(1) by (auto simp: ltOk_def blockOkLt_def)
  then show "ltTriple lt \<in> ltTriple ` set lts" using x assms(2) by (metis image_eqI option.inject)
next
  assume "ltTriple lt \<in> ltTriple ` set lts"
  then obtain x where x: "x \<in> set lts" "ltTriple x = ltTriple lt" by auto
  then have "x \<in> locatedSet l" "ltBlock x = ltBlock lt"
    using assms by (auto simp: locatedSet_def ltOk_def blockOkLt_def)
  then show "ltKey lt \<in> ltKey ` locatedSet l" using x by (metis image_eqI ltKey_def)
qed

lemma ltKey_noblock:
  assumes "ltOk l" "ltMap l (ltBlock lt) = None"
  shows "ltKey lt \<notin> ltKey ` locatedSet l"
  using assms by (fastforce simp: ltOk_def blockOkLt_def locatedSet_def ltKey_def)

definition emplaceIn :: "('id::linorder) LocatedTriple \<Rightarrow> 'id LocatedTriplesPerBlock \<Rightarrow> 'id LocatedTriplesPerBlock" where
  "emplaceIn lt l = l\<lparr>ltMap := (ltMap l)(ltBlock lt \<mapsto>
      fst (emplace lt (case ltMap l (ltBlock lt) of None \<Rightarrow> [] | Some b \<Rightarrow> b))), numTriples := numTriples l + 1\<rparr>"

lemma locatedSet_split:
  "x \<in> locatedSet l \<longleftrightarrow> x \<in> set (case ltMap l b of None \<Rightarrow> [] | Some ys \<Rightarrow> ys) \<or>
     (\<exists>c ys. c \<noteq> b \<and> ltMap l c = Some ys \<and> x \<in> set ys)"
  unfolding locatedSet_def by (cases "ltMap l b") (simp_all, metis option.distinct(1), metis option.inject)

lemma emplaceIn_ok:
  assumes "ltOk l" "ltKey lt \<notin> ltKey ` locatedSet l"
  shows "ltOk (emplaceIn lt l)" "locatedSet (emplaceIn lt l) = insert lt (locatedSet l)"
    and "snd (emplace lt (case ltMap l (ltBlock lt) of None \<Rightarrow> [] | Some b \<Rightarrow> b))"
proof -
  define old where "old = (case ltMap l (ltBlock lt) of None \<Rightarrow> [] | Some b \<Rightarrow> b)"
  define new where "new = fst (emplace lt old)"
  let ?b = "ltBlock lt" and ?m = "ltMap l"
  have sorted: "sorted_wrt (\<lambda>x y. ltTriple x < ltTriple y) old" and blk: "\<forall>x\<in>set old. ltBlock x = ?b"
    using assms(1) by (cases "?m ?b"; simp add: ltOk_def blockOkLt_def old_def)+
  have ins: "snd (emplace lt old)"
    using assms ltKey_block [OF assms(1)] emplace_spec(1) [OF sorted, of lt] by (auto simp: old_def split: option.splits)
  then show "snd (emplace lt (case ltMap l (ltBlock lt) of None \<Rightarrow> [] | Some b \<Rightarrow> b))" by (simp add: old_def)
  have e: "set new = insert lt (set old)" "length new = Suc (length old)"
    "sorted_wrt (\<lambda>x y. ltTriple x < ltTriple y) new"
    using emplace_spec(2) [OF sorted ins] emplace_spec(3) [OF sorted] by (simp_all add: new_def)
  have l': "emplaceIn lt l = l\<lparr>ltMap := ?m(?b \<mapsto> new), numTriples := numTriples l + 1\<rparr>"
    by (simp add: emplaceIn_def old_def new_def)
  have fin: "finite (dom ?m)" and num: "numTriples l = (\<Sum>b\<in>dom ?m. length (the (?m b)))"
    using assms(1) by (simp_all add: ltOk_def)
  have "(\<Sum>b\<in>dom (?m(?b \<mapsto> new)). length (the ((?m(?b \<mapsto> new)) b))) =
      length new + (\<Sum>b\<in>dom ?m - {?b}. length (the (?m b)))"
    using fin by (simp add: sum.insert_remove cong: sum.cong_simp)
  moreover have "(\<Sum>b\<in>dom ?m. length (the (?m b))) = length old + (\<Sum>b\<in>dom ?m - {?b}. length (the (?m b)))"
  proof (cases "?m ?b")
    case None
    then have "dom ?m - {?b} = dom ?m" by auto
    then show ?thesis using None by (simp add: old_def)
  next
    case (Some ys)
    then show ?thesis using sum.remove [OF fin, of ?b "\<lambda>b. length (the (?m b))"] by (simp add: old_def domI)
  qed
  moreover have "blockOkLt ?b new" using e blk by (auto simp: blockOkLt_def)
  ultimately show "ltOk (emplaceIn lt l)"
    using assms(1) num e(2) fin by (simp add: ltOk_def l')
  have "x \<in> locatedSet (emplaceIn lt l) \<longleftrightarrow> x \<in> insert lt (locatedSet l)" for x
    using e(1) unfolding insert_iff locatedSet_split [of x _ ?b] by (auto simp: l' old_def [symmetric])
  then show "locatedSet (emplaceIn lt l) = insert lt (locatedSet l)" by blast
qed

lemma addLoop_spec:
  assumes "ltOk l"
  shows "(\<forall>l'. addLoop lts l = Inr l' \<longrightarrow> ltOk l' \<and> locatedSet l' = locatedSet l \<union> set lts \<and>
      originalMetadata l' = originalMetadata l) \<and>
    ((\<exists>l'. addLoop lts l = Inr l') \<longleftrightarrow> distinct (map ltKey lts) \<and> ltKey ` set lts \<inter> ltKey ` locatedSet l = {}) \<and>
    (\<forall>e. addLoop lts l = Inl e \<longrightarrow> e = CorrectnessViolation)"
  using assms
proof (induction lts arbitrary: l)
  case (Cons lt lts)
  let ?old = "case ltMap l (ltBlock lt) of None \<Rightarrow> [] | Some b \<Rightarrow> b"
  show ?case
  proof (cases "ltKey lt \<in> ltKey ` locatedSet l")
    case True
    then obtain ys where ys: "ltMap l (ltBlock lt) = Some ys" "ltTriple lt \<in> ltTriple ` set ys"
      using ltKey_noblock [OF Cons.prems] ltKey_block [OF Cons.prems] by (cases "ltMap l (ltBlock lt)") auto
    then have "\<not> snd (emplace lt ?old)"
      using emplace_spec(1) [of ys lt] Cons.prems by (auto simp: ltOk_def blockOkLt_def)
    then have "addLoop (lt # lts) l = Inl CorrectnessViolation" by (auto simp: Let_def split: prod.splits)
    then show ?thesis using True by auto
  next
    case False
    note e = emplaceIn_ok [OF Cons.prems False]
    have "addLoop (lt # lts) l = addLoop lts (emplaceIn lt l)"
      using e(3) by (auto simp: emplaceIn_def Let_def split: prod.splits)
    moreover have "originalMetadata (emplaceIn lt l) = originalMetadata l" by (simp add: emplaceIn_def)
    ultimately show ?thesis using Cons.IH [OF e(1)] e(2) False by auto
  qed
qed auto

lemma ltOk_augmented [simp]:
  "ltOk (l\<lparr>augmentedMetadata := m\<rparr>) = ltOk l" "locatedSet (l\<lparr>augmentedMetadata := m\<rparr>) = locatedSet l"
  "ltOk (updateAugmentedMetadata l) = ltOk l" "locatedSet (updateAugmentedMetadata l) = locatedSet l"
  "originalMetadata (updateAugmentedMetadata l) = originalMetadata l"
  "ltMap (updateAugmentedMetadata l) = ltMap l"
  by (simp_all add: ltOk_def locatedSet_def updateAugmentedMetadata_def Let_def)

lemma eraseLocated_ok:
  assumes "ltOk l" "lt \<in> locatedSet l"
  shows "\<exists>l'. eraseLocated (ltBlock lt) lt l = Inr l' \<and> ltOk l' \<and> locatedSet l' = locatedSet l - {lt} \<and>
    originalMetadata l' = originalMetadata l"
proof -
  obtain lts where lts: "ltMap l (ltBlock lt) = Some lts" "lt \<in> set lts"
    using assms by (fastforce simp: locatedSet_def ltOk_def blockOkLt_def)
  then have ok: "blockOkLt (ltBlock lt) lts" and fin: "finite (dom (ltMap l))" using assms(1) by (auto simp: ltOk_def)
  then have dist: "distinct lts"
    by (auto simp: blockOkLt_def distinct_conv_nth sorted_wrt_iff_nth_less) (metis less_irrefl linorder_neqE_nat)
  let ?b = "ltBlock lt" and ?new = "remove1 lt lts"
  define m where "m = (if ?new = [] then (ltMap l)(?b := None) else (ltMap l)(?b \<mapsto> ?new))"
  let ?l' = "l\<lparr>ltMap := m, numTriples := numTriples l - 1\<rparr>"
  have run: "eraseLocated ?b lt l = Inr ?l'"
    using lts by (auto simp: eraseLocated_def Let_def m_def)
  have set_new: "set ?new = set lts - {lt}" using dist by simp
  have "sorted_wrt (\<lambda>x y. ltTriple x < ltTriple y) ?new"
    using ok by (metis blockOkLt_def sorted_wrt_filter dist distinct_remove1_removeAll removeAll_filter_not_eq)
  then have new_ok: "?new \<noteq> [] \<Longrightarrow> blockOkLt ?b ?new" using ok set_new by (auto simp: blockOkLt_def)
  have "(\<Sum>b\<in>dom m. length (the (m b))) = length ?new + (\<Sum>b\<in>dom (ltMap l) - {?b}. length (the (ltMap l b)))"
    using fin by (auto simp: m_def sum.insert_remove intro!: sum.cong)
  moreover have "(\<Sum>b\<in>dom (ltMap l). length (the (ltMap l b))) =
      length lts + (\<Sum>b\<in>dom (ltMap l) - {?b}. length (the (ltMap l b)))"
    using sum.remove [OF fin, of ?b "\<lambda>b. length (the (ltMap l b))"] lts(1) by (simp add: domI)
  moreover have "length lts = Suc (length ?new)" 
    using length_remove1 [of lt lts] length_pos_if_in_set [OF lts(2)] lts(2) by simp
  ultimately have "numTriples ?l' = (\<Sum>b\<in>dom m. length (the (m b)))" using assms(1) by (simp add: ltOk_def)
  moreover have "finite (dom m)" using fin by (simp add: m_def)
  moreover have "blockOkLt c ys" if "m c = Some ys" for c ys
    using that assms(1) new_ok by (cases "c = ?b") (auto simp: ltOk_def m_def split: if_splits)
  ultimately have "ltOk ?l'" by (simp add: ltOk_def)
  moreover have "locatedSet ?l' = locatedSet l - {lt}"
  proof (rule set_eqI)
    fix x
    have "c \<noteq> ?b \<Longrightarrow> ltMap l c = Some ys \<Longrightarrow> lt \<notin> set ys" for c ys
      using assms(1) by (auto simp: ltOk_def blockOkLt_def)
    then have out: "(\<exists>c ys. c \<noteq> ?b \<and> ltMap l c = Some ys \<and> x \<in> set ys) \<Longrightarrow> x \<noteq> lt" by blast
    have "(\<exists>c ys. c \<noteq> ?b \<and> m c = Some ys \<and> x \<in> set ys) \<longleftrightarrow> (\<exists>c ys. c \<noteq> ?b \<and> ltMap l c = Some ys \<and> x \<in> set ys)"
    proof -
      have "m c = ltMap l c" if "c \<noteq> ?b" for c using that by (simp add: m_def)
      then show ?thesis by metis
    qed
    moreover have "set (case m ?b of None \<Rightarrow> [] | Some ys \<Rightarrow> ys) = set lts - {lt}"
    proof (cases "?new = []")
      case True
      then have "set lts - {lt} = {}" using set_new by (metis list.set(1))
      then show ?thesis using True by (simp add: m_def)
    next
      case False
      then show ?thesis using set_new by (simp add: m_def)
    qed
    ultimately have "x \<in> locatedSet ?l' \<longleftrightarrow> x \<in> set lts - {lt} \<or> (\<exists>c ys. c \<noteq> ?b \<and> ltMap l c = Some ys \<and> x \<in> set ys)"
      using locatedSet_split [of x ?l' ?b] by simp
    then show "x \<in> locatedSet ?l' \<longleftrightarrow> x \<in> locatedSet l - {lt}"
      using locatedSet_split [of x l ?b] lts(1) out by auto
  qed
  ultimately show ?thesis using run by auto
qed

lemma clearLocated_ok: "ltOk (clearLocated l)" "locatedSet (clearLocated l) = {}"
  by (auto simp: clearLocated_def ltOk_def locatedSet_def)

section \<open>Merging\<close>

text \<open>The rows of a block lack the leading columns that all its triples share; the order of the
  located triples is then the order of the columns that are left.\<close>

lemma triple_split:
  assumes "length t = 4" "n \<le> 3"
  shows "t = take (3 - n) t @ map (\<lambda>i. t ! i) (map (\<lambda>i. 3 - n + i) [0..<n] @ [3])"
proof -
  obtain a b c d where t: "t = [a, b, c, d]"
    using assms(1) by (auto simp: numeral_eq_Suc length_Suc_conv)
  consider "n = 0" | "n = 1" | "n = 2" | "n = 3" using assms(2) by linarith
  then show ?thesis by cases (simp_all add: t upt_rec numeral_2_eq_2 numeral_3_eq_3)
qed

lemma append_less_same: "(xs @ ys < xs @ zs) = (ys < (zs :: ('a::linorder) list))"
  by (induction xs) (simp_all add: Cons_less_Cons)

lemma tie_sorted:
  assumes "sorted_wrt (\<lambda>x y. ltTriple x < ltTriple y) (lts :: ('id::linorder) LocatedTriples)" "n \<le> 3"
    and "\<forall>lt\<in>set lts. length (ltTriple lt) = 4 \<and> take (3 - n) (ltTriple lt) = p"
  shows "sorted_wrt (\<lambda>x y. tieLocatedTriple n True x < tieLocatedTriple n True y) lts"
proof -
  have eq: "ltTriple lt = p @ tieLocatedTriple n True lt" if "lt \<in> set lts" for lt
    using triple_split [of "ltTriple lt" n] assms(2,3) that by (simp add: tieLocatedTriple_def)
  show ?thesis
  proof (rule sorted_wrt_mono_rel [OF _ assms(1)])
    fix x y assume "x \<in> set lts" "y \<in> set lts" "ltTriple x < ltTriple y"
    then show "tieLocatedTriple n True x < tieLocatedTriple n True y"
      using append_less_same [of p] eq [of x] eq [of y] by simp
  qed
qed

section \<open>Metadata\<close>

lemma addGraphs_Some:
  assumes "addGraphs lts gs = Some gs'"
  shows "set gs \<subseteq> set gs' \<and> (\<forall>lt\<in>set lts. ltInsert lt \<longrightarrow> ltTriple lt ! ADDITIONAL_COLUMN_GRAPH_ID \<in> set gs')"
  using assms by (induction lts gs rule: addGraphs.induct) (auto simp: Let_def split: if_splits)

lemma updateGraphMetadata_fields [simp]:
  "firstTriple (updateGraphMetadata b lts) = firstTriple b" "lastTriple (updateGraphMetadata b lts) = lastTriple b"
  "numRows (updateGraphMetadata b lts) = numRows b"
  "containsDuplicatesWithDifferentGraphs (updateGraphMetadata b lts)"
  by (auto simp: updateGraphMetadata_def Let_def split: option.splits)

lemma updateGraphMetadata_graphs:
  assumes "graphInfo (updateGraphMetadata b lts) = Some gs"
  shows "(\<forall>lt\<in>set lts. ltInsert lt \<longrightarrow> ltTriple lt ! ADDITIONAL_COLUMN_GRAPH_ID \<in> set gs) \<and>
    (\<exists>gs0. graphInfo b = Some gs0 \<and> set gs0 \<subseteq> set gs)"
  using assms by (auto simp: updateGraphMetadata_def Let_def split: option.splits dest!: addGraphs_Some)

text \<open>A block of the metadata describes the located triples: they lie between its first and last triple,
  and the graphs of the inserted ones are known if the graphs of the block are.\<close>

definition describes :: "('id::linorder) CompressedBlockMetadata \<Rightarrow> 'id LocatedTriple \<Rightarrow> bool" where
  "describes b lt \<longleftrightarrow> firstTriple b \<le> ltTriple lt \<and> ltTriple lt \<le> lastTriple b \<and>
     (ltInsert lt \<longrightarrow> (case graphInfo b of None \<Rightarrow> True | Some gs \<Rightarrow> ltTriple lt ! ADDITIONAL_COLUMN_GRAPH_ID \<in> set gs))"

lemma blockOkLt_bounds:
  assumes "blockOkLt b lts" "lt \<in> set lts"
  shows "ltTriple (hd lts) \<le> ltTriple lt" "ltTriple lt \<le> ltTriple (last lts)"
proof -
  obtain i where i: "i < length lts" "lt = lts ! i" using assms(2) by (auto simp: in_set_conv_nth)
  have "ltTriple (lts ! j) \<le> ltTriple (lts ! k)" if "j \<le> k" "k < length lts" for j k
    using that assms(1) by (cases "j = k") (auto simp: blockOkLt_def sorted_wrt_iff_nth_less intro: less_imp_le)
  then show "ltTriple (hd lts) \<le> ltTriple lt" "ltTriple lt \<le> ltTriple (last lts)"
    using i assms(1) by (auto simp: blockOkLt_def hd_conv_nth last_conv_nth)
qed

lemma updateAugmentedMetadata_nth:
  assumes "originalMetadata l = Some orig"
  shows "\<exists>m. augmentedMetadata (updateAugmentedMetadata l) = Some m \<and>
    length m = length orig + of_bool (ltMap l (length orig) \<noteq> None) \<and>
    (\<forall>i<length orig. m ! i = updateBlock l i (orig ! i)) \<and>
    (\<forall>lts. ltMap l (length orig) = Some lts \<longrightarrow> firstTriple (m ! length orig) = ltTriple (hd lts) \<and>
       lastTriple (m ! length orig) = ltTriple (last lts) \<and>
       (\<exists>b. m ! length orig = updateGraphMetadata b lts))"
proof -
  have "map (\<lambda>(i, b). updateBlock l i b) (enumerate 0 orig) ! i = updateBlock l i (orig ! i)" if "i < length orig" for i
    using that by (simp add: nth_enumerate_eq)
  then show ?thesis using assms
    by (auto simp: updateAugmentedMetadata_def Let_def nth_append split: option.splits)
qed

lemma updateBlock_describes:
  assumes "ltOk l" "ltMap l i = Some lts" "lt \<in> set lts"
  shows "describes (updateBlock l i b) lt"
  using blockOkLt_bounds [of i lts lt] assms updateGraphMetadata_graphs
  by (fastforce simp: describes_def updateBlock_def ltOk_def min_le_iff_disj le_max_iff_disj split: option.splits)

lemma lowerBoundBlock_spec:
  "lowerBoundBlock bs t \<le> length bs"
  "i < lowerBoundBlock bs t \<Longrightarrow> lastTriple (bs ! i) < t"
  "lowerBoundBlock bs t < length bs \<Longrightarrow> t \<le> lastTriple (bs ! lowerBoundBlock bs t)"
  using nth_length_takeWhile [of "\<lambda>b. lastTriple b < t" bs] nth_mem [of i "takeWhile (\<lambda>b. lastTriple b < t) bs"]
  by (auto simp: lowerBoundBlock_def length_takeWhile_le takeWhile_nth dest: set_takeWhileD)

definition blocksSorted :: "('id::linorder) CompressedBlockMetadata list \<Rightarrow> bool" where
  "blocksSorted bs \<longleftrightarrow> (\<forall>i<length bs. firstTriple (bs ! i) \<le> lastTriple (bs ! i)) \<and>
     (\<forall>i. Suc i < length bs \<longrightarrow> lastTriple (bs ! i) < firstTriple (bs ! Suc i))"

definition locatedIn :: "('id::linorder) CompressedBlockMetadata list \<Rightarrow> 'id LocatedTriplesPerBlock \<Rightarrow> bool" where
  "locatedIn orig l \<longleftrightarrow> (\<forall>lt\<in>locatedSet l. ltBlock lt = lowerBoundBlock orig (ltTriple lt))"

lemma block_located:
  assumes "ltOk l" "locatedIn orig l" "ltMap l i = Some lts" "lt \<in> set lts"
  shows "i = lowerBoundBlock orig (ltTriple lt)" "i \<le> length orig"
    "j < i \<Longrightarrow> lastTriple (orig ! j) < ltTriple lt" "i < length orig \<Longrightarrow> ltTriple lt \<le> lastTriple (orig ! i)"
proof -
  have "ltBlock lt = i" using assms(1,3,4) by (auto simp: ltOk_def blockOkLt_def)
  then show i: "i = lowerBoundBlock orig (ltTriple lt)"
    using assms by (auto simp: locatedIn_def locatedSet_def)
  show "i \<le> length orig" "j < i \<Longrightarrow> lastTriple (orig ! j) < ltTriple lt" "i < length orig \<Longrightarrow> ltTriple lt \<le> lastTriple (orig ! i)"
    using lowerBoundBlock_spec [where bs = orig and t = "ltTriple lt"] i by metis+
qed

lemma updateBlock_borders:
  assumes "ltOk l" "locatedIn orig l" "i < length orig"
  shows "lastTriple (updateBlock l i (orig ! i)) = lastTriple (orig ! i)"
    and "firstTriple (updateBlock l i (orig ! i)) \<le> firstTriple (orig ! i)"
    and "j < i \<Longrightarrow> lastTriple (orig ! j) < firstTriple (orig ! i) \<Longrightarrow>
      lastTriple (orig ! j) < firstTriple (updateBlock l i (orig ! i))"
    and "numRows (updateBlock l i (orig ! i)) = numRows (orig ! i)"
proof -
  have "lts \<noteq> []" if "ltMap l i = Some lts" for lts using that assms(1) by (auto simp: ltOk_def blockOkLt_def)
  then have le: "ltTriple (last lts) \<le> lastTriple (orig ! i)"
    and gt: "j < i \<Longrightarrow> lastTriple (orig ! j) < ltTriple (hd lts)" if "ltMap l i = Some lts" for lts j
    using that block_located(3,4) [OF assms(1,2) that] assms(3) by simp_all
  show "lastTriple (updateBlock l i (orig ! i)) = lastTriple (orig ! i)"
    "firstTriple (updateBlock l i (orig ! i)) \<le> firstTriple (orig ! i)"
    "numRows (updateBlock l i (orig ! i)) = numRows (orig ! i)"
    using le by (auto simp: updateBlock_def max_absorb1 split: option.splits)
  show "j < i \<Longrightarrow> lastTriple (orig ! j) < firstTriple (orig ! i) \<Longrightarrow>
      lastTriple (orig ! j) < firstTriple (updateBlock l i (orig ! i))"
    using gt by (auto simp: updateBlock_def split: option.splits)
qed

lemma updateBlock_graphs:
  assumes "graphInfo (updateBlock l i b) = Some gs"
  shows "\<exists>gs0. graphInfo b = Some gs0 \<and> set gs0 \<subseteq> set gs"
  using assms by (auto simp: updateBlock_def split: option.splits dest!: updateGraphMetadata_graphs)

lemma getAugmented_update:
  assumes "augmentedMetadata l = Some m"
  shows "getAugmentedMetadata l = Inr m"
  using assms by (simp add: getAugmentedMetadata_def)

text \<open>What the augmented metadata of a list of original blocks consists of.\<close>

definition augments ::
    "('id::linorder) LocatedTriplesPerBlock \<Rightarrow> 'id CompressedBlockMetadata list \<Rightarrow> 'id CompressedBlockMetadata list \<Rightarrow> bool"
  where
  "augments l orig m \<longleftrightarrow> length m = length orig + of_bool (ltMap l (length orig) \<noteq> None) \<and>
     (\<forall>i<length orig. m ! i = updateBlock l i (orig ! i)) \<and>
     (\<forall>lts. ltMap l (length orig) = Some lts \<longrightarrow> firstTriple (m ! length orig) = ltTriple (hd lts) \<and>
       lastTriple (m ! length orig) = ltTriple (last lts) \<and>
       (\<exists>b. m ! length orig = updateGraphMetadata b lts))"

lemma ltOk_block: "ltOk l \<Longrightarrow> ltMap l i = Some lts \<Longrightarrow> blockOkLt i lts"
  by (auto simp: ltOk_def)

lemma augments_last:
  assumes "ltOk l" "locatedIn orig l" "augments l orig m" "length orig < length m"
  shows "firstTriple (m ! length orig) \<le> lastTriple (m ! length orig)"
    and "orig \<noteq> [] \<Longrightarrow> lastTriple (orig ! (length orig - 1)) < firstTriple (m ! length orig)"
proof -
  obtain lts where lts: "ltMap l (length orig) = Some lts"
    using assms(3,4) by (cases "ltMap l (length orig)") (auto simp: augments_def)
  then have m: "firstTriple (m ! length orig) = ltTriple (hd lts)" "lastTriple (m ! length orig) = ltTriple (last lts)"
    using assms(3) by (auto simp: augments_def)
  have hd: "hd lts \<in> set lts" using ltOk_block [OF assms(1) lts] by (auto simp: blockOkLt_def)
  show "firstTriple (m ! length orig) \<le> lastTriple (m ! length orig)"
    using blockOkLt_bounds(2) [OF ltOk_block [OF assms(1) lts] hd] by (simp add: m)
  show "orig \<noteq> [] \<Longrightarrow> lastTriple (orig ! (length orig - 1)) < firstTriple (m ! length orig)"
    using block_located(3) [OF assms(1,2) lts hd, of "length orig - 1"] by (simp add: m)
qed

lemma augments_sorted:
  assumes "ltOk l" "locatedIn orig l" "augments l orig m" "blocksSorted orig"
  shows "blocksSorted m"
  unfolding blocksSorted_def
proof (intro conjI allI impI)
  note ub = updateBlock_borders [OF assms(1,2)]
  have len: "length m \<le> length orig + 1" using assms(3) by (auto simp: augments_def)
  have m: "m ! i = updateBlock l i (orig ! i)" if "i < length orig" for i using that assms(3) by (simp add: augments_def)
  show "firstTriple (m ! i) \<le> lastTriple (m ! i)" if i: "i < length m" for i
  proof (cases "i < length orig")
    case True
    then show ?thesis using ub(1,2) [OF True] assms(4) m [OF True]
      by (metis blocksSorted_def order_trans)
  next
    case False
    then have "i = length orig" using i len by simp
    then show ?thesis using augments_last(1) [OF assms(1-3)] i by simp
  qed
  show "lastTriple (m ! i) < firstTriple (m ! Suc i)" if i: "Suc i < length m" for i
  proof (cases "Suc i < length orig")
    case True
    then show ?thesis using ub(1) [of i] ub(3) [OF True, of i] m [of i] m [OF True] assms(4)
      by (simp add: blocksSorted_def)
  next
    case False
    then have "Suc i = length orig" using i len by simp
    moreover then have "i = length orig - 1" "orig \<noteq> []" by auto
    ultimately show ?thesis using ub(1) [of i] m [of i] augments_last(2) [OF assms(1-3)] i by auto
  qed
qed

lemma augments_describes:
  assumes "ltOk l" "locatedIn orig l" "augments l orig m" "lt \<in> locatedSet l"
  shows "ltBlock lt < length m \<and> describes (m ! ltBlock lt) lt"
proof -
  obtain i lts where i: "ltMap l i = Some lts" "lt \<in> set lts" using assms(4) by (auto simp: locatedSet_def)
  note ok = ltOk_block [OF assms(1) i(1)]
  then have bi: "ltBlock lt = i" using i(2) by (auto simp: blockOkLt_def)
  show ?thesis
  proof (cases "i < length orig")
    case True
    then show ?thesis using updateBlock_describes [OF assms(1) i] assms(3) bi by (simp add: augments_def)
  next
    case False
    then have n: "i = length orig" using block_located(2) [OF assms(1,2) i] by simp
    then obtain b where b: "m ! i = updateGraphMetadata b lts" "firstTriple (m ! i) = ltTriple (hd lts)"
        "lastTriple (m ! i) = ltTriple (last lts)" "length m = i + 1"
      using assms(3) i(1) by (auto simp: augments_def)
    then have "firstTriple (m ! i) \<le> ltTriple lt" "ltTriple lt \<le> lastTriple (m ! i)"
      using blockOkLt_bounds [OF ok i(2)] by auto
    moreover have "ltTriple lt ! ADDITIONAL_COLUMN_GRAPH_ID \<in> set gs" if "ltInsert lt" "graphInfo (m ! i) = Some gs" for gs
      using updateGraphMetadata_graphs [of b lts gs] that b(1) i(2) by simp
    ultimately show ?thesis using bi b(4) by (simp add: describes_def split: option.splits)
  qed
qed

section \<open>Properties\<close>

text \<open>C14: For located triples that were located in the original blocks, the augmented metadata has the
  borders of the original blocks or wider ones, the blocks stay sorted and disjoint, and every located
  triple lies in the borders of its block (the additional last block included), which also knows the
  graphs of the inserted triples whenever it lists its graphs.\<close>

theorem augmented_metadata_correct:
  assumes "ltOk l" "originalMetadata l = Some orig" "locatedIn orig l" "blocksSorted orig"
  shows "\<exists>m. getAugmentedMetadata (updateAugmentedMetadata l) = Inr m \<and> blocksSorted m \<and>
    (\<forall>lt\<in>locatedSet l. ltBlock lt < length m \<and> describes (m ! ltBlock lt) lt) \<and>
    (\<forall>i<length orig. lastTriple (m ! i) = lastTriple (orig ! i) \<and> firstTriple (m ! i) \<le> firstTriple (orig ! i) \<and>
       numRows (m ! i) = numRows (orig ! i) \<and>
       (\<forall>gs. graphInfo (m ! i) = Some gs \<longrightarrow> (\<exists>gs0. graphInfo (orig ! i) = Some gs0 \<and> set gs0 \<subseteq> set gs)))"
proof -
  obtain m where m: "augmentedMetadata (updateAugmentedMetadata l) = Some m" "augments l orig m"
    using updateAugmentedMetadata_nth [OF assms(2)] by (auto simp: augments_def)
  have blk: "m ! i = updateBlock l i (orig ! i)" if "i < length orig" for i using that m(2) by (simp add: augments_def)
  show ?thesis
    using augments_sorted [OF assms(1,3) m(2) assms(4)] augments_describes [OF assms(1,3) m(2)]
      updateBlock_borders(1,2,4) [OF assms(1,3)] updateBlock_graphs getAugmented_update [OF m(1)]
    by (intro exI [of _ m]) (auto simp: blk)
qed


definition exampleBlock :: "nat CompressedBlockMetadata" where
  "exampleBlock = \<lparr>offsetsAndCompressedSize = [], numRows = 2, firstTriple = [1, 1, 1, 0], lastTriple = [1, 3, 1, 0],
     graphInfo = Some [0], containsDuplicatesWithDifferentGraphs = False, metaBlockIndex = 0\<rparr>"

definition exampleLocated :: "nat LocatedTriplesPerBlock" where
  "exampleLocated = \<lparr>numTriples = 3,
     ltMap = [0 \<mapsto> [\<lparr>ltBlock = 0, ltTriple = [0, 2, 2, 5], ltInsert = True\<rparr>,
                    \<lparr>ltBlock = 0, ltTriple = [1, 3, 1, 0], ltInsert = False\<rparr>],
              1 \<mapsto> [\<lparr>ltBlock = 1, ltTriple = [2, 0, 0, 0], ltInsert = True\<rparr>]],
     augmentedMetadata = None, originalMetadata = Some [exampleBlock]\<rparr>"

lemma example_ltOk: "ltOk exampleLocated"
  by (auto simp: ltOk_def exampleLocated_def blockOkLt_def)

lemma example_locatedSet:
  "locatedSet exampleLocated = {\<lparr>ltBlock = 0, ltTriple = [0, 2, 2, 5], ltInsert = True\<rparr>,
     \<lparr>ltBlock = 0, ltTriple = [1, 3, 1, 0], ltInsert = False\<rparr>, \<lparr>ltBlock = 1, ltTriple = [2, 0, 0, 0], ltInsert = True\<rparr>}"
  by (auto simp: locatedSet_def exampleLocated_def split: if_splits)

lemma example_locatedIn: "locatedIn [exampleBlock] exampleLocated"
  by (simp add: locatedIn_def example_locatedSet lowerBoundBlock_def exampleBlock_def)

lemma augmented_metadata_correct_witness:
  "\<exists>m. getAugmentedMetadata (updateAugmentedMetadata exampleLocated) = Inr m \<and> blocksSorted m \<and> 1 < length m"
proof -
  have "originalMetadata exampleLocated = Some [exampleBlock]" "blocksSorted [exampleBlock]"
    by (simp_all add: exampleLocated_def blocksSorted_def exampleBlock_def)
  then show ?thesis
    using augmented_metadata_correct [OF example_ltOk _ example_locatedIn] by (auto simp: example_locatedSet)
qed

text \<open>C15: Adding located triples succeeds exactly if their positions (block and triple) are pairwise
  different and not yet taken, otherwise it fails with a correctness violation. After a successful
  call the sets of the blocks are sorted, non-empty and counted correctly, they contain exactly the
  old and the new triples, and erasing any of the returned handles removes exactly this triple and
  keeps the invariant.\<close>

theorem add_erase_refine_sets:
  assumes "ltOk l"
  shows "case add lts l of
      Inl e \<Rightarrow> e = CorrectnessViolation \<and>
        \<not> (distinct (map ltKey lts) \<and> ltKey ` set lts \<inter> ltKey ` locatedSet l = {})
    | Inr (handles, l') \<Rightarrow> handles = lts \<and> ltOk l' \<and> locatedSet l' = locatedSet l \<union> set lts \<and>
        distinct (map ltKey lts) \<and> ltKey ` set lts \<inter> ltKey ` locatedSet l = {} \<and>
        (\<forall>lt\<in>set handles. \<exists>l''. eraseLocated (ltBlock lt) lt l' = Inr l'' \<and> ltOk l'' \<and>
           locatedSet l'' = locatedSet l' - {lt})"
proof (cases "addLoop lts l")
  case (Inl e)
  then show ?thesis using addLoop_spec [OF assms, of lts] by (auto simp: add_def)
next
  case (Inr l1)
  note spec = addLoop_spec [OF assms, of lts, THEN conjunct1, rule_format, OF Inr]
    addLoop_spec [OF assms, of lts, THEN conjunct2, THEN conjunct1]
  have "\<exists>l''. eraseLocated (ltBlock lt) lt (updateAugmentedMetadata l1) = Inr l'' \<and> ltOk l'' \<and>
      locatedSet l'' = locatedSet (updateAugmentedMetadata l1) - {lt}" if "lt \<in> set lts" for lt
    using eraseLocated_ok [of "updateAugmentedMetadata l1" lt] that spec(1) by auto
  then show ?thesis using Inr spec by (auto simp: add_def)
qed

lemma add_erase_refine_sets_witness:
  "\<exists>l'. add [\<lparr>ltBlock = 0, ltTriple = [1, 2, 2, 5], ltInsert = True\<rparr>] exampleLocated =
       Inr ([\<lparr>ltBlock = 0, ltTriple = [1, 2, 2, 5], ltInsert = True\<rparr>], l') \<and> ltOk l'"
  using add_erase_refine_sets [OF example_ltOk, of "[\<lparr>ltBlock = 0, ltTriple = [1, 2, 2, 5], ltInsert = True\<rparr>]"]
  by (auto simp: example_locatedSet ltKey_def split: sum.splits)




end
