(* ===== verification/BlankNodeManager.thy ===== *)
theory BlankNodeManager
  imports ValueId "HOL-Library.Stream"
begin

text \<open>
  Models \<open>src/util/BlankNodeManager.{h,cpp}\<close>: blank node indices that are created at runtime. The
  \<open>BlankNodeManager\<close> hands out blocks of 1000 indices, a \<open>LocalBlankNodeManager\<close> hands out the
  indices of its blocks. The vectors of blocks are shared between local managers
  (\<open>std::shared_ptr\<close>), so they live in an explicit store and a pointer is an address of the store;
  the deleter of the shared pointer gives the blocks back. The random generator is the stream of the
  block indices it will draw. The loop of \<open>allocateBlock\<close> need not end: \<open>None\<close> is the run that
  does not return.
\<close>

section \<open>Blocks and managers\<close>

definition blockSize :: nat where "blockSize = 1000"

record Block =
  blockIdx :: nat
  startIdx :: nat
  nextIdx :: nat

definition makeBlock :: "nat \<Rightarrow> nat \<Rightarrow> Block" where
  "makeBlock blockIndex startIndex =
     \<lparr>blockIdx = blockIndex, startIdx = startIndex, nextIdx = startIndex\<rparr>"

record BlankNodeManager =
  minIndex :: nat
  randBlockIndex :: "nat stream"
  usedBlocksSet :: "nat set"

definition totalAvailableBlocks :: "nat \<Rightarrow> nat" where
  "totalAvailableBlocks minIdx = (unat maxIndex - minIdx + 1) div blockSize"

definition makeBlankNodeManager :: "nat \<Rightarrow> nat stream \<Rightarrow> BlankNodeManager" where
  "makeBlankNodeManager minIdx rand =
     \<lparr>minIndex = minIdx, randBlockIndex = rand, usedBlocksSet = {}\<rparr>"

partial_function (option) drawUnused :: "nat set \<Rightarrow> nat stream \<Rightarrow> (nat \<times> nat stream) option" where
  "drawUnused used rand =
     (if shd rand \<notin> used then Some (shd rand, stl rand) else drawUnused used (stl rand))"

definition allocateBlock :: "BlankNodeManager \<Rightarrow> (Block \<times> BlankNodeManager) result option" where
  "allocateBlock m =
     (let numBlocks = card (usedBlocksSet m) in
      if \<not> numBlocks < totalAvailableBlocks (minIndex m) div 256 then Some (Inl CorrectnessViolation)
      else case drawUnused (usedBlocksSet m) (randBlockIndex m) of
          None \<Rightarrow> None
        | Some (idx, rand) \<Rightarrow>
            Some (Inr (makeBlock idx (minIndex m + idx * blockSize),
                       m\<lparr>usedBlocksSet := insert idx (usedBlocksSet m), randBlockIndex := rand\<rparr>)))"

record LocalBlankNodeManager =
  blocksPtr :: nat
  idxAfterCurrentBlock :: nat
  otherBlocks :: "nat list"

text \<open>The manager with the store of the vectors of blocks that are alive.\<close>

record bnWorld =
  blankNodeManager :: BlankNodeManager
  blocksStore :: "nat \<rightharpoonup> Block list"

text \<open>The constructor: \<open>new Blocks()\<close> at the unused address \<open>a\<close>.\<close>

definition makeLocalBlankNodeManager :: "nat \<Rightarrow> bnWorld \<Rightarrow> LocalBlankNodeManager \<times> bnWorld" where
  "makeLocalBlankNodeManager a w =
     (\<lparr>blocksPtr = a, idxAfterCurrentBlock = 0, otherBlocks = []\<rparr>,
      w\<lparr>blocksStore := (blocksStore w)(a \<mapsto> [])\<rparr>)"

definition incrementLast :: "Block list \<Rightarrow> Block list" where
  "incrementLast bs = butlast bs @ [(last bs)\<lparr>nextIdx := nextIdx (last bs) + 1\<rparr>]"

definition blocksAt :: "bnWorld \<Rightarrow> nat \<Rightarrow> Block list" where
  "blocksAt w a = (case blocksStore w a of None \<Rightarrow> [] | Some bs \<Rightarrow> bs)"

definition getId ::
    "LocalBlankNodeManager \<Rightarrow> bnWorld \<Rightarrow> (nat \<times> LocalBlankNodeManager \<times> bnWorld) result option" where
  "getId l w =
     (let bs = blocksAt w (blocksPtr l);
          next = (\<lambda>bs l w. Some (Inr (nextIdx (last bs), l,
                    w\<lparr>blocksStore := (blocksStore w)(blocksPtr l \<mapsto> incrementLast bs)\<rparr>)))
      in if bs = [] \<or> nextIdx (last bs) = idxAfterCurrentBlock l
         then case allocateBlock (blankNodeManager w) of
             None \<Rightarrow> None
           | Some (Inl e) \<Rightarrow> Some (Inl e)
           | Some (Inr (b, m)) \<Rightarrow>
               next (bs @ [b]) (l\<lparr>idxAfterCurrentBlock := nextIdx b + blockSize\<rparr>)
                 (w\<lparr>blankNodeManager := m\<rparr>)
         else next bs l w)"

definition containsIndex :: "nat \<Rightarrow> Block \<Rightarrow> bool" where
  "containsIndex index block \<longleftrightarrow> startIdx block \<le> index \<and> index < nextIdx block"

definition containsBlankNodeIndex :: "bnWorld \<Rightarrow> LocalBlankNodeManager \<Rightarrow> nat \<Rightarrow> bool" where
  "containsBlankNodeIndex w l index \<longleftrightarrow>
     list_ex (containsIndex index) (blocksAt w (blocksPtr l)) \<or>
     list_ex (\<lambda>a. list_ex (containsIndex index) (blocksAt w a)) (otherBlocks l)"

text \<open>\<open>mergeWith\<close>; null pointers are \<open>None\<close>.\<close>

fun mergeLocal :: "LocalBlankNodeManager option list \<Rightarrow> LocalBlankNodeManager \<Rightarrow> LocalBlankNodeManager" where
  "mergeLocal [] l = l"
| "mergeLocal (None # ls) l = mergeLocal ls l"
| "mergeLocal (Some l' # ls) l =
     mergeLocal ls (l\<lparr>otherBlocks := otherBlocks l @ otherBlocks l' @ [blocksPtr l']\<rparr>)"

text \<open>The deleter of the shared pointer to the vector at address \<open>a\<close>.\<close>

fun freeBlocks :: "Block list \<Rightarrow> nat set \<Rightarrow> nat set result" where
  "freeBlocks [] used = Inr used"
| "freeBlocks (b # bs) used =
     (if blockIdx b \<in> used then freeBlocks bs (used - {blockIdx b}) else Inl ContractViolation)"

definition deleteBlocks :: "nat \<Rightarrow> bnWorld \<Rightarrow> bnWorld result" where
  "deleteBlocks a w =
     res_bind (freeBlocks (blocksAt w a) (usedBlocksSet (blankNodeManager w))) (\<lambda>used.
       Inr (w\<lparr>blankNodeManager := (blankNodeManager w)\<lparr>usedBlocksSet := used\<rparr>,
              blocksStore := (blocksStore w)(a := None)\<rparr>))"

section \<open>The program that uses the managers\<close>

text \<open>
  A state of the program: the world and the live local managers. A step creates a manager, takes an
  index, merges other managers into one, or destroys one; the vectors that no live manager points to
  any more are deleted.
\<close>

record bnSystem =
  world :: bnWorld
  locals :: "nat \<rightharpoonup> LocalBlankNodeManager"

definition refs :: "LocalBlankNodeManager \<Rightarrow> nat list" where
  "refs l = blocksPtr l # otherBlocks l"

definition liveRefs :: "(nat \<rightharpoonup> LocalBlankNodeManager) \<Rightarrow> nat set" where
  "liveRefs ls = (\<Union>l\<in>ran ls. set (refs l))"

fun deleteAll :: "nat list \<Rightarrow> bnWorld \<Rightarrow> bnWorld result" where
  "deleteAll [] w = Inr w"
| "deleteAll (a # as) w = res_bind (deleteBlocks a w) (deleteAll as)"

datatype bnAction = Create nat | GetId nat nat | Merge nat "nat list" | Destroy nat

inductive bnStep :: "bnSystem \<Rightarrow> bnAction \<Rightarrow> bnSystem \<Rightarrow> bool" where
  create: "locals s k = None \<Longrightarrow> blocksStore (world s) a = None \<Longrightarrow>
    makeLocalBlankNodeManager a (world s) = (l, w) \<Longrightarrow>
    bnStep s (Create k) \<lparr>world = w, locals = (locals s)(k \<mapsto> l)\<rparr>"
| get: "locals s k = Some l \<Longrightarrow> getId l (world s) = Some (Inr (i, l', w)) \<Longrightarrow>
    bnStep s (GetId k i) \<lparr>world = w, locals = (locals s)(k \<mapsto> l')\<rparr>"
| merge: "locals s k = Some l \<Longrightarrow> k \<notin> set ks \<Longrightarrow>
    bnStep s (Merge k ks) (s\<lparr>locals := (locals s)(k \<mapsto> mergeLocal (map (locals s) ks) l)\<rparr>)"
| destroy: "locals s k = Some l \<Longrightarrow> ls = (locals s)(k := None) \<Longrightarrow> distinct as \<Longrightarrow>
    set as = set (refs l) - liveRefs ls \<Longrightarrow> deleteAll as (world s) = Inr w \<Longrightarrow>
    bnStep s (Destroy k) \<lparr>world = w, locals = ls\<rparr>"

definition initialSystem :: "nat \<Rightarrow> nat stream \<Rightarrow> bnSystem" where
  "initialSystem minIdx rand =
     \<lparr>world = \<lparr>blankNodeManager = makeBlankNodeManager minIdx rand, blocksStore = Map.empty\<rparr>,
      locals = Map.empty\<rparr>"

inductive bnReachable :: "nat \<Rightarrow> nat stream \<Rightarrow> bnSystem \<Rightarrow> bool" for minIdx rand where
  init: "bnReachable minIdx rand (initialSystem minIdx rand)"
| step: "bnReachable minIdx rand s \<Longrightarrow> bnStep s act s' \<Longrightarrow> bnReachable minIdx rand s'"

section \<open>Drawing an unused block\<close>

lemma drawUnused_sound:
  assumes "drawUnused used rand = Some r"
  shows "fst r \<notin> used \<and> fst r \<in> sset rand \<and> sset (snd r) \<subseteq> sset rand"
proof (rule drawUnused.raw_induct
    [where P = "\<lambda>used rand r. fst r \<notin> used \<and> fst r \<in> sset rand \<and> sset (snd r) \<subseteq> sset rand"])
  show "drawUnused used rand = Some r" by fact
  fix draw :: "nat set \<Rightarrow> nat stream \<Rightarrow> (nat \<times> nat stream) option" and used rand r
  assume IH: "\<And>used rand r. draw used rand = Some r \<Longrightarrow>
        fst r \<notin> used \<and> fst r \<in> sset rand \<and> sset (snd r) \<subseteq> sset rand"
    and run: "(if shd rand \<notin> used then Some (shd rand, stl rand) else draw used (stl rand)) = Some r"
  show "fst r \<notin> used \<and> fst r \<in> sset rand \<and> sset (snd r) \<subseteq> sset rand"
    using run IH [of used "stl rand" r] by (cases rand) (auto split: if_splits)
qed

lemma drawUnused_snth:
  assumes "rand !! n \<notin> used"
  shows "\<exists>r. drawUnused used rand = Some r"
  using assms
proof (induction n arbitrary: rand)
  case 0
  then show ?case by (subst drawUnused.simps) simp
next
  case (Suc n)
  then show ?case by (subst drawUnused.simps) simp
qed

lemma drawUnused_total:
  assumes "i \<in> sset rand" "i \<notin> used"
  shows "\<exists>r. drawUnused used rand = Some r"
  using assms drawUnused_snth by (metis sset_range imageE)

section \<open>The invariant\<close>

definition slots :: "(nat \<rightharpoonup> Block list) \<Rightarrow> (nat \<times> nat) set" where
  "slots st = {(a, i). \<exists>bs. st a = Some bs \<and> i < length bs}"

definition slotBlock :: "(nat \<rightharpoonup> Block list) \<Rightarrow> nat \<times> nat \<Rightarrow> Block" where
  "slotBlock st p = the (st (fst p)) ! snd p"

definition blockOk :: "nat \<Rightarrow> Block \<Rightarrow> bool" where
  "blockOk minIdx b \<longleftrightarrow> blockIdx b < totalAvailableBlocks minIdx \<and>
     startIdx b = minIdx + blockIdx b * blockSize \<and>
     startIdx b \<le> nextIdx b \<and> nextIdx b \<le> startIdx b + blockSize"

definition worldOk :: "bnWorld \<Rightarrow> bool" where
  "worldOk w \<longleftrightarrow> minIndex (blankNodeManager w) \<le> unat maxIndex \<and>
     (\<forall>i\<in>sset (randBlockIndex (blankNodeManager w)). i < totalAvailableBlocks (minIndex (blankNodeManager w))) \<and>
     (\<forall>p\<in>slots (blocksStore w). blockOk (minIndex (blankNodeManager w)) (slotBlock (blocksStore w) p)) \<and>
     inj_on (\<lambda>p. blockIdx (slotBlock (blocksStore w) p)) (slots (blocksStore w)) \<and>
     usedBlocksSet (blankNodeManager w) = (\<lambda>p. blockIdx (slotBlock (blocksStore w) p)) ` slots (blocksStore w)"

definition localOk :: "bnWorld \<Rightarrow> LocalBlankNodeManager \<Rightarrow> bool" where
  "localOk w l \<longleftrightarrow> set (refs l) \<subseteq> dom (blocksStore w) \<and>
     (let bs = blocksAt w (blocksPtr l) in
      bs \<noteq> [] \<longrightarrow> idxAfterCurrentBlock l = startIdx (last bs) + blockSize)"

definition distinctPtrs :: "(nat \<rightharpoonup> LocalBlankNodeManager) \<Rightarrow> bool" where
  "distinctPtrs ls \<longleftrightarrow>
     (\<forall>k k' l l'. ls k = Some l \<longrightarrow> ls k' = Some l' \<longrightarrow> blocksPtr l = blocksPtr l' \<longrightarrow> k = k')"

definition localsOk :: "bnWorld \<Rightarrow> (nat \<rightharpoonup> LocalBlankNodeManager) \<Rightarrow> bool" where
  "localsOk w ls \<longleftrightarrow> (\<forall>k l. ls k = Some l \<longrightarrow> localOk w l)"

definition systemOk :: "bnSystem \<Rightarrow> bool" where
  "systemOk s \<longleftrightarrow> worldOk (world s) \<and> localsOk (world s) (locals s) \<and> distinctPtrs (locals s)"

lemma slots_upd:
  "slots (st(a \<mapsto> bs)) = {p \<in> slots st. fst p \<noteq> a} \<union> (\<lambda>i. (a, i)) ` {..<length bs}"
  by (auto simp: slots_def split: if_splits)

lemma slots_del: "slots (st(a := None)) = {p \<in> slots st. fst p \<noteq> a}"
  by (auto simp: slots_def split: if_splits)

lemma slotBlock_upd [simp]:
  "fst p \<noteq> a \<Longrightarrow> slotBlock (st(a := v)) p = slotBlock st p"
  "slotBlock (st(a \<mapsto> bs)) (a, i) = bs ! i"
  by (auto simp: slotBlock_def)

text \<open>Blocks of different slots have disjoint indices.\<close>

lemma block_range_disjoint:
  assumes "blockOk m b" "blockOk m b'" "containsIndex i b" "startIdx b' \<le> i" "i < startIdx b' + blockSize"
  shows "blockIdx b = blockIdx b'"
proof -
  have *: "(i - m) div blockSize = blockIdx c"
    if "startIdx c = m + blockIdx c * blockSize" "startIdx c \<le> i" "i < startIdx c + blockSize" for c :: Block
  proof -
    have "i - m = blockIdx c * blockSize + (i - startIdx c)" "i - startIdx c < blockSize" using that by auto
    then show ?thesis by (simp add: blockSize_def)
  qed
  show ?thesis using * [of b] * [of b'] assms by (auto simp: blockOk_def containsIndex_def)
qed

lemma index_bound:
  assumes "m \<le> unat maxIndex" "k < totalAvailableBlocks m" "i < m + k * blockSize + blockSize"
  shows "i \<le> unat maxIndex"
proof -
  have "(k + 1) * blockSize \<le> totalAvailableBlocks m * blockSize" using assms(2) by (intro mult_le_mono1) simp
  also have "\<dots> \<le> unat maxIndex - m + 1" by (simp add: totalAvailableBlocks_def)
  finally show ?thesis using assms by (auto simp: algebra_simps)
qed

section \<open>Taking an index\<close>

definition holds :: "bnWorld \<Rightarrow> nat \<Rightarrow> nat \<Rightarrow> bool" where
  "holds w a index \<longleftrightarrow> list_ex (containsIndex index) (blocksAt w a)"

lemma containsBlankNodeIndex_holds:
  "containsBlankNodeIndex w l index \<longleftrightarrow> (\<exists>a\<in>set (refs l). holds w a index)"
  by (auto simp: containsBlankNodeIndex_def refs_def holds_def list_ex_iff)

lemma incrementLast_nth:
  assumes "bs \<noteq> []"
  shows "length (incrementLast bs) = length bs"
    and "i < length bs \<Longrightarrow> incrementLast bs ! i =
      (if i = length bs - 1 then (bs ! i)\<lparr>nextIdx := nextIdx (bs ! i) + 1\<rparr> else bs ! i)"
  using assms by (auto simp: incrementLast_def nth_append nth_butlast last_conv_nth)

lemma world_push:
  assumes ok: "worldOk w" and bs: "blocksStore w a = Some bs"
    and alloc: "allocateBlock (blankNodeManager w) = Some (Inr (b, m))"
  shows "worldOk (w\<lparr>blankNodeManager := m, blocksStore := (blocksStore w)(a \<mapsto> bs @ [b])\<rparr>)"
    and "nextIdx b = startIdx b"
    and "minIndex m = minIndex (blankNodeManager w)"
proof -
  let ?st = "blocksStore w" and ?m = "blankNodeManager w"
  let ?st' = "?st(a \<mapsto> bs @ [b])"
  obtain rand where d: "drawUnused (usedBlocksSet ?m) (randBlockIndex ?m) = Some (blockIdx b, rand)"
    and b: "b = makeBlock (blockIdx b) (minIndex ?m + blockIdx b * blockSize)"
    and m: "m = ?m\<lparr>usedBlocksSet := insert (blockIdx b) (usedBlocksSet ?m), randBlockIndex := rand\<rparr>"
    using alloc by (auto simp: allocateBlock_def makeBlock_def Let_def split: if_splits option.splits)
  note snd = drawUnused_sound [OF d, simplified]
  have slots: "slots ?st' = insert (a, length bs) (slots ?st)"
    using bs by (auto simp: slots_def nth_append split: if_splits)
  have blk: "slotBlock ?st' (a, length bs) = b" by (simp add: slotBlock_def)
  have same: "slotBlock ?st' p = slotBlock ?st p" if "p \<in> slots ?st" for p
    using that bs by (cases p) (auto simp: slots_def slotBlock_def nth_append)
  have new: "(a, length bs) \<notin> slots ?st" using bs by (auto simp: slots_def)
  have okb: "blockOk (minIndex ?m) b"
    by (subst b) (use snd ok in \<open>auto simp: blockOk_def makeBlock_def worldOk_def blockSize_def\<close>)
  have fresh: "blockIdx b \<notin> (\<lambda>p. blockIdx (slotBlock ?st p)) ` slots ?st"
    using snd ok by (auto simp: worldOk_def)
  show "worldOk (w\<lparr>blankNodeManager := m, blocksStore := ?st'\<rparr>)"
    unfolding worldOk_def
  proof (intro conjI)
    show "inj_on (\<lambda>p. blockIdx (slotBlock (blocksStore (w\<lparr>blankNodeManager := m, blocksStore := ?st'\<rparr>)) p))
        (slots (blocksStore (w\<lparr>blankNodeManager := m, blocksStore := ?st'\<rparr>)))"
      using ok fresh same new by (auto simp: slots blk inj_on_def worldOk_def image_iff)
    show "usedBlocksSet (blankNodeManager (w\<lparr>blankNodeManager := m, blocksStore := ?st'\<rparr>)) =
        (\<lambda>p. blockIdx (slotBlock (blocksStore (w\<lparr>blankNodeManager := m, blocksStore := ?st'\<rparr>)) p)) `
        slots (blocksStore (w\<lparr>blankNodeManager := m, blocksStore := ?st'\<rparr>))"
      using ok same by (auto simp: slots blk m worldOk_def image_iff)
  qed (use ok snd okb same in \<open>auto simp: m slots blk worldOk_def\<close>)
  show "nextIdx b = startIdx b" by (subst (1 2) b) (simp add: makeBlock_def)
  show "minIndex m = minIndex ?m" by (simp add: m)
qed

lemma world_increment:
  assumes ok: "worldOk w" and bs: "blocksStore w a = Some bs" "bs \<noteq> []"
    and room: "nextIdx (last bs) < startIdx (last bs) + blockSize"
  shows "worldOk (w\<lparr>blocksStore := (blocksStore w)(a \<mapsto> incrementLast bs)\<rparr>)"
proof -
  let ?st = "blocksStore w" and ?st' = "(blocksStore w)(a \<mapsto> incrementLast bs)"
  have slots: "slots ?st' = slots ?st"
    using bs by (auto simp: slots_def incrementLast_nth split: if_splits)
  have idx: "blockIdx (slotBlock ?st' p) = blockIdx (slotBlock ?st p)" if "p \<in> slots ?st" for p
    using that bs by (cases p) (auto simp: slots_def slotBlock_def incrementLast_nth)
  have blk: "blockOk n (slotBlock ?st' p)" if "p \<in> slots ?st" "blockOk n (slotBlock ?st p)" for n p
    using that bs room by (cases p) (auto simp: slots_def slotBlock_def incrementLast_nth blockOk_def last_conv_nth)
  show ?thesis using ok blk by (auto simp: worldOk_def slots idx inj_on_def image_iff)
qed

lemma world_fresh:
  assumes ok: "worldOk w" and bs: "blocksStore w a = Some bs" "bs \<noteq> []"
    and room: "nextIdx (last bs) < startIdx (last bs) + blockSize"
  shows "\<not> holds w a' (nextIdx (last bs))"
    and "minIndex (blankNodeManager w) \<le> nextIdx (last bs)"
    and "nextIdx (last bs) \<le> unat maxIndex"
proof -
  let ?st = "blocksStore w" and ?i = "nextIdx (last bs)" and ?p = "(a, length bs - 1)"
  have p: "?p \<in> slots ?st" "slotBlock ?st ?p = last bs"
    using bs by (auto simp: slots_def slotBlock_def last_conv_nth)
  then have lok: "blockOk (minIndex (blankNodeManager w)) (last bs)" using ok by (metis worldOk_def)
  show "\<not> holds w a' ?i"
  proof
    assume "holds w a' ?i"
    then obtain bs' j where j: "?st a' = Some bs'" "j < length bs'" "containsIndex ?i (bs' ! j)"
      by (auto simp: holds_def blocksAt_def list_ex_length split: option.splits)
    then have q: "(a', j) \<in> slots ?st" "slotBlock ?st (a', j) = bs' ! j"
      by (auto simp: slots_def slotBlock_def)
    have "blockIdx (bs' ! j) = blockIdx (last bs)"
      using block_range_disjoint [of _ "bs' ! j" "last bs" ?i] ok q j lok room
      by (metis blockOk_def worldOk_def)
    then have "(a', j) = ?p"
      using ok p q inj_onD [of "\<lambda>p. blockIdx (slotBlock ?st p)" "slots ?st" "(a', j)" ?p]
      by (simp add: worldOk_def)
    then show False using j bs by (auto simp: containsIndex_def last_conv_nth)
  qed
  show "minIndex (blankNodeManager w) \<le> ?i" "?i \<le> unat maxIndex"
    using lok ok room index_bound [of "minIndex (blankNodeManager w)" "blockIdx (last bs)" ?i]
    by (auto simp: blockOk_def worldOk_def)
qed

lemma holds_incrementLast:
  assumes "blocksAt w a = bs" "bs \<noteq> []" "startIdx (last bs) \<le> nextIdx (last bs)"
    "blocksStore w' = (blocksStore w)(a \<mapsto> incrementLast bs)"
  shows "holds w' a' index \<longleftrightarrow> holds w a' index \<or> (a' = a \<and> index = nextIdx (last bs))"
proof -
  have "list_ex (containsIndex index) bs \<longleftrightarrow>
      list_ex (containsIndex index) (butlast bs) \<or> containsIndex index (last bs)"
    using assms(2) by (induction bs rule: rev_induct) auto
  then show ?thesis using assms by (auto simp: holds_def blocksAt_def incrementLast_def containsIndex_def)
qed

lemma getId_spec:
  assumes ok: "worldOk w" "localOk w l" and run: "getId l w = Some (Inr (i, l', w'))"
  shows "worldOk w'" "localOk w' l'" "refs l' = refs l"
    and "blankNodeManager w' = blankNodeManager w \<or>
      (\<exists>b. allocateBlock (blankNodeManager w) = Some (Inr (b, blankNodeManager w')))"
    and "minIndex (blankNodeManager w) \<le> i" "i \<le> unat maxIndex"
    and "\<And>a. \<not> holds w a i"
    and "\<And>a index. holds w' a index \<longleftrightarrow> holds w a index \<or> (a = blocksPtr l \<and> index = i)"
    and "\<And>a. a \<noteq> blocksPtr l \<Longrightarrow> blocksStore w' a = blocksStore w a"
    and "dom (blocksStore w') = dom (blocksStore w)"
proof -
  let ?a = "blocksPtr l"
  obtain bs where bs: "blocksStore w ?a = Some bs" "blocksAt w ?a = bs"
    using ok(2) by (auto simp: localOk_def refs_def blocksAt_def)
  \<comment> \<open>The state after a possible allocation: there is a last block and it has room.\<close>
  obtain w1 bs1 where w1: "worldOk w1" "blocksStore w1 = (blocksStore w)(?a \<mapsto> bs1)" "bs1 \<noteq> []"
    "startIdx (last bs1) \<le> nextIdx (last bs1)" "nextIdx (last bs1) < startIdx (last bs1) + blockSize"
    and l': "idxAfterCurrentBlock l' = startIdx (last bs1) + blockSize" "refs l' = refs l" "blocksPtr l' = ?a"
    and w': "w' = w1\<lparr>blocksStore := (blocksStore w1)(?a \<mapsto> incrementLast bs1)\<rparr>" "i = nextIdx (last bs1)"
    and held: "\<And>a index. holds w1 a index \<longleftrightarrow> holds w a index"
    and mgr: "blankNodeManager w1 = blankNodeManager w \<or>
      (\<exists>b. allocateBlock (blankNodeManager w) = Some (Inr (b, blankNodeManager w1)))"
    and min: "minIndex (blankNodeManager w1) = minIndex (blankNodeManager w)"
  proof (cases "bs = [] \<or> nextIdx (last bs) = idxAfterCurrentBlock l")
    case True
    then obtain b m where b: "allocateBlock (blankNodeManager w) = Some (Inr (b, m))"
      and r: "i = nextIdx b" "l' = l\<lparr>idxAfterCurrentBlock := nextIdx b + blockSize\<rparr>"
        "w' = w\<lparr>blankNodeManager := m, blocksStore := (blocksStore w)(?a \<mapsto> incrementLast (bs @ [b]))\<rparr>"
      using run bs by (auto simp: getId_def Let_def split: option.splits sum.splits)
    note push = world_push [OF ok(1) bs(1) b]
    show ?thesis
      by (rule that [of "w\<lparr>blankNodeManager := m, blocksStore := (blocksStore w)(?a \<mapsto> bs @ [b])\<rparr>" "bs @ [b]"])
        (use push r b bs in \<open>auto simp: refs_def blockSize_def holds_def blocksAt_def containsIndex_def\<close>)
  next
    case False
    then have r: "i = nextIdx (last bs)" "l' = l" "w' = w\<lparr>blocksStore := (blocksStore w)(?a \<mapsto> incrementLast bs)\<rparr>"
      using run bs by (auto simp: getId_def Let_def)
    have "(?a, length bs - 1) \<in> slots (blocksStore w)" "slotBlock (blocksStore w) (?a, length bs - 1) = last bs"
      using bs False by (auto simp: slots_def slotBlock_def last_conv_nth)
    then have "blockOk (minIndex (blankNodeManager w)) (last bs)" using ok(1) by (metis worldOk_def)
    then show ?thesis
      by (intro that [of w bs]) (use False r ok bs in \<open>auto simp: localOk_def blockOk_def Let_def\<close>)
  qed
  have at: "blocksStore w1 ?a = Some bs1" "blocksAt w1 ?a = bs1" by (simp_all add: w1(2) blocksAt_def)
  note fresh = world_fresh [OF w1(1) at(1) w1(3,5)]
  show "worldOk w'" using world_increment [OF w1(1) at(1) w1(3,5)] by (simp add: w'(1))
  show "localOk w' l'"
    using ok(2) l' w1(2,3) by (auto simp: localOk_def w' blocksAt_def incrementLast_def)
  show "refs l' = refs l" by fact
  show "blankNodeManager w' = blankNodeManager w \<or>
      (\<exists>b. allocateBlock (blankNodeManager w) = Some (Inr (b, blankNodeManager w')))"
    using mgr by (simp add: w'(1))
  show "minIndex (blankNodeManager w) \<le> i" "i \<le> unat maxIndex" "\<not> holds w a i" for a
    using fresh held min by (auto simp: w'(2))
  show "holds w' a index \<longleftrightarrow> holds w a index \<or> (a = ?a \<and> index = i)" for a index
    using holds_incrementLast [OF at(2) w1(3,4), of w'] held by (auto simp: w')
  show "a \<noteq> ?a \<Longrightarrow> blocksStore w' a = blocksStore w a" for a by (simp add: w' w1(2))
  show "dom (blocksStore w') = dom (blocksStore w)" using bs by (auto simp: w' w1(2))
qed

section \<open>Giving blocks back\<close>

lemma freeBlocks_Inr:
  assumes "distinct (map blockIdx bs)" "blockIdx ` set bs \<subseteq> used"
  shows "freeBlocks bs used = Inr (used - blockIdx ` set bs)"
  using assms
proof (induction bs arbitrary: used)
  case (Cons b bs)
  have "blockIdx ` set bs \<subseteq> used - {blockIdx b}" using Cons.prems by (simp add: subset_Diff_insert)
  moreover have "used - {blockIdx b} - blockIdx ` set bs = used - blockIdx ` set (b # bs)" by auto
  ultimately show ?case using Cons.prems Cons.IH [of "used - {blockIdx b}"] by simp
qed simp

lemma deleteBlocks_ok:
  assumes ok: "worldOk w" and bs: "blocksStore w a = Some bs"
  obtains w' where "deleteBlocks a w = Inr w'" "worldOk w'" "blocksStore w' = (blocksStore w)(a := None)"
    "minIndex (blankNodeManager w') = minIndex (blankNodeManager w)"
    "randBlockIndex (blankNodeManager w') = randBlockIndex (blankNodeManager w)"
proof -
  let ?st = "blocksStore w" and ?f = "\<lambda>st p. blockIdx (slotBlock st p)"
  let ?used = "usedBlocksSet (blankNodeManager w)"
  have inj: "inj_on (?f ?st) (slots ?st)" and used: "?used = ?f ?st ` slots ?st" using ok by (auto simp: worldOk_def)
  have in_bs: "(a, i) \<in> slots ?st \<longleftrightarrow> i < length bs" "slotBlock ?st (a, i) = bs ! i" for i
    using bs by (auto simp: slots_def slotBlock_def)
  have dist: "distinct (map blockIdx bs)"
    using inj_onD [OF inj, of "(a, i)" "(a, j)" for i j] by (auto simp: distinct_conv_nth in_bs)
  have img: "blockIdx ` set bs = ?f ?st ` {p \<in> slots ?st. fst p = a}"
    by (force simp: in_bs in_set_conv_nth image_iff)
  have slots': "slots (?st(a := None)) = slots ?st - {p \<in> slots ?st. fst p = a}"
    by (auto simp: slots_del)
  have used': "?used - blockIdx ` set bs = ?f (?st(a := None)) ` slots (?st(a := None))"
    unfolding used img slots' using inj_on_image_set_diff [OF inj, of "slots ?st" "{p \<in> slots ?st. fst p = a}"]
    by (simp add: inj_on_image_set_diff [OF inj] cong: image_cong_simp)
  have sub: "blockIdx ` set bs \<subseteq> ?used" unfolding img used by blast
  show ?thesis
  proof (rule that)
    show "deleteBlocks a w = Inr (w\<lparr>blankNodeManager := (blankNodeManager w)
        \<lparr>usedBlocksSet := ?used - blockIdx ` set bs\<rparr>, blocksStore := ?st(a := None)\<rparr>)"
      using freeBlocks_Inr [OF dist, of ?used] bs sub by (simp add: deleteBlocks_def blocksAt_def)
    show "worldOk (w\<lparr>blankNodeManager := (blankNodeManager w)
        \<lparr>usedBlocksSet := ?used - blockIdx ` set bs\<rparr>, blocksStore := ?st(a := None)\<rparr>)"
      using ok used' by (auto simp: worldOk_def slots_del inj_on_def)
  qed simp_all
qed

lemma deleteAll_ok:
  assumes "worldOk w" "distinct as" "set as \<subseteq> dom (blocksStore w)"
  obtains w' where "deleteAll as w = Inr w'" "worldOk w'" "blocksStore w' = blocksStore w |` (- set as)"
    "minIndex (blankNodeManager w') = minIndex (blankNodeManager w)"
    "randBlockIndex (blankNodeManager w') = randBlockIndex (blankNodeManager w)"
  using assms
proof (induction as arbitrary: w thesis)
  case Nil
  then show ?case by (auto simp: restrict_map_def)
next
  case (Cons a as)
  obtain bs where "blocksStore w a = Some bs" using Cons.prems by auto
  then obtain w1 where w1: "deleteBlocks a w = Inr w1" "worldOk w1" "blocksStore w1 = (blocksStore w)(a := None)"
    "minIndex (blankNodeManager w1) = minIndex (blankNodeManager w)"
    "randBlockIndex (blankNodeManager w1) = randBlockIndex (blankNodeManager w)"
    using deleteBlocks_ok Cons.prems by metis
  have sub: "set as \<subseteq> dom (blocksStore w1)" using Cons.prems w1(3) by auto
  obtain w' where w': "deleteAll as w1 = Inr w'" "worldOk w'" "blocksStore w' = blocksStore w1 |` (- set as)"
    "minIndex (blankNodeManager w') = minIndex (blankNodeManager w1)"
    "randBlockIndex (blankNodeManager w') = randBlockIndex (blankNodeManager w1)"
    using Cons.IH [OF _ w1(2) _ sub] Cons.prems by auto
  show ?case using w1 w' Cons.prems by (intro Cons.prems(1) [of w']) (auto simp: restrict_map_def)
qed

section \<open>Reachable states\<close>

lemma refs_mergeLocal:
  "set (refs (mergeLocal ls l)) = set (refs l) \<union> (\<Union>l'\<in>{l'. Some l' \<in> set ls}. set (refs l'))"
  "blocksPtr (mergeLocal ls l) = blocksPtr l"
  "idxAfterCurrentBlock (mergeLocal ls l) = idxAfterCurrentBlock l"
  by (induction ls l rule: mergeLocal.induct) (auto simp: refs_def)

lemma liveRefs_iff: "a \<in> liveRefs ls \<longleftrightarrow> (\<exists>k l. ls k = Some l \<and> a \<in> set (refs l))"
  by (auto simp: liveRefs_def ran_def)

text \<open>No vector of blocks is leaked: the store holds exactly the vectors that live managers use.\<close>

definition noLeak :: "bnSystem \<Rightarrow> bool" where
  "noLeak s \<longleftrightarrow> dom (blocksStore (world s)) = liveRefs (locals s)"

lemma systemOk_init:
  assumes "minIdx \<le> unat maxIndex" "\<forall>i\<in>sset rand. i < totalAvailableBlocks minIdx"
  shows "systemOk (initialSystem minIdx rand) \<and> noLeak (initialSystem minIdx rand)"
  using assms by (auto simp: systemOk_def worldOk_def initialSystem_def makeBlankNodeManager_def slots_def
      noLeak_def liveRefs_def localsOk_def distinctPtrs_def)

lemma worldOk_cong:
  assumes "worldOk w" "blankNodeManager w' = blankNodeManager w" "slots (blocksStore w') = slots (blocksStore w)"
    and "\<And>p. p \<in> slots (blocksStore w) \<Longrightarrow> slotBlock (blocksStore w') p = slotBlock (blocksStore w) p"
  shows "worldOk w'"
  using assms by (simp add: worldOk_def inj_on_def cong: image_cong)

lemma localOk_cong:
  assumes "localOk w l" "dom (blocksStore w) \<subseteq> dom (blocksStore w')"
    and "blocksStore w' (blocksPtr l) = blocksStore w (blocksPtr l)"
  shows "localOk w' l"
  using assms subset_trans [of "set (refs l)" "dom (blocksStore w)"] by (simp add: localOk_def blocksAt_def)

lemma distinctPtrs_upd:
  assumes "distinctPtrs ls" "\<forall>k' l'. ls k' = Some l' \<longrightarrow> blocksPtr l' = blocksPtr m \<longrightarrow> k' = k"
  shows "distinctPtrs (ls(k \<mapsto> m))"
  using assms unfolding distinctPtrs_def by (metis fun_upd_apply option.inject)

lemma distinctPtrs_del: "distinctPtrs ls \<Longrightarrow> distinctPtrs (ls(k := None))"
  unfolding distinctPtrs_def by (metis fun_upd_apply option.distinct(1))

lemma localsOk_upd:
  assumes "localOk w l" "\<forall>k' l'. k' \<noteq> k \<longrightarrow> ls k' = Some l' \<longrightarrow> localOk w l'"
  shows "localsOk w (ls(k \<mapsto> l))"
  using assms by (simp add: localsOk_def)

lemma systemOkD:
  assumes "systemOk s"
  shows "worldOk (world s)" "locals s k = Some l \<Longrightarrow> localOk (world s) l"
    "locals s k = Some l \<Longrightarrow> locals s k' = Some l' \<Longrightarrow> blocksPtr l = blocksPtr l' \<Longrightarrow> k = k'"
    "distinctPtrs (locals s)"
  using assms unfolding systemOk_def localsOk_def distinctPtrs_def by blast+

lemma liveRefs_new:
  assumes "ls k = None"
  shows "liveRefs (ls(k \<mapsto> l)) = set (refs l) \<union> liveRefs ls"
  using assms by (auto simp: liveRefs_def)

lemma liveRefs_same:
  assumes "ls k = Some l" "refs l' = refs l"
  shows "liveRefs (ls(k \<mapsto> l')) = liveRefs ls"
  using assms by (auto simp: liveRefs_iff) (metis option.inject)+

lemma step_create:
  assumes "systemOk s" "noLeak s" "locals s k = None" "blocksStore (world s) a = None"
    "makeLocalBlankNodeManager a (world s) = (l, w)"
  shows "systemOk \<lparr>world = w, locals = (locals s)(k \<mapsto> l)\<rparr> \<and> noLeak \<lparr>world = w, locals = (locals s)(k \<mapsto> l)\<rparr>"
proof -
  have w: "blankNodeManager w = blankNodeManager (world s)" "blocksStore w = (blocksStore (world s))(a \<mapsto> [])"
    and l: "blocksPtr l = a" "refs l = [a]"
    using assms(5) by (auto simp: makeLocalBlankNodeManager_def refs_def)
  have slots: "slots (blocksStore w) = slots (blocksStore (world s))"
    using assms(4) by (auto simp: w slots_def split: if_splits)
  have ne: "fst p \<noteq> a" if "p \<in> slots (blocksStore (world s))" for p
    using that assms(4) by (auto simp: slots_def)
  have new: "a \<notin> set (refs l')" if "locals s k' = Some l'" for k' l'
    using systemOkD(2) [OF assms(1) that] assms(4) by (auto simp: localOk_def)
  have "worldOk w"
    using systemOkD(1) [OF assms(1)] ne by (intro worldOk_cong [OF _ w(1) slots]) (auto simp: w(2))
  moreover have "localsOk w ((locals s)(k \<mapsto> l))"
  proof (intro localsOk_upd allI impI)
    show "localOk w l" using l by (auto simp: localOk_def w blocksAt_def)
    show "localOk w l'" if "locals s k' = Some l'" for k' l'
      using systemOkD(2) [OF assms(1) that] new [OF that]
      by - (rule localOk_cong [of "world s"], auto simp: w refs_def)
  qed
  moreover have "distinctPtrs ((locals s)(k \<mapsto> l))"
    using new l by (intro distinctPtrs_upd systemOkD(4) [OF assms(1)]) (metis list.set_intros(1) refs_def)
  moreover have "noLeak \<lparr>world = w, locals = (locals s)(k \<mapsto> l)\<rparr>"
    using assms(2,3) by (simp add: noLeak_def w liveRefs_new l)
  ultimately show ?thesis by (simp add: systemOk_def)
qed

lemma step_get:
  assumes "systemOk s" "noLeak s" "locals s k = Some l" "getId l (world s) = Some (Inr (i, l', w))"
  shows "systemOk \<lparr>world = w, locals = (locals s)(k \<mapsto> l')\<rparr> \<and> noLeak \<lparr>world = w, locals = (locals s)(k \<mapsto> l')\<rparr>"
proof -
  note g = getId_spec [OF systemOkD(1) [OF assms(1)] systemOkD(2) [OF assms(1,3)] assms(4)]
  have ptr: "blocksPtr l' = blocksPtr l" using g(3) by (simp add: refs_def)
  have "localsOk w ((locals s)(k \<mapsto> l'))"
  proof (intro localsOk_upd g(2) allI impI)
    show "localOk w m" if "k' \<noteq> k" "locals s k' = Some m" for k' m
    proof -
      have "blocksPtr m \<noteq> blocksPtr l" using systemOkD(3) [OF assms(1) that(2) assms(3)] that by blast
      then show ?thesis using systemOkD(2) [OF assms(1) that(2)] g(9,10)
        by - (rule localOk_cong [of "world s"], auto)
    qed
  qed
  moreover have "distinctPtrs ((locals s)(k \<mapsto> l'))"
    using systemOkD(3) [OF assms(1) _ assms(3)] ptr by (intro distinctPtrs_upd systemOkD(4) [OF assms(1)]) simp
  moreover have "noLeak \<lparr>world = w, locals = (locals s)(k \<mapsto> l')\<rparr>"
    using assms(2,3) g(3,10) by (simp add: noLeak_def liveRefs_same)
  ultimately show ?thesis using g(1) by (simp add: systemOk_def)
qed

lemma step_merge:
  fixes ks :: "nat list"
  assumes "systemOk s" "noLeak s" "locals s k = Some l"
  defines "l' \<equiv> mergeLocal (map (locals s) ks) l"
  shows "systemOk (s\<lparr>locals := (locals s)(k \<mapsto> l')\<rparr>) \<and> noLeak (s\<lparr>locals := (locals s)(k \<mapsto> l')\<rparr>)"
proof -
  have refs: "set (refs l') = set (refs l) \<union> (\<Union>m\<in>{m. Some m \<in> locals s ` set ks}. set (refs m))"
    and same: "blocksPtr l' = blocksPtr l" "idxAfterCurrentBlock l' = idxAfterCurrentBlock l"
    by (simp_all add: l'_def refs_mergeLocal)
  have live: "liveRefs ((locals s)(k \<mapsto> l')) = liveRefs (locals s)"
  proof (intro set_eqI iffI)
    fix a assume "a \<in> liveRefs ((locals s)(k \<mapsto> l'))"
    then consider "a \<in> set (refs l')" | m k' where "locals s k' = Some m" "a \<in> set (refs m)"
      by (auto simp: liveRefs_iff split: if_splits)
    then show "a \<in> liveRefs (locals s)"
      using assms(3) unfolding refs liveRefs_iff by cases (auto dest: sym)
  next
    fix a assume "a \<in> liveRefs (locals s)"
    then obtain k' m where m: "locals s k' = Some m" "a \<in> set (refs m)" by (auto simp: liveRefs_iff)
    then have "k' = k \<Longrightarrow> a \<in> set (refs l')" using assms(3) unfolding refs by simp
    then show "a \<in> liveRefs ((locals s)(k \<mapsto> l'))" using m by (auto simp: liveRefs_iff)
  qed
  have "set (refs l') \<subseteq> liveRefs ((locals s)(k \<mapsto> l'))" by (auto simp: liveRefs_iff)
  then have "localOk (world s) l'"
    using assms(2) systemOkD(2) [OF assms(1,3)] live same by (simp add: localOk_def noLeak_def)
  then have "localsOk (world s) ((locals s)(k \<mapsto> l'))"
    using systemOkD(2) [OF assms(1)] by (intro localsOk_upd) auto
  moreover have "distinctPtrs ((locals s)(k \<mapsto> l'))"
    using systemOkD(3) [OF assms(1) _ assms(3)] same by (intro distinctPtrs_upd systemOkD(4) [OF assms(1)]) simp
  ultimately show ?thesis using assms(2) live systemOkD(1) [OF assms(1)] by (simp add: systemOk_def noLeak_def)
qed

lemma step_destroy:
  assumes "systemOk s" "noLeak s" "locals s k = Some l" "ls = (locals s)(k := None)" "distinct as"
    "set as = set (refs l) - liveRefs ls"
  obtains w where "deleteAll as (world s) = Inr w"
    "systemOk \<lparr>world = w, locals = ls\<rparr>" "noLeak \<lparr>world = w, locals = ls\<rparr>"
    "minIndex (blankNodeManager w) = minIndex (blankNodeManager (world s))"
    "randBlockIndex (blankNodeManager w) = randBlockIndex (blankNodeManager (world s))"
proof -
  note ok = systemOkD(1) [OF assms(1)] systemOkD(2) [OF assms(1,3)]
  then have "set as \<subseteq> dom (blocksStore (world s))" using assms(6) by (auto simp: localOk_def)
  then obtain w where w: "deleteAll as (world s) = Inr w" "worldOk w"
      "blocksStore w = blocksStore (world s) |` (- set as)"
      "minIndex (blankNodeManager w) = minIndex (blankNodeManager (world s))"
      "randBlockIndex (blankNodeManager w) = randBlockIndex (blankNodeManager (world s))"
    using deleteAll_ok [OF ok(1) assms(5)] by metis
  have dom: "dom (blocksStore w) = liveRefs ls"
  proof -
    have "liveRefs (locals s) = set (refs l) \<union> liveRefs ls"
      using liveRefs_new [of ls k l] assms(3,4) by (simp add: fun_upd_idem)
    then show ?thesis using assms(2,6) by (auto simp: w(3) noLeak_def)
  qed
  have "localsOk w ls"
    unfolding localsOk_def
  proof (intro allI impI)
    fix k' m assume m: "ls k' = Some m"
    then have sub: "set (refs m) \<subseteq> liveRefs ls" unfolding liveRefs_def by (blast intro: ranI)
    then have "blocksPtr m \<notin> set as" using assms(6) by (auto simp: refs_def)
    moreover have "localOk (world s) m" using m assms(4) systemOkD(2) [OF assms(1)] by (auto split: if_splits)
    ultimately show "localOk w m" using sub unfolding localOk_def dom by (simp add: w(3) blocksAt_def)
  qed
  then have "systemOk \<lparr>world = w, locals = ls\<rparr>"
    using w(2) distinctPtrs_del [OF systemOkD(4) [OF assms(1)]] assms(4) by (simp add: systemOk_def)
  then show ?thesis using w dom by (intro that [of w]) (simp_all add: noLeak_def)
qed

lemma reachable_ok:
  assumes "bnReachable minIdx rand s" "minIdx \<le> unat maxIndex" "\<forall>i\<in>sset rand. i < totalAvailableBlocks minIdx"
  shows "systemOk s \<and> noLeak s"
  using assms
proof (induction rule: bnReachable.induct)
  case init
  then show ?case using systemOk_init by blast
next
  case (step s act s')
  then have ok: "systemOk s" "noLeak s" by auto
  from step(2) show ?case
  proof (cases rule: bnStep.cases)
    case (destroy k l ls as w)
    then show ?thesis using step_destroy [OF ok, of k l ls as] by (metis sum.inject(2))
  next
    case (create k a l w)
    then show ?thesis using step_create [OF ok] by simp
  next
    case (get k l i l' w)
    then show ?thesis using step_get [OF ok] by simp
  next
    case (merge k l ks)
    then show ?thesis using step_merge [OF ok] by simp
  qed
qed

section \<open>The random draws\<close>

lemma drawUnused_sdrop:
  assumes "drawUnused used rand = Some r"
  shows "\<exists>n. snd r = sdrop n rand"
proof (rule drawUnused.raw_induct [where P = "\<lambda>used rand r. \<exists>n. snd r = sdrop n rand"])
  show "drawUnused used rand = Some r" by fact
  fix draw :: "nat set \<Rightarrow> nat stream \<Rightarrow> (nat \<times> nat stream) option" and used rand r
  assume IH: "\<And>used rand r. draw used rand = Some r \<Longrightarrow> \<exists>n. snd r = sdrop n rand"
    and run: "(if shd rand \<notin> used then Some (shd rand, stl rand) else draw used (stl rand)) = Some r"
  then show "\<exists>n. snd r = sdrop n rand"
    using sdrop.simps by (metis option.inject snd_conv)
qed

lemma sdrop_id: "\<exists>n. r = sdrop n r"
  by (rule exI [of _ 0]) simp

lemma allocateBlock_rand:
  assumes "allocateBlock m = Some (Inr (b, m'))"
  shows "minIndex m' = minIndex m \<and> (\<exists>n. randBlockIndex m' = sdrop n (randBlockIndex m))"
proof -
  obtain i rand where "drawUnused (usedBlocksSet m) (randBlockIndex m) = Some (i, rand)"
    and "m' = m\<lparr>usedBlocksSet := insert i (usedBlocksSet m), randBlockIndex := rand\<rparr>"
    using assms by (auto simp: allocateBlock_def Let_def split: if_splits option.splits)
  then show ?thesis using drawUnused_sdrop by fastforce
qed

lemma getId_rand:
  assumes "worldOk w" "localOk w l" "getId l w = Some (Inr (i, l', w'))"
  shows "minIndex (blankNodeManager w') = minIndex (blankNodeManager w) \<and>
    (\<exists>n. randBlockIndex (blankNodeManager w') = sdrop n (randBlockIndex (blankNodeManager w)))"
  using getId_spec(4) [OF assms]
proof
  assume "blankNodeManager w' = blankNodeManager w"
  then show ?thesis by (simp add: sdrop_id)
next
  assume "\<exists>b. allocateBlock (blankNodeManager w) = Some (Inr (b, blankNodeManager w'))"
  then show ?thesis using allocateBlock_rand by blast
qed

lemma used_blocksAt:
  assumes "worldOk w"
  shows "usedBlocksSet (blankNodeManager w) = {blockIdx b | b a. a \<in> dom (blocksStore w) \<and> b \<in> set (blocksAt w a)}"
    (is "_ = ?B")
proof -
  have "(\<lambda>p. blockIdx (slotBlock (blocksStore w) p)) ` slots (blocksStore w) = ?B"
  proof (intro set_eqI iffI)
    fix i assume "i \<in> ?B"
    then obtain a bs j where "blocksStore w a = Some bs" "j < length bs" "i = blockIdx (bs ! j)"
      by (auto simp: blocksAt_def in_set_conv_nth)
    then show "i \<in> (\<lambda>p. blockIdx (slotBlock (blocksStore w) p)) ` slots (blocksStore w)"
      by (intro image_eqI [of _ _ "(a, j)"]) (auto simp: slots_def slotBlock_def)
  qed (force simp: slots_def slotBlock_def blocksAt_def)
  then show ?thesis using assms by (simp add: worldOk_def)
qed

lemma reachable_rand:
  assumes "bnReachable minIdx rand s" "minIdx \<le> unat maxIndex" "\<forall>i\<in>sset rand. i < totalAvailableBlocks minIdx"
  shows "minIndex (blankNodeManager (world s)) = minIdx \<and>
    (\<exists>n. randBlockIndex (blankNodeManager (world s)) = sdrop n rand)"
  using assms
proof (induction rule: bnReachable.induct)
  case init
  then show ?case by (simp add: initialSystem_def makeBlankNodeManager_def sdrop_id)
next
  case (step s act s')
  have ok: "systemOk s" "noLeak s" using reachable_ok [OF step.hyps(1) step.prems] by simp_all
  from step.hyps(2) have "minIndex (blankNodeManager (world s')) = minIndex (blankNodeManager (world s)) \<and>
      (\<exists>n. randBlockIndex (blankNodeManager (world s')) = sdrop n (randBlockIndex (blankNodeManager (world s))))"
  proof (cases rule: bnStep.cases)
    case (destroy k l ls as w)
    obtain w' where "deleteAll as (world s) = Inr w'"
      "minIndex (blankNodeManager w') = minIndex (blankNodeManager (world s))"
      "randBlockIndex (blankNodeManager w') = randBlockIndex (blankNodeManager (world s))"
      by (rule step_destroy [OF ok destroy(3-6)])
    then show ?thesis using destroy(2,7) by (simp add: sdrop_id)
  next
    case (create k a l w)
    then have "blankNodeManager (world s') = blankNodeManager (world s)"
      by (auto simp: makeLocalBlankNodeManager_def)
    then show ?thesis by (simp add: sdrop_id)
  next
    case (get k l i l' w)
    then show ?thesis using getId_rand [OF systemOkD(1) [OF ok(1)] systemOkD(2) [OF ok(1) get(3)] get(4)] by simp
  next
    case (merge k l ks)
    then show ?thesis by (simp add: sdrop_id)
  qed
  then obtain n m where "randBlockIndex (blankNodeManager (world s')) = sdrop n (sdrop m rand)"
    "minIndex (blankNodeManager (world s')) = minIdx" using step.IH [OF step.prems] by auto
  then show ?case using sdrop_add [of n m rand] by metis
qed

section \<open>An example run\<close>

text \<open>256 blocks at the end of the index range and a generator that draws them in turn.\<close>

definition exampleMin :: nat where "exampleMin = 2 ^ 60 - 256000"
definition exampleRand :: "nat stream" where "exampleRand = cycle [0..<256]"

definition exampleSystem :: bnSystem where
  "exampleSystem =
     (let (l, w) = makeLocalBlankNodeManager 7 (world (initialSystem exampleMin exampleRand))
      in \<lparr>world = w, locals = [0 \<mapsto> l]\<rparr>)"

lemma example_total: "exampleMin \<le> unat maxIndex" "totalAvailableBlocks exampleMin = 256"
  by (simp_all add: exampleMin_def unat_maxIndex totalAvailableBlocks_def blockSize_def)

lemma example_rand:
  "\<forall>i\<in>sset exampleRand. i < totalAvailableBlocks exampleMin"
  "\<forall>n. \<forall>i<totalAvailableBlocks exampleMin. i \<in> sset (sdrop n exampleRand)"
  by (simp_all add: exampleRand_def sset_cycle sdrop_cycle example_total)

lemma example_reachable: "bnReachable exampleMin exampleRand exampleSystem"
proof -
  have "bnStep (initialSystem exampleMin exampleRand) (Create 0) exampleSystem"
    using bnStep.create [of "initialSystem exampleMin exampleRand" 0 7]
    by (simp add: exampleSystem_def initialSystem_def makeLocalBlankNodeManager_def)
  then show ?thesis by (rule bnReachable.step [OF bnReachable.init])
qed

lemma example_state:
  "locals exampleSystem 0 = Some \<lparr>blocksPtr = 7, idxAfterCurrentBlock = 0, otherBlocks = []\<rparr>"
  "usedBlocksSet (blankNodeManager (world exampleSystem)) = {}"
  by (simp_all add: exampleSystem_def makeLocalBlankNodeManager_def initialSystem_def makeBlankNodeManager_def)

lemma example_getId: "\<exists>s'. bnStep exampleSystem (GetId 0 exampleMin) s'"
proof -
  have "shd exampleRand = 0" by (simp add: exampleRand_def upt_rec)
  then have "drawUnused {} exampleRand = Some (0, stl exampleRand)" by (subst drawUnused.simps) simp
  then have "allocateBlock (blankNodeManager (world exampleSystem)) =
      Some (Inr (makeBlock 0 exampleMin, \<lparr>minIndex = exampleMin, randBlockIndex = stl exampleRand,
        usedBlocksSet = {0}\<rparr>))"
    by (simp add: exampleSystem_def makeLocalBlankNodeManager_def initialSystem_def makeBlankNodeManager_def
        allocateBlock_def example_total)
  moreover have "blocksAt (world exampleSystem) 7 = []"
    by (simp add: exampleSystem_def makeLocalBlankNodeManager_def blocksAt_def)
  ultimately have "\<exists>l w. getId \<lparr>blocksPtr = 7, idxAfterCurrentBlock = 0, otherBlocks = []\<rparr> (world exampleSystem) =
      Some (Inr (exampleMin, l, w))"
    by (simp add: getId_def Let_def makeBlock_def)
  then show ?thesis using bnStep.get [OF example_state(1)] by blast
qed

section \<open>Properties\<close>

text \<open>C18: In every reachable state of the program, an index that \<open>getId\<close> hands out lies between the
  first index of the manager and \<open>ValueId::maxIndex\<close>, is contained in no live local manager before the
  call, and after the call is contained exactly in the managers that hold the block vector of the
  caller; all other containments stay as they are.\<close>

theorem getId_fresh_in_range:
  assumes "minIdx \<le> unat maxIndex" "\<forall>i\<in>sset rand. i < totalAvailableBlocks minIdx"
    and "bnReachable minIdx rand s" "bnStep s (GetId k i) s'"
  shows "minIdx \<le> i \<and> i \<le> unat maxIndex \<and>
    (\<forall>k' l'. locals s k' = Some l' \<longrightarrow> \<not> containsBlankNodeIndex (world s) l' i) \<and>
    (\<exists>l. locals s k = Some l \<and>
      (\<forall>l' j. containsBlankNodeIndex (world s') l' j \<longleftrightarrow>
         containsBlankNodeIndex (world s) l' j \<or> (j = i \<and> blocksPtr l \<in> set (refs l'))))"
proof -
  have ok: "systemOk s" and min: "minIndex (blankNodeManager (world s)) = minIdx"
    using reachable_ok reachable_rand assms by blast+
  from assms(4) obtain l l' w where l: "locals s k = Some l" "getId l (world s) = Some (Inr (i, l', w))" "world s' = w"
    by (cases rule: bnStep.cases) auto
  note g = getId_spec [OF systemOkD(1) [OF ok] systemOkD(2) [OF ok l(1)] l(2)]
  show ?thesis using g(5-8) l min by (auto simp: containsBlankNodeIndex_holds)
qed

lemma getId_fresh_in_range_witness:
  "\<exists>s'. bnStep exampleSystem (GetId 0 exampleMin) s' \<and>
     \<not> containsBlankNodeIndex (world exampleSystem) (the (locals exampleSystem 0)) exampleMin \<and>
     containsBlankNodeIndex (world s') (the (locals exampleSystem 0)) exampleMin"
proof -
  obtain s' where "bnStep exampleSystem (GetId 0 exampleMin) s'" using example_getId by blast
  with getId_fresh_in_range [OF example_total(1) example_rand(1) example_reachable this]
  show ?thesis using example_state(1) by (auto simp: refs_def)
qed

text \<open>C19: A local manager can always be destroyed: the deleter of the shared vectors never fails its
  contract check, and afterwards the manager has exactly those blocks in use that lie in vectors of
  the remaining live managers, so no block is leaked.\<close>

theorem destroy_frees_blocks:
  assumes "minIdx \<le> unat maxIndex" "\<forall>i\<in>sset rand. i < totalAvailableBlocks minIdx"
    and "bnReachable minIdx rand s" "locals s k = Some l"
  shows "\<exists>s'. bnStep s (Destroy k) s' \<and> locals s' = (locals s)(k := None) \<and>
    usedBlocksSet (blankNodeManager (world s')) =
      {blockIdx b | b a. a \<in> liveRefs (locals s') \<and> b \<in> set (blocksAt (world s') a)}"
proof -
  have ok: "systemOk s" "noLeak s" using reachable_ok assms by blast+
  let ?ls = "(locals s)(k := None)"
  obtain as where as: "distinct as" "set as = set (refs l) - liveRefs ?ls"
    using finite_distinct_list [of "set (refs l) - liveRefs ?ls"] by auto
  then obtain w where w: "deleteAll as (world s) = Inr w" "systemOk \<lparr>world = w, locals = ?ls\<rparr>"
      "noLeak \<lparr>world = w, locals = ?ls\<rparr>"
    using step_destroy [OF ok assms(4)] by metis
  have "usedBlocksSet (blankNodeManager w) = {blockIdx b | b a. a \<in> liveRefs ?ls \<and> b \<in> set (blocksAt w a)}"
    using used_blocksAt [OF systemOkD(1) [OF w(2)]] w(3) by (simp add: noLeak_def)
  then show ?thesis
    using bnStep.destroy [OF assms(4) refl as w(1)] by (intro exI [of _ "\<lparr>world = w, locals = ?ls\<rparr>"]) simp
qed

lemma destroy_frees_blocks_witness:
  "\<exists>s'. bnStep exampleSystem (Destroy 0) s' \<and> locals s' = (locals exampleSystem)(0 := None) \<and>
    usedBlocksSet (blankNodeManager (world s')) =
      {blockIdx b | b a. a \<in> liveRefs (locals s') \<and> b \<in> set (blocksAt (world s') a)}"
  by (rule destroy_frees_blocks [OF example_total(1) example_rand(1) example_reachable example_state(1)])

text \<open>C20: As long as fewer than one in 256 blocks is in use and the random generator keeps drawing every
  block index, \<open>getId\<close> returns an index in every reachable state: the search loop of \<open>allocateBlock\<close>
  ends and its check does not fail.\<close>

theorem getId_returns:
  assumes "minIdx \<le> unat maxIndex" "\<forall>i\<in>sset rand. i < totalAvailableBlocks minIdx"
    and "\<forall>n. \<forall>i<totalAvailableBlocks minIdx. i \<in> sset (sdrop n rand)"
    and "bnReachable minIdx rand s" "locals s k = Some l"
    and "card (usedBlocksSet (blankNodeManager (world s))) < totalAvailableBlocks minIdx div 256"
  shows "\<exists>i s'. bnStep s (GetId k i) s'"
proof -
  let ?m = "blankNodeManager (world s)"
  have ok: "systemOk s" and min: "minIndex ?m = minIdx" and rand: "\<exists>n. randBlockIndex ?m = sdrop n rand"
    using reachable_ok reachable_rand assms by blast+
  have "\<exists>i<totalAvailableBlocks minIdx. i \<notin> usedBlocksSet ?m"
  proof (rule ccontr)
    assume "\<not> ?thesis"
    then have "{..<totalAvailableBlocks minIdx} = usedBlocksSet ?m"
      using systemOkD(1) [OF ok] min by (auto simp: worldOk_def blockOk_def)
    then show False using assms(6) by (metis card_lessThan div_le_dividend not_less)
  qed
  then have "\<exists>r. drawUnused (usedBlocksSet ?m) (randBlockIndex ?m) = Some r"
    using drawUnused_total assms(3) rand by metis
  then obtain b m where "allocateBlock ?m = Some (Inr (b, m))"
    using assms(6) min by (fastforce simp: allocateBlock_def Let_def)
  then have "\<exists>r. getId l (world s) = Some (Inr r)" by (auto simp: getId_def Let_def)
  then show ?thesis using bnStep.get [OF assms(5)] by (metis prod_cases3)
qed

lemma getId_returns_witness: "\<exists>i s'. bnStep exampleSystem (GetId 0 i) s'"
  by (rule getId_returns [OF example_total(1) example_rand example_reachable example_state(1)])
    (simp add: example_state example_total)

end
