(* ===== verification/LocalVocab.thy ===== *)
theory LocalVocab
  imports BlankNodeManager
begin

text \<open>
  Models \<open>src/engine/LocalVocab.{h,cpp}\<close>: the set of words that are not part of the vocabulary of
  the index. The word sets are shared between local vocabularies, so they live in a store; a
  \<open>LocalVocabIndex\<close> is the address of an entry, given by the address of its set and the word, which
  identifies the node of the hash set. The local vocabularies themselves are objects of the state,
  because merging marks the merged vocabularies as copied. \<open>expensiveChecks\<close> is
  \<open>ad_utility::areExpensiveChecksEnabled\<close>.
\<close>

section \<open>State\<close>

record LocalVocab =
  primaryWordSet :: nat
  otherWordSets :: "nat list"
  lvSize :: nat
  localBlankNodeManager :: "LocalBlankNodeManager option"
  copied :: bool

record 'w lvWorld =
  wordSets :: "nat \<rightharpoonup> 'w list"
  vocabs :: "nat \<rightharpoonup> LocalVocab"
  bnW :: bnWorld

type_synonym 'w LocalVocabIndex = "nat \<times> 'w"

definition wordsAt :: "'w lvWorld \<Rightarrow> nat \<Rightarrow> 'w list" where
  "wordsAt w a = (case wordSets w a of None \<Rightarrow> [] | Some ws \<Rightarrow> ws)"

text \<open>A new, empty local vocabulary \<open>k\<close> with its primary set at the unused address \<open>a\<close>.\<close>

definition makeLocalVocab :: "nat \<Rightarrow> nat \<Rightarrow> 'w lvWorld \<Rightarrow> 'w lvWorld" where
  "makeLocalVocab k a w =
     w\<lparr>wordSets := (wordSets w)(a \<mapsto> []),
       vocabs := (vocabs w)(k \<mapsto> \<lparr>primaryWordSet = a, otherWordSets = [], lvSize = 0,
                                  localBlankNodeManager = None, copied = False\<rparr>)\<rparr>"

section \<open>Words\<close>

definition sizeOf :: "bool \<Rightarrow> 'w lvWorld \<Rightarrow> LocalVocab \<Rightarrow> nat result" where
  "sizeOf expensiveChecks w v =
     (if expensiveChecks then
        let size = length (wordsAt w (primaryWordSet v)) + sum_list (map (\<lambda>a. length (wordsAt w a)) (otherWordSets v))
        in res_bind (ensure CorrectnessViolation (size = lvSize v)) (\<lambda>_. Inr (lvSize v))
      else Inr (lvSize v))"

definition emptyVocab :: "bool \<Rightarrow> 'w lvWorld \<Rightarrow> LocalVocab \<Rightarrow> bool result" where
  "emptyVocab expensiveChecks w v = res_bind (sizeOf expensiveChecks w v) (\<lambda>n. Inr (n = 0))"

definition numSets :: "LocalVocab \<Rightarrow> nat" where
  "numSets v = 1 + length (otherWordSets v)"

definition getIndexAndAddIfNotContained ::
    "nat \<Rightarrow> 'w \<Rightarrow> 'w lvWorld \<Rightarrow> ('w LocalVocabIndex \<times> 'w lvWorld) result" where
  "getIndexAndAddIfNotContained k word w =
     (let v = the (vocabs w k); a = primaryWordSet v; ws = wordsAt w a; isNewWord = word \<notin> set ws in
      res_bind (ensure CorrectnessViolation (\<not> copied v)) (\<lambda>_.
        Inr ((a, word),
          w\<lparr>wordSets := (wordSets w)(a \<mapsto> (if isNewWord then ws @ [word] else ws)),
            vocabs := (vocabs w)(k \<mapsto> v\<lparr>lvSize := lvSize v + of_bool isNewWord\<rparr>)\<rparr>)))"

definition getIndexOrNullopt :: "'w lvWorld \<Rightarrow> LocalVocab \<Rightarrow> 'w \<Rightarrow> 'w LocalVocabIndex option" where
  "getIndexOrNullopt w v word =
     (if word \<in> set (wordsAt w (primaryWordSet v)) then Some (primaryWordSet v, word) else None)"

text \<open>Dereferencing an index; \<open>None\<close> if the entry does not exist.\<close>

definition getWord :: "'w lvWorld \<Rightarrow> 'w LocalVocabIndex \<Rightarrow> 'w option" where
  "getWord w i = (if snd i \<in> set (wordsAt w (fst i)) then Some (snd i) else None)"

definition getAllWordsForTesting :: "'w lvWorld \<Rightarrow> LocalVocab \<Rightarrow> 'w list" where
  "getAllWordsForTesting w v = wordsAt w (primaryWordSet v) @ concat (map (wordsAt w) (otherWordSets v))"

section \<open>Merging\<close>

definition addWordSet :: "'w lvWorld \<Rightarrow> nat \<Rightarrow> LocalVocab \<Rightarrow> LocalVocab" where
  "addWordSet w a v =
     (if a = primaryWordSet v then v
      else let added = a \<notin> set (otherWordSets v) in
        v\<lparr>otherWordSets := List.insert a (otherWordSets v),
          lvSize := lvSize v + of_bool added * length (wordsAt w a)\<rparr>)"

text \<open>The loop over the vocabularies that are not empty; \<open>k\<close> is \<open>this\<close>.\<close>

fun mergeWordSets :: "bool \<Rightarrow> nat \<Rightarrow> nat list \<Rightarrow> 'w lvWorld \<Rightarrow> 'w lvWorld result" where
  "mergeWordSets expensiveChecks k [] w = Inr w"
| "mergeWordSets expensiveChecks k (i # ks) w =
     res_bind (emptyVocab expensiveChecks w (the (vocabs w i))) (\<lambda>isEmpty.
       if isEmpty then mergeWordSets expensiveChecks k ks w
       else
         let w = w\<lparr>vocabs := (vocabs w)(i \<mapsto> (the (vocabs w i))\<lparr>copied := True\<rparr>)\<rparr>;
             v = the (vocabs w i);
             this = fold (addWordSet w) (otherWordSets v @ [primaryWordSet v]) (the (vocabs w k))
         in mergeWordSets expensiveChecks k ks (w\<lparr>vocabs := (vocabs w)(k \<mapsto> this)\<rparr>))"

text \<open>The manager of a vocabulary, created if it does not exist yet; then \<open>a\<close> is the unused address of
  the vector of blocks.\<close>

definition ensureManager :: "nat \<Rightarrow> LocalVocab \<Rightarrow> bnWorld \<Rightarrow> LocalBlankNodeManager \<times> bnWorld" where
  "ensureManager a v bw =
     (case localBlankNodeManager v of Some l \<Rightarrow> (l, bw) | None \<Rightarrow> makeLocalBlankNodeManager a bw)"

text \<open>The second part merges the blank node managers.\<close>

definition mergeManagers :: "nat \<Rightarrow> nat \<Rightarrow> nat list \<Rightarrow> 'w lvWorld \<Rightarrow> 'w lvWorld" where
  "mergeManagers a k ks w =
     (let localManagersView = map (\<lambda>i. localBlankNodeManager (the (vocabs w i))) ks;
          this = the (vocabs w k) in
      if list_all (\<lambda>l. l = None) localManagersView then w
      else
        let (l, bw) = ensureManager a this (bnW w)
        in w\<lparr>bnW := bw,
             vocabs := (vocabs w)(k \<mapsto>
               this\<lparr>localBlankNodeManager := Some (mergeLocal localManagersView l)\<rparr>)\<rparr>)"

definition mergeWith :: "bool \<Rightarrow> nat \<Rightarrow> nat \<Rightarrow> nat list \<Rightarrow> 'w lvWorld \<Rightarrow> 'w lvWorld result" where
  "mergeWith expensiveChecks a k ks w =
     res_bind (mergeWordSets expensiveChecks k ks w) (\<lambda>w. Inr (mergeManagers a k ks w))"

text \<open>\<open>clone\<close> and \<open>merge\<close> create the result as the new object \<open>k'\<close> with primary set at \<open>a\<close>.\<close>

definition clone :: "bool \<Rightarrow> nat \<Rightarrow> nat \<Rightarrow> nat \<Rightarrow> nat \<Rightarrow> 'w lvWorld \<Rightarrow> 'w lvWorld result" where
  "clone expensiveChecks k k' a a' w =
     res_bind (mergeWith expensiveChecks a' k' [k] (makeLocalVocab k' a w)) (\<lambda>w.
     res_bind (ensure CorrectnessViolation (lvSize (the (vocabs w k')) = lvSize (the (vocabs w k)))) (\<lambda>_.
       Inr w))"

definition mergeVocabs :: "bool \<Rightarrow> nat list \<Rightarrow> nat \<Rightarrow> nat \<Rightarrow> nat \<Rightarrow> 'w lvWorld \<Rightarrow> 'w lvWorld result" where
  "mergeVocabs expensiveChecks ks k' a a' w = mergeWith expensiveChecks a' k' ks (makeLocalVocab k' a w)"

section \<open>Blank nodes and lifetimes\<close>

definition getBlankNodeIndex :: "nat \<Rightarrow> nat \<Rightarrow> 'w lvWorld \<Rightarrow> (nat \<times> 'w lvWorld) result option" where
  "getBlankNodeIndex a k w =
     (let v = the (vocabs w k);
          (l, bw) = ensureManager a v (bnW w)
      in case getId l bw of
           None \<Rightarrow> None
         | Some (Inl e) \<Rightarrow> Some (Inl e)
         | Some (Inr (i, l, bw)) \<Rightarrow>
             Some (Inr (i, w\<lparr>bnW := bw, vocabs := (vocabs w)(k \<mapsto> v\<lparr>localBlankNodeManager := Some l\<rparr>)\<rparr>)))"

definition isBlankNodeIndexContained :: "'w lvWorld \<Rightarrow> LocalVocab \<Rightarrow> nat \<Rightarrow> bool" where
  "isBlankNodeIndexContained w v index =
     (case localBlankNodeManager v of None \<Rightarrow> False | Some l \<Rightarrow> containsBlankNodeIndex (bnW w) l index)"

text \<open>The word sets that a \<open>LifetimeExtender\<close> keeps alive.\<close>

definition getLifetimeExtender :: "'w lvWorld \<Rightarrow> LocalVocab \<Rightarrow> nat list" where
  "getLifetimeExtender w v =
     (if wordsAt w (primaryWordSet v) \<noteq> [] then [primaryWordSet v] else []) @ otherWordSets v"

section \<open>The program that uses the vocabularies\<close>

datatype 'w lvAction =
    NewVocab nat | AddWord nat 'w "'w LocalVocabIndex" | MergeWith nat "nat list" | CloneVocab nat nat
  | MergeNew "nat list" nat | NewBlankNode nat nat | DropVocab nat

text \<open>The system of blank node managers of the vocabularies.\<close>

definition absBn :: "'w lvWorld \<Rightarrow> bnSystem" where
  "absBn w = \<lparr>world = bnW w, locals = (\<lambda>k. Option.bind (vocabs w k) localBlankNodeManager)\<rparr>"

inductive lvStep :: "bool \<Rightarrow> 'w lvWorld \<Rightarrow> 'w lvAction \<Rightarrow> 'w lvWorld \<Rightarrow> bool" for expensiveChecks where
  newVocab: "vocabs w k = None \<Longrightarrow> wordSets w a = None \<Longrightarrow>
    lvStep expensiveChecks w (NewVocab k) (makeLocalVocab k a w)"
| addWord: "vocabs w k = Some v \<Longrightarrow> getIndexAndAddIfNotContained k word w = Inr (i, w') \<Longrightarrow>
    lvStep expensiveChecks w (AddWord k word i) w'"
| mergeWith: "vocabs w k = Some v \<Longrightarrow> set ks \<subseteq> dom (vocabs w) - {k} \<Longrightarrow> blocksStore (bnW w) a = None \<Longrightarrow>
    mergeWith expensiveChecks a k ks w = Inr w' \<Longrightarrow>
    lvStep expensiveChecks w (MergeWith k ks) w'"
| clone: "vocabs w k = Some v \<Longrightarrow> vocabs w k' = None \<Longrightarrow> wordSets w a = None \<Longrightarrow>
    blocksStore (bnW w) a' = None \<Longrightarrow> clone expensiveChecks k k' a a' w = Inr w' \<Longrightarrow>
    lvStep expensiveChecks w (CloneVocab k k') w'"
| mergeNew: "set ks \<subseteq> dom (vocabs w) \<Longrightarrow> vocabs w k' = None \<Longrightarrow> wordSets w a = None \<Longrightarrow>
    blocksStore (bnW w) a' = None \<Longrightarrow> mergeVocabs expensiveChecks ks k' a a' w = Inr w' \<Longrightarrow>
    lvStep expensiveChecks w (MergeNew ks k') w'"
| newBlankNode: "vocabs w k = Some v \<Longrightarrow> blocksStore (bnW w) a = None \<Longrightarrow>
    getBlankNodeIndex a k w = Some (Inr (i, w')) \<Longrightarrow>
    lvStep expensiveChecks w (NewBlankNode k i) w'"
| dropVocab: "vocabs w k = Some v \<Longrightarrow> localBlankNodeManager v = None \<Longrightarrow>
    lvStep expensiveChecks w (DropVocab k) (w\<lparr>vocabs := (vocabs w)(k := None)\<rparr>)"
| dropVocabManager: "vocabs w k = Some v \<Longrightarrow> localBlankNodeManager v = Some l \<Longrightarrow> bnStep (absBn w) (Destroy k) s \<Longrightarrow>
    lvStep expensiveChecks w (DropVocab k) (w\<lparr>bnW := world s, vocabs := (vocabs w)(k := None)\<rparr>)"

definition initialVocabs :: "nat \<Rightarrow> nat stream \<Rightarrow> 'w lvWorld" where
  "initialVocabs minIdx rand =
     \<lparr>wordSets = Map.empty, vocabs = Map.empty, bnW = world (initialSystem minIdx rand)\<rparr>"

inductive lvReachable :: "bool \<Rightarrow> nat \<Rightarrow> nat stream \<Rightarrow> 'w lvWorld \<Rightarrow> bool"
  for expensiveChecks minIdx rand where
  lvInit: "lvReachable expensiveChecks minIdx rand (initialVocabs minIdx rand)"
| lvStep: "lvReachable expensiveChecks minIdx rand w \<Longrightarrow> lvStep expensiveChecks w act w' \<Longrightarrow>
    lvReachable expensiveChecks minIdx rand w'"

section \<open>The size invariant\<close>

definition allSets :: "LocalVocab \<Rightarrow> nat list" where
  "allSets v = primaryWordSet v # otherWordSets v"

definition vocOk :: "'w lvWorld \<Rightarrow> LocalVocab \<Rightarrow> bool" where
  "vocOk w v \<longleftrightarrow> set (allSets v) \<subseteq> dom (wordSets w) \<and> distinct (allSets v) \<and>
     lvSize v = length (getAllWordsForTesting w v)"

definition lvOk :: "'w lvWorld \<Rightarrow> bool" where
  "lvOk w \<longleftrightarrow> (\<forall>v\<in>ran (vocabs w). vocOk w v) \<and>
     (\<forall>k k' v v'. vocabs w k = Some v \<longrightarrow> vocabs w k' = Some v' \<longrightarrow>
        (primaryWordSet v = primaryWordSet v' \<longrightarrow> k = k') \<and>
        (primaryWordSet v' \<in> set (otherWordSets v) \<longrightarrow> copied v'))"

lemma lvOkD:
  assumes "lvOk w" "vocabs w k = Some v"
  shows "vocOk w v"
    and "vocabs w k' = Some v' \<Longrightarrow> primaryWordSet v = primaryWordSet v' \<Longrightarrow> k = k'"
    and "vocabs w k' = Some v' \<Longrightarrow> primaryWordSet v' \<in> set (otherWordSets v) \<Longrightarrow> copied v'"
  using assms unfolding lvOk_def by (blast intro: ranI)+

lemma lvOkI:
  assumes "\<And>k v. vocabs w k = Some v \<Longrightarrow> vocOk w v"
    and "\<And>k k' v v'. vocabs w k = Some v \<Longrightarrow> vocabs w k' = Some v' \<Longrightarrow> primaryWordSet v = primaryWordSet v' \<Longrightarrow> k = k'"
    and "\<And>k k' v v'. vocabs w k = Some v \<Longrightarrow> vocabs w k' = Some v' \<Longrightarrow>
      primaryWordSet v' \<in> set (otherWordSets v) \<Longrightarrow> copied v'"
  shows "lvOk w"
  using assms unfolding lvOk_def ran_def by auto

lemma getAllWords_length:
  "length (getAllWordsForTesting w v) =
     length (wordsAt w (primaryWordSet v)) + sum_list (map (\<lambda>a. length (wordsAt w a)) (otherWordSets v))"
  by (simp add: getAllWordsForTesting_def length_concat comp_def)

lemma getAllWords_set: "set (getAllWordsForTesting w v) = (\<Union>a\<in>set (allSets v). set (wordsAt w a))"
  by (simp add: getAllWordsForTesting_def allSets_def)

lemma sizeOf_ok: "vocOk w v \<Longrightarrow> sizeOf e w v = Inr (length (getAllWordsForTesting w v))"
  by (auto simp: sizeOf_def vocOk_def getAllWords_length Let_def)

lemma vocOk_cong:
  assumes "\<And>a. a \<in> set (allSets v) \<Longrightarrow> wordSets w' a = wordSets w a" "vocOk w v"
  shows "vocOk w' v"
proof -
  have "wordsAt w' a = wordsAt w a" if "a \<in> set (allSets v)" for a using assms(1) [OF that] by (simp add: wordsAt_def)
  then have "getAllWordsForTesting w' v = getAllWordsForTesting w v"
    by (auto simp: getAllWordsForTesting_def allSets_def intro!: arg_cong [of _ _ concat])
  then show ?thesis using assms by (fastforce simp: vocOk_def dom_def)
qed

section \<open>Merging word sets\<close>

lemma addWordSet_ok:
  assumes "vocOk w v" "a \<in> dom (wordSets w)"
  shows "vocOk w (addWordSet w a v)"
  using assms by (auto simp: vocOk_def addWordSet_def allSets_def getAllWords_length Let_def List.insert_def)

lemma addWordSet_fields [simp]:
  "primaryWordSet (addWordSet w a v) = primaryWordSet v"
  "copied (addWordSet w a v) = copied v"
  "localBlankNodeManager (addWordSet w a v) = localBlankNodeManager v"
  "set (allSets (addWordSet w a v)) = insert a (set (allSets v))"
  by (auto simp: addWordSet_def allSets_def Let_def)

lemma fold_addWordSet:
  assumes "vocOk w v" "set as \<subseteq> dom (wordSets w)"
  shows "vocOk w (fold (addWordSet w) as v)"
    and "primaryWordSet (fold (addWordSet w) as v) = primaryWordSet v"
    and "copied (fold (addWordSet w) as v) = copied v"
    and "localBlankNodeManager (fold (addWordSet w) as v) = localBlankNodeManager v"
    and "set (allSets (fold (addWordSet w) as v)) = set as \<union> set (allSets v)"
  using assms by (induction as arbitrary: v) (auto simp: addWordSet_ok)

text \<open>What the merge of the word sets changes: \<open>this\<close> gets more sets, the other vocabularies at most
  their flag.\<close>

definition vocabsMerged :: "nat \<Rightarrow> nat list \<Rightarrow> 'w lvWorld \<Rightarrow> 'w lvWorld \<Rightarrow> bool" where
  "vocabsMerged k ks w w' \<longleftrightarrow> wordSets w' = wordSets w \<and> bnW w' = bnW w \<and> dom (vocabs w') = dom (vocabs w) \<and>
     (\<forall>i v. vocabs w i = Some v \<longrightarrow> (\<exists>v'. vocabs w' i = Some v' \<and>
        primaryWordSet v' = primaryWordSet v \<and> localBlankNodeManager v' = localBlankNodeManager v \<and>
        (copied v \<longrightarrow> copied v') \<and> (i \<noteq> k \<longrightarrow> v' = v\<lparr>copied := copied v'\<rparr>))) \<and>
     set (getAllWordsForTesting w' (the (vocabs w' k))) =
       set (getAllWordsForTesting w (the (vocabs w k))) \<union>
       (\<Union>i\<in>set ks. set (getAllWordsForTesting w (the (vocabs w i))))"

definition mergeStep :: "nat \<Rightarrow> nat \<Rightarrow> 'w lvWorld \<Rightarrow> 'w lvWorld" where
  "mergeStep k i w =
     (let w = w\<lparr>vocabs := (vocabs w)(i \<mapsto> (the (vocabs w i))\<lparr>copied := True\<rparr>)\<rparr>;
          v = the (vocabs w i);
          this = fold (addWordSet w) (otherWordSets v @ [primaryWordSet v]) (the (vocabs w k))
      in w\<lparr>vocabs := (vocabs w)(k \<mapsto> this)\<rparr>)"

lemma addWordSet_vocabs [simp]: "addWordSet (w\<lparr>vocabs := vs\<rparr>) = addWordSet w"
  by (auto simp: addWordSet_def wordsAt_def fun_eq_iff)

lemma wordsAt_upd [simp]: "wordsAt (w\<lparr>vocabs := vs\<rparr>) = wordsAt w" "wordsAt (w\<lparr>bnW := bw\<rparr>) = wordsAt w"
  by (simp_all add: wordsAt_def fun_eq_iff)

lemma vocOk_vocabs [simp]:
  "vocOk (w\<lparr>vocabs := vs\<rparr>) v = vocOk w v" "vocOk w (v\<lparr>copied := b\<rparr>) = vocOk w v"
  "vocOk (w\<lparr>bnW := bw\<rparr>) v = vocOk w v" "vocOk w (v\<lparr>localBlankNodeManager := m\<rparr>) = vocOk w v"
  by (auto simp: vocOk_def allSets_def getAllWordsForTesting_def)

lemma lvOk_vocabsI:
  assumes "\<And>k v. vs k = Some v \<Longrightarrow> vocOk w v"
    and "\<And>k k' v v'. vs k = Some v \<Longrightarrow> vs k' = Some v' \<Longrightarrow> primaryWordSet v = primaryWordSet v' \<Longrightarrow> k = k'"
    and "\<And>k k' v v'. vs k = Some v \<Longrightarrow> vs k' = Some v' \<Longrightarrow>
      primaryWordSet v' \<in> set (otherWordSets v) \<Longrightarrow> copied v'"
  shows "lvOk (w\<lparr>vocabs := vs\<rparr>)"
proof -
  have "vocabs (w\<lparr>vocabs := vs\<rparr>) = vs" by simp
  then show ?thesis using assms unfolding lvOk_def ran_def vocOk_vocabs by auto
qed

lemma mergeStep_vocabs:
  assumes "lvOk w" "vocabs w k = Some v" "vocabs w i = Some u" "i \<noteq> k"
  obtains v' where "mergeStep k i w = w\<lparr>vocabs := (vocabs w)(i \<mapsto> u\<lparr>copied := True\<rparr>, k \<mapsto> v')\<rparr>" "vocOk w v'"
    "primaryWordSet v' = primaryWordSet v" "copied v' = copied v"
    "localBlankNodeManager v' = localBlankNodeManager v" "set (allSets v') = set (allSets u) \<union> set (allSets v)"
proof -
  have sub: "set (otherWordSets u @ [primaryWordSet u]) \<subseteq> dom (wordSets w)"
    using lvOkD(1) [OF assms(1,3)] by (auto simp: vocOk_def allSets_def)
  note f = fold_addWordSet [OF lvOkD(1) [OF assms(1,2)] sub]
  show ?thesis
    by (rule that [of "fold (addWordSet w) (otherWordSets u @ [primaryWordSet u]) v"])
      (use f assms in \<open>auto simp: mergeStep_def Let_def allSets_def\<close>)
qed

lemma mergeStep_ok:
  assumes "lvOk w" "vocabs w k = Some v" "vocabs w i = Some u" "i \<noteq> k"
  shows "lvOk (mergeStep k i w)" "vocabsMerged k [i] w (mergeStep k i w)"
proof -
  obtain v' where w': "mergeStep k i w = w\<lparr>vocabs := (vocabs w)(i \<mapsto> u\<lparr>copied := True\<rparr>, k \<mapsto> v')\<rparr>" "vocOk w v'"
    "primaryWordSet v' = primaryWordSet v" "copied v' = copied v"
    "localBlankNodeManager v' = localBlankNodeManager v" "set (allSets v') = set (allSets u) \<union> set (allSets v)"
    using mergeStep_vocabs [OF assms] by blast
  let ?vs = "(vocabs w)(i \<mapsto> u\<lparr>copied := True\<rparr>, k \<mapsto> v')"
  have old: "\<exists>x0. vocabs w j = Some x0 \<and> primaryWordSet x = primaryWordSet x0 \<and> (copied x0 \<longrightarrow> copied x) \<and>
      vocOk w x \<and> (j = i \<longrightarrow> copied x) \<and> (j \<noteq> k \<longrightarrow> otherWordSets x = otherWordSets x0)" if "?vs j = Some x" for j x
    using that assms w'(2-4) lvOkD(1) [OF assms(1)] by (auto split: if_splits)
  have c: "copied y" if x: "?vs j = Some x" and y: "?vs l = Some y" and inc: "primaryWordSet y \<in> set (otherWordSets x)" for j l x y
  proof -
    obtain y0 where y0: "vocabs w l = Some y0" "primaryWordSet y = primaryWordSet y0" "copied y0 \<longrightarrow> copied y"
      "l = i \<longrightarrow> copied y" using old [OF y] by blast
    show ?thesis
    proof (cases "j = k")
      case True
      then have "x = v'" using x by simp
      then have "primaryWordSet y0 \<noteq> primaryWordSet v" "primaryWordSet y0 \<in> set (allSets v')"
        using inc w'(2,3) y0(2) by (auto simp: allSets_def vocOk_def)
      then have "primaryWordSet y0 \<in> set (otherWordSets u) \<or> primaryWordSet y0 = primaryWordSet u \<or>
          primaryWordSet y0 \<in> set (otherWordSets v)"
        using w'(6) by (auto simp: allSets_def)
      then show ?thesis using lvOkD(2,3) [OF assms(1,3) y0(1)] lvOkD(3) [OF assms(1,2) y0(1)] y0 by metis
    next
      case False
      then obtain x0 where "vocabs w j = Some x0" "otherWordSets x = otherWordSets x0" using old [OF x] by blast
      then show ?thesis using lvOkD(3) [OF assms(1) _ y0(1)] inc y0 by metis
    qed
  qed
  have inj: "j = l" if "?vs j = Some x" "?vs l = Some y" "primaryWordSet x = primaryWordSet y" for j l x y
    using old [OF that(1)] old [OF that(2)] that(3) lvOkD(2) [OF assms(1)] by metis
  have ok: "vocOk w x" if "?vs j = Some x" for j x using old [OF that] by blast
  show "lvOk (mergeStep k i w)" unfolding w'(1)
    by (rule lvOk_vocabsI) (fact ok inj c)+
  show "vocabsMerged k [i] w (mergeStep k i w)"
    using assms w' by (auto simp: vocabsMerged_def getAllWords_set wordsAt_def)
qed

lemma getAllWords_cong:
  assumes "wordSets w' = wordSets w"
  shows "getAllWordsForTesting w' v = getAllWordsForTesting w v"
  using assms by (simp add: getAllWordsForTesting_def wordsAt_def cong: map_cong)

lemma getAllWords_copied [simp]: "getAllWordsForTesting w (v\<lparr>copied := b\<rparr>) = getAllWordsForTesting w v"
  by (simp add: getAllWordsForTesting_def)

lemma vocabsMergedE:
  assumes "vocabsMerged k ks w w'" "vocabs w i = Some v"
  obtains v' where "vocabs w' i = Some v'" "primaryWordSet v' = primaryWordSet v"
    "localBlankNodeManager v' = localBlankNodeManager v" "copied v \<longrightarrow> copied v'" "i \<noteq> k \<longrightarrow> v' = v\<lparr>copied := copied v'\<rparr>"
  using assms unfolding vocabsMerged_def by blast

lemma vocabsMerged_other:
  assumes "vocabsMerged k ks w w'" "i \<noteq> k" "i \<in> dom (vocabs w)"
  shows "getAllWordsForTesting w' (the (vocabs w' i)) = getAllWordsForTesting w (the (vocabs w i))"
proof -
  obtain v where "vocabs w i = Some v" using assms(3) by blast
  moreover then obtain v' where "vocabs w' i = Some v'" "v' = v\<lparr>copied := copied v'\<rparr>"
    using vocabsMergedE [OF assms(1)] assms(2) by metis
  moreover have "wordSets w' = wordSets w" using assms(1) by (simp add: vocabsMerged_def)
  ultimately show ?thesis by (metis getAllWords_cong getAllWords_copied option.sel)
qed

lemma vocabsMerged_trans:
  assumes m: "vocabsMerged k [i] w w1" "vocabsMerged k ks w1 w2"
    and "k \<notin> set (i # ks)" "set (i # ks) \<subseteq> dom (vocabs w)"
  shows "vocabsMerged k (i # ks) w w2"
  unfolding vocabsMerged_def
proof (intro conjI allI impI)
  show "wordSets w2 = wordSets w" "bnW w2 = bnW w" "dom (vocabs w2) = dom (vocabs w)"
    using m by (auto simp: vocabsMerged_def)
  have "getAllWordsForTesting w1 (the (vocabs w1 j)) = getAllWordsForTesting w (the (vocabs w j))" if "j \<in> set ks" for j
    using vocabsMerged_other [OF m(1), of j] assms(3,4) that by auto
  then show "set (getAllWordsForTesting w2 (the (vocabs w2 k))) = set (getAllWordsForTesting w (the (vocabs w k))) \<union>
      (\<Union>i\<in>set (i # ks). set (getAllWordsForTesting w (the (vocabs w i))))"
    using m by (auto simp: vocabsMerged_def)
next
  fix j v assume "vocabs w j = Some v"
  then obtain v1 where v1: "vocabs w1 j = Some v1" "primaryWordSet v1 = primaryWordSet v"
      "localBlankNodeManager v1 = localBlankNodeManager v" "copied v \<longrightarrow> copied v1" "j \<noteq> k \<longrightarrow> v1 = v\<lparr>copied := copied v1\<rparr>"
    by (rule vocabsMergedE [OF m(1)])
  obtain v2 where v2: "vocabs w2 j = Some v2" "primaryWordSet v2 = primaryWordSet v1"
      "localBlankNodeManager v2 = localBlankNodeManager v1" "copied v1 \<longrightarrow> copied v2" "j \<noteq> k \<longrightarrow> v2 = v1\<lparr>copied := copied v2\<rparr>"
    by (rule vocabsMergedE [OF m(2) v1(1)])
  have "j \<noteq> k \<longrightarrow> v2 = v\<lparr>copied := copied v2\<rparr>"
    using v1(5) v2(5) by (cases v; cases v1; cases v2) simp
  then show "\<exists>v'. vocabs w2 j = Some v' \<and> primaryWordSet v' = primaryWordSet v \<and>
      localBlankNodeManager v' = localBlankNodeManager v \<and> (copied v \<longrightarrow> copied v') \<and> (j \<noteq> k \<longrightarrow> v' = v\<lparr>copied := copied v'\<rparr>)"
    using v1 v2 by auto
qed

lemma vocabsMerged_skip:
  assumes "vocabsMerged k ks w w'" "getAllWordsForTesting w (the (vocabs w i)) = []"
  shows "vocabsMerged k (i # ks) w w'"
  using assms by (auto simp: vocabsMerged_def)

lemma vocabsMerged_refl: "vocabsMerged k [] w w"
  by (auto simp: vocabsMerged_def)

lemma mergeWordSets_ok:
  assumes "lvOk w" "vocabs w k = Some v" "set ks \<subseteq> dom (vocabs w)" "k \<notin> set ks"
  shows "\<exists>w'. mergeWordSets e k ks w = Inr w' \<and> lvOk w' \<and> vocabsMerged k ks w w'"
  using assms
proof (induction ks arbitrary: w v)
  case Nil
  then show ?case by (auto simp: vocabsMerged_refl)
next
  case (Cons i ks)
  obtain u where u: "vocabs w i = Some u" using Cons.prems by auto
  have empty: "emptyVocab e w u = Inr (getAllWordsForTesting w u = [])"
    using sizeOf_ok [OF lvOkD(1) [OF Cons.prems(1) u]] by (simp add: emptyVocab_def)
  show ?case
  proof (cases "getAllWordsForTesting w u = []")
    case True
    then show ?thesis using Cons.IH [OF Cons.prems(1,2)] Cons.prems(3,4) empty u vocabsMerged_skip by fastforce
  next
    case False
    have "mergeWordSets e k (i # ks) w = mergeWordSets e k ks (mergeStep k i w)"
      using empty u False by (simp add: mergeStep_def Let_def)
    moreover have ok: "lvOk (mergeStep k i w)" "vocabsMerged k [i] w (mergeStep k i w)"
      using mergeStep_ok [OF Cons.prems(1,2) u] Cons.prems(4) by auto
    obtain v1 where v1: "vocabs (mergeStep k i w) k = Some v1"
      by (rule vocabsMergedE [OF ok(2) Cons.prems(2)])
    have "set ks \<subseteq> dom (vocabs (mergeStep k i w))" using ok(2) Cons.prems(3) by (simp add: vocabsMerged_def)
    ultimately show ?thesis
      using Cons.IH [OF ok(1) v1] Cons.prems(3,4) vocabsMerged_trans [OF ok(2)] by auto
  qed
qed

section \<open>Every operation keeps the invariant\<close>

lemma makeLocalVocab_ok:
  assumes "lvOk w" "vocabs w k = None" "wordSets w a = None"
  shows "lvOk (makeLocalVocab k a w)"
proof (rule lvOkI)
  have a: "a \<notin> set (allSets v)" if "vocabs w j = Some v" for j v
    using lvOkD(1) [OF assms(1) that] assms(3) by (auto simp: vocOk_def)
  have ok: "vocOk (makeLocalVocab k a w) v" if "vocabs w j = Some v" for j v
    using a [OF that] by (intro vocOk_cong [OF _ lvOkD(1) [OF assms(1) that]]) (auto simp: makeLocalVocab_def)
  let ?w = "makeLocalVocab k a w"
  show "vocOk ?w v" if "vocabs ?w j = Some v" for j v
    using that ok by (cases "j = k") (auto simp: makeLocalVocab_def vocOk_def allSets_def getAllWordsForTesting_def wordsAt_def)
  show "j = l" if "vocabs ?w j = Some v" "vocabs ?w l = Some u" "primaryWordSet v = primaryWordSet u" for j l v u
    using that a lvOkD(2) [OF assms(1)] by (fastforce simp: makeLocalVocab_def allSets_def split: if_splits)
  show "copied u" if "vocabs ?w j = Some v" "vocabs ?w l = Some u" "primaryWordSet u \<in> set (otherWordSets v)" for j l v u
    using that a lvOkD(3) [OF assms(1)] by (fastforce simp: makeLocalVocab_def allSets_def split: if_splits)
qed

lemma addWord_ok:
  assumes "lvOk w" "vocabs w k = Some v" "getIndexAndAddIfNotContained k word w = Inr (i, w')"
  shows "lvOk w'"
proof -
  let ?a = "primaryWordSet v" and ?ws = "wordsAt w (primaryWordSet v)"
  let ?v' = "v\<lparr>lvSize := lvSize v + of_bool (word \<notin> set ?ws)\<rparr>"
  have nc: "\<not> copied v" and w': "w' = w\<lparr>wordSets := (wordSets w)(?a \<mapsto> (if word \<notin> set ?ws then ?ws @ [word] else ?ws)),
      vocabs := (vocabs w)(k \<mapsto> ?v')\<rparr>"
    using assms(2,3) by (auto simp: getIndexAndAddIfNotContained_def Let_def elim!: res_bind_InrE)
  have own: "vocOk w v" by (rule lvOkD(1) [OF assms(1,2)])
  then have "?a \<notin> set (otherWordSets v)" by (simp add: vocOk_def allSets_def)
  then have others: "map (\<lambda>a. length (wordsAt w' a)) (otherWordSets v) = map (\<lambda>a. length (wordsAt w a)) (otherWordSets v)"
    by (auto simp: w' wordsAt_def)
  have "length (wordsAt w' ?a) = length ?ws + of_bool (word \<notin> set ?ws)" by (simp add: w' wordsAt_def)
  moreover have "set (allSets ?v') \<subseteq> dom (wordSets w')" using own by (auto simp: vocOk_def allSets_def w')
  ultimately have ok': "vocOk w' ?v'"
    using own arg_cong [OF others, of sum_list] by (simp add: vocOk_def allSets_def getAllWords_length)
  have rest: "vocOk w' u" if "vocabs w j = Some u" "j \<noteq> k" for j u
  proof (rule vocOk_cong [OF _ lvOkD(1) [OF assms(1) that(1)]])
    have "?a \<notin> set (allSets u)"
      using lvOkD(2,3) [OF assms(1) that(1) assms(2)] that(2) nc by (auto simp: allSets_def)
    then show "wordSets w' a = wordSets w a" if "a \<in> set (allSets u)" for a using that by (auto simp: w')
  qed
  have vs: "vocabs w' j = (if j = k then Some ?v' else vocabs w j)" for j by (simp add: w')
  show ?thesis
  proof (rule lvOkI)
    show "vocOk w' u" if "vocabs w' j = Some u" for j u using that ok' rest vs by (auto split: if_splits)
    show "j = l" if "vocabs w' j = Some x" "vocabs w' l = Some y" "primaryWordSet x = primaryWordSet y" for j l x y
      using that lvOkD(2) [OF assms(1)] assms(2) unfolding vs by (auto split: if_splits)
    show "copied y" if "vocabs w' j = Some x" "vocabs w' l = Some y" "primaryWordSet y \<in> set (otherWordSets x)" for j l x y
      using that lvOkD(3) [OF assms(1)] assms(2) unfolding vs by (auto split: if_splits)
  qed
qed


lemma lvOk_manager:
  assumes "lvOk w" "vocabs w k = Some v"
  shows "lvOk (w\<lparr>bnW := bw, vocabs := (vocabs w)(k \<mapsto> v\<lparr>localBlankNodeManager := l\<rparr>)\<rparr>)"
proof -
  let ?vs = "(vocabs w)(k \<mapsto> v\<lparr>localBlankNodeManager := l\<rparr>)"
  have old: "\<exists>x0. vocabs w j = Some x0 \<and> primaryWordSet x = primaryWordSet x0 \<and> copied x = copied x0 \<and>
      otherWordSets x = otherWordSets x0 \<and> vocOk w x = vocOk w x0" if "?vs j = Some x" for j x
    using that assms(2) by (auto split: if_splits)
  have "lvOk (w\<lparr>bnW := bw\<rparr>\<lparr>vocabs := ?vs\<rparr>)"
  proof (rule lvOk_vocabsI)
    show "vocOk (w\<lparr>bnW := bw\<rparr>) x" if "?vs j = Some x" for j x
      using old [OF that] lvOkD(1) [OF assms(1)] by auto
    show "j = j'" if "?vs j = Some x" "?vs j' = Some y" "primaryWordSet x = primaryWordSet y" for j j' x y
      using old [OF that(1)] old [OF that(2)] lvOkD(2) [OF assms(1)] that(3) by metis
    show "copied y" if "?vs j = Some x" "?vs j' = Some y" "primaryWordSet y \<in> set (otherWordSets x)" for j j' x y
      using old [OF that(1)] old [OF that(2)] lvOkD(3) [OF assms(1)] that(3) by metis
  qed
  then show ?thesis by simp
qed

lemma mergeManagers_cases:
  assumes "vocabs w k = Some v"
  obtains (none) "\<forall>i\<in>set ks. localBlankNodeManager (the (vocabs w i)) = None" "mergeManagers a k ks w = w"
  | (some) l bw where "ensureManager a v (bnW w) = (l, bw)"
      "mergeManagers a k ks w = w\<lparr>bnW := bw, vocabs := (vocabs w)(k \<mapsto> v\<lparr>localBlankNodeManager :=
         Some (mergeLocal (map (\<lambda>i. localBlankNodeManager (the (vocabs w i))) ks) l)\<rparr>)\<rparr>"
proof (cases "\<forall>i\<in>set ks. localBlankNodeManager (the (vocabs w i)) = None")
  case True
  then show ?thesis by (intro none) (auto simp: mergeManagers_def Let_def list_all_iff)
next
  case False
  then show ?thesis using assms
    by (cases "ensureManager a v (bnW w)") (auto intro!: some simp: mergeManagers_def Let_def list_all_iff)
qed

lemma mergeManagers_ok:
  assumes "lvOk w" "vocabs w k = Some v"
  shows "lvOk (mergeManagers a k ks w)"
  using assms lvOk_manager by (cases rule: mergeManagers_cases [OF assms(2), of ks a]) auto

lemma mergeManagers_words:
  assumes "vocabs w k = Some v"
  shows "\<exists>l. vocabs (mergeManagers a k ks w) = (vocabs w)(k \<mapsto> v\<lparr>localBlankNodeManager := l\<rparr>)"
    and "wordSets (mergeManagers a k ks w) = wordSets w"
proof -
  have "\<exists>l. vocabs (mergeManagers a k ks w) = (vocabs w)(k \<mapsto> v\<lparr>localBlankNodeManager := l\<rparr>) \<and>
      wordSets (mergeManagers a k ks w) = wordSets w"
  proof (rule mergeManagers_cases [OF assms, of ks a])
    assume none: "mergeManagers a k ks w = w"
    have "v\<lparr>localBlankNodeManager := localBlankNodeManager v\<rparr> = v" by simp
    then show ?thesis using assms unfolding none by (metis fun_upd_triv)
  qed auto
  then show "\<exists>l. vocabs (mergeManagers a k ks w) = (vocabs w)(k \<mapsto> v\<lparr>localBlankNodeManager := l\<rparr>)"
    and "wordSets (mergeManagers a k ks w) = wordSets w" by blast+
qed

lemma mergeWith_ok:
  assumes "lvOk w" "vocabs w k = Some v" "set ks \<subseteq> dom (vocabs w)" "k \<notin> set ks"
  shows "\<exists>w1 v1 v' w'. vocabsMerged k ks w w1 \<and> vocabs w1 k = Some v1 \<and> mergeWith e a k ks w = Inr w' \<and>
    w' = mergeManagers a k ks w1 \<and> lvOk w' \<and> vocabs w' k = Some v' \<and> wordSets w' = wordSets w \<and>
    lvSize v' = lvSize v1 \<and> set (getAllWordsForTesting w' v') = set (getAllWordsForTesting w v) \<union>
       (\<Union>i\<in>set ks. set (getAllWordsForTesting w (the (vocabs w i))))"
proof -
  obtain w1 where w1: "mergeWordSets e k ks w = Inr w1" "lvOk w1" "vocabsMerged k ks w w1"
    using mergeWordSets_ok [OF assms] by blast
  obtain v1 where v1: "vocabs w1 k = Some v1" by (rule vocabsMergedE [OF w1(3) assms(2)])
  obtain l where l: "vocabs (mergeManagers a k ks w1) = (vocabs w1)(k \<mapsto> v1\<lparr>localBlankNodeManager := l\<rparr>)"
    using mergeManagers_words(1) [OF v1] by blast
  have sets: "wordSets (mergeManagers a k ks w1) = wordSets w1" "wordSets w1 = wordSets w"
    using mergeManagers_words(2) [OF v1] w1(3) by (simp_all add: vocabsMerged_def)
  have words: "getAllWordsForTesting (mergeManagers a k ks w1) (v1\<lparr>localBlankNodeManager := l\<rparr>) =
      getAllWordsForTesting w1 v1"
    using getAllWords_cong [OF sets(1)] by (simp add: getAllWordsForTesting_def)
  show ?thesis
    by (rule exI [of _ w1], rule exI [of _ v1], rule exI [of _ "v1\<lparr>localBlankNodeManager := l\<rparr>"],
        rule exI [of _ "mergeManagers a k ks w1"])
      (use w1 v1 l sets words assms(2) mergeManagers_ok [OF w1(2) v1] in \<open>simp add: mergeWith_def vocabsMerged_def\<close>)
qed

section \<open>Steps of the program\<close>

lemma lvOk_drop:
  assumes "lvOk w"
  shows "lvOk (w\<lparr>bnW := bw, vocabs := (vocabs w)(k := None)\<rparr>)"
proof -
  have "lvOk (w\<lparr>bnW := bw\<rparr>\<lparr>vocabs := (vocabs w)(k := None)\<rparr>)"
  proof (rule lvOk_vocabsI)
    show "vocOk (w\<lparr>bnW := bw\<rparr>) x" if "((vocabs w)(k := None)) j = Some x" for j x
      using lvOkD(1) [OF assms] that by (auto split: if_splits)
    fix j j' x y assume *: "((vocabs w)(k := None)) j = Some x" "((vocabs w)(k := None)) j' = Some y"
    then have "vocabs w j = Some x" "vocabs w j' = Some y" by (auto split: if_splits)
    then show "primaryWordSet x = primaryWordSet y \<Longrightarrow> j = j'"
      "primaryWordSet y \<in> set (otherWordSets x) \<Longrightarrow> copied y" using lvOkD(2,3) [OF assms] by blast+
  qed
  then show ?thesis by simp
qed

lemma makeLocalVocab_fields [simp]:
  "vocabs (makeLocalVocab k a w) = (vocabs w)(k \<mapsto> \<lparr>primaryWordSet = a, otherWordSets = [], lvSize = 0,
     localBlankNodeManager = None, copied = False\<rparr>)"
  "wordSets (makeLocalVocab k a w) = (wordSets w)(a \<mapsto> [])"
  "bnW (makeLocalVocab k a w) = bnW w"
  by (simp_all add: makeLocalVocab_def)

lemma mergeWith_lvOk:
  assumes "lvOk w" "vocabs w k = Some v" "set ks \<subseteq> dom (vocabs w) - {k}" "mergeWith e a k ks w = Inr w'"
  shows "lvOk w'" "wordSets w' = wordSets w"
  using mergeWith_ok [OF assms(1,2), of ks e a] assms(3,4) by auto

lemma lvStep_ok:
  assumes "lvStep e w act w'" "lvOk w"
  shows "lvOk w'"
  using assms
proof (cases rule: lvStep.cases)
  case (newVocab k a)
  then show ?thesis using makeLocalVocab_ok [OF assms(2)] by simp
next
  case (addWord k v word i)
  then show ?thesis using addWord_ok [OF assms(2)] by blast
next
  case (mergeWith k v ks a)
  then show ?thesis using mergeWith_lvOk(1) [OF assms(2)] by blast
next
  case (clone k v k' a a')
  have ok: "lvOk (makeLocalVocab k' a w)" by (rule makeLocalVocab_ok [OF assms(2) clone(3,4)])
  have "mergeWith e a' k' [k] (makeLocalVocab k' a w) = Inr w'"
    using clone(6) by (auto simp: clone_def elim!: res_bind_InrE)
  then show ?thesis using clone by (intro mergeWith_lvOk(1) [OF ok]) auto
next
  case (mergeNew ks k' a a')
  have ok: "lvOk (makeLocalVocab k' a w)" by (rule makeLocalVocab_ok [OF assms(2) mergeNew(3,4)])
  have "mergeWith e a' k' ks (makeLocalVocab k' a w) = Inr w'" using mergeNew(6) by (simp add: mergeVocabs_def)
  moreover have "set ks \<subseteq> dom (vocabs (makeLocalVocab k' a w)) - {k'}" using mergeNew(2,3) by auto
  ultimately show ?thesis by (intro mergeWith_lvOk(1) [OF ok]) auto
next
  case (newBlankNode k v a i)
  then show ?thesis using lvOk_manager [OF assms(2)]
    by (auto simp: getBlankNodeIndex_def Let_def split: prod.splits option.splits sum.splits)
next
  case (dropVocab k v)
  then show ?thesis using lvOk_drop [OF assms(2), where bw = "bnW w" and k = k] by simp
next
  case (dropVocabManager k v l s)
  then show ?thesis using lvOk_drop [OF assms(2)] by blast
qed

lemma lvReachable_ok: "lvReachable e minIdx rand w \<Longrightarrow> lvOk w"
proof (induction rule: lvReachable.induct)
  case lvInit
  then show ?case by (simp add: initialVocabs_def lvOk_def)
next
  case (lvStep w act w')
  then show ?case using lvStep_ok by blast
qed

text \<open>Entries are never removed or moved.\<close>

lemma lvStep_words:
  assumes "lvStep e w act w'" "lvOk w"
  shows "set (wordsAt w a) \<subseteq> set (wordsAt w' a)"
proof -
  have new: "set (wordsAt w b) \<subseteq> set (wordsAt w' b)"
    if "wordSets w c = None" "wordSets w' = wordSets (makeLocalVocab k c w)" for k b c
    using that by (auto simp: wordsAt_def)
  from assms show ?thesis
  proof (cases rule: lvStep.cases)
    case (addWord k v word i)
    then show ?thesis
      by (auto simp: getIndexAndAddIfNotContained_def Let_def wordsAt_def elim!: res_bind_InrE)
  next
    case (mergeWith k v ks a)
    then have "wordSets w' = wordSets w" using mergeWith_lvOk(2) [OF assms(2)] by blast
    then show ?thesis by (simp add: wordsAt_def)
  next
    case (clone k v k' c a')
    have ok: "lvOk (makeLocalVocab k' c w)" by (rule makeLocalVocab_ok [OF assms(2) clone(3,4)])
    have m: "mergeWith e a' k' [k] (makeLocalVocab k' c w) = Inr w'"
      using clone(6) by (auto simp: clone_def elim!: res_bind_InrE)
    have "wordSets w' = wordSets (makeLocalVocab k' c w)"
      using clone(2,3) by (intro mergeWith_lvOk(2) [OF ok _ _ m]) auto
    then show ?thesis by (rule new [OF clone(4)])
  next
    case (mergeNew ks k' c a')
    have ok: "lvOk (makeLocalVocab k' c w)" by (rule makeLocalVocab_ok [OF assms(2) mergeNew(3,4)])
    have m: "mergeWith e a' k' ks (makeLocalVocab k' c w) = Inr w'" using mergeNew(6) by (simp add: mergeVocabs_def)
    have "set ks \<subseteq> dom (vocabs (makeLocalVocab k' c w)) - {k'}" using mergeNew(2,3) by auto
    then have "wordSets w' = wordSets (makeLocalVocab k' c w)"
      by (intro mergeWith_lvOk(2) [OF ok _ _ m]) auto
    then show ?thesis by (rule new [OF mergeNew(4)])
  next
    case (newBlankNode k v a i)
    then show ?thesis
      by (auto simp: getBlankNodeIndex_def Let_def wordsAt_def split: prod.splits option.splits sum.splits)
  qed (auto simp: wordsAt_def split: if_splits)
qed

section \<open>The blank nodes of the vocabularies\<close>

lemma absBn_vocabsMerged:
  assumes "vocabsMerged k ks w w1"
  shows "absBn w1 = absBn w"
proof -
  have "Option.bind (vocabs w1 i) localBlankNodeManager = Option.bind (vocabs w i) localBlankNodeManager" for i
  proof (cases "vocabs w i")
    case None
    then have "vocabs w1 i = None" using assms unfolding vocabsMerged_def by (metis domIff)
    then show ?thesis using None by simp
  next
    case (Some v)
    then show ?thesis using vocabsMergedE [OF assms Some] by (metis bind.bind_lunit)
  qed
  then show ?thesis using assms by (simp add: absBn_def vocabsMerged_def)
qed

lemma absBn_makeLocalVocab: "vocabs w k = None \<Longrightarrow> absBn (makeLocalVocab k a w) = absBn w"
  by (auto simp: absBn_def fun_eq_iff)

lemma absBn_manager:
  "absBn (w\<lparr>bnW := bw, vocabs := (vocabs w)(k \<mapsto> v\<lparr>localBlankNodeManager := Some l\<rparr>)\<rparr>) =
     \<lparr>world = bw, locals = (locals (absBn w))(k \<mapsto> l)\<rparr>"
  by (auto simp: absBn_def fun_eq_iff)

text \<open>Creating the manager if necessary is at most one step.\<close>

lemma ensureManager_reachable:
  assumes "bnReachable minIdx rand (absBn w)" "vocabs w k = Some v" "blocksStore (bnW w) a = None"
    "ensureManager a v (bnW w) = (l, bw)"
  shows "bnReachable minIdx rand \<lparr>world = bw, locals = (locals (absBn w))(k \<mapsto> l)\<rparr>"
proof (cases "localBlankNodeManager v")
  case None
  have "bnStep (absBn w) (Create k) \<lparr>world = bw, locals = (locals (absBn w))(k \<mapsto> l)\<rparr>"
    using assms None by (intro bnStep.create [of _ _ a]) (auto simp: absBn_def ensureManager_def)
  then show ?thesis by (rule bnReachable.step [OF assms(1)])
next
  case (Some l')
  then have "\<lparr>world = bw, locals = (locals (absBn w))(k \<mapsto> l)\<rparr> = absBn w"
    using assms(2,4) by (auto simp: ensureManager_def absBn_def fun_eq_iff)
  then show ?thesis using assms(1) by simp
qed

lemma mergeManagers_reachable:
  assumes "bnReachable minIdx rand (absBn w)" "vocabs w k = Some v" "blocksStore (bnW w) a = None"
    "set ks \<subseteq> dom (vocabs w) - {k}"
  shows "bnReachable minIdx rand (absBn (mergeManagers a k ks w))"
proof (rule mergeManagers_cases [OF assms(2), of ks a])
  fix l bw
  let ?view = "map (\<lambda>i. localBlankNodeManager (the (vocabs w i))) ks"
  assume ens: "ensureManager a v (bnW w) = (l, bw)"
    and m: "mergeManagers a k ks w = w\<lparr>bnW := bw, vocabs := (vocabs w)(k \<mapsto> v\<lparr>localBlankNodeManager :=
         Some (mergeLocal ?view l)\<rparr>)\<rparr>"
  let ?s = "\<lparr>world = bw, locals = (locals (absBn w))(k \<mapsto> l)\<rparr>"
  have view: "map (locals ?s) ks = ?view" using assms(4) by (auto simp: absBn_def)
  have "bnStep ?s (Merge k ks) (?s\<lparr>locals := (locals ?s)(k \<mapsto> mergeLocal (map (locals ?s) ks) l)\<rparr>)"
    using assms(4) by (intro bnStep.merge) auto
  then have "bnStep ?s (Merge k ks) (absBn (mergeManagers a k ks w))"
    unfolding view m absBn_manager by simp
  then show ?thesis
    by (rule bnReachable.step [OF ensureManager_reachable [OF assms(1-3) ens]])
qed (use assms(1) in simp)

lemma mergeWith_reachable:
  assumes "lvOk w" "bnReachable minIdx rand (absBn w)" "vocabs w k = Some v" "blocksStore (bnW w) a = None"
    "set ks \<subseteq> dom (vocabs w) - {k}" "mergeWith e a k ks w = Inr w'"
  shows "bnReachable minIdx rand (absBn w')"
proof -
  obtain w1 v1 where w1: "vocabsMerged k ks w w1" "vocabs w1 k = Some v1" "w' = mergeManagers a k ks w1"
    using mergeWith_ok [OF assms(1,3), of ks e a] assms(5,6) by auto
  then have "bnW w1 = bnW w" "dom (vocabs w1) = dom (vocabs w)" by (simp_all add: vocabsMerged_def)
  then show ?thesis unfolding w1(3)
    using mergeManagers_reachable [OF _ w1(2)] absBn_vocabsMerged [OF w1(1)] assms(2,4,5) by simp
qed

lemma lvStep_bn:
  assumes "lvStep e w act w'" "lvOk w" "bnReachable minIdx rand (absBn w)"
  shows "bnReachable minIdx rand (absBn w')"
  using assms(1)
proof (cases rule: lvStep.cases)
  case (newVocab k a)
  then show ?thesis using assms(3) absBn_makeLocalVocab by metis
next
  case (addWord k v word i)
  then have "absBn w' = absBn w"
    by (auto simp: getIndexAndAddIfNotContained_def Let_def absBn_def fun_eq_iff elim!: res_bind_InrE)
  then show ?thesis using assms(3) by simp
next
  case (mergeWith k v ks a)
  then show ?thesis using mergeWith_reachable [OF assms(2,3)] by blast
next
  case (clone k v k' a a')
  have ok: "lvOk (makeLocalVocab k' a w)" by (rule makeLocalVocab_ok [OF assms(2) clone(3,4)])
  have "mergeWith e a' k' [k] (makeLocalVocab k' a w) = Inr w'"
    using clone(6) by (auto simp: clone_def elim!: res_bind_InrE)
  then show ?thesis
    using clone(2,3,5) assms(3) by - (rule mergeWith_reachable [OF ok], auto simp: absBn_makeLocalVocab)
next
  case (mergeNew ks k' a a')
  have ok: "lvOk (makeLocalVocab k' a w)" by (rule makeLocalVocab_ok [OF assms(2) mergeNew(3,4)])
  have "mergeWith e a' k' ks (makeLocalVocab k' a w) = Inr w'" using mergeNew(6) by (simp add: mergeVocabs_def)
  moreover have "set ks \<subseteq> dom (vocabs (makeLocalVocab k' a w)) - {k'}" using mergeNew(2,3) by auto
  ultimately show ?thesis
    using mergeNew(3,5) assms(3) by - (rule mergeWith_reachable [OF ok], auto simp: absBn_makeLocalVocab)
next
  case (newBlankNode k v a i)
  obtain l bw where ens: "ensureManager a v (bnW w) = (l, bw)" by (cases "ensureManager a v (bnW w)")
  then obtain l' bw' where g: "getId l bw = Some (Inr (i, l', bw'))"
    and w': "w' = w\<lparr>bnW := bw', vocabs := (vocabs w)(k \<mapsto> v\<lparr>localBlankNodeManager := Some l'\<rparr>)\<rparr>"
    using newBlankNode(2,4) by (auto simp: getBlankNodeIndex_def Let_def split: option.splits sum.splits)
  let ?s = "\<lparr>world = bw, locals = (locals (absBn w))(k \<mapsto> l)\<rparr>"
  have "bnStep ?s (GetId k i) \<lparr>world = bw', locals = (locals ?s)(k \<mapsto> l')\<rparr>"
    using g by (intro bnStep.get) auto
  then have "bnStep ?s (GetId k i) (absBn w')" unfolding w' absBn_manager by simp
  then show ?thesis
    by (rule bnReachable.step [OF ensureManager_reachable [OF assms(3) newBlankNode(2,3) ens]])
next
  case (dropVocab k v)
  then have "absBn w' = absBn w" by (auto simp: absBn_def fun_eq_iff)
  then show ?thesis using assms(3) by simp
next
  case (dropVocabManager k v l s)
  have "locals s = (locals (absBn w))(k := None)" using dropVocabManager(5) by (cases rule: bnStep.cases) auto
  then have "absBn w' = s" using dropVocabManager(2) by (auto simp: absBn_def fun_eq_iff)
  then show ?thesis using dropVocabManager(5) bnReachable.step [OF assms(3)] by blast
qed

lemma lvReachable_bn: "lvReachable e minIdx rand w \<Longrightarrow> bnReachable minIdx rand (absBn w)"
proof (induction rule: lvReachable.induct)
  case lvInit
  have "absBn (initialVocabs minIdx rand :: 'a lvWorld) = initialSystem minIdx rand"
    by (simp add: absBn_def initialVocabs_def initialSystem_def)
  then show ?case by (simp add: bnReachable.init)
next
  case (lvStep w act w')
  then show ?case using lvStep_bn lvReachable_ok by blast
qed

lemma words_sum:
  assumes "distinct (allSets v)"
  shows "length (getAllWordsForTesting w v) = (\<Sum>a\<in>set (allSets v). length (wordsAt w a))"
  using assms by (simp add: getAllWords_length allSets_def sum_list_distinct_conv_sum_set)

text \<open>The clone has all sets of the original besides its own empty one, so the sizes agree.\<close>

lemma clone_mergeStep:
  assumes "lvOk w" "vocabs w k = Some v" "vocabs w k' = None" "wordSets w a = None"
    and "getAllWordsForTesting w v \<noteq> []"
  shows "\<exists>c. vocabs (mergeStep k' k (makeLocalVocab k' a w)) k' = Some c \<and> lvSize c = lvSize v \<and>
    \<not> copied c \<and> primaryWordSet c = a \<and> copied (the (vocabs (mergeStep k' k (makeLocalVocab k' a w)) k)) \<and>
    lvSize (the (vocabs (mergeStep k' k (makeLocalVocab k' a w)) k)) = lvSize v"
proof -
  let ?w = "makeLocalVocab k' a w"
  have ne: "k \<noteq> k'" using assms by auto
  have ok: "lvOk ?w" by (rule makeLocalVocab_ok [OF assms(1,3,4)])
  obtain v0 where v0: "vocabs ?w k' = Some v0" "primaryWordSet v0 = a" "allSets v0 = [a]" "\<not> copied v0"
    by (simp add: allSets_def)
  have v: "vocabs ?w k = Some v" using assms(2) ne by simp
  obtain c where c: "mergeStep k' k ?w = ?w\<lparr>vocabs := (vocabs ?w)(k \<mapsto> v\<lparr>copied := True\<rparr>, k' \<mapsto> c)\<rparr>" "vocOk ?w c"
    "primaryWordSet c = a" "copied c = copied v0" "set (allSets c) = set (allSets v) \<union> {a}"
    using mergeStep_vocabs [OF ok v0(1) v ne] v0(2,3) by (metis list.simps(15) list.set(1))
  have old: "vocOk w v" "a \<notin> set (allSets v)" using lvOkD(1) [OF assms(1,2)] assms(4) by (auto simp: vocOk_def)
  have "wordsAt ?w b = wordsAt w b" if "b \<noteq> a" for b using that by (simp add: wordsAt_def)
  moreover have "wordsAt ?w a = []" by (simp add: wordsAt_def)
  ultimately have "(\<Sum>b\<in>set (allSets c). length (wordsAt ?w b)) = (\<Sum>b\<in>set (allSets v). length (wordsAt w b))"
    using old(2) by (simp add: c(5)) (rule sum.cong, use old(2) in \<open>auto simp: wordsAt_def\<close>)
  then have "lvSize c = lvSize v" using c(2) old(1) by (simp add: vocOk_def words_sum)
  then show ?thesis using c v0 ne by simp
qed

lemma clone_succeeds_lvOk:
  assumes "lvOk w" "vocabs w k = Some v" "vocabs w k' = None" "wordSets w a = None"
  shows "\<exists>w' c. clone e k k' a a' w = Inr w' \<and> vocabs w' k' = Some c \<and> lvSize c = lvSize v \<and> \<not> copied c \<and>
    primaryWordSet c = a \<and> wordsAt w' a = [] \<and>
    set (getAllWordsForTesting w' c) = set (getAllWordsForTesting w v) \<and>
    (getAllWordsForTesting w v \<noteq> [] \<longrightarrow> copied (the (vocabs w' k)))"
proof -
  let ?w = "makeLocalVocab k' a w"
  have ne: "k \<noteq> k'" using assms by auto
  have ok: "lvOk ?w" by (rule makeLocalVocab_ok [OF assms(1,3,4)])
  obtain v0 where v0: "vocabs ?w k' = Some v0" "v0 = \<lparr>primaryWordSet = a, otherWordSets = [], lvSize = 0,
      localBlankNodeManager = None, copied = False\<rparr>" by simp
  have vs: "set [k] \<subseteq> dom (vocabs ?w)" "k' \<notin> set [k]" using assms(2) ne by auto
  have words: "getAllWordsForTesting ?w v = getAllWordsForTesting w v" "getAllWordsForTesting ?w v0 = []"
  proof -
    have "a \<notin> set (allSets v)" using lvOkD(1) [OF assms(1,2)] assms(4) by (auto simp: vocOk_def)
    then show "getAllWordsForTesting ?w v = getAllWordsForTesting w v"
      by (auto simp: getAllWordsForTesting_def wordsAt_def allSets_def intro!: arg_cong [of _ _ concat])
  qed (simp add: v0(2) getAllWordsForTesting_def wordsAt_def)
  have empty: "emptyVocab e ?w v = Inr (getAllWordsForTesting w v = [])"
    using sizeOf_ok [OF lvOkD(1) [OF ok], of k v e] assms(2) ne words by (simp add: emptyVocab_def)
  obtain w1 where w1: "mergeWordSets e k' [k] ?w = Inr w1"
      "w1 = (if getAllWordsForTesting w v = [] then ?w else mergeStep k' k ?w)"
    using empty assms(2) ne by (simp add: mergeStep_def Let_def)
  have "\<exists>c. vocabs w1 k' = Some c \<and> lvSize c = lvSize v \<and> \<not> copied c \<and> primaryWordSet c = a \<and>
      (getAllWordsForTesting w v \<noteq> [] \<longrightarrow> copied (the (vocabs w1 k))) \<and> lvSize (the (vocabs w1 k)) = lvSize v"
  proof (cases "getAllWordsForTesting w v = []")
    case True
    then have "lvSize v = 0" using lvOkD(1) [OF assms(1,2)] by (simp add: vocOk_def)
    then show ?thesis using True w1(2) v0 assms(2) ne by simp
  next
    case False
    then show ?thesis using clone_mergeStep [OF assms False] w1(2) by auto
  qed
  then obtain c where c: "vocabs w1 k' = Some c" "lvSize c = lvSize v" "\<not> copied c" "primaryWordSet c = a"
      "getAllWordsForTesting w v \<noteq> [] \<longrightarrow> copied (the (vocabs w1 k))" "lvSize (the (vocabs w1 k)) = lvSize v" by blast
  obtain w' v' where w': "mergeWith e a' k' [k] ?w = Inr w'" "vocabs w' k' = Some v'" "wordSets w' = wordSets ?w"
      "set (getAllWordsForTesting w' v') = set (getAllWordsForTesting ?w v0) \<union>
        (\<Union>i\<in>set [k]. set (getAllWordsForTesting ?w (the (vocabs ?w i))))"
    using mergeWith_ok [OF ok v0(1) vs, of e a'] by blast
  have "w' = mergeManagers a' k' [k] w1" using w'(1) w1(1) by (simp add: mergeWith_def)
  then obtain l where l: "vocabs w' = (vocabs w1)(k' \<mapsto> c\<lparr>localBlankNodeManager := l\<rparr>)"
    using mergeManagers_words(1) [OF c(1)] by blast
  have v': "v' = c\<lparr>localBlankNodeManager := l\<rparr>" using l w'(2) by simp
  then have "clone e k k' a a' w = Inr w'" using w'(1,2) l c(2,6) ne by (simp add: clone_def)
  moreover have "wordsAt w' a = []" using w'(3) by (simp add: wordsAt_def)
  ultimately show ?thesis
    using w'(2,4) v' l c(2-5) ne words assms(2)
    by (intro exI [of _ w'] exI [of _ "c\<lparr>localBlankNodeManager := l\<rparr>"]) auto
qed


section \<open>An example run\<close>

text \<open>Two vocabularies with the same word; the first one is merged into the second.\<close>

definition exampleVocabs :: "nat lvWorld" where
  "exampleVocabs = \<lparr>wordSets = [0 \<mapsto> [7], 1 \<mapsto> []],
     vocabs = [0 \<mapsto> \<lparr>primaryWordSet = 0, otherWordSets = [], lvSize = 1, localBlankNodeManager = None, copied = True\<rparr>,
       1 \<mapsto> \<lparr>primaryWordSet = 1, otherWordSets = [0], lvSize = 1, localBlankNodeManager = None, copied = False\<rparr>],
     bnW = world (initialSystem exampleMin exampleRand)\<rparr>"

lemma exampleVocabs_reachable: "lvReachable True exampleMin exampleRand exampleVocabs"
proof -
  let ?v = "\<lambda>a. \<lparr>primaryWordSet = a, otherWordSets = [], lvSize = 0, localBlankNodeManager = None, copied = False\<rparr>"
  let ?bw = "world (initialSystem exampleMin exampleRand)"
  let ?w0 = "initialVocabs exampleMin exampleRand :: nat lvWorld"
  let ?w1 = "\<lparr>wordSets = [0 \<mapsto> []], vocabs = [0 \<mapsto> ?v 0], bnW = ?bw\<rparr> :: nat lvWorld"
  let ?w2 = "\<lparr>wordSets = [0 \<mapsto> [7]], vocabs = [0 \<mapsto> (?v 0)\<lparr>lvSize := 1\<rparr>], bnW = ?bw\<rparr> :: nat lvWorld"
  let ?w3 = "\<lparr>wordSets = [0 \<mapsto> [7], 1 \<mapsto> []], vocabs = [0 \<mapsto> (?v 0)\<lparr>lvSize := 1\<rparr>, 1 \<mapsto> ?v 1], bnW = ?bw\<rparr> :: nat lvWorld"
  have "lvStep True ?w0 (NewVocab 0) (makeLocalVocab 0 0 ?w0)"
    by (rule lvStep.newVocab) (simp_all add: initialVocabs_def)
  then have "lvStep True ?w0 (NewVocab 0) ?w1" by (simp add: initialVocabs_def makeLocalVocab_def)
  moreover have "lvStep True ?w1 (AddWord 0 7 (0, 7)) ?w2"
    by (rule lvStep.addWord) (auto simp: getIndexAndAddIfNotContained_def wordsAt_def)
  moreover have "lvStep True ?w2 (NewVocab 1) (makeLocalVocab 1 1 ?w2)"
    by (rule lvStep.newVocab) simp_all
  then have "lvStep True ?w2 (NewVocab 1) ?w3" by (simp add: makeLocalVocab_def)
  moreover have "mergeWith True 5 1 [0] ?w3 = Inr exampleVocabs"
    by (simp add: exampleVocabs_def mergeWith_def emptyVocab_def sizeOf_def wordsAt_def addWordSet_def
        mergeManagers_def Let_def fun_upd_twist)
  then have "lvStep True ?w3 (MergeWith 1 [0]) exampleVocabs"
    by (intro lvStep.mergeWith [of _ _ "?v 1" _ 5]) (simp_all add: initialSystem_def)
  ultimately show ?thesis by (meson lvReachable.intros)
qed

section \<open>Properties\<close>

text \<open>C21: In every reachable state the cached size of every local vocabulary is the number of words of all
  its sets, so the check of \<open>size()\<close> does not fail, and cloning always succeeds: the clone has the size
  and the words of the original, an empty primary set of its own that may grow, and a non-empty
  original is marked as copied.\<close>

theorem localVocab_size_and_clone:
  assumes "lvReachable e minIdx rand w" "vocabs w k = Some v" "vocabs w k' = None" "wordSets w a = None"
  shows "sizeOf True w v = Inr (length (getAllWordsForTesting w v)) \<and>
    (\<exists>w' c. clone e k k' a a' w = Inr w' \<and> vocabs w' k' = Some c \<and> lvSize c = lvSize v \<and> \<not> copied c \<and>
      primaryWordSet c = a \<and> wordsAt w' a = [] \<and>
      set (getAllWordsForTesting w' c) = set (getAllWordsForTesting w v) \<and>
      (getAllWordsForTesting w v \<noteq> [] \<longrightarrow> copied (the (vocabs w' k))))"
  using sizeOf_ok [OF lvOkD(1) [OF lvReachable_ok [OF assms(1)] assms(2)]]
    clone_succeeds_lvOk [OF lvReachable_ok [OF assms(1)] assms(2-4)] by blast

lemma localVocab_size_and_clone_witness:
  "\<exists>w' c. clone True 1 2 2 9 exampleVocabs = Inr w' \<and> vocabs w' 2 = Some c \<and> lvSize c = 1"
  using localVocab_size_and_clone
    [OF exampleVocabs_reachable, of 1 "the (vocabs exampleVocabs 1)" 2 2 9]
  by (auto simp: exampleVocabs_def)



text \<open>Adding a word looks only at the primary set: a word that another set of the vocabulary already
  contains is not found, gets a second entry with a different index and is counted twice.\<close>

theorem getIndex_ignores_other_sets:
  assumes "lvReachable e minIdx rand w" "vocabs w k = Some v" "\<not> copied v" "a \<in> set (otherWordSets v)"
    and "word \<in> set (wordsAt w a)" "word \<notin> set (wordsAt w (primaryWordSet v))"
  shows "getIndexOrNullopt w v word = None \<and>
    (\<exists>i w'. getIndexAndAddIfNotContained k word w = Inr (i, w') \<and> i \<noteq> (a, word) \<and>
      getWord w (a, word) = Some word \<and> lvSize (the (vocabs w' k)) = lvSize v + 1)"
proof -
  have "a \<noteq> primaryWordSet v"
    using lvOkD(1) [OF lvReachable_ok [OF assms(1)] assms(2)] assms(4) by (auto simp: vocOk_def allSets_def)
  then show ?thesis using assms
    by (auto simp: getIndexOrNullopt_def getIndexAndAddIfNotContained_def getWord_def Let_def)
qed

lemma getIndex_ignores_other_sets_witness:
  "\<exists>i w'. getIndexAndAddIfNotContained 1 7 exampleVocabs = Inr (i, w') \<and> i \<noteq> (0, 7) \<and>
     getWord exampleVocabs (0, 7) = Some 7 \<and> lvSize (the (vocabs w' 1)) = 2"
  using getIndex_ignores_other_sets [OF exampleVocabs_reachable, of 1 "the (vocabs exampleVocabs 1)" 0 7]
  by (auto simp: exampleVocabs_def wordsAt_def)

text \<open>C23: The blank node managers of the vocabularies behave like the system of managers of
  \<open>BlankNodeManager\<close> in every reachable state, so a blank node index that a vocabulary creates lies in the
  range of runtime indices, is contained in no vocabulary before, and is contained in its vocabulary
  afterwards.\<close>

theorem localVocab_blank_nodes:
  assumes "minIdx \<le> unat maxIndex" "\<forall>i\<in>sset rand. i < totalAvailableBlocks minIdx"
    and "lvReachable e minIdx rand w" "lvStep e w (NewBlankNode k i) w'"
  shows "bnReachable minIdx rand (absBn w) \<and> bnReachable minIdx rand (absBn w') \<and>
    minIdx \<le> i \<and> i \<le> unat maxIndex \<and>
    (\<forall>k' v'. vocabs w k' = Some v' \<longrightarrow> \<not> isBlankNodeIndexContained w v' i) \<and>
    isBlankNodeIndexContained w' (the (vocabs w' k)) i"
proof -
  have r: "bnReachable minIdx rand (absBn w)" "bnReachable minIdx rand (absBn w')"
    using assms(3,4) lvReachable_bn lvReachable.lvStep by blast+
  obtain v a where v: "vocabs w k = Some v" "blocksStore (bnW w) a = None" "getBlankNodeIndex a k w = Some (Inr (i, w'))"
    using assms(4) by (cases rule: lvStep.cases) auto
  obtain l bw where ens: "ensureManager a v (bnW w) = (l, bw)" by (cases "ensureManager a v (bnW w)")
  then obtain l' bw' where g: "getId l bw = Some (Inr (i, l', bw'))"
    and w': "w' = w\<lparr>bnW := bw', vocabs := (vocabs w)(k \<mapsto> v\<lparr>localBlankNodeManager := Some l'\<rparr>)\<rparr>"
    using v(1,3) by (auto simp: getBlankNodeIndex_def Let_def split: option.splits sum.splits)
  let ?s = "\<lparr>world = bw, locals = (locals (absBn w))(k \<mapsto> l)\<rparr>"
  have rs: "bnReachable minIdx rand ?s" by (rule ensureManager_reachable [OF r(1) v(1,2) ens])
  have ok: "systemOk ?s" using reachable_ok [OF rs assms(1,2)] by simp
  have l: "locals ?s k = Some l" by simp
  note spec = getId_spec [OF systemOkD(1) [OF ok, simplified] systemOkD(2) [OF ok l, simplified] g]
  have min: "minIndex (blankNodeManager bw) = minIdx" using reachable_rand [OF rs assms(1,2)] by simp
  have same: "holds bw b j" if "holds (bnW w) b j" for b j
    using that ens v(2) by (auto simp: ensureManager_def makeLocalBlankNodeManager_def holds_def blocksAt_def split: option.splits if_splits)
  have "\<not> isBlankNodeIndexContained w v' i" if "vocabs w k' = Some v'" for k' v'
    using spec(7) same by (auto simp: isBlankNodeIndexContained_def containsBlankNodeIndex_holds split: option.splits)
  moreover have "isBlankNodeIndexContained w' (the (vocabs w' k)) i"
    using spec(3,8) by (auto simp: isBlankNodeIndexContained_def w' containsBlankNodeIndex_holds refs_def)
  ultimately show ?thesis using r spec(5,6) min by simp
qed

lemma localVocab_blank_nodes_witness:
  "\<exists>w'. lvStep True exampleVocabs (NewBlankNode 1 exampleMin) w' \<and>
     isBlankNodeIndexContained w' (the (vocabs w' 1)) exampleMin"
proof -
  have "shd exampleRand = 0" by (simp add: exampleRand_def upt_rec)
  then have "drawUnused {} exampleRand = Some (0, stl exampleRand)" by (subst drawUnused.simps) simp
  then obtain w' where "getBlankNodeIndex 3 1 exampleVocabs = Some (Inr (exampleMin, w'))"
    by (simp add: getBlankNodeIndex_def exampleVocabs_def ensureManager_def makeLocalBlankNodeManager_def
        getId_def blocksAt_def allocateBlock_def initialSystem_def makeBlankNodeManager_def example_total
        makeBlock_def Let_def)
  then have "lvStep True exampleVocabs (NewBlankNode 1 exampleMin) w'"
    by (intro lvStep.newBlankNode [of _ _ "the (vocabs exampleVocabs 1)" 3])
      (simp_all add: exampleVocabs_def initialSystem_def)
  then show ?thesis
    using localVocab_blank_nodes [OF example_total(1) example_rand(1) exampleVocabs_reachable] by blast
qed

end
