(* ===== verification/DeltaTriples.thy ===== *)
theory DeltaTriples
  imports LocatedTriples LocalVocab
begin

text \<open>
  Models \<open>src/index/DeltaTriples.{h,cpp}\<close> and \<open>src/util/Serializer/TripleSerializer.h\<close>: the triples
  inserted into and deleted from an index after it was built. Ids are elements of a linear order; the
  record \<open>IdOps\<close> says which ids are local vocabulary entries or blank nodes and how such ids are made.
  The blocks of the six permutations of the index are an argument. An exception can leave a changed
  state behind, so the operations that can throw return the error together with the state. The
  checks for cancellation are an argument that says at which of them the cancellation is noticed.
\<close>

section \<open>Permutations\<close>

datatype Permutation = PSO | POS | SPO | SOP | OPS | OSP

definition allPermutations :: "Permutation list" where
  "allPermutations = [PSO, POS, SPO, SOP, OPS, OSP]"

fun toKeyOrder :: "Permutation \<Rightarrow> KeyOrder" where
  "toKeyOrder POS = [1, 2, 0, 3]"
| "toKeyOrder PSO = [1, 0, 2, 3]"
| "toKeyOrder SOP = [0, 2, 1, 3]"
| "toKeyOrder SPO = [0, 1, 2, 3]"
| "toKeyOrder OPS = [2, 1, 0, 3]"
| "toKeyOrder OSP = [2, 0, 1, 3]"

section \<open>State\<close>

type_synonym 'id LocatedTripleHandles = "Permutation \<Rightarrow> 'id LocatedTriple"
type_synonym 'id TriplesToHandlesMap = "'id IdTriple \<rightharpoonup> 'id LocatedTripleHandles"
type_synonym 'id AllPermutations = "Permutation \<Rightarrow> 'id LocatedTriplesPerBlock"

record 'id DeltaTriples =
  nextSnapshotIndex :: nat
  locatedTriples :: "'id AllPermutations"
  localVocab :: nat
  filenameForPersisting :: "string option"
  triplesInserted :: "'id TriplesToHandlesMap"
  triplesDeleted :: "'id TriplesToHandlesMap"

definition forPermutation :: "'id LocatedTripleHandles \<Rightarrow> Permutation \<Rightarrow> 'id LocatedTriple" where
  "forPermutation handles permutation = handles permutation"

definition clearDelta :: "'id DeltaTriples \<Rightarrow> 'id DeltaTriples" where
  "clearDelta d = d\<lparr>triplesInserted := Map.empty, triplesDeleted := Map.empty,
     locatedTriples := (\<lambda>p. clearLocated (locatedTriples d p))\<rparr>"

section \<open>Locating and erasing\<close>

text \<open>The triples that \<open>add\<close> has inserted when its check fails.\<close>

fun addPrefix :: "('id::linorder) LocatedTriple list \<Rightarrow> 'id LocatedTriplesPerBlock \<Rightarrow> 'id LocatedTriplesPerBlock" where
  "addPrefix [] l = l"
| "addPrefix (lt # lts) l =
     (let (block, wasInserted) = emplace lt (case ltMap l (ltBlock lt) of None \<Rightarrow> [] | Some b \<Rightarrow> b) in
      if \<not> wasInserted then l
      else addPrefix lts (l\<lparr>ltMap := (ltMap l)(ltBlock lt \<mapsto> block), numTriples := numTriples l + 1\<rparr>))"

type_synonym cancellation = "Permutation \<Rightarrow> bool \<times> bool"
type_synonym 'id blockData = "Permutation \<Rightarrow> 'id CompressedBlockMetadata list"

fun locateLoop ::
    "cancellation \<Rightarrow> ('id::linorder) blockData \<Rightarrow> 'id IdTriple list \<Rightarrow> bool \<Rightarrow> Permutation list \<Rightarrow>
     (Permutation \<Rightarrow> 'id LocatedTriple list) \<Rightarrow> 'id AllPermutations \<Rightarrow>
     error option \<times> (Permutation \<Rightarrow> 'id LocatedTriple list) \<times> 'id AllPermutations" where
  "locateLoop c blocks triples ins [] intermediateHandles L = (None, intermediateHandles, L)"
| "locateLoop c blocks triples ins (p # ps) intermediateHandles L =
     (let lts = locateTriplesInPermutation triples (blocks p) (toKeyOrder p) ins in
      if fst (c p) then (Some CancellationException, intermediateHandles, L)
      else case add lts (L p) of
          Inl e \<Rightarrow> (Some e, intermediateHandles, L(p := addPrefix lts (L p)))
        | Inr (hs, l) \<Rightarrow>
            if snd (c p) then (Some CancellationException, intermediateHandles(p := hs), L(p := l))
            else locateLoop c blocks triples ins ps (intermediateHandles(p := hs)) (L(p := l)))"

definition locateAndAddTriples ::
    "cancellation \<Rightarrow> ('id::linorder) blockData \<Rightarrow> 'id IdTriple list \<Rightarrow> bool \<Rightarrow> 'id AllPermutations \<Rightarrow>
     error option \<times> 'id LocatedTripleHandles list \<times> 'id AllPermutations" where
  "locateAndAddTriples c blocks triples ins L =
     (let (e, intermediateHandles, L) = locateLoop c blocks triples ins allPermutations (\<lambda>_. []) L
      in (e, map (\<lambda>i p. intermediateHandles p ! i) [0..<length triples], L))"

fun eraseLoop :: "'id LocatedTripleHandles \<Rightarrow> Permutation list \<Rightarrow> 'id AllPermutations \<Rightarrow> error option \<times> 'id AllPermutations" where
  "eraseLoop handles [] L = (None, L)"
| "eraseLoop handles (p # ps) L =
     (let ltIter = forPermutation handles p in
      case eraseLocated (ltBlock ltIter) ltIter (L p) of
        Inl e \<Rightarrow> (Some e, L)
      | Inr l \<Rightarrow> eraseLoop handles ps (L(p := l)))"

definition eraseTripleInAllPermutations ::
    "'id LocatedTripleHandles \<Rightarrow> 'id AllPermutations \<Rightarrow> error option \<times> 'id AllPermutations" where
  "eraseTripleInAllPermutations handles L = eraseLoop handles allPermutations L"

section \<open>Local vocabulary and blank nodes\<close>

datatype 'w IdView = LocalVocabId "'w LocalVocabIndex" | BlankNodeId nat | OtherId

record ('id, 'w) IdOps =
  idView :: "'id \<Rightarrow> 'w IdView"
  idFromLocalVocabIndex :: "'w LocalVocabIndex \<Rightarrow> 'id"
  idFromBlankNodeIndex :: "nat \<Rightarrow> 'id"

type_synonym ('id, 'w) rewriteState = "('id \<rightharpoonup> 'id) \<times> 'w lvWorld"

text \<open>\<open>k\<close> is the local vocabulary of the delta triples, \<open>a\<close> an unused address for its blank nodes.\<close>

definition getLocalBlankNode ::
    "('id, 'w) IdOps \<Rightarrow> nat \<Rightarrow> nat \<Rightarrow> 'id \<Rightarrow> ('id, 'w) rewriteState \<Rightarrow> ('id \<times> ('id, 'w) rewriteState) result option" where
  "getLocalBlankNode ops a k i s =
     (let (blankNodeMap, w) = s in
      case blankNodeMap i of
        Some i' \<Rightarrow> Some (Inr (i', s))
      | None \<Rightarrow> (case LocalVocab.getBlankNodeIndex a k w of
            None \<Rightarrow> None
          | Some (Inl e) \<Rightarrow> Some (Inl e)
          | Some (Inr (b, w)) \<Rightarrow>
              let i' = idFromBlankNodeIndex ops b in Some (Inr (i', blankNodeMap(i \<mapsto> i'), w))))"

definition isGlobalBlankNode :: "'w lvWorld \<Rightarrow> nat \<Rightarrow> bool" where
  "isGlobalBlankNode w blankNodeIndex \<longleftrightarrow> blankNodeIndex < minIndex (blankNodeManager (bnW w))"

definition convertId ::
    "('id, 'w) IdOps \<Rightarrow> nat \<Rightarrow> nat \<Rightarrow> 'id \<Rightarrow> ('id, 'w) rewriteState \<Rightarrow> ('id \<times> ('id, 'w) rewriteState) result option" where
  "convertId ops a k i s =
     (let (blankNodeMap, w) = s in
      case idView ops i of
        LocalVocabId entry \<Rightarrow>
          (case getIndexAndAddIfNotContained k (snd entry) w of
             Inl e \<Rightarrow> Some (Inl e)
           | Inr (index, w) \<Rightarrow> Some (Inr (idFromLocalVocabIndex ops index, blankNodeMap, w)))
      | BlankNodeId idx \<Rightarrow>
          if isGlobalBlankNode w idx \<or> isBlankNodeIndexContained w (the (vocabs w k)) idx
          then Some (Inr (i, s)) else getLocalBlankNode ops a k i s
      | OtherId \<Rightarrow> Some (Inr (i, s)))"

text \<open>A loop over a vector whose body may throw or not return.\<close>

fun forEach :: "('a \<Rightarrow> 's \<Rightarrow> ('b \<times> 's) result option) \<Rightarrow> 'a list \<Rightarrow> 's \<Rightarrow> ('b list \<times> 's) result option" where
  "forEach f [] s = Some (Inr ([], s))"
| "forEach f (x # xs) s =
     (case f x s of
        None \<Rightarrow> None
      | Some (Inl e) \<Rightarrow> Some (Inl e)
      | Some (Inr (y, s)) \<Rightarrow>
          (case forEach f xs s of
             None \<Rightarrow> None
           | Some (Inl e) \<Rightarrow> Some (Inl e)
           | Some (Inr (ys, s)) \<Rightarrow> Some (Inr (y # ys, s))))"

definition rewriteLocalVocabEntriesAndBlankNodes ::
    "('id, 'w) IdOps \<Rightarrow> nat \<Rightarrow> nat \<Rightarrow> 'id IdTriple list \<Rightarrow> 'w lvWorld \<Rightarrow> ('id IdTriple list \<times> 'w lvWorld) result option" where
  "rewriteLocalVocabEntriesAndBlankNodes ops a k triples w =
     (case forEach (forEach (convertId ops a k)) triples (Map.empty, w) of
        None \<Rightarrow> None
      | Some (Inl e) \<Rightarrow> Some (Inl e)
      | Some (Inr (triples, _, w)) \<Rightarrow> Some (Inr (triples, w)))"

section \<open>Modifying\<close>

fun eraseInverse ::
    "'id IdTriple list \<Rightarrow> 'id TriplesToHandlesMap \<Rightarrow> 'id AllPermutations \<Rightarrow>
     error option \<times> 'id TriplesToHandlesMap \<times> 'id AllPermutations" where
  "eraseInverse [] inverseMap L = (None, inverseMap, L)"
| "eraseInverse (t # ts) inverseMap L =
     (case inverseMap t of
        None \<Rightarrow> eraseInverse ts inverseMap L
      | Some handle \<Rightarrow>
          (case eraseTripleInAllPermutations handle L of
             (Some e, L) \<Rightarrow> (Some e, inverseMap, L)
           | (None, L) \<Rightarrow> eraseInverse ts (inverseMap(t := None)) L))"

fun insertHandles :: "'id IdTriple list \<Rightarrow> 'id LocatedTripleHandles list \<Rightarrow> 'id TriplesToHandlesMap \<Rightarrow> 'id TriplesToHandlesMap" where
  "insertHandles (t # ts) (h # hs) targetMap =
     insertHandles ts hs (if targetMap t = None then targetMap(t \<mapsto> h) else targetMap)"
| "insertHandles _ _ targetMap = targetMap"

text \<open>The part of \<open>modifyTriplesImpl\<close> after the rewriting of the triples.\<close>

definition modifyRewritten ::
    "bool \<Rightarrow> cancellation \<Rightarrow> ('id::linorder) blockData \<Rightarrow> 'id IdTriple list \<Rightarrow> bool \<Rightarrow>
     'id TriplesToHandlesMap \<Rightarrow> 'id TriplesToHandlesMap \<Rightarrow> 'id AllPermutations \<Rightarrow>
     error option \<times> 'id TriplesToHandlesMap \<times> 'id TriplesToHandlesMap \<times> 'id AllPermutations" where
  "modifyRewritten expensiveChecks c blocks triples ins targetMap inverseMap L =
     (if expensiveChecks \<and> \<not> (sorted triples \<and> distinct_adj triples)
      then (Some CorrectnessViolation, targetMap, inverseMap, L)
      else
        let triples = filter (\<lambda>t. targetMap t = None) triples in
        case eraseInverse triples inverseMap L of
          (Some e, inverseMap, L) \<Rightarrow> (Some e, targetMap, inverseMap, L)
        | (None, inverseMap, L) \<Rightarrow>
            let L = (\<lambda>p. updateAugmentedMetadata (L p)) in
            (case locateAndAddTriples c blocks triples ins L of
               (Some e, _, L) \<Rightarrow> (Some e, targetMap, inverseMap, L)
             | (None, handles, L) \<Rightarrow>
                 if length triples \<noteq> length handles then (Some CorrectnessViolation, targetMap, inverseMap, L)
                 else (None, insertHandles triples handles targetMap, inverseMap, L)))"

text \<open>\<open>None\<close> is a run that does not return (from the allocation of blank nodes).\<close>

definition modifyTriplesImpl ::
    "bool \<Rightarrow> cancellation \<Rightarrow> ('id::linorder, 'w) IdOps \<Rightarrow> nat \<Rightarrow> 'id blockData \<Rightarrow> 'id IdTriple list \<Rightarrow> bool \<Rightarrow>
     'id DeltaTriples \<Rightarrow> 'w lvWorld \<Rightarrow> (error option \<times> 'id DeltaTriples \<times> 'w lvWorld) option" where
  "modifyTriplesImpl expensiveChecks c ops a blocks triples ins d w =
     (case rewriteLocalVocabEntriesAndBlankNodes ops a (localVocab d) triples w of
        None \<Rightarrow> None
      | Some (Inl e) \<Rightarrow> Some (Some e, d, w)
      | Some (Inr (triples, w)) \<Rightarrow>
          let (targetMap, inverseMap) =
            (if ins then (triplesInserted d, triplesDeleted d) else (triplesDeleted d, triplesInserted d));
            (e, targetMap, inverseMap, L) =
              modifyRewritten expensiveChecks c blocks triples ins targetMap inverseMap (locatedTriples d);
            (inserted, deleted) = (if ins then (targetMap, inverseMap) else (inverseMap, targetMap))
          in Some (e, d\<lparr>triplesInserted := inserted, triplesDeleted := deleted, locatedTriples := L\<rparr>, w))"

definition insertTriples ::
    "bool \<Rightarrow> cancellation \<Rightarrow> ('id::linorder, 'w) IdOps \<Rightarrow> nat \<Rightarrow> 'id blockData \<Rightarrow> 'id IdTriple list \<Rightarrow>
     'id DeltaTriples \<Rightarrow> 'w lvWorld \<Rightarrow> (error option \<times> 'id DeltaTriples \<times> 'w lvWorld) option" where
  "insertTriples expensiveChecks c ops a blocks triples = modifyTriplesImpl expensiveChecks c ops a blocks triples True"

definition deleteTriples ::
    "bool \<Rightarrow> cancellation \<Rightarrow> ('id::linorder, 'w) IdOps \<Rightarrow> nat \<Rightarrow> 'id blockData \<Rightarrow> 'id IdTriple list \<Rightarrow>
     'id DeltaTriples \<Rightarrow> 'w lvWorld \<Rightarrow> (error option \<times> 'id DeltaTriples \<times> 'w lvWorld) option" where
  "deleteTriples expensiveChecks c ops a blocks triples = modifyTriplesImpl expensiveChecks c ops a blocks triples False"

section \<open>Counts and snapshots\<close>

record DeltaTriplesCount =
  countInserted :: int
  countDeleted :: int

definition getCounts :: "'id DeltaTriples \<Rightarrow> DeltaTriplesCount" where
  "getCounts d = \<lparr>countInserted = int (card (dom (triplesInserted d))),
     countDeleted = int (card (dom (triplesDeleted d)))\<rparr>"

definition minusCount :: "DeltaTriplesCount \<Rightarrow> DeltaTriplesCount \<Rightarrow> DeltaTriplesCount" where
  "minusCount lhs rhs = \<lparr>countInserted = countInserted lhs - countInserted rhs,
     countDeleted = countDeleted lhs - countDeleted rhs\<rparr>"

record 'id LocatedTriplesSnapshot =
  snapshotTriples :: "'id AllPermutations"
  snapshotLifetime :: "nat list"
  snapshotIndex :: nat

definition getSnapshot :: "'w lvWorld \<Rightarrow> 'id DeltaTriples \<Rightarrow> 'id LocatedTriplesSnapshot \<times> 'id DeltaTriples" where
  "getSnapshot w d =
     (\<lparr>snapshotTriples = locatedTriples d, snapshotLifetime = getLifetimeExtender w (the (vocabs w (localVocab d))),
       snapshotIndex = nextSnapshotIndex d\<rparr>,
      d\<lparr>nextSnapshotIndex := nextSnapshotIndex d + 1\<rparr>)"

definition getLocatedTriplesForPermutation ::
    "'id LocatedTriplesSnapshot \<Rightarrow> Permutation \<Rightarrow> 'id LocatedTriplesPerBlock" where
  "getLocatedTriplesForPermutation s permutation = snapshotTriples s permutation"

definition setOriginalMetadataDelta ::
    "Permutation \<Rightarrow> 'id CompressedBlockMetadata list \<Rightarrow> 'id DeltaTriples \<Rightarrow> 'id DeltaTriples" where
  "setOriginalMetadataDelta p metadata d =
     d\<lparr>locatedTriples := (locatedTriples d)(p := setOriginalMetadata metadata (locatedTriples d p))\<rparr>"

section \<open>Permuting\<close>

definition loc :: "('id::linorder) blockData \<Rightarrow> Permutation \<Rightarrow> bool \<Rightarrow> 'id IdTriple \<Rightarrow> 'id LocatedTriple" where
  "loc blocks p b t =
     \<lparr>ltBlock = lowerBoundBlock (blocks p) (permuteTuple (toKeyOrder p) t),
      ltTriple = permuteTuple (toKeyOrder p) t, ltInsert = b\<rparr>"

lemma locateTriples_loc:
  "locateTriplesInPermutation ts (blocks p) (toKeyOrder p) b = map (loc blocks p b) ts"
  by (simp add: locateTriplesInPermutation_def loc_def Let_def)

lemma permuteTuple_inj:
  assumes "length t = 4" "length u = 4" "permuteTuple (toKeyOrder p) t = permuteTuple (toKeyOrder p) u"
  shows "t = u"
proof -
  obtain a b c d where t: "t = [a, b, c, d]" using assms(1) by (auto simp: numeral_eq_Suc length_Suc_conv)
  obtain a' b' c' d' where u: "u = [a', b', c', d']" using assms(2) by (auto simp: numeral_eq_Suc length_Suc_conv)
  show ?thesis using assms(3) by (cases p) (simp_all add: t u permuteTuple_def)
qed

lemma loc_key:
  assumes "length t = 4" "length u = 4"
  shows "ltKey (loc blocks p b t) = ltKey (loc blocks p b' u) \<longleftrightarrow> t = u"
  using permuteTuple_inj [OF assms] by (auto simp: ltKey_def loc_def)

section \<open>The invariant\<close>

text \<open>\<open>T\<close> and \<open>V\<close> are the maps of the triples with the flag \<open>b\<close> and with the other flag.\<close>

definition handlesOk :: "('id::linorder) blockData \<Rightarrow> bool \<Rightarrow> 'id TriplesToHandlesMap \<Rightarrow> bool" where
  "handlesOk blocks b M \<longleftrightarrow> finite (dom M) \<and>
     (\<forall>t h. M t = Some h \<longrightarrow> length t = 4 \<and> (\<forall>p. h p = loc blocks p b t))"

definition locatedOk ::
    "('id::linorder) blockData \<Rightarrow> bool \<Rightarrow> 'id IdTriple set \<Rightarrow> 'id IdTriple set \<Rightarrow> 'id AllPermutations \<Rightarrow> bool" where
  "locatedOk blocks b T V L \<longleftrightarrow>
     (\<forall>p. ltOk (L p) \<and> locatedSet (L p) = loc blocks p b ` T \<union> loc blocks p (\<not> b) ` V)"

definition modifyOk ::
    "('id::linorder) blockData \<Rightarrow> bool \<Rightarrow> 'id TriplesToHandlesMap \<Rightarrow> 'id TriplesToHandlesMap \<Rightarrow> 'id AllPermutations \<Rightarrow> bool"
  where
  "modifyOk blocks b T V L \<longleftrightarrow> dom T \<inter> dom V = {} \<and> handlesOk blocks b T \<and> handlesOk blocks (\<not> b) V \<and>
     locatedOk blocks b (dom T) (dom V) L"

definition deltaOk :: "('id::linorder) blockData \<Rightarrow> 'id DeltaTriples \<Rightarrow> bool" where
  "deltaOk blocks d \<longleftrightarrow> modifyOk blocks True (triplesInserted d) (triplesDeleted d) (locatedTriples d)"

lemma modifyOk_swap: "modifyOk blocks b T V L \<longleftrightarrow> modifyOk blocks (\<not> b) V T L"
  by (auto simp: modifyOk_def locatedOk_def Un_commute)

section \<open>Erasing\<close>

lemma eraseLoop_ok:
  assumes "distinct ps" "\<forall>p\<in>set ps. ltOk (L p) \<and> h p \<in> locatedSet (L p)"
  shows "\<exists>L'. eraseLoop h ps L = (None, L') \<and>
    (\<forall>p\<in>set ps. ltOk (L' p) \<and> locatedSet (L' p) = locatedSet (L p) - {h p} \<and>
      originalMetadata (L' p) = originalMetadata (L p)) \<and> (\<forall>p. p \<notin> set ps \<longrightarrow> L' p = L p)"
  using assms
proof (induction ps arbitrary: L)
  case (Cons p ps)
  obtain l where l: "eraseLocated (ltBlock (h p)) (h p) (L p) = Inr l" "ltOk l" "locatedSet l = locatedSet (L p) - {h p}"
      "originalMetadata l = originalMetadata (L p)"
    using eraseLocated_ok [of "L p" "h p"] Cons.prems(2) by auto
  have d: "distinct ps" and pre: "\<forall>q\<in>set ps. ltOk ((L(p := l)) q) \<and> h q \<in> locatedSet ((L(p := l)) q)"
    using Cons.prems by auto
  obtain L' where L': "eraseLoop h ps (L(p := l)) = (None, L')"
      "\<forall>q\<in>set ps. ltOk (L' q) \<and> locatedSet (L' q) = locatedSet ((L(p := l)) q) - {h q} \<and>
        originalMetadata (L' q) = originalMetadata ((L(p := l)) q)"
      "\<forall>q. q \<notin> set ps \<longrightarrow> L' q = (L(p := l)) q"
    using Cons.IH [OF d pre] by blast
  have "L' p = l" using L'(3) Cons.prems(1) by simp
  moreover have "(L(p := l)) q = L q" if "q \<in> set ps" for q using that Cons.prems(1) by auto
  ultimately show ?case using L' l by (intro exI [of _ L']) (auto simp: forPermutation_def)
qed simp

lemma all_permutations: "p \<in> set allPermutations" "distinct allPermutations"
  by (cases p; simp add: allPermutations_def)+

lemma image_minus:
  assumes "\<And>u. u \<in> V \<Longrightarrow> f u = y \<longleftrightarrow> u = t"
  shows "f ` V - {y} = f ` (V - {t})"
proof (intro equalityI subsetI)
  fix x assume "x \<in> f ` V - {y}"
  then obtain u where "x = f u" "u \<in> V" "f u \<noteq> y" by blast
  then show "x \<in> f ` (V - {t})" using assms [of u] by simp
next
  fix x assume "x \<in> f ` (V - {t})"
  then obtain u where "x = f u" "u \<in> V" "u \<noteq> t" by blast
  then show "x \<in> f ` V - {y}" using assms [of u] by simp
qed

lemma image_disjoint:
  assumes "\<And>t u. t \<in> A \<Longrightarrow> u \<in> B \<Longrightarrow> f t \<noteq> g u"
  shows "f ` A \<inter> g ` B = {}"
proof (intro equals0I)
  fix x assume "x \<in> f ` A \<inter> g ` B"
  then obtain t u where "t \<in> A" "x = f t" "u \<in> B" "x = g u" by blast
  then show False using assms [of t u] by simp
qed

lemma eraseTriple_ok:
  assumes "locatedOk blocks b T V L" "t \<in> V" "\<forall>u\<in>T \<union> V. length u = 4" "T \<inter> V = {}" "\<forall>p. h p = loc blocks p (\<not> b) t"
  shows "\<exists>L'. eraseTripleInAllPermutations h L = (None, L') \<and> locatedOk blocks b T (V - {t}) L' \<and>
    (\<forall>p. originalMetadata (L' p) = originalMetadata (L p))"
proof -
  have "ltOk (L p) \<and> h p \<in> locatedSet (L p)" for p using assms(1,2,5) by (auto simp: locatedOk_def)
  then obtain L' where L': "eraseLoop h allPermutations L = (None, L')"
      "\<And>p. ltOk (L' p) \<and> locatedSet (L' p) = locatedSet (L p) - {h p} \<and> originalMetadata (L' p) = originalMetadata (L p)"
    using eraseLoop_ok [OF all_permutations(2)] all_permutations(1) by metis
  have "locatedSet (L' p) = loc blocks p b ` T \<union> loc blocks p (\<not> b) ` (V - {t})" for p
  proof -
    have "loc blocks p b u \<noteq> h p" for u using assms(5) by (simp add: loc_def)
    then have "h p \<notin> loc blocks p b ` T" by (metis imageE)
    then have "loc blocks p b ` T - {h p} = loc blocks p b ` T" by simp
    moreover have inj: "loc blocks p (\<not> b) u = h p \<longleftrightarrow> u = t" if "u \<in> V" for u
    proof
      assume "loc blocks p (\<not> b) u = h p"
      then have "ltKey (loc blocks p (\<not> b) u) = ltKey (loc blocks p (\<not> b) t)" using assms(5) by simp
      then show "u = t" using loc_key assms(2,3) that by (metis UnI2)
    qed (simp add: assms(5))
    have "loc blocks p (\<not> b) ` V - {h p} = loc blocks p (\<not> b) ` (V - {t})"
      by (rule image_minus) (rule inj)
    moreover have "locatedSet (L p) = loc blocks p b ` T \<union> loc blocks p (\<not> b) ` V" using assms(1) by (simp add: locatedOk_def)
    ultimately show ?thesis using L'(2) [of p] by (simp add: Un_Diff)
  qed
  then show ?thesis using L' by (auto simp: eraseTripleInAllPermutations_def locatedOk_def)
qed

lemma eraseInverse_ok:
  assumes "locatedOk blocks b T (dom V) L" "handlesOk blocks (\<not> b) V" "\<forall>u\<in>T. length u = 4" "T \<inter> dom V = {}"
  shows "\<exists>V' L'. eraseInverse ts V L = (None, V', L') \<and> locatedOk blocks b T (dom V - set ts) L' \<and>
    V' = V |` (- set ts) \<and> (\<forall>p. originalMetadata (L' p) = originalMetadata (L p))"
  using assms
proof (induction ts arbitrary: V L)
  case Nil
  then show ?case by (simp add: restrict_map_def)
next
  case (Cons t ts)
  show ?case
  proof (cases "V t")
    case None
    then have "dom V - set (t # ts) = dom V - set ts" "V |` (- set (t # ts)) = V |` (- set ts)"
      by (auto simp: restrict_map_def fun_eq_iff)
    then show ?thesis using Cons.IH [OF Cons.prems] None by simp
  next
    case (Some h)
    have "\<forall>u\<in>T \<union> dom V. length u = 4" "\<forall>p. h p = loc blocks p (\<not> b) t" "t \<in> dom V"
      using Cons.prems(2,3) Some by (auto simp: handlesOk_def)
    then obtain L1 where L1: "eraseTripleInAllPermutations h L = (None, L1)" "locatedOk blocks b T (dom V - {t}) L1"
        "\<forall>p. originalMetadata (L1 p) = originalMetadata (L p)"
      using eraseTriple_ok [OF Cons.prems(1)] Cons.prems(4) by metis
    have ok: "handlesOk blocks (\<not> b) (V(t := None))" using Cons.prems(2) by (auto simp: handlesOk_def)
    have dom: "dom (V(t := None)) = dom V - {t}" by simp
    have pre: "locatedOk blocks b T (dom (V(t := None))) L1" "T \<inter> dom (V(t := None)) = {}"
      using L1(2) Cons.prems(4) unfolding dom by blast+
    obtain V' L' where "eraseInverse ts (V(t := None)) L1 = (None, V', L')"
        "locatedOk blocks b T (dom (V(t := None)) - set ts) L'" "V' = V(t := None) |` (- set ts)"
        "\<forall>p. originalMetadata (L' p) = originalMetadata (L p)"
      using Cons.IH [OF pre(1) ok Cons.prems(3) pre(2)] L1(3) by metis
    moreover have "V(t := None) |` (- set ts) = V |` (- set (t # ts))" by (auto simp: restrict_map_def fun_eq_iff)
    moreover have "dom (V(t := None)) - set ts = dom V - set (t # ts)" by auto
    ultimately show ?thesis using L1(1) Some by simp
  qed
qed


section \<open>Adding\<close>

definition notCancelled :: cancellation where
  "notCancelled = (\<lambda>_. (False, False))"

lemma updateAugmented_idem: "updateAugmentedMetadata (updateAugmentedMetadata l) = updateAugmentedMetadata l"
  by (simp add: updateAugmentedMetadata_def updateBlock_def Let_def)

lemma add_ok:
  assumes "ltOk l" "distinct (map ltKey lts)" "ltKey ` set lts \<inter> ltKey ` locatedSet l = {}"
  shows "\<exists>l'. add lts l = Inr (lts, l') \<and> ltOk l' \<and> locatedSet l' = locatedSet l \<union> set lts \<and>
    originalMetadata l' = originalMetadata l \<and> updateAugmentedMetadata l' = l'"
proof -
  obtain l1 where l1: "addLoop lts l = Inr l1" using addLoop_spec [OF assms(1), of lts] assms(2,3) by blast
  then show ?thesis using addLoop_spec [OF assms(1), of lts] by (auto simp: add_def updateAugmented_idem)
qed

lemma locateLoop_ok:
  assumes "distinct ps" "\<forall>p\<in>set ps. \<not> fst (c p) \<and> \<not> snd (c p)"
    and "\<forall>p\<in>set ps. ltOk (L p) \<and> distinct (map (ltKey \<circ> loc blocks p b) ts) \<and>
      (ltKey \<circ> loc blocks p b) ` set ts \<inter> ltKey ` locatedSet (L p) = {}"
  shows "\<exists>L'. locateLoop c blocks ts b ps H L = (None, (\<lambda>p. if p \<in> set ps then map (loc blocks p b) ts else H p), L') \<and>
    (\<forall>p\<in>set ps. ltOk (L' p) \<and> locatedSet (L' p) = locatedSet (L p) \<union> loc blocks p b ` set ts \<and>
       originalMetadata (L' p) = originalMetadata (L p) \<and> updateAugmentedMetadata (L' p) = L' p) \<and>
    (\<forall>p. p \<notin> set ps \<longrightarrow> L' p = L p)"
  using assms
proof (induction ps arbitrary: H L)
  case Nil
  then show ?case by auto
next
  case (Cons p ps)
  obtain l where l: "add (map (loc blocks p b) ts) (L p) = Inr (map (loc blocks p b) ts, l)" "ltOk l"
      "locatedSet l = locatedSet (L p) \<union> loc blocks p b ` set ts" "originalMetadata l = originalMetadata (L p)"
      "updateAugmentedMetadata l = l"
    using add_ok [of "L p" "map (loc blocks p b) ts"] Cons.prems(3) by (auto simp: image_comp)
  let ?L = "L(p := l)" and ?H = "H(p := map (loc blocks p b) ts)"
  have d: "distinct ps" "p \<notin> set ps" and c: "\<forall>p\<in>set ps. \<not> fst (c p) \<and> \<not> snd (c p)" using Cons.prems by auto
  have same: "?L q = L q" if "q \<in> set ps" for q using that d(2) by auto
  then have pre: "\<forall>p\<in>set ps. ltOk (?L p) \<and> distinct (map (ltKey \<circ> loc blocks p b) ts) \<and>
      (ltKey \<circ> loc blocks p b) ` set ts \<inter> ltKey ` locatedSet (?L p) = {}"
    using Cons.prems(3) by (metis list.set_intros(2))
  obtain L' where L': "locateLoop c blocks ts b ps ?H ?L =
      (None, (\<lambda>p. if p \<in> set ps then map (loc blocks p b) ts else ?H p), L')"
      "\<forall>p\<in>set ps. ltOk (L' p) \<and> locatedSet (L' p) = locatedSet (?L p) \<union> loc blocks p b ` set ts \<and>
         originalMetadata (L' p) = originalMetadata (?L p) \<and> updateAugmentedMetadata (L' p) = L' p"
      "\<forall>p. p \<notin> set ps \<longrightarrow> L' p = ?L p"
    using Cons.IH [OF d(1) c pre, of ?H] by blast
  have "(\<lambda>q. if q \<in> set ps then map (loc blocks q b) ts else ?H q) =
      (\<lambda>q. if q \<in> set (p # ps) then map (loc blocks q b) ts else H q)" by auto
  moreover have "locateLoop c blocks ts b (p # ps) H L = locateLoop c blocks ts b ps ?H ?L"
    using l(1) Cons.prems(2) by (simp add: locateTriples_loc Let_def)
  moreover have "L' p = l" using L'(3) d(2) by simp
  ultimately show ?case using L' l same by (intro exI [of _ L']) auto
qed

lemma insertHandles_map:
  assumes "distinct ts" "length hs = length ts" "\<forall>t\<in>set ts. T t = None"
  shows "insertHandles ts hs T = T ++ map_of (zip ts hs)"
  using assms
proof (induction ts hs T rule: insertHandles.induct)
  case (1 t ts h hs T)
  have "(T(t \<mapsto> h)) ++ map_of (zip ts hs) = T ++ map_of (zip (t # ts) (h # hs))"
  proof -
    have "t \<notin> dom (map_of (zip ts hs))" using 1(2,3) by simp
    then show ?thesis by (simp add: map_add_upd_left)
  qed
  moreover have new: "(if T t = None then T(t \<mapsto> h) else T) = T(t \<mapsto> h)" using 1(4) by simp
  moreover have "insertHandles ts hs (T(t \<mapsto> h)) = (T(t \<mapsto> h)) ++ map_of (zip ts hs)"
  proof -
    have "\<forall>u\<in>set ts. (T(t \<mapsto> h)) u = None" "distinct ts" "length hs = length ts" using 1(2-4) by auto
    then show ?thesis by (intro 1(1) [unfolded new])
  qed
  ultimately show ?case unfolding insertHandles.simps new by (simp only:)
qed auto

lemma locatedOk_updateAugmented:
  "locatedOk blocks b T V (\<lambda>p. updateAugmentedMetadata (L p)) = locatedOk blocks b T V L"
  by (simp add: locatedOk_def)

lemma locateAndAdd_ok:
  assumes "locatedOk blocks b T V L" "\<forall>t\<in>T \<union> V \<union> set ts. length t = 4" "distinct ts" "set ts \<inter> (T \<union> V) = {}"
  shows "\<exists>L'. locateAndAddTriples notCancelled blocks ts b L = (None, map (\<lambda>t p. loc blocks p b t) ts, L') \<and>
    locatedOk blocks b (T \<union> set ts) V L' \<and>
    (\<forall>p. originalMetadata (L' p) = originalMetadata (L p) \<and> updateAugmentedMetadata (L' p) = L' p)"
proof -
  have pre: "ltOk (L p)" "distinct (map (ltKey \<circ> loc blocks p b) ts)"
    "(ltKey \<circ> loc blocks p b) ` set ts \<inter> ltKey ` locatedSet (L p) = {}" for p
  proof -
    show "ltOk (L p)" using assms(1) by (simp add: locatedOk_def)
    show "distinct (map (ltKey \<circ> loc blocks p b) ts)"
      using assms(2,3) loc_key [of _ _ blocks p b b] by (simp add: distinct_map inj_on_def)
    have ne: "ltKey (loc blocks p b t) \<noteq> ltKey (loc blocks p b' u)" if "t \<in> set ts" "u \<in> T \<union> V" for t u b'
      using loc_key [of t u blocks p b b'] that assms(2,4) by blast
    have "(ltKey \<circ> loc blocks p b) ` set ts \<inter> (ltKey \<circ> loc blocks p b) ` T = {}"
      "(ltKey \<circ> loc blocks p b) ` set ts \<inter> (ltKey \<circ> loc blocks p (\<not> b)) ` V = {}"
      by (rule image_disjoint; simp add: ne)+
    then show "(ltKey \<circ> loc blocks p b) ` set ts \<inter> ltKey ` locatedSet (L p) = {}"
      using assms(1) by (simp add: locatedOk_def image_Un image_comp Int_Un_distrib)
  qed
  obtain L' where L': "locateLoop notCancelled blocks ts b allPermutations (\<lambda>_. []) L =
      (None, (\<lambda>p. if p \<in> set allPermutations then map (loc blocks p b) ts else []), L')"
      "\<forall>p\<in>set allPermutations. ltOk (L' p) \<and> locatedSet (L' p) = locatedSet (L p) \<union> loc blocks p b ` set ts \<and>
       originalMetadata (L' p) = originalMetadata (L p) \<and> updateAugmentedMetadata (L' p) = L' p"
    using locateLoop_ok [OF all_permutations(2), of notCancelled L blocks b ts "\<lambda>_. []"] pre
    by (auto simp: notCancelled_def)
  have "map (\<lambda>i p. map (loc blocks p b) ts ! i) [0..<length ts] = map (\<lambda>t p. loc blocks p b t) ts"
    by (rule nth_equalityI) auto
  then have "locateAndAddTriples notCancelled blocks ts b L = (None, map (\<lambda>t p. loc blocks p b t) ts, L')"
    using L'(1) all_permutations(1) by (simp add: locateAndAddTriples_def)
  moreover have "locatedOk blocks b (T \<union> set ts) V L'"
    using L'(2) all_permutations(1) assms(1) by (auto simp: locatedOk_def)
  ultimately show ?thesis using L'(2) all_permutations(1) by blast
qed

section \<open>Modifying\<close>

lemma handlesOk_restrict: "handlesOk blocks b M \<Longrightarrow> handlesOk blocks b (M |` A)"
  unfolding handlesOk_def by (intro conjI) (simp, auto simp: restrict_map_def split: if_splits)

lemma handlesOk_add:
  assumes "handlesOk blocks b M" "distinct ts" "\<forall>t\<in>set ts. length t = 4"
  shows "handlesOk blocks b (M ++ map_of (zip ts (map (\<lambda>t p. loc blocks p b t) ts)))"
proof -
  have "map_of (zip ts (map (\<lambda>t p. loc blocks p b t) ts)) t = (if t \<in> set ts then Some (\<lambda>p. loc blocks p b t) else None)" for t
    by (induction ts) auto
  then show ?thesis using assms by (auto simp: handlesOk_def map_add_def dom_def split: if_splits option.splits
        intro: finite_subset [of _ "dom M \<union> set ts"])
qed

lemma modifyRewritten_ok:
  assumes ok: "modifyOk blocks b T V L" and ts: "distinct ts" "\<forall>t\<in>set ts. length t = 4"
    and checks: "expensiveChecks \<longrightarrow> sorted ts"
  shows "\<exists>T' V' L'. modifyRewritten expensiveChecks notCancelled blocks ts b T V L = (None, T', V', L') \<and>
    modifyOk blocks b T' V' L' \<and> dom T' = dom T \<union> set ts \<and> dom V' = dom V - set ts \<and>
    (\<forall>p. originalMetadata (L' p) = originalMetadata (L p) \<and> updateAugmentedMetadata (L' p) = L' p)"
proof -
  let ?ts = "filter (\<lambda>t. T t = None) ts"
  have disj: "dom T \<inter> dom V = {}" and hT: "handlesOk blocks b T" and hV: "handlesOk blocks (\<not> b) V"
    and located: "locatedOk blocks b (dom T) (dom V) L" using ok by (auto simp: modifyOk_def)
  have len: "\<forall>t\<in>dom T. length t = 4" "\<forall>t\<in>dom V. length t = 4" using hT hV by (auto simp: handlesOk_def)
  obtain V' L1 where e: "eraseInverse ?ts V L = (None, V', L1)" "locatedOk blocks b (dom T) (dom V - set ?ts) L1"
      "V' = V |` (- set ?ts)" "\<forall>p. originalMetadata (L1 p) = originalMetadata (L p)"
    using eraseInverse_ok [OF located hV len(1) disj] by blast
  let ?L = "\<lambda>p. updateAugmentedMetadata (L1 p)"
  have located1: "locatedOk blocks b (dom T) (dom V - set ?ts) ?L" using e(2) by (simp add: locatedOk_updateAugmented)
  have pre: "\<forall>t\<in>dom T \<union> (dom V - set ?ts) \<union> set ?ts. length t = 4" "distinct ?ts"
      "set ?ts \<inter> (dom T \<union> (dom V - set ?ts)) = {}"
    using len ts by auto
  obtain L' where a: "locateAndAddTriples notCancelled blocks ?ts b ?L = (None, map (\<lambda>t p. loc blocks p b t) ?ts, L')"
      "locatedOk blocks b (dom T \<union> set ?ts) (dom V - set ?ts) L'"
      "\<forall>p. originalMetadata (L' p) = originalMetadata (L p) \<and> updateAugmentedMetadata (L' p) = L' p"
    using locateAndAdd_ok [OF located1 pre] e(4) by auto
  define T' where "T' = T ++ map_of (zip ?ts (map (\<lambda>t p. loc blocks p b t) ?ts))"
  have ins: "insertHandles ?ts (map (\<lambda>t p. loc blocks p b t) ?ts) T = T'"
    unfolding T'_def using pre(2) by (intro insertHandles_map) auto
  have adj: "sorted ts \<Longrightarrow> distinct_adj ts" using ts(1) by (induction ts rule: induct_list012) auto
  have run: "modifyRewritten expensiveChecks notCancelled blocks ts b T V L = (None, T', V', L')"
    using e(1) a(1) ins checks adj by (simp add: modifyRewritten_def Let_def)
  have dT: "dom T' = dom T \<union> set ?ts" by (auto simp: T'_def)
  have dV: "dom V' = dom V - set ?ts" using e(3) by auto
  have "modifyOk blocks b T' V' L'"
    unfolding modifyOk_def
  proof (intro conjI)
    show "dom T' \<inter> dom V' = {}" using disj unfolding dT dV by blast
    show "handlesOk blocks b T'" unfolding T'_def using hT pre(2) ts(2) by (intro handlesOk_add) auto
    show "handlesOk blocks (\<not> b) V'" unfolding e(3) by (rule handlesOk_restrict [OF hV])
    show "locatedOk blocks b (dom T') (dom V') L'" unfolding dT dV by (rule a(2))
  qed
  moreover have "dom T \<union> set ?ts = dom T \<union> set ts" by auto
  moreover have "dom V - set ?ts = dom V - set ts" using disj by auto
  ultimately show ?thesis using run dT dV a(3) by auto
qed

lemma forEach_length:
  assumes "forEach f xs s = Some (Inr (ys, s'))"
  shows "length ys = length xs"
  using assms by (induction xs arbitrary: s ys s') (auto split: option.splits sum.splits)

lemma rewrite_length:
  assumes "rewriteLocalVocabEntriesAndBlankNodes ops a k ts w = Some (Inr (us, w'))" "\<forall>t\<in>set ts. length t = n"
  shows "length us = length ts \<and> (\<forall>u\<in>set us. length u = n)"
proof -
  have *: "length us = length ts \<and> (\<forall>u\<in>set us. length u = n)"
    if "forEach (forEach (convertId ops a k)) ts s = Some (Inr (us, s'))" "\<forall>t\<in>set ts. length t = n" for ts us s s'
    using that
  proof (induction ts arbitrary: us s)
    case (Cons t ts)
    obtain u s1 us' where step: "forEach (convertId ops a k) t s = Some (Inr (u, s1))" "us = u # us'"
        "forEach (forEach (convertId ops a k)) ts s1 = Some (Inr (us', s'))"
      using Cons.prems(1) by (auto split: option.splits sum.splits)
    then show ?case using forEach_length [OF step(1)] Cons.IH [OF step(3)] Cons.prems(2) by simp
  qed simp
  obtain m where "forEach (forEach (convertId ops a k)) ts (Map.empty, w) = Some (Inr (us, m, w'))"
    using assms(1) by (auto simp: rewriteLocalVocabEntriesAndBlankNodes_def split: option.splits sum.splits)
  then show ?thesis using * assms(2) by blast
qed

lemma modifyTriplesImpl_ok:
  assumes ok: "deltaOk blocks d"
    and rw: "rewriteLocalVocabEntriesAndBlankNodes ops a (localVocab d) ts w = Some (Inr (us, w'))"
    and us: "distinct us" "\<forall>u\<in>set us. length u = 4" "expensiveChecks \<longrightarrow> sorted us"
  shows "\<exists>d'. modifyTriplesImpl expensiveChecks notCancelled ops a blocks ts b d w = Some (None, d', w') \<and> deltaOk blocks d' \<and>
    dom (triplesInserted d') = (if b then dom (triplesInserted d) \<union> set us else dom (triplesInserted d) - set us) \<and>
    dom (triplesDeleted d') = (if b then dom (triplesDeleted d) - set us else dom (triplesDeleted d) \<union> set us) \<and>
    nextSnapshotIndex d' = nextSnapshotIndex d \<and> localVocab d' = localVocab d \<and>
    (\<forall>p. originalMetadata (locatedTriples d' p) = originalMetadata (locatedTriples d p) \<and>
      updateAugmentedMetadata (locatedTriples d' p) = locatedTriples d' p)"
proof (cases b)
  case True
  have m: "modifyOk blocks True (triplesInserted d) (triplesDeleted d) (locatedTriples d)" using ok by (simp add: deltaOk_def)
  obtain T' V' L' where r: "modifyRewritten expensiveChecks notCancelled blocks us True (triplesInserted d) (triplesDeleted d)
      (locatedTriples d) = (None, T', V', L')" "modifyOk blocks True T' V' L'" "dom T' = dom (triplesInserted d) \<union> set us"
      "dom V' = dom (triplesDeleted d) - set us"
      "\<forall>p. originalMetadata (L' p) = originalMetadata (locatedTriples d p) \<and> updateAugmentedMetadata (L' p) = L' p"
    using modifyRewritten_ok [OF m us] by (elim exE conjE)
  then show ?thesis using True rw by (simp add: modifyTriplesImpl_def deltaOk_def)
next
  case False
  have m: "modifyOk blocks False (triplesDeleted d) (triplesInserted d) (locatedTriples d)"
    using ok modifyOk_swap [of blocks True] by (simp add: deltaOk_def)
  obtain T' V' L' where r: "modifyRewritten expensiveChecks notCancelled blocks us False (triplesDeleted d) (triplesInserted d)
      (locatedTriples d) = (None, T', V', L')" "modifyOk blocks False T' V' L'" "dom T' = dom (triplesDeleted d) \<union> set us"
      "dom V' = dom (triplesInserted d) - set us"
      "\<forall>p. originalMetadata (L' p) = originalMetadata (locatedTriples d p) \<and> updateAugmentedMetadata (L' p) = L' p"
    using modifyRewritten_ok [OF m us] by (elim exE conjE)
  then show ?thesis using False rw modifyOk_swap [of blocks False T' V'] by (simp add: modifyTriplesImpl_def deltaOk_def)
qed

lemma clearDelta_ok: "deltaOk blocks (clearDelta d)"
  by (simp add: deltaOk_def clearDelta_def modifyOk_def handlesOk_def locatedOk_def clearLocated_ok)

section \<open>Properties\<close>

text \<open>C5: Inserting and deleting distinct triples refines the update of two disjoint sets of triples:
  an insertion adds the (rewritten) triples to the inserted ones and removes them from the deleted ones, a
  deletion does the reverse, neither fails, and afterwards every permutation again holds exactly the
  located versions of the inserted and deleted triples, with valid handles.\<close>

theorem delta_refines_sets:
  assumes "deltaOk blocks d" "\<forall>t\<in>set ts. length t = 4"
    and "rewriteLocalVocabEntriesAndBlankNodes ops a (localVocab d) ts w = Some (Inr (us, w'))"
    and "distinct us" "expensiveChecks \<longrightarrow> sorted us"
  shows "(\<exists>d'. insertTriples expensiveChecks notCancelled ops a blocks ts d w = Some (None, d', w') \<and> deltaOk blocks d' \<and>
      dom (triplesInserted d') = dom (triplesInserted d) \<union> set us \<and>
      dom (triplesDeleted d') = dom (triplesDeleted d) - set us) \<and>
    (\<exists>d'. deleteTriples expensiveChecks notCancelled ops a blocks ts d w = Some (None, d', w') \<and> deltaOk blocks d' \<and>
      dom (triplesInserted d') = dom (triplesInserted d) - set us \<and>
      dom (triplesDeleted d') = dom (triplesDeleted d) \<union> set us)"
proof -
  have len: "\<forall>u\<in>set us. length u = 4" using rewrite_length [OF assms(3,2)] by blast
  show ?thesis
    using modifyTriplesImpl_ok [OF assms(1,3,4) len assms(5), of True]
      modifyTriplesImpl_ok [OF assms(1,3,4) len assms(5), of False]
    by (auto simp: insertTriples_def deleteTriples_def)
qed

definition exampleOps :: "(nat, nat) IdOps" where
  "exampleOps = \<lparr>idView = (\<lambda>_. OtherId), idFromLocalVocabIndex = snd, idFromBlankNodeIndex = id\<rparr>"

definition emptyDelta :: "'id DeltaTriples" where
  "emptyDelta = \<lparr>nextSnapshotIndex = 0,
     locatedTriples = (\<lambda>_. \<lparr>numTriples = 0, ltMap = Map.empty, augmentedMetadata = None, originalMetadata = None\<rparr>),
     localVocab = 1, filenameForPersisting = None, triplesInserted = Map.empty, triplesDeleted = Map.empty\<rparr>"

lemma emptyDelta_ok: "deltaOk blocks emptyDelta"
  by (simp add: deltaOk_def emptyDelta_def modifyOk_def handlesOk_def locatedOk_def ltOk_def locatedSet_def)

lemma example_rewrite:
  "rewriteLocalVocabEntriesAndBlankNodes exampleOps a k [[1, 2, 3, 0]] w = Some (Inr ([[1, 2, 3, 0]], w))"
  by (simp add: rewriteLocalVocabEntriesAndBlankNodes_def exampleOps_def convertId_def)

lemma delta_refines_sets_witness:
  "\<exists>d'. insertTriples True notCancelled exampleOps 9 (\<lambda>_. []) [[1, 2, 3, 0]] emptyDelta exampleVocabs =
      Some (None, d', exampleVocabs) \<and> dom (triplesInserted d') = {[1, 2, 3, 0]}"
  using delta_refines_sets [OF emptyDelta_ok _ example_rewrite, where expensiveChecks = True and blocks = "\<lambda>_. []"
      and w = exampleVocabs and a = 9]
  by (auto simp: emptyDelta_def)

text \<open>C40: A cancellation that is noticed between two permutations leaves the delta triples inconsistent: a
  triple that is new is then located in the PSO permutation, but not in the other permutations nor
  among the inserted triples, and inserting it again, without a cancellation, fails with a correctness
  violation.\<close>

theorem cancelled_insert_breaks_permutations:
  assumes "deltaOk blocks d" "length t = 4" "t \<notin> dom (triplesInserted d) \<union> dom (triplesDeleted d)"
    and "\<And>w. rewriteLocalVocabEntriesAndBlankNodes ops a (localVocab d) [t] w = Some (Inr ([t], w))"
  shows "\<exists>d'. insertTriples e (\<lambda>p. (False, p = PSO)) ops a blocks [t] d w = Some (Some CancellationException, d', w) \<and>
    loc blocks PSO True t \<in> locatedSet (locatedTriples d' PSO) \<and>
    loc blocks SPO True t \<notin> locatedSet (locatedTriples d' SPO) \<and> t \<notin> dom (triplesInserted d') \<and>
    (\<exists>d''. insertTriples e notCancelled ops a blocks [t] d' w = Some (Some CorrectnessViolation, d'', w))"
proof -
  let ?I = "triplesInserted d" and ?D = "triplesDeleted d" and ?c = "\<lambda>p. (False, p = PSO)"
  have located: "locatedOk blocks True (dom ?I) (dom ?D) (locatedTriples d)"
    and len: "\<forall>u\<in>dom ?I \<union> dom ?D. length u = 4"
    using assms(1) by (auto simp: deltaOk_def modifyOk_def handlesOk_def)
  let ?L = "\<lambda>p. updateAugmentedMetadata (locatedTriples d p)"
  have new: "ltKey (loc blocks p b t) \<notin> ltKey ` locatedSet (?L p)" for p b
  proof
    assume "ltKey (loc blocks p b t) \<in> ltKey ` locatedSet (?L p)"
    then obtain u b' where "u \<in> dom ?I \<union> dom ?D" "ltKey (loc blocks p b t) = ltKey (loc blocks p b' u)"
      using located by (auto simp: locatedOk_def)
    then show False using loc_key [of t u blocks p b b'] assms(2,3) len by blast
  qed
  have okL: "ltOk (?L p)" for p using located by (simp add: locatedOk_def)
  obtain l where l: "add [loc blocks PSO True t] (?L PSO) = Inr ([loc blocks PSO True t], l)" "ltOk l"
      "locatedSet l = locatedSet (?L PSO) \<union> {loc blocks PSO True t}"
    using add_ok [OF okL [of PSO], of "[loc blocks PSO True t]"] new by auto
  define d' where "d' = d\<lparr>locatedTriples := ?L(PSO := l)\<rparr>"
  have none: "?I t = None" "?D t = None" using assms(3) by auto
  have "locateLoop ?c blocks [t] True allPermutations (\<lambda>_. []) ?L =
      (Some CancellationException, (\<lambda>_. [])(PSO := [loc blocks PSO True t]), ?L(PSO := l))"
    using l(1) by (simp add: allPermutations_def locateTriples_loc Let_def del: toKeyOrder.simps)
  then have run: "insertTriples e ?c ops a blocks [t] d w = Some (Some CancellationException, d', w)"
    using none assms(4) [of w]
    by (simp add: insertTriples_def modifyTriplesImpl_def modifyRewritten_def locateAndAddTriples_def Let_def d'_def)
  have "ltKey (loc blocks PSO True t) \<in> ltKey ` locatedSet (updateAugmentedMetadata l)" using l(3) by simp
  then have "\<not> (\<exists>l'. addLoop [loc blocks PSO True t] (updateAugmentedMetadata l) = Inr l')"
    and "\<And>x. addLoop [loc blocks PSO True t] (updateAugmentedMetadata l) = Inl x \<Longrightarrow> x = CorrectnessViolation"
    using addLoop_spec [of "updateAugmentedMetadata l" "[loc blocks PSO True t]"] l(2) by auto
  then have "add [loc blocks PSO True t] (updateAugmentedMetadata l) = Inl CorrectnessViolation"
    by (cases "addLoop [loc blocks PSO True t] (updateAugmentedMetadata l)") (auto simp: add_def)
  then have "fst (locateLoop notCancelled blocks [t] True allPermutations (\<lambda>_. []) (\<lambda>p. updateAugmentedMetadata ((?L(PSO := l)) p)))
      = Some CorrectnessViolation"
    by (simp add: allPermutations_def locateTriples_loc notCancelled_def Let_def del: toKeyOrder.simps)
  then have "\<exists>d''. insertTriples e notCancelled ops a blocks [t] d' w = Some (Some CorrectnessViolation, d'', w)"
    using none assms(4) [of w]
    by (auto simp: insertTriples_def modifyTriplesImpl_def modifyRewritten_def locateAndAddTriples_def Let_def d'_def
        split: prod.splits)
  moreover have "loc blocks SPO True t \<notin> locatedSet (?L SPO)" using new [of SPO True] by blast
  ultimately show ?thesis using run l(3) none by (auto simp: d'_def)
qed

lemma cancelled_insert_breaks_permutations_witness:
  "\<exists>d'. insertTriples False (\<lambda>p. (False, p = PSO)) exampleOps 9 (\<lambda>_. []) [[1, 2, 3, 0]] emptyDelta exampleVocabs =
     Some (Some CancellationException, d', exampleVocabs)"
  using cancelled_insert_breaks_permutations
    [OF emptyDelta_ok, where t = "[1, 2, 3, 0]" and ops = exampleOps and a = 9 and e = False and blocks = "\<lambda>_. []"
      and w = exampleVocabs] example_rewrite
  by (auto simp: emptyDelta_def)

end
