(* ===== verification/TripleSerializer.thy ===== *)
theory TripleSerializer
  imports DeltaTriples
begin

text \<open>
  Models \<open>src/util/Serializer/TripleSerializer.h\<close> and the parts of \<open>src/index/DeltaTriples.cpp\<close> that use
  it: writing the delta triples to disk and reading them again, and the \<open>DeltaTriplesManager\<close> that
  keeps the current snapshot. A file is a record of the values that the serializer writes, in the
  order of the file; the encoding of a single value as bytes is not modelled. The iteration order of
  the hash maps is the argument \<open>keys\<close>.
\<close>

section \<open>The file\<close>

record ('id, 'w) UpdateFile =
  fileMagic :: string
  fileVersion :: nat
  fileVocab :: "('id \<times> 'w) list"
  fileRanges :: "'id list list"

definition magicBytes :: string where "magicBytes = ''QLEVER.UPDATE''"

definition writeHeader :: "string \<times> nat" where
  "writeHeader = (magicBytes, 0)"

definition readHeader :: "('id, 'w) UpdateFile \<Rightarrow> unit result" where
  "readHeader f =
     res_bind (ensure CorrectnessViolation (fileMagic f = magicBytes)) (\<lambda>_.
       ensure CorrectnessViolation (fileVersion f = 0))"

definition serializeLocalVocab :: "('id, 'w) IdOps \<Rightarrow> 'w lvWorld \<Rightarrow> LocalVocab \<Rightarrow> ('id \<times> 'w) list result" where
  "serializeLocalVocab ops w v =
     res_bind (ensure ContractViolation (numSets v = 1)) (\<lambda>_.
       Inr (map (\<lambda>word. (idFromLocalVocabIndex ops (primaryWordSet v, word), word))
             (wordsAt w (primaryWordSet v))))"

text \<open>The loop of \<open>deserializeLocalVocab\<close>; \<open>k\<close> is the new vocabulary.\<close>

fun deserializeWords ::
    "('id, 'w) IdOps \<Rightarrow> nat \<Rightarrow> ('id \<times> 'w) list \<Rightarrow> ('id \<rightharpoonup> 'id) \<Rightarrow> 'w lvWorld \<Rightarrow> (('id \<rightharpoonup> 'id) \<times> 'w lvWorld) result" where
  "deserializeWords ops k [] mapping w = Inr (mapping, w)"
| "deserializeWords ops k ((i, s) # rest) mapping w =
     res_bind (getIndexAndAddIfNotContained k s w) (\<lambda>(localVocabIndex, w).
       deserializeWords ops k rest
         (if mapping i = None then mapping(i \<mapsto> idFromLocalVocabIndex ops localVocabIndex) else mapping) w)"

definition deserializeLocalVocab ::
    "('id, 'w) IdOps \<Rightarrow> nat \<Rightarrow> nat \<Rightarrow> ('id \<times> 'w) list \<Rightarrow> 'w lvWorld \<Rightarrow> (('id \<rightharpoonup> 'id) \<times> 'w lvWorld) result" where
  "deserializeLocalVocab ops k a entries w = deserializeWords ops k entries Map.empty (makeLocalVocab k a w)"

definition deserializeId ::
    "('id, 'w) IdOps \<Rightarrow> nat \<Rightarrow> nat \<Rightarrow> ('id \<rightharpoonup> 'id) \<Rightarrow> 'id \<Rightarrow> ('id \<rightharpoonup> nat) \<times> 'w lvWorld \<Rightarrow>
     ('id \<times> ('id \<rightharpoonup> nat) \<times> 'w lvWorld) result option" where
  "deserializeId ops a k mapping i s =
     (let (blankNodeMapping, w) = s in
      case idView ops i of
        LocalVocabId _ \<Rightarrow> (case mapping i of None \<Rightarrow> Some (Inl OutOfRange) | Some i' \<Rightarrow> Some (Inr (i', s)))
      | BlankNodeId _ \<Rightarrow>
          (case blankNodeMapping i of
             Some index \<Rightarrow> Some (Inr (idFromBlankNodeIndex ops index, s))
           | None \<Rightarrow> (case LocalVocab.getBlankNodeIndex a k w of
                 None \<Rightarrow> None
               | Some (Inl e) \<Rightarrow> Some (Inl e)
               | Some (Inr (index, w)) \<Rightarrow>
                   Some (Inr (idFromBlankNodeIndex ops index, blankNodeMapping(i \<mapsto> index), w))))
      | OtherId \<Rightarrow> Some (Inr (i, s)))"

definition deserializeRange ::
    "('id, 'w) IdOps \<Rightarrow> nat \<Rightarrow> nat \<Rightarrow> ('id \<rightharpoonup> 'id) \<Rightarrow> 'id list \<Rightarrow> 'w lvWorld \<Rightarrow> ('id list \<times> 'w lvWorld) result option" where
  "deserializeRange ops a k mapping ids w =
     (case forEach (deserializeId ops a k mapping) ids (Map.empty, w) of
        None \<Rightarrow> None
      | Some (Inl e) \<Rightarrow> Some (Inl e)
      | Some (Inr (ids, _, w)) \<Rightarrow> Some (Inr (ids, w)))"

definition serializeIds ::
    "('id, 'w) IdOps \<Rightarrow> 'w lvWorld \<Rightarrow> LocalVocab \<Rightarrow> 'id list list \<Rightarrow> ('id, 'w) UpdateFile result" where
  "serializeIds ops w v idRanges =
     res_bind (serializeLocalVocab ops w v) (\<lambda>entries.
       Inr \<lparr>fileMagic = fst writeHeader, fileVersion = snd writeHeader, fileVocab = entries, fileRanges = idRanges\<rparr>)"

text \<open>Reading a file that exists; \<open>k\<close> is the vocabulary that is read, \<open>av\<close> the address of its word set.\<close>

definition deserializeIds ::
    "('id, 'w) IdOps \<Rightarrow> nat \<Rightarrow> nat \<Rightarrow> nat \<Rightarrow> ('id, 'w) UpdateFile \<Rightarrow> 'w lvWorld \<Rightarrow> ('id list list \<times> 'w lvWorld) result option" where
  "deserializeIds ops a k av f w =
     (case readHeader f of
        Inl e \<Rightarrow> Some (Inl e)
      | Inr _ \<Rightarrow>
          (case deserializeLocalVocab ops k av (fileVocab f) w of
             Inl e \<Rightarrow> Some (Inl e)
           | Inr (mapping, w) \<Rightarrow> forEach (deserializeRange ops a k mapping) (fileRanges f) w))"

section \<open>Writing and reading the delta triples\<close>

definition writeToDisk ::
    "('id, 'w) IdOps \<Rightarrow> ('id TriplesToHandlesMap \<Rightarrow> 'id IdTriple list) \<Rightarrow> 'id DeltaTriples \<Rightarrow> 'w lvWorld \<Rightarrow>
     (string \<rightharpoonup> ('id, 'w) UpdateFile) \<Rightarrow> (string \<rightharpoonup> ('id, 'w) UpdateFile) result" where
  "writeToDisk ops keys d w files =
     (case filenameForPersisting d of
        None \<Rightarrow> Inr files
      | Some filename \<Rightarrow>
          let toRange = (\<lambda>m. concat (keys m)); tempPath = filename @ ''.tmp'' in
          res_bind (serializeIds ops w (the (vocabs w (localVocab d)))
              [toRange (triplesDeleted d), toRange (triplesInserted d)]) (\<lambda>f.
            Inr ((files(tempPath := None))(filename \<mapsto> f))))"

fun toTriples :: "'id list \<Rightarrow> 'id IdTriple list result" where
  "toTriples [] = Inr []"
| "toTriples (a # b # c # d # ids) = res_bind (toTriples ids) (\<lambda>ts. Inr ([a, b, c, d] # ts))"
| "toTriples ids = Inl CorrectnessViolation"

definition readFromDisk ::
    "bool \<Rightarrow> ('id::linorder, 'w) IdOps \<Rightarrow> nat \<Rightarrow> nat \<Rightarrow> nat \<Rightarrow> nat \<Rightarrow> 'id blockData \<Rightarrow> (string \<rightharpoonup> ('id, 'w) UpdateFile) \<Rightarrow>
     'id DeltaTriples \<Rightarrow> 'w lvWorld \<Rightarrow> (error option \<times> 'id DeltaTriples \<times> 'w lvWorld) option" where
  "readFromDisk expensiveChecks ops a a' k av blocks files d w =
     (case filenameForPersisting d of
        None \<Rightarrow> Some (None, d, w)
      | Some filename \<Rightarrow>
          if emptyVocab expensiveChecks w (the (vocabs w (localVocab d))) \<noteq> Inr True then Some (Some ContractViolation, d, w)
          else case files filename of
              None \<Rightarrow> Some (None, d, w)
            | Some f \<Rightarrow>
                (case deserializeIds ops a k av f w of
                   None \<Rightarrow> None
                 | Some (Inl e) \<Rightarrow> Some (Some e, d, w)
                 | Some (Inr (idRanges, w)) \<Rightarrow>
                     if idRanges = [] then Some (None, d, w)
                     else if length idRanges \<noteq> 2 then Some (Some CorrectnessViolation, d, w)
                     else case toTriples (idRanges ! 1) of
                         Inl e \<Rightarrow> Some (Some e, d, w)
                       | Inr inserted \<Rightarrow>
                           (case insertTriples expensiveChecks notCancelled ops a' blocks inserted d w of
                              None \<Rightarrow> None
                            | Some (Some e, d, w) \<Rightarrow> Some (Some e, d, w)
                            | Some (None, d, w) \<Rightarrow>
                                (case toTriples (idRanges ! 0) of
                                   Inl e \<Rightarrow> Some (Some e, d, w)
                                 | Inr deleted \<Rightarrow>
                                     deleteTriples expensiveChecks notCancelled ops a' blocks deleted d w))))"

definition setPersists :: "string option \<Rightarrow> 'id DeltaTriples \<Rightarrow> 'id DeltaTriples" where
  "setPersists filename d = d\<lparr>filenameForPersisting := filename\<rparr>"

section \<open>The manager\<close>

record ('id, 'w) DeltaTriplesManager =
  deltaTriples :: "'id DeltaTriples"
  managerVocabs :: "'w lvWorld"
  managerFiles :: "string \<rightharpoonup> ('id, 'w) UpdateFile"
  currentLocatedTriplesSnapshot :: "'id LocatedTriplesSnapshot"

definition makeDeltaTriplesManager ::
    "'id DeltaTriples \<Rightarrow> 'w lvWorld \<Rightarrow> (string \<rightharpoonup> ('id, 'w) UpdateFile) \<Rightarrow> ('id, 'w) DeltaTriplesManager" where
  "makeDeltaTriplesManager d w files =
     (let (s, d) = getSnapshot w d in
      \<lparr>deltaTriples = d, managerVocabs = w, managerFiles = files, currentLocatedTriplesSnapshot = s\<rparr>)"

type_synonym ('id, 'w) updateFunction =
  "(string \<rightharpoonup> ('id, 'w) UpdateFile) \<Rightarrow> 'id DeltaTriples \<Rightarrow> 'w lvWorld \<Rightarrow> (error option \<times> 'id DeltaTriples \<times> 'w lvWorld) option"

definition modifyManager ::
    "('id, 'w) IdOps \<Rightarrow> ('id TriplesToHandlesMap \<Rightarrow> 'id IdTriple list) \<Rightarrow> ('id, 'w) updateFunction \<Rightarrow> bool \<Rightarrow>
     ('id, 'w) DeltaTriplesManager \<Rightarrow> (error option \<times> ('id, 'w) DeltaTriplesManager) option" where
  "modifyManager ops keys function writeToDiskAfterRequest m =
     (case function (managerFiles m) (deltaTriples m) (managerVocabs m) of
        None \<Rightarrow> None
      | Some (Some e, d, w) \<Rightarrow> Some (Some e, m\<lparr>deltaTriples := d, managerVocabs := w\<rparr>)
      | Some (None, d, w) \<Rightarrow>
          let m = m\<lparr>deltaTriples := d, managerVocabs := w\<rparr>;
              written = (if writeToDiskAfterRequest then writeToDisk ops keys d w (managerFiles m) else Inr (managerFiles m))
          in case written of
               Inl e \<Rightarrow> Some (Some e, m)
             | Inr files \<Rightarrow>
                 let (s, d) = getSnapshot w d in
                 Some (None, m\<lparr>managerFiles := files, deltaTriples := d, currentLocatedTriplesSnapshot := s\<rparr>))"

definition clearManager ::
    "('id, 'w) IdOps \<Rightarrow> ('id TriplesToHandlesMap \<Rightarrow> 'id IdTriple list) \<Rightarrow> ('id, 'w) DeltaTriplesManager \<Rightarrow>
     (error option \<times> ('id, 'w) DeltaTriplesManager) option" where
  "clearManager ops keys = modifyManager ops keys (\<lambda>_ d w. Some (None, clearDelta d, w)) True"

definition getCurrentSnapshot :: "('id, 'w) DeltaTriplesManager \<Rightarrow> 'id LocatedTriplesSnapshot" where
  "getCurrentSnapshot m = currentLocatedTriplesSnapshot m"

definition setFilenameForPersistentUpdatesAndReadFromDisk ::
    "bool \<Rightarrow> ('id::linorder, 'w) IdOps \<Rightarrow> ('id TriplesToHandlesMap \<Rightarrow> 'id IdTriple list) \<Rightarrow> nat \<Rightarrow> nat \<Rightarrow> nat \<Rightarrow> nat \<Rightarrow>
     'id blockData \<Rightarrow> string \<Rightarrow> ('id, 'w) DeltaTriplesManager \<Rightarrow> (error option \<times> ('id, 'w) DeltaTriplesManager) option" where
  "setFilenameForPersistentUpdatesAndReadFromDisk expensiveChecks ops keys a a' k av blocks filename =
     modifyManager ops keys (\<lambda>files d w.
       readFromDisk expensiveChecks ops a a' k av blocks files (setPersists (Some filename) d) w) False"

section \<open>Blank nodes\<close>

text \<open>The state of the blank nodes of vocabulary \<open>k\<close> in which a new blank node can be created.\<close>

definition blankOk :: "nat \<Rightarrow> nat \<Rightarrow> 'w lvWorld \<Rightarrow> bool" where
  "blankOk a k w \<longleftrightarrow> worldOk (bnW w) \<and> (\<exists>v. vocabs w k = Some v \<and>
     (case localBlankNodeManager v of None \<Rightarrow> blocksStore (bnW w) a = None | Some l \<Rightarrow> localOk (bnW w) l))"

lemma makeLocal_ok:
  assumes "worldOk bw" "blocksStore bw a = None" "makeLocalBlankNodeManager a bw = (l, bw')"
  shows "worldOk bw'" "localOk bw' l" "minIndex (blankNodeManager bw') = minIndex (blankNodeManager bw)"
proof -
  have bw': "bw' = bw\<lparr>blocksStore := (blocksStore bw)(a \<mapsto> [])\<rparr>" and l: "refs l = [a]" "blocksPtr l = a"
    using assms(3) by (auto simp: makeLocalBlankNodeManager_def refs_def)
  have "fst p \<noteq> a" if "p \<in> slots (blocksStore bw)" for p using that assms(2) by (auto simp: slots_def)
  moreover have "slots (blocksStore bw') = slots (blocksStore bw)"
    using assms(2) by (auto simp: bw' slots_def split: if_splits)
  ultimately show "worldOk bw'" by (intro worldOk_cong [OF assms(1)]) (auto simp: bw')
  show "localOk bw' l" by (auto simp: localOk_def l bw' blocksAt_def)
  show "minIndex (blankNodeManager bw') = minIndex (blankNodeManager bw)" by (simp add: bw')
qed

lemma getBlankNodeIndex_ok:
  assumes "blankOk a k w" "LocalVocab.getBlankNodeIndex a k w = Some (Inr (i, w'))"
  shows "blankOk a k w'" "minIndex (blankNodeManager (bnW w')) = minIndex (blankNodeManager (bnW w))"
    "minIndex (blankNodeManager (bnW w)) \<le> i"
proof -
  obtain v where v: "vocabs w k = Some v" and bw: "worldOk (bnW w)" using assms(1) by (auto simp: blankOk_def)
  obtain l bw1 where ens: "ensureManager a v (bnW w) = (l, bw1)" by (cases "ensureManager a v (bnW w)")
  have ok: "worldOk bw1" "localOk bw1 l" "minIndex (blankNodeManager bw1) = minIndex (blankNodeManager (bnW w))"
    using ens assms(1) v bw makeLocal_ok [OF bw, of a l bw1]
    by (auto simp: blankOk_def ensureManager_def split: option.splits)
  obtain l' bw' where g: "getId l bw1 = Some (Inr (i, l', bw'))"
    and w': "w' = w\<lparr>bnW := bw', vocabs := (vocabs w)(k \<mapsto> v\<lparr>localBlankNodeManager := Some l'\<rparr>)\<rparr>"
    using assms(2) v ens by (auto simp: LocalVocab.getBlankNodeIndex_def Let_def split: option.splits sum.splits)
  note spec = getId_spec [OF ok(1,2) g]
  show "blankOk a k w'" using spec(1,2) by (simp add: blankOk_def w')
  show "minIndex (blankNodeManager (bnW w')) = minIndex (blankNodeManager (bnW w))"
    using getId_rand [OF ok(1,2) g] ok(3) by (simp add: w')
  show "minIndex (blankNodeManager (bnW w)) \<le> i" using spec(5) ok(3) by simp
qed

text \<open>All indices in the mapping of the blank nodes are new ones.\<close>

definition mappingOk :: "nat \<Rightarrow> nat \<Rightarrow> nat \<Rightarrow> ('id \<rightharpoonup> nat) \<times> 'w lvWorld \<Rightarrow> bool" where
  "mappingOk a k m s \<longleftrightarrow> blankOk a k (snd s) \<and> minIndex (blankNodeManager (bnW (snd s))) = m \<and>
     (\<forall>i b. fst s i = Some b \<longrightarrow> m \<le> b)"

lemma deserializeId_ok:
  assumes "mappingOk a k m s" "deserializeId ops a k mapping i s = Some (Inr (i', s'))"
  shows "mappingOk a k m s' \<and> (\<forall>b. idView ops i = BlankNodeId b \<longrightarrow> (\<exists>b'\<ge>m. i' = idFromBlankNodeIndex ops b')) \<and>
    (idView ops i = OtherId \<longrightarrow> i' = i)"
proof (cases "idView ops i")
  case (BlankNodeId b0)
  show ?thesis
  proof (cases "fst s i")
    case None
    then obtain b' w' where g: "LocalVocab.getBlankNodeIndex a k (snd s) = Some (Inr (b', w'))"
      and r: "i' = idFromBlankNodeIndex ops b'" "s' = ((fst s)(i \<mapsto> b'), w')"
      using assms(2) BlankNodeId by (cases s) (auto simp: deserializeId_def split: option.splits sum.splits)
    have "blankOk a k (snd s)" using assms(1) by (simp add: mappingOk_def)
    from getBlankNodeIndex_ok [OF this g] show ?thesis using assms(1) r BlankNodeId by (auto simp: mappingOk_def)
  next
    case (Some c)
    then show ?thesis using assms BlankNodeId by (auto simp: deserializeId_def mappingOk_def split: prod.splits)
  qed
qed (use assms in \<open>auto simp: deserializeId_def split: prod.splits option.splits\<close>)

lemma forEach_induct:
  assumes "P s" "forEach f xs s = Some (Inr (ys, s'))"
    and "\<And>x s y s'. P s \<Longrightarrow> f x s = Some (Inr (y, s')) \<Longrightarrow> P s' \<and> Q x y"
  shows "P s' \<and> list_all2 Q xs ys"
  using assms(1,2)
proof (induction xs arbitrary: s ys)
  case (Cons x xs)
  obtain y s1 ys' where step: "f x s = Some (Inr (y, s1))" "ys = y # ys'" "forEach f xs s1 = Some (Inr (ys', s'))"
    using Cons.prems(2) by (auto split: option.splits sum.splits)
  then show ?case using assms(3) [OF Cons.prems(1) step(1)] Cons.IH [OF _ step(3)] by simp
qed simp

text \<open>Reading a range of ids replaces every blank node, also those of the index itself, by a new blank node
  that the index does not contain: an inserted or deleted triple with a blank node of the index is not
  restored.\<close>

theorem blank_nodes_of_index_not_restored:
  assumes "worldOk (bnW w)" "vocabs w k = Some v" "localBlankNodeManager v = None" "blocksStore (bnW w) a = None"
    and "\<forall>b. idView ops (idFromBlankNodeIndex ops b) = BlankNodeId b"
    and "deserializeRange ops a k mapping ids w = Some (Inr (ids', w'))"
    and "j < length ids" "idView ops (ids ! j) = BlankNodeId b" "isGlobalBlankNode w b"
  shows "ids' ! j \<noteq> ids ! j \<and> (\<exists>b'. idView ops (ids' ! j) = BlankNodeId b' \<and> \<not> isGlobalBlankNode w b')"
proof -
  let ?m = "minIndex (blankNodeManager (bnW w))"
  let ?Q = "\<lambda>i i'. \<forall>b. idView ops i = BlankNodeId b \<longrightarrow> (\<exists>b'\<ge>?m. i' = idFromBlankNodeIndex ops b')"
  obtain m where run: "forEach (deserializeId ops a k mapping) ids (Map.empty, w) = Some (Inr (ids', m, w'))"
    using assms(6) by (auto simp: deserializeRange_def split: option.splits sum.splits)
  have start: "mappingOk a k ?m (Map.empty, w)" using assms(1-4) by (simp add: mappingOk_def blankOk_def)
  have step: "mappingOk a k ?m s' \<and> ?Q i i'"
    if "mappingOk a k ?m s" "deserializeId ops a k mapping i s = Some (Inr (i', s'))" for i i' s s'
    using deserializeId_ok [OF that] by blast
  have "mappingOk a k ?m (m, w') \<and> list_all2 ?Q ids ids'"
    by (rule forEach_induct [where P = "mappingOk a k ?m" and Q = ?Q, OF start run]) (rule step)
  then obtain b' where b': "?m \<le> b'" "ids' ! j = idFromBlankNodeIndex ops b'"
    using assms(7,8) by (auto simp: list_all2_conv_all_nth)
  then have "idView ops (ids' ! j) = BlankNodeId b'" using assms(5) by simp
  then show ?thesis using b'(1) assms(8,9) by (auto simp: isGlobalBlankNode_def)
qed

definition blankOps :: "(nat, nat) IdOps" where
  "blankOps = \<lparr>idView = BlankNodeId, idFromLocalVocabIndex = snd, idFromBlankNodeIndex = id\<rparr>"

lemma blank_nodes_of_index_not_restored_witness:
  "\<exists>ids' w'. deserializeRange blankOps 3 1 Map.empty [5] exampleVocabs = Some (Inr (ids', w')) \<and> ids' ! 0 \<noteq> 5"
proof -
  have "shd exampleRand = 0" by (simp add: exampleRand_def upt_rec)
  then have "drawUnused {} exampleRand = Some (0, stl exampleRand)" by (subst drawUnused.simps) simp
  then obtain w' where w': "LocalVocab.getBlankNodeIndex 3 1 exampleVocabs = Some (Inr (exampleMin, w'))"
    by (simp add: LocalVocab.getBlankNodeIndex_def exampleVocabs_def ensureManager_def makeLocalBlankNodeManager_def
        getId_def blocksAt_def allocateBlock_def initialSystem_def makeBlankNodeManager_def example_total
        makeBlock_def Let_def)
  then have run: "deserializeRange blankOps 3 1 Map.empty [5] exampleVocabs = Some (Inr ([exampleMin], w'))"
    by (simp add: deserializeRange_def deserializeId_def blankOps_def)
  have "worldOk (bnW exampleVocabs)"
    using systemOk_init [OF example_total(1) example_rand(1)] by (simp add: systemOk_def exampleVocabs_def)
  moreover have "isGlobalBlankNode exampleVocabs 5"
    by (simp add: isGlobalBlankNode_def exampleVocabs_def initialSystem_def makeBlankNodeManager_def exampleMin_def)
  ultimately have "[exampleMin] ! 0 \<noteq> [5] ! 0"
    using blank_nodes_of_index_not_restored [where j = 0 and b = 5, OF _ _ _ _ _ run]
    by (auto simp: exampleVocabs_def blankOps_def initialSystem_def)
  then show ?thesis using run by auto
qed


section \<open>Round trip\<close>

lemma forEach_id: "(\<And>x s. x \<in> set xs \<Longrightarrow> f x s = Some (Inr (x, s))) \<Longrightarrow> forEach f xs s = Some (Inr (xs, s))"
  by (induction xs) auto

lemma toTriples_concat: "\<forall>t\<in>set ts. length t = 4 \<Longrightarrow> toTriples (concat ts) = Inr ts"
proof (induction ts)
  case (Cons t ts)
  then obtain a b c d where "t = [a, b, c, d]" by (auto simp: numeral_eq_Suc length_Suc_conv)
  then show ?case using Cons by simp
qed simp

lemma deserializeWords_ok:
  assumes "vocabs w k = Some v" "\<not> copied v"
  shows "\<exists>m w'. deserializeWords ops k entries mapping w = Inr (m, w')"
  using assms
proof (induction ops k entries mapping w arbitrary: v rule: deserializeWords.induct)
  case (2 ops k i s rest mapping w)
  obtain j w1 where g: "getIndexAndAddIfNotContained k s w = Inr (j, w1)" "\<exists>v'. vocabs w1 k = Some v' \<and> \<not> copied v'"
    using 2(2,3) by (simp add: getIndexAndAddIfNotContained_def Let_def)
  then show ?case using 2(1) by (cases j) auto
qed simp

lemma rewrite_other:
  assumes "\<forall>t\<in>set ts. \<forall>i\<in>set t. idView ops i = OtherId"
  shows "rewriteLocalVocabEntriesAndBlankNodes ops a k ts w = Some (Inr (ts, w))"
proof -
  have "convertId ops a k i s = Some (Inr (i, s))" if "idView ops i = OtherId" for i s
    using that by (cases s) (simp add: convertId_def)
  then have "forEach (convertId ops a k) t s = Some (Inr (t, s))" if "t \<in> set ts" for t s
    using assms that by (intro forEach_id) auto
  then show ?thesis
    using forEach_id [of ts "forEach (convertId ops a k)" "(Map.empty, w)"]
    by (simp add: rewriteLocalVocabEntriesAndBlankNodes_def)
qed

lemma deserializeRange_other:
  assumes "\<forall>i\<in>set ids. idView ops i = OtherId"
  shows "deserializeRange ops a k mapping ids w = Some (Inr (ids, w))"
proof -
  have "deserializeId ops a k mapping i s = Some (Inr (i, s))" if "i \<in> set ids" for i s
    using that assms by (cases s) (simp add: deserializeId_def)
  then show ?thesis
    using forEach_id [of ids "deserializeId ops a k mapping" "(Map.empty, w)"] by (simp add: deserializeRange_def)
qed

lemma deserialize_written:
  assumes "writeToDisk ops keys d w files = Inr files'" "filenameForPersisting d = Some fn"
    and "\<forall>i\<in>set (concat (keys (triplesInserted d)) @ concat (keys (triplesDeleted d))). idView ops i = OtherId"
  shows "\<exists>f w'. files' fn = Some f \<and> deserializeIds ops a k av f w0 =
    Some (Inr ([concat (keys (triplesDeleted d)), concat (keys (triplesInserted d))], w'))"
proof -
  obtain f where f: "files' fn = Some f" "readHeader f = Inr ()"
      "fileRanges f = [concat (keys (triplesDeleted d)), concat (keys (triplesInserted d))]"
    using assms(1,2) by (auto simp: writeToDisk_def serializeIds_def writeHeader_def readHeader_def Let_def elim!: res_bind_InrE)
  obtain m w' where m: "deserializeLocalVocab ops k av (fileVocab f) w0 = Inr (m, w')"
    unfolding deserializeLocalVocab_def
    using deserializeWords_ok [of "makeLocalVocab k av w0" k _ ops "fileVocab f" Map.empty] by auto
  have "deserializeRange ops a k m (concat (keys (triplesDeleted d))) w' = Some (Inr (concat (keys (triplesDeleted d)), w'))"
    "deserializeRange ops a k m (concat (keys (triplesInserted d))) w' = Some (Inr (concat (keys (triplesInserted d)), w'))"
    using assms(3) by (auto intro!: deserializeRange_other)
  then show ?thesis using f m by (auto simp: deserializeIds_def)
qed



definition persistedDelta :: "nat \<Rightarrow> nat DeltaTriples" where
  "persistedDelta k = setPersists (Some ''f'') (emptyDelta\<lparr>localVocab := k\<rparr>)"

lemma persistedDelta_ok: "deltaOk blocks (persistedDelta k)"
  using emptyDelta_ok [of blocks] by (simp add: persistedDelta_def setPersists_def deltaOk_def)


section \<open>Snapshots\<close>

text \<open>C24: A modification that succeeds publishes a snapshot of exactly the located triples it leaves behind,
  with a larger index than every earlier snapshot; a modification that fails leaves the current
  snapshot as it was, so a query never sees the state of a failed or unfinished modification.\<close>

theorem manager_snapshots:
  assumes "snapshotIndex (getCurrentSnapshot m) < nextSnapshotIndex (deltaTriples m)"
    and "\<And>files d w e d' w'. function files d w = Some (e, d', w') \<Longrightarrow> nextSnapshotIndex d' = nextSnapshotIndex d"
    and "modifyManager ops keys function writeToDiskAfterRequest m = Some (e, m')"
  shows "snapshotIndex (getCurrentSnapshot m') < nextSnapshotIndex (deltaTriples m') \<and>
    (if e = None
     then (\<forall>p. getLocatedTriplesForPermutation (getCurrentSnapshot m') p = locatedTriples (deltaTriples m') p) \<and>
          snapshotIndex (getCurrentSnapshot m) < snapshotIndex (getCurrentSnapshot m')
     else getCurrentSnapshot m' = getCurrentSnapshot m)"
proof -
  obtain e0 d w where f: "function (managerFiles m) (deltaTriples m) (managerVocabs m) = Some (e0, d, w)"
    using assms(3) by (auto simp: modifyManager_def split: option.splits)
  then have "nextSnapshotIndex d = nextSnapshotIndex (deltaTriples m)" by (rule assms(2))
  then show ?thesis
    using assms(1,3) f
    by (auto simp: modifyManager_def getSnapshot_def getCurrentSnapshot_def getLocatedTriplesForPermutation_def Let_def
        split: option.splits sum.splits)
qed

lemma manager_snapshots_witness:
  "\<exists>m'. clearManager exampleOps (\<lambda>m. []) (makeDeltaTriplesManager emptyDelta exampleVocabs Map.empty) = Some (None, m') \<and>
     snapshotIndex (getCurrentSnapshot m') = 1"
proof -
  let ?m = "makeDeltaTriplesManager emptyDelta exampleVocabs Map.empty :: (nat, nat) DeltaTriplesManager"
  let ?f = "\<lambda>_ d w. Some (None, clearDelta d, w)"
  obtain m' where run: "modifyManager exampleOps (\<lambda>m. []) ?f True ?m = Some (None, m')"
      "snapshotIndex (getCurrentSnapshot m') \<le> 1"
    by (simp add: modifyManager_def makeDeltaTriplesManager_def getSnapshot_def writeToDisk_def emptyDelta_def
        clearDelta_def getCurrentSnapshot_def)
  have "snapshotIndex (getCurrentSnapshot ?m) = 0" "nextSnapshotIndex (deltaTriples ?m) = 1"
    by (simp_all add: makeDeltaTriplesManager_def getSnapshot_def emptyDelta_def getCurrentSnapshot_def)
  then show ?thesis using manager_snapshots [OF _ _ run(1)] run
    by (auto simp: clearManager_def clearDelta_def)
qed

end
