(* ===== verification/PriorityQueue.thy ===== *)
theory PriorityQueue
  imports Prelude
begin

text \<open>
  The two priority queues of \<open>util/PriorityQueue.h\<close>. \<open>TreeBasedPQ\<close> keeps its handles in a
  \<open>std::multiset\<close>, here a list sorted by score. \<open>HeapBasedPQ\<close> keeps entries in a
  \<open>std::priority_queue\<close> that point to shared nodes; a changed key is a second entry, and entries whose
  score is no longer the score of their node are dropped when they reach the top. The addresses of the
  shared objects are numbered in the order of their allocation. Which of several entries with the same
  smallest score is on top of the \<open>std::priority_queue\<close> is not specified by the library and is a
  parameter of the model. The operations that the cache uses form an interface with laws, proved for
  both implementations; the laws of the heap need keys that do not become smaller.
\<close>

section \<open>The queue based on a balanced tree\<close>

record ('s, 'e) TreeHandle =
  thScore :: 's     \<comment> \<open>\<open>mScore\<close>\<close>
  thPtr :: nat      \<comment> \<open>the address of \<open>mValue\<close>\<close>
  thValue :: 'e     \<comment> \<open>\<open>*mValue\<close>\<close>

record ('s, 'e) TreeBasedPQ =
  mMap :: "('s, 'e) TreeHandle list"
  nextPtr :: nat    \<comment> \<open>the address of the next allocated value\<close>

definition makeTreeBasedPQ :: "('s, 'e) TreeBasedPQ" where
  "makeTreeBasedPQ = \<lparr>mMap = [], nextPtr = 0\<rparr>"

text \<open>\<open>std::multiset::insert\<close> places an element after all equivalent ones.\<close>

fun multisetInsert :: "('s::linorder, 'e) TreeHandle \<Rightarrow> ('s, 'e) TreeHandle list \<Rightarrow> ('s, 'e) TreeHandle list" where
  "multisetInsert h [] = [h]"
| "multisetInsert h (x # xs) = (if thScore h < thScore x then h # x # xs else x # multisetInsert h xs)"

definition treeClear :: "('s, 'e) TreeBasedPQ \<Rightarrow> ('s, 'e) TreeBasedPQ" where
  "treeClear pq = pq\<lparr>mMap := []\<rparr>"

definition treeInsert ::
    "'s::linorder \<Rightarrow> 'e \<Rightarrow> ('s, 'e) TreeBasedPQ \<Rightarrow> ('s, 'e) TreeHandle \<times> ('s, 'e) TreeBasedPQ" where
  "treeInsert s v pq =
     (let handle = \<lparr>thScore = s, thPtr = nextPtr pq, thValue = v\<rparr>
      in (handle, pq\<lparr>mMap := multisetInsert handle (mMap pq), nextPtr := nextPtr pq + 1\<rparr>))"

definition treeSize :: "('s, 'e) TreeBasedPQ \<Rightarrow> nat" where
  "treeSize pq = length (mMap pq)"

definition treePop :: "('s, 'e) TreeBasedPQ \<Rightarrow> (('s, 'e) TreeHandle \<times> ('s, 'e) TreeBasedPQ) result" where
  "treePop pq =
     (if treeSize pq = 0 then Inl EmptyPopException
      else Inr (hd (mMap pq), pq\<lparr>mMap := tl (mMap pq)\<rparr>))"

text \<open>\<open>equal_range\<close> looks only at the score; in the range the pointers are compared.\<close>

definition equalRange :: "('s::linorder, 'e) TreeHandle \<Rightarrow> ('s, 'e) TreeHandle list \<Rightarrow> nat \<times> nat" where
  "equalRange h m =
     (length (takeWhile (\<lambda>x. thScore x < thScore h) m), length (takeWhile (\<lambda>x. thScore x \<le> thScore h) m))"

definition treeFind :: "('s::linorder, 'e) TreeHandle \<Rightarrow> ('s, 'e) TreeBasedPQ \<Rightarrow> nat option" where
  "treeFind h pq =
     (let (beg, e) = equalRange h (mMap pq)
      in List.find (\<lambda>i. thPtr (mMap pq ! i) = thPtr h) [beg..<e])"

definition removeNth :: "nat \<Rightarrow> 'a list \<Rightarrow> 'a list" where
  "removeNth i xs = take i xs @ drop (Suc i) xs"

definition treeErase :: "('s::linorder, 'e) TreeHandle \<Rightarrow> ('s, 'e) TreeBasedPQ \<Rightarrow> ('s, 'e) TreeBasedPQ result" where
  "treeErase h pq =
     (case treeFind h pq of
        Some i \<Rightarrow> Inr (pq\<lparr>mMap := removeNth i (mMap pq)\<rparr>)
      | None \<Rightarrow> Inl NotInPQException)"

definition treeContains :: "('s::linorder, 'e) TreeHandle \<Rightarrow> ('s, 'e) TreeBasedPQ \<Rightarrow> bool" where
  "treeContains h pq \<longleftrightarrow> treeFind h pq \<noteq> None"

definition treeUpdateKey ::
    "'s::linorder \<Rightarrow> ('s, 'e) TreeHandle \<Rightarrow> ('s, 'e) TreeBasedPQ \<Rightarrow>
     (('s, 'e) TreeHandle \<times> ('s, 'e) TreeBasedPQ) result" where
  "treeUpdateKey newKey h pq =
     (case treeFind h pq of
        Some i \<Rightarrow>
          let h' = h\<lparr>thScore := newKey\<rparr>
          in Inr (h', pq\<lparr>mMap := multisetInsert h' (removeNth i (mMap pq))\<rparr>)
      | None \<Rightarrow> Inl NotInPQException)"

section \<open>The queue based on a heap\<close>

record ('s, 'e) PqNode =
  pnScore :: "'s option"   \<comment> \<open>\<open>None\<close> is \<open>std::monostate\<close>\<close>
  pnValue :: 'e
  pnIsInPQ :: bool

record ('s, 'e) HeapBasedPQ =
  pqNodes :: "('s, 'e) PqNode list"   \<comment> \<open>the nodes by their address\<close>
  pqEntries :: "('s \<times> nat) list"      \<comment> \<open>\<open>_pq\<close>: scores and handles\<close>
  mSize :: nat

type_synonym 's topOf = "('s \<times> nat) list \<Rightarrow> nat"

definition makeHeapBasedPQ :: "('s, 'e) HeapBasedPQ" where
  "makeHeapBasedPQ = \<lparr>pqNodes = [], pqEntries = [], mSize = 0\<rparr>"

definition decrement :: "nat \<Rightarrow> nat" where
  "decrement n = (if n = 0 then 2 ^ 64 - 1 else n - 1)"

definition isInPq :: "('s, 'e) HeapBasedPQ \<Rightarrow> nat \<Rightarrow> bool" where
  "isInPq pq h = pnIsInPQ (pqNodes pq ! h)"

definition isValid :: "('s, 'e) HeapBasedPQ \<Rightarrow> nat \<Rightarrow> bool" where
  "isValid pq h \<longleftrightarrow> pnScore (pqNodes pq ! h) \<noteq> None"

definition handleScore :: "('s, 'e) HeapBasedPQ \<Rightarrow> nat \<Rightarrow> 's result" where
  "handleScore pq h = (case pnScore (pqNodes pq ! h) of None \<Rightarrow> Inl BadVariantAccess | Some s \<Rightarrow> Inr s)"

definition handleValue :: "('s, 'e) HeapBasedPQ \<Rightarrow> nat \<Rightarrow> 'e" where
  "handleValue pq h = pnValue (pqNodes pq ! h)"

definition eraseHandle :: "nat \<Rightarrow> ('s, 'e) HeapBasedPQ \<Rightarrow> ('s, 'e) HeapBasedPQ" where
  "eraseHandle h pq = pq\<lparr>pqNodes := (pqNodes pq)[h := (pqNodes pq ! h)\<lparr>pnIsInPQ := False\<rparr>]\<rparr>"

definition eraseAndInvalidate :: "'e \<Rightarrow> nat \<Rightarrow> ('s, 'e) HeapBasedPQ \<Rightarrow> ('s, 'e) HeapBasedPQ" where
  "eraseAndInvalidate dflt h pq =
     pq\<lparr>pqNodes := (pqNodes pq)[h := \<lparr>pnScore = None, pnValue = dflt, pnIsInPQ = False\<rparr>]\<rparr>"

definition assertValidHandle :: "('s, 'e) HeapBasedPQ \<Rightarrow> nat \<Rightarrow> unit result" where
  "assertValidHandle pq h = ensure NotInPQException (isInPq pq h)"

definition heapClear :: "('s, 'e) HeapBasedPQ \<Rightarrow> ('s, 'e) HeapBasedPQ" where
  "heapClear pq = pq\<lparr>pqEntries := [], mSize := 0\<rparr>"

definition heapErase :: "'e \<Rightarrow> nat \<Rightarrow> ('s, 'e) HeapBasedPQ \<Rightarrow> ('s, 'e) HeapBasedPQ result" where
  "heapErase dflt h pq =
     res_bind (assertValidHandle pq h) (\<lambda>_.
       Inr ((eraseAndInvalidate dflt h pq)\<lparr>mSize := decrement (mSize pq)\<rparr>))"

definition heapInsert :: "'s \<Rightarrow> 'e \<Rightarrow> ('s, 'e) HeapBasedPQ \<Rightarrow> nat \<times> ('s, 'e) HeapBasedPQ" where
  "heapInsert s v pq =
     (let handle = length (pqNodes pq)
      in (handle, pq\<lparr>pqNodes := pqNodes pq @ [\<lparr>pnScore = Some s, pnValue = v, pnIsInPQ = True\<rparr>],
                    pqEntries := pqEntries pq @ [(s, handle)], mSize := mSize pq + 1\<rparr>))"

text \<open>\<open>pick\<close> gives the position of the top entry; it always lies in a non-empty vector, so the second
  test of the loop never ends it for the library's queue.\<close>

definition isCurrent :: "('s, 'e) HeapBasedPQ \<Rightarrow> 's \<times> nat \<Rightarrow> bool" where
  "isCurrent pq entry \<longleftrightarrow> isValid pq (snd entry) \<and> handleScore pq (snd entry) = Inr (fst entry)"

function pruneChangedKeys :: "'s topOf \<Rightarrow> ('s, 'e) HeapBasedPQ \<Rightarrow> ('s, 'e) HeapBasedPQ" where
  "pruneChangedKeys pick pq =
     (if pqEntries pq = [] \<or> length (pqEntries pq) \<le> pick (pqEntries pq) then pq
      else if isCurrent pq (pqEntries pq ! pick (pqEntries pq)) then pq
      else pruneChangedKeys pick (pq\<lparr>pqEntries := removeNth (pick (pqEntries pq)) (pqEntries pq)\<rparr>))"
  by pat_completeness auto
termination
  by (relation "measure (\<lambda>(_, pq). length (pqEntries pq))") (auto simp: removeNth_def)

declare pruneChangedKeys.simps [simp del]

definition heapPop :: "'s topOf \<Rightarrow> ('s, 'e) HeapBasedPQ \<Rightarrow> (nat \<times> ('s, 'e) HeapBasedPQ) result" where
  "heapPop pick pq =
     (let pq = pruneChangedKeys pick pq; i = pick (pqEntries pq)
      in if pqEntries pq = [] then Inl EmptyPopException
         else let handle = snd (pqEntries pq ! i)
              in Inr (handle, eraseHandle handle
                   (pq\<lparr>pqEntries := removeNth i (pqEntries pq), mSize := decrement (mSize pq)\<rparr>)))"

definition heapUpdateKey ::
    "'s \<Rightarrow> nat \<Rightarrow> ('s, 'e) HeapBasedPQ \<Rightarrow> (nat \<times> ('s, 'e) HeapBasedPQ) result" where
  "heapUpdateKey newKey h pq =
     res_bind (assertValidHandle pq h) (\<lambda>_.
       res_bind (handleScore pq h) (\<lambda>s.
         if newKey = s then Inr (h, pq)
         else Inr (h, pq\<lparr>pqNodes := (pqNodes pq)[h := (pqNodes pq ! h)\<lparr>pnScore := Some newKey\<rparr>],
                        pqEntries := pqEntries pq @ [(newKey, h)]\<rparr>)))"

definition technicalSize :: "('s, 'e) HeapBasedPQ \<Rightarrow> nat" where
  "technicalSize pq = length (pqEntries pq)"

section \<open>The interface of the queues\<close>

record ('pq, 'h, 's, 'e) PQOps =
  pqInsert :: "'s \<Rightarrow> 'e \<Rightarrow> 'pq \<Rightarrow> 'h \<times> 'pq"
  pqPop :: "'pq \<Rightarrow> ('h \<times> 'pq) result"
  pqErase :: "'h \<Rightarrow> 'pq \<Rightarrow> 'pq result"
  pqUpdateKey :: "'s \<Rightarrow> 'h \<Rightarrow> 'pq \<Rightarrow> ('h \<times> 'pq) result"
  pqClear :: "'pq \<Rightarrow> 'pq"
  pqSize :: "'pq \<Rightarrow> nat"
  pqScore :: "'pq \<Rightarrow> 'h \<Rightarrow> 's result"
  pqValue :: "'pq \<Rightarrow> 'h \<Rightarrow> 'e"

definition treeOps :: "(('s::linorder, 'e) TreeBasedPQ, ('s, 'e) TreeHandle, 's, 'e) PQOps" where
  "treeOps = \<lparr>pqInsert = treeInsert, pqPop = treePop, pqErase = treeErase, pqUpdateKey = treeUpdateKey,
     pqClear = treeClear, pqSize = treeSize, pqScore = (\<lambda>_ h. Inr (thScore h)), pqValue = (\<lambda>_. thValue)\<rparr>"

definition heapOps :: "('s::linorder) topOf \<Rightarrow> 'e \<Rightarrow> (('s, 'e) HeapBasedPQ, nat, 's, 'e) PQOps" where
  "heapOps pick dflt = \<lparr>pqInsert = heapInsert, pqPop = heapPop pick, pqErase = heapErase dflt,
     pqUpdateKey = heapUpdateKey, pqClear = heapClear, pqSize = mSize, pqScore = handleScore,
     pqValue = handleValue\<rparr>"

text \<open>
  The contract: a queue holds a finite map from its handles to scores and values; insertion adds a
  handle that was not in the map, popping removes a handle with a smallest score, and changing a key to
  one that is not smaller keeps the value. The last law says that the handle that was popped still
  gives its value.
\<close>

locale priority_queue =
  fixes ops :: "('pq, 'h, 's::linorder, 'e) PQOps"
    and inv :: "'pq \<Rightarrow> bool"
    and contents :: "'pq \<Rightarrow> 'h \<rightharpoonup> 's \<times> 'e"
  assumes insert_law: "inv pq \<Longrightarrow> pqInsert ops s v pq = (h, pq') \<Longrightarrow>
      inv pq' \<and> contents pq h = None \<and> contents pq' = (contents pq)(h \<mapsto> (s, v))"
    and pop_empty: "inv pq \<Longrightarrow> contents pq = Map.empty \<Longrightarrow> pqPop ops pq = Inl EmptyPopException"
    and pop_law: "inv pq \<Longrightarrow> contents pq \<noteq> Map.empty \<Longrightarrow>
      \<exists>h pq' s v. pqPop ops pq = Inr (h, pq') \<and> inv pq' \<and> contents pq h = Some (s, v) \<and>
        contents pq' = (contents pq)(h := None) \<and> pqScore ops pq' h = Inr s \<and> pqValue ops pq' h = v \<and>
        (\<forall>h' s' v'. contents pq h' = Some (s', v') \<longrightarrow> s \<le> s')"
    and erase_law: "inv pq \<Longrightarrow> contents pq h \<noteq> None \<Longrightarrow>
      \<exists>pq'. pqErase ops h pq = Inr pq' \<and> inv pq' \<and> contents pq' = (contents pq)(h := None)"
    and update_law: "inv pq \<Longrightarrow> contents pq h = Some (s, v) \<Longrightarrow> s \<le> s' \<Longrightarrow>
      \<exists>h' pq'. pqUpdateKey ops s' h pq = Inr (h', pq') \<and> inv pq' \<and>
        ((contents pq)(h := None)) h' = None \<and>
        contents pq' = (contents pq)(h := None, h' \<mapsto> (s', v))"
    and clear_law: "inv pq \<Longrightarrow> inv (pqClear ops pq) \<and> contents (pqClear ops pq) = Map.empty"
    and size_law: "inv pq \<Longrightarrow> finite (dom (contents pq)) \<and> pqSize ops pq = card (dom (contents pq))"
    and handle_law: "inv pq \<Longrightarrow> contents pq h = Some (s, v) \<Longrightarrow> pqScore ops pq h = Inr s \<and> pqValue ops pq h = v"

section \<open>The tree fulfils the contract\<close>

definition treeInv :: "('s::linorder, 'e) TreeBasedPQ \<Rightarrow> bool" where
  "treeInv pq \<longleftrightarrow> sorted (map thScore (mMap pq)) \<and> distinct (map thPtr (mMap pq)) \<and>
     (\<forall>h\<in>set (mMap pq). thPtr h < nextPtr pq)"

definition treeContents :: "('s, 'e) TreeBasedPQ \<Rightarrow> ('s, 'e) TreeHandle \<rightharpoonup> 's \<times> 'e" where
  "treeContents pq h = (if h \<in> set (mMap pq) then Some (thScore h, thValue h) else None)"

lemma set_multisetInsert [simp]: "set (multisetInsert h m) = insert h (set m)"
  by (induction m) auto

lemma sorted_multisetInsert: "sorted (map thScore m) \<Longrightarrow> sorted (map thScore (multisetInsert h m))"
  by (induction m) auto

lemma distinct_multisetInsert:
  "distinct (map thPtr (multisetInsert h m)) \<longleftrightarrow> distinct (map thPtr m) \<and> thPtr h \<notin> thPtr ` set m"
  by (induction m) auto

lemma length_takeWhile_le_mono:
  "(\<And>x. x \<in> set xs \<Longrightarrow> P x \<Longrightarrow> Q x) \<Longrightarrow> length (takeWhile P xs) \<le> length (takeWhile Q xs)"
  by (induction xs) auto

text \<open>The position of an element of a sorted list lies in the range of its score.\<close>

lemma sorted_takeWhile_index:
  assumes "sorted (map f m)" "i < length m"
  shows "length (takeWhile (\<lambda>x. f x < f (m ! i)) m) \<le> i"
    and "i < length (takeWhile (\<lambda>x. f x \<le> f (m ! i)) m)"
proof -
  show "length (takeWhile (\<lambda>x. f x < f (m ! i)) m) \<le> i"
  proof (rule ccontr)
    assume "\<not> ?thesis"
    then have "i < length (takeWhile (\<lambda>x. f x < f (m ! i)) m)" by simp
    from set_takeWhileD [OF nth_mem [OF this]] takeWhile_nth [OF this] show False by simp
  qed
  show "i < length (takeWhile (\<lambda>x. f x \<le> f (m ! i)) m)"
  proof (rule ccontr)
    assume not: "\<not> ?thesis"
    let ?n = "length (takeWhile (\<lambda>x. f x \<le> f (m ! i)) m)"
    have "?n < length m" "?n \<le> i" using not assms(2) by simp_all
    with assms have "f (m ! ?n) \<le> f (m ! i)" by (auto simp: sorted_iff_nth_mono)
    with nth_length_takeWhile [OF \<open>?n < length m\<close>] show False by simp
  qed
qed

lemma ptr_inj:
  "distinct (map thPtr m) \<Longrightarrow> i < length m \<Longrightarrow> j < length m \<Longrightarrow> thPtr (m ! i) = thPtr (m ! j) \<Longrightarrow> i = j"
  using nth_eq_iff_index_eq [of "map thPtr m" i j] by simp

lemma treeFind_present:
  assumes "treeInv pq" "i < length (mMap pq)"
  shows "treeFind (mMap pq ! i) pq = Some i"
proof -
  let ?m = "mMap pq"
  note wf = assms(1) [unfolded treeInv_def]
  obtain b e where r: "equalRange (?m ! i) ?m = (b, e)" by (rule prod.exhaust)
  have "b \<le> i" "i < e" "e \<le> length ?m"
    using r sorted_takeWhile_index [of thScore ?m i] wf assms(2) length_takeWhile_le
    by (auto simp: equalRange_def)
  moreover have "thPtr (?m ! j) = thPtr (?m ! i) \<longleftrightarrow> j = i" if "j < e" for j
    using ptr_inj [of ?m j i] wf assms(2) that \<open>e \<le> length ?m\<close> by auto
  ultimately have "List.find (\<lambda>j. thPtr (?m ! j) = thPtr (?m ! i)) [b..<e] = Some i"
    unfolding find_Some_iff by (intro exI [of _ "i - b"]) auto
  with r show ?thesis by (simp add: treeFind_def)
qed

lemma set_removeNth:
  assumes "distinct m" "i < length m"
  shows "set (removeNth i m) = set m - {m ! i}"
proof -
  have m: "m = take i m @ m ! i # drop (Suc i) m" using id_take_nth_drop [OF assms(2)] .
  have "distinct (take i m @ m ! i # drop (Suc i) m)" using assms(1) m by simp
  moreover have "set m = set (take i m) \<union> {m ! i} \<union> set (drop (Suc i) m)" by (subst m) auto
  ultimately show ?thesis by (auto simp: removeNth_def)
qed

lemma removeNth_map: "map f (removeNth i m) = removeNth i (map f m)"
  by (simp add: removeNth_def take_map drop_map)

lemma removeNth_sorted:
  assumes "sorted m"
  shows "sorted (removeNth i m)"
proof -
  have "sorted (take i m @ drop i m)" using assms by simp
  then have "\<forall>x\<in>set (take i m). \<forall>y\<in>set (drop i m). x \<le> y" unfolding sorted_append by simp
  moreover have "set (drop (Suc i) m) \<subseteq> set (drop i m)" by (rule set_drop_subset_set_drop) simp
  ultimately show ?thesis
    using assms by (auto simp: removeNth_def sorted_append sorted_wrt_take sorted_wrt_drop)
qed

lemma treeInv_distinct: "treeInv pq \<Longrightarrow> distinct (mMap pq)"
  by (auto simp: treeInv_def distinct_map)

lemma set_removeNth_subset: "set (removeNth i m) \<subseteq> set m"
  by (auto simp: removeNth_def dest: in_set_takeD in_set_dropD)

lemma treeInv_removeNth:
  assumes "treeInv pq"
  shows "treeInv (pq\<lparr>mMap := removeNth i (mMap pq)\<rparr>)"
proof -
  have "sorted (map thScore (removeNth i (mMap pq)))" "distinct (map thPtr (removeNth i (mMap pq)))"
    using assms removeNth_sorted [of "map thScore (mMap pq)" i]
    by (simp_all add: treeInv_def removeNth_map)
       (simp add: removeNth_def set_take_disj_set_drop_if_distinct)
  then show ?thesis using assms set_removeNth_subset by (fastforce simp: treeInv_def)
qed

lemma treeInv_insert:
  assumes "treeInv pq" "thPtr h \<notin> thPtr ` set (mMap pq)" "thPtr h < n" "nextPtr pq \<le> n"
  shows "treeInv (pq\<lparr>mMap := multisetInsert h (mMap pq), nextPtr := n\<rparr>)"
  using assms by (auto simp: treeInv_def distinct_multisetInsert sorted_multisetInsert)

lemma treeContents_dom: "dom (treeContents pq) = set (mMap pq)"
  by (auto simp: treeContents_def split: if_splits)

lemma treeContents_empty: "treeContents pq = Map.empty \<longleftrightarrow> mMap pq = []"
  using treeContents_dom [of pq] by (metis dom_eq_empty_conv set_empty)

lemma treeContents_removeNth:
  assumes "treeInv pq" "i < length (mMap pq)"
  shows "treeContents (pq\<lparr>mMap := removeNth i (mMap pq)\<rparr>) = (treeContents pq)(mMap pq ! i := None)"
  using set_removeNth [OF treeInv_distinct [OF assms(1)] assms(2)] by (auto simp: treeContents_def fun_eq_iff)

lemma tree_pop:
  fixes pq :: "('s::linorder, 'e) TreeBasedPQ"
  assumes "treeInv pq" "treeContents pq \<noteq> Map.empty"
  shows "\<exists>h pq' s v. treePop pq = Inr (h, pq') \<and> treeInv pq' \<and> treeContents pq h = Some (s, v) \<and>
    treeContents pq' = (treeContents pq)(h := None) \<and> Inr (thScore h) = (Inr s :: 's result) \<and> thValue h = v \<and>
    (\<forall>h' s' v'. treeContents pq h' = Some (s', v') \<longrightarrow> s \<le> s')"
proof -
  obtain h hs where m: "mMap pq = h # hs" using assms(2) by (cases "mMap pq") (auto simp: treeContents_empty)
  have tl: "tl (mMap pq) = removeNth 0 (mMap pq)" by (simp add: m removeNth_def)
  have "treePop pq = Inr (h, pq\<lparr>mMap := removeNth 0 (mMap pq)\<rparr>)" using m tl by (simp add: treePop_def treeSize_def)
  moreover have "\<forall>h'\<in>set (mMap pq). thScore h \<le> thScore h'" using assms(1) m by (auto simp: treeInv_def)
  ultimately show ?thesis
    using treeInv_removeNth [OF assms(1)] treeContents_removeNth [OF assms(1), of 0] m
    by (auto simp: treeContents_def split: if_splits)
qed

lemma tree_update:
  assumes "treeInv pq" "treeContents pq h = Some (s, v)"
  shows "\<exists>h' pq'. treeUpdateKey s' h pq = Inr (h', pq') \<and> treeInv pq' \<and>
    ((treeContents pq)(h := None)) h' = None \<and>
    treeContents pq' = (treeContents pq)(h := None, h' \<mapsto> (s', v))"
proof -
  have h: "h \<in> set (mMap pq)" "v = thValue h" using assms(2) by (auto simp: treeContents_def split: if_splits)
  then obtain i where i: "i < length (mMap pq)" "mMap pq ! i = h" by (auto simp: in_set_conv_nth)
  let ?m = "removeNth i (mMap pq)" and ?h = "h\<lparr>thScore := s'\<rparr>"
  have set: "set ?m = set (mMap pq) - {h}"
    using set_removeNth [OF treeInv_distinct [OF assms(1)] i(1)] i(2) by simp
  have ptr: "thPtr h \<notin> thPtr ` set ?m"
    using assms(1) h(1) unfolding set treeInv_def by (auto simp: distinct_map inj_on_def)
  have "treeInv (pq\<lparr>mMap := ?m, nextPtr := nextPtr pq\<rparr>)"
    using treeInv_removeNth [OF assms(1), of i] by simp
  from treeInv_insert [OF this, of ?h "nextPtr pq"]
  have "treeInv (pq\<lparr>mMap := multisetInsert ?h ?m\<rparr>)"
    using ptr assms(1) h(1) by (simp add: treeInv_def)
  moreover have "?h \<notin> set ?m" using ptr image_eqI [of "thPtr h" thPtr ?h] by auto
  moreover have "treeUpdateKey s' h pq = Inr (?h, pq\<lparr>mMap := multisetInsert ?h ?m\<rparr>)"
    using treeFind_present [OF assms(1) i(1)] i(2) by (simp add: treeUpdateKey_def Let_def)
  moreover have "treeContents (pq\<lparr>mMap := multisetInsert ?h ?m\<rparr>) = (treeContents pq)(h := None, ?h \<mapsto> (s', v))"
    by (rule ext) (simp add: treeContents_def set h(2))
  moreover have "((treeContents pq)(h := None)) ?h = None"
    using \<open>?h \<notin> set ?m\<close> unfolding set by (simp add: treeContents_def)
  ultimately show ?thesis by blast
qed

lemma tree_erase:
  assumes "treeInv pq" "treeContents pq h \<noteq> None"
  shows "\<exists>pq'. treeErase h pq = Inr pq' \<and> treeInv pq' \<and> treeContents pq' = (treeContents pq)(h := None)"
proof -
  obtain i where i: "i < length (mMap pq)" "mMap pq ! i = h"
    using assms(2) by (auto simp: treeContents_def in_set_conv_nth split: if_splits)
  with treeFind_present [OF assms(1) i(1)] treeInv_removeNth [OF assms(1)] treeContents_removeNth [OF assms(1) i(1)]
  show ?thesis by (simp add: treeErase_def)
qed

lemma tree_insert:
  assumes "treeInv pq" "treeInsert s v pq = (h, pq')"
  shows "treeInv pq' \<and> treeContents pq h = None \<and> treeContents pq' = (treeContents pq)(h \<mapsto> (s, v))"
proof -
  have "h = \<lparr>thScore = s, thPtr = nextPtr pq, thValue = v\<rparr>"
    and pq': "pq' = pq\<lparr>mMap := multisetInsert h (mMap pq), nextPtr := nextPtr pq + 1\<rparr>"
    using assms(2) by (auto simp: treeInsert_def Let_def)
  moreover from this have "thPtr h \<notin> thPtr ` set (mMap pq)" using assms(1) by (auto simp: treeInv_def)
  moreover from this have "h \<notin> set (mMap pq)" by blast
  ultimately show ?thesis
    using treeInv_insert [OF assms(1), of h "nextPtr pq + 1"] by (simp add: treeContents_def fun_eq_iff)
qed

lemma tree_rest:
  "treeContents pq = Map.empty \<Longrightarrow> treePop pq = Inl EmptyPopException"
  "treeInv pq \<Longrightarrow> treeInv (treeClear pq) \<and> treeContents (treeClear pq) = Map.empty"
  "treeInv pq \<Longrightarrow> finite (dom (treeContents pq)) \<and> treeSize pq = card (dom (treeContents pq))"
  "treeContents pq h = Some (s, v) \<Longrightarrow> Inr (thScore h) = (Inr s :: 's result) \<and> thValue h = v"
  for pq :: "('s::linorder, 'e) TreeBasedPQ"
  using treeInv_distinct [of pq] distinct_card [of "mMap pq"]
  by (auto simp: treeContents_empty treePop_def treeSize_def treeClear_def treeContents_dom treeInv_def)
     (auto simp: treeContents_def split: if_splits)

interpretation tree: priority_queue "treeOps :: (('s::linorder, 'e) TreeBasedPQ, ('s, 'e) TreeHandle, 's, 'e) PQOps"
  treeInv treeContents
  by (unfold_locales, unfold treeOps_def PQOps.simps)
     (rule tree_insert tree_pop tree_erase tree_update tree_rest; assumption)+

section \<open>The heap fulfils the contract\<close>

text \<open>The documented behaviour of \<open>std::priority_queue\<close>: the top is an entry with a smallest score.\<close>

definition topIsMinimal :: "('s::linorder) topOf \<Rightarrow> bool" where
  "topIsMinimal pick \<longleftrightarrow>
     (\<forall>es. es \<noteq> [] \<longrightarrow> pick es < length es \<and> (\<forall>x\<in>set es. fst (es ! pick es) \<le> fst x))"

definition heapContents :: "('s, 'e) HeapBasedPQ \<Rightarrow> nat \<rightharpoonup> 's \<times> 'e" where
  "heapContents pq h =
     (if h < length (pqNodes pq) \<and> pnIsInPQ (pqNodes pq ! h)
      then (case pnScore (pqNodes pq ! h) of
              None \<Rightarrow> None
            | Some s \<Rightarrow> if (s, h) \<in> set (pqEntries pq) then Some (s, pnValue (pqNodes pq ! h)) else None)
      else None)"

text \<open>Every entry belongs to a node and is not above the current score of the node; a node has at most
  one entry with its current score, and none if it was popped.\<close>

definition heapInv :: "('s::linorder, 'e) HeapBasedPQ \<Rightarrow> bool" where
  "heapInv pq \<longleftrightarrow>
     (\<forall>(s, h)\<in>set (pqEntries pq). h < length (pqNodes pq) \<and>
        (\<forall>t. pnScore (pqNodes pq ! h) = Some t \<longrightarrow> s \<le> t)) \<and>
     (\<forall>h t. h < length (pqNodes pq) \<longrightarrow> pnScore (pqNodes pq ! h) = Some t \<longrightarrow>
        count_list (pqEntries pq) (t, h) \<le> 1 \<and>
        ((t, h) \<in> set (pqEntries pq) \<longrightarrow> pnIsInPQ (pqNodes pq ! h))) \<and>
     mSize pq = card (dom (heapContents pq))"

lemma heapInvD:
  assumes "heapInv pq"
  shows "(s, h) \<in> set (pqEntries pq) \<Longrightarrow> h < length (pqNodes pq)"
    and "(s, h) \<in> set (pqEntries pq) \<Longrightarrow> pnScore (pqNodes pq ! h) = Some t \<Longrightarrow> s \<le> t"
    and "h < length (pqNodes pq) \<Longrightarrow> pnScore (pqNodes pq ! h) = Some t \<Longrightarrow> count_list (pqEntries pq) (t, h) \<le> 1"
    and "(t, h) \<in> set (pqEntries pq) \<Longrightarrow> pnScore (pqNodes pq ! h) = Some t \<Longrightarrow> pnIsInPQ (pqNodes pq ! h)"
    and "mSize pq = card (dom (heapContents pq))"
  using assms unfolding heapInv_def by fastforce+

lemma heapContents_Some:
  "heapContents pq h = Some (s, v) \<longleftrightarrow>
     h < length (pqNodes pq) \<and> pnIsInPQ (pqNodes pq ! h) \<and> pnScore (pqNodes pq ! h) = Some s \<and>
     (s, h) \<in> set (pqEntries pq) \<and> pnValue (pqNodes pq ! h) = v"
  by (auto simp: heapContents_def split: option.splits)

lemma heapContents_current:
  assumes "heapInv pq"
  shows "heapContents pq h = Some (s, v) \<longleftrightarrow>
     (s, h) \<in> set (pqEntries pq) \<and> pnScore (pqNodes pq ! h) = Some s \<and> pnValue (pqNodes pq ! h) = v"
  using heapInvD [OF assms] by (auto simp: heapContents_Some)

lemma heapContents_finite: "finite (dom (heapContents pq))"
  by (rule finite_subset [of _ "{..<length (pqNodes pq)}"]) (auto simp: heapContents_Some)

lemma map_eq_by_Some: "(\<And>h x. m h = Some x \<longleftrightarrow> m' h = Some x) \<Longrightarrow> m = m'"
  by (rule ext) (metis not_None_eq)

lemma isCurrent_iff: "isCurrent pq (s, h) \<longleftrightarrow> pnScore (pqNodes pq ! h) = Some s"
  by (auto simp: isCurrent_def isValid_def handleScore_def split: option.splits)

lemma count_list_removeNth:
  assumes "i < length xs"
  shows "count_list xs x = count_list (removeNth i xs) x + (if xs ! i = x then 1 else 0)"
proof -
  have "count_list xs x = count_list (take i xs @ xs ! i # drop (Suc i) xs) x"
    using id_take_nth_drop [OF assms] by simp
  then show ?thesis by (simp add: removeNth_def)
qed

lemma set_count_list: "x \<in> set xs \<longleftrightarrow> 0 < count_list xs x"
  using count_list_0_iff [of xs x] by (metis gr0I less_numeral_extra(3))

lemma member_removeNth:
  assumes "i < length xs" "xs ! i \<noteq> x"
  shows "x \<in> set (removeNth i xs) \<longleftrightarrow> x \<in> set xs"
  using count_list_removeNth [OF assms(1), of x] assms(2) by (simp add: set_count_list)

text \<open>Dropping an outdated entry changes neither the contents nor the invariant.\<close>

lemma heap_drop_outdated:
  assumes "heapInv pq" "i < length (pqEntries pq)" "\<not> isCurrent pq (pqEntries pq ! i)"
  shows "heapInv (pq\<lparr>pqEntries := removeNth i (pqEntries pq)\<rparr>)"
    and "heapContents (pq\<lparr>pqEntries := removeNth i (pqEntries pq)\<rparr>) = heapContents pq"
proof -
  let ?pq = "pq\<lparr>pqEntries := removeNth i (pqEntries pq)\<rparr>"
  have mem: "(s, h) \<in> set (pqEntries ?pq) \<longleftrightarrow> (s, h) \<in> set (pqEntries pq)"
    if "pnScore (pqNodes pq ! h) = Some s" for s h
    using member_removeNth [OF assms(2), of "(s, h)"] assms(3) that by (simp, metis isCurrent_iff)
  show contents: "heapContents ?pq = heapContents pq"
    by (rule map_eq_by_Some) (use mem in \<open>auto simp: heapContents_Some\<close>)
  have "count_list (pqEntries ?pq) x \<le> count_list (pqEntries pq) x" for x
    using count_list_removeNth [OF assms(2), of x] by simp
  moreover have "set (pqEntries ?pq) \<subseteq> set (pqEntries pq)" by (simp add: set_removeNth_subset)
  ultimately show "heapInv ?pq"
    using assms(1) unfolding heapInv_def contents by simp (meson order_trans subsetD)
qed

lemma pruneChangedKeys_law:
  assumes "topIsMinimal pick" "heapInv pq"
  shows "heapInv (pruneChangedKeys pick pq) \<and> heapContents (pruneChangedKeys pick pq) = heapContents pq \<and>
    (pqEntries (pruneChangedKeys pick pq) = [] \<or>
     isCurrent (pruneChangedKeys pick pq)
       (pqEntries (pruneChangedKeys pick pq) ! pick (pqEntries (pruneChangedKeys pick pq))))"
  using assms
proof (induction pick pq rule: pruneChangedKeys.induct)
  case (1 p pq)
  show ?case
  proof (cases "pqEntries pq = [] \<or> isCurrent pq (pqEntries pq ! p (pqEntries pq))")
    case True
    then show ?thesis using "1.prems" by (auto simp: pruneChangedKeys.simps [of p pq])
  next
    case False
    then have "p (pqEntries pq) < length (pqEntries pq)" using "1.prems"(1) by (simp add: topIsMinimal_def)
    with False heap_drop_outdated [OF "1.prems"(2), of "p (pqEntries pq)"] "1.IH" "1.prems"(1)
    show ?thesis by (simp add: pruneChangedKeys.simps [of p pq])
  qed
qed

lemma mSize_positive:
  assumes "heapInv pq" "heapContents pq h \<noteq> None"
  shows "decrement (mSize pq) = card (dom (heapContents pq) - {h})"
proof -
  have "h \<in> dom (heapContents pq)" using assms(2) by auto
  with heapContents_finite [of pq] heapInvD(5) [OF assms(1)] show ?thesis
    by (auto simp: decrement_def card_Diff_singleton card_gt_0_iff)
qed

text \<open>Removing a node from the queue: its score may be kept (pop) or reset (erase).\<close>

lemma heap_remove_node:
  fixes pq :: "('s::linorder, 'e) HeapBasedPQ"
  assumes "heapInv pq" "heapContents pq h = Some (s, v)" "set es \<subseteq> set (pqEntries pq)"
    and "\<And>t g. pnScore (pqNodes pq ! g) = Some t \<Longrightarrow> g \<noteq> h \<Longrightarrow>
           count_list es (t, g) = count_list (pqEntries pq) (t, g)"
    and "\<not> pnIsInPQ node" "\<And>t. pnScore node = Some t \<Longrightarrow> t = s \<and> (s, h) \<notin> set es"
  defines "pq' \<equiv> pq\<lparr>pqNodes := (pqNodes pq)[h := node], pqEntries := es, mSize := decrement (mSize pq)\<rparr>"
  shows "heapInv pq' \<and> heapContents pq' = (heapContents pq)(h := None)"
proof -
  have h: "h < length (pqNodes pq)" "pnScore (pqNodes pq ! h) = Some s" using assms(2) by (auto simp: heapContents_Some)
  have mem: "(t, g) \<in> set es \<longleftrightarrow> (t, g) \<in> set (pqEntries pq)" if "pnScore (pqNodes pq ! g) = Some t" "g \<noteq> h" for t g
    using assms(4) [OF that] by (simp add: set_count_list)
  have contents: "heapContents pq' = (heapContents pq)(h := None)"
  proof (rule map_eq_by_Some)
    fix g and x :: "'s \<times> 'e"
    obtain t w where x: "x = (t, w)" by (cases x)
    show "heapContents pq' g = Some x \<longleftrightarrow> ((heapContents pq)(h := None)) g = Some x"
      using assms(5) mem [of g t] h(1) by (cases "g = h") (auto simp: x heapContents_Some pq'_def)
  qed
  have "mSize pq' = card (dom (heapContents pq'))"
    using mSize_positive [OF assms(1), of h] assms(2) unfolding contents by (simp add: pq'_def)
  moreover have "g < length (pqNodes pq') \<and> (\<forall>t. pnScore (pqNodes pq' ! g) = Some t \<longrightarrow> r \<le> t)"
    if "(r, g) \<in> set es" for r g
    using that heapInvD(1,2) [OF assms(1), of r g] assms(3,6) h
    by (cases "g = h") (auto simp: pq'_def nth_list_update)
  moreover have "count_list es (t, g) \<le> 1 \<and> ((t, g) \<in> set es \<longrightarrow> pnIsInPQ (pqNodes pq' ! g))"
    if "g < length (pqNodes pq')" "pnScore (pqNodes pq' ! g) = Some t" for g t
  proof (cases "g = h")
    case True
    then have "(t, g) \<notin> set es" using that assms(6) h(1) by (auto simp: pq'_def)
    then show ?thesis by (simp add: count_list_0_iff)
  next
    case False
    then show ?thesis using that assms(4) [of g t] mem [of g t] heapInvD(3,4) [OF assms(1)]
      by (auto simp: pq'_def)
  qed
  ultimately have "heapInv pq'" unfolding heapInv_def by (auto simp: pq'_def)
  with contents show ?thesis by simp
qed


lemma heap_pop:
  assumes "topIsMinimal pick" "heapInv pq" "heapContents pq \<noteq> Map.empty"
  shows "\<exists>h pq' s v. heapPop pick pq = Inr (h, pq') \<and> heapInv pq' \<and> heapContents pq h = Some (s, v) \<and>
    heapContents pq' = (heapContents pq)(h := None) \<and> handleScore pq' h = Inr s \<and> handleValue pq' h = v \<and>
    (\<forall>h' s' v'. heapContents pq h' = Some (s', v') \<longrightarrow> s \<le> s')"
proof -
  define q where "q = pruneChangedKeys pick pq"
  define es i where "es = pqEntries q" and "i = pick es"
  note law = pruneChangedKeys_law [OF assms(1,2), folded q_def]
  obtain g t w where "heapContents q g = Some (t, w)"
    using assms(3) law by (metis not_None_eq ext surj_pair)
  then have "es \<noteq> []" by (auto simp: es_def heapContents_Some)
  then have i: "i < length es" "\<And>x. x \<in> set es \<Longrightarrow> fst (es ! i) \<le> fst x"
    using assms(1) by (auto simp: topIsMinimal_def i_def)
  obtain s h where top: "es ! i = (s, h)" by (cases "es ! i")
  have current: "pnScore (pqNodes q ! h) = Some s" "(s, h) \<in> set es"
    using law \<open>es \<noteq> []\<close> top i(1) by (auto simp: es_def i_def isCurrent_iff dest: nth_mem)
  then have c: "heapContents q h = Some (s, pnValue (pqNodes q ! h))"
    using heapContents_current [of q h s] law by (auto simp: es_def)
  have len: "h < length (pqNodes q)" using heapInvD(1) [of q s h] law current(2) by (simp add: es_def)
  then have once: "count_list es (s, h) \<le> 1" using heapInvD(3) [of q h s] law current(1) by (simp add: es_def)
  let ?node = "(pqNodes q ! h)\<lparr>pnIsInPQ := False\<rparr>"
  let ?q = "q\<lparr>pqNodes := (pqNodes q)[h := ?node], pqEntries := removeNth i es, mSize := decrement (mSize q)\<rparr>"
  have "heapInv ?q \<and> heapContents ?q = (heapContents q)(h := None)"
  proof (rule heap_remove_node [OF _ c])
    show "heapInv q" using law by simp
    show "set (removeNth i es) \<subseteq> set (pqEntries q)" by (simp add: es_def set_removeNth_subset)
    show "count_list (removeNth i es) (t, g) = count_list (pqEntries q) (t, g)" if "g \<noteq> h" for t g
      using count_list_removeNth [OF i(1), of "(t, g)"] top that by (simp add: es_def)
    show "t = s \<and> (s, h) \<notin> set (removeNth i es)" if "pnScore ?node = Some t" for t
      using that current(1) once count_list_removeNth [OF i(1), of "(s, h)"] top by (simp add: set_count_list)
  qed simp
  moreover have "heapPop pick pq = Inr (h, ?q)"
    using \<open>es \<noteq> []\<close> top unfolding heapPop_def q_def [symmetric] Let_def es_def [symmetric] i_def [symmetric]
    by (simp add: eraseHandle_def)
  moreover have "s \<le> s'" if "heapContents pq h' = Some (s', v')" for h' s' v'
  proof -
    have "heapContents q h' = Some (s', v')" using that law by simp
    then show ?thesis using i(2) [of "(s', h')"] top by (simp add: es_def heapContents_Some)
  qed
  moreover have "handleScore ?q h = Inr s" "handleValue ?q h = pnValue (pqNodes q ! h)"
    using len current(1) by (simp_all add: handleValue_def handleScore_def)
  ultimately show ?thesis using law c by auto
qed

lemma heap_pop_empty:
  assumes "topIsMinimal pick" "heapInv pq" "heapContents pq = Map.empty"
  shows "heapPop pick pq = Inl EmptyPopException"
proof -
  let ?q = "pruneChangedKeys pick pq"
  note law = pruneChangedKeys_law [OF assms(1,2)]
  have "pqEntries ?q = []"
  proof (rule ccontr)
    assume ne: "pqEntries ?q \<noteq> []"
    obtain s h where top: "pqEntries ?q ! pick (pqEntries ?q) = (s, h)" by (cases "pqEntries ?q ! pick (pqEntries ?q)")
    have "(s, h) \<in> set (pqEntries ?q)" "pnScore (pqNodes ?q ! h) = Some s"
      using ne law assms(1) top nth_mem [of "pick (pqEntries ?q)" "pqEntries ?q"] by (auto simp: topIsMinimal_def isCurrent_iff)
    with heapContents_current [of ?q h s] law assms(3) show False by auto
  qed
  then show ?thesis by (simp add: heapPop_def Let_def)
qed

lemma heap_erase:
  assumes "heapInv pq" "heapContents pq h \<noteq> None"
  shows "\<exists>pq'. heapErase dflt h pq = Inr pq' \<and> heapInv pq' \<and> heapContents pq' = (heapContents pq)(h := None)"
proof -
  obtain s v where c: "heapContents pq h = Some (s, v)" using assms(2) by auto
  have "heapErase dflt h pq = Inr (pq\<lparr>pqNodes := (pqNodes pq)[h := \<lparr>pnScore = None, pnValue = dflt, pnIsInPQ = False\<rparr>],
      pqEntries := pqEntries pq, mSize := decrement (mSize pq)\<rparr>)"
    using c by (simp add: heapErase_def assertValidHandle_def isInPq_def eraseAndInvalidate_def heapContents_Some)
  moreover note heap_remove_node [OF assms(1) c, of "pqEntries pq" "\<lparr>pnScore = None, pnValue = dflt, pnIsInPQ = False\<rparr>"]
  ultimately show ?thesis by simp
qed


lemma heap_add_entry:
  fixes pq :: "('s::linorder, 'e) HeapBasedPQ"
  assumes "heapInv pq" "h < length nodes" "nodes ! h = \<lparr>pnScore = Some s, pnValue = v, pnIsInPQ = True\<rparr>"
    and "length (pqNodes pq) \<le> length nodes" "length nodes \<le> Suc (length (pqNodes pq))"
    and "\<And>g. g < length nodes \<Longrightarrow> g \<noteq> h \<Longrightarrow> g < length (pqNodes pq) \<and> nodes ! g = pqNodes pq ! g"
    and "\<And>r. (r, h) \<in> set (pqEntries pq) \<Longrightarrow> r < s"
    and "n = card (insert h (dom (heapContents pq)))"
  defines "pq' \<equiv> pq\<lparr>pqNodes := nodes, pqEntries := pqEntries pq @ [(s, h)], mSize := n\<rparr>"
  shows "heapInv pq' \<and> heapContents pq' = (heapContents pq)(h \<mapsto> (s, v))"
proof -
  have fresh: "count_list (pqEntries pq) (s, h) = 0" using assms(7) by (auto simp: count_list_0_iff)
  have contents: "heapContents pq' = (heapContents pq)(h \<mapsto> (s, v))"
  proof (rule map_eq_by_Some)
    fix g and x :: "'s \<times> 'e"
    obtain t w where x: "x = (t, w)" by (cases x)
    show "heapContents pq' g = Some x \<longleftrightarrow> ((heapContents pq)(h \<mapsto> (s, v))) g = Some x"
      using assms(2-4) assms(6) [of g] by (cases "g = h") (auto simp: x heapContents_Some pq'_def)
  qed
  have "mSize pq' = card (dom (heapContents pq'))" unfolding contents by (simp add: pq'_def assms(8))
  moreover have "g < length nodes \<and> (\<forall>t. pnScore (nodes ! g) = Some t \<longrightarrow> r \<le> t)"
    if "(r, g) \<in> set (pqEntries pq')" for r g
    using that heapInvD(1,2) [OF assms(1), of r g] assms(2-4) assms(6) [of g] assms(7) [of r]
    by (cases "g = h") (auto simp: pq'_def)
  moreover have "count_list (pqEntries pq') (t, g) \<le> 1 \<and> ((t, g) \<in> set (pqEntries pq') \<longrightarrow> pnIsInPQ (nodes ! g))"
    if "g < length nodes" "pnScore (nodes ! g) = Some t" for g t
    using that heapInvD(3,4) [OF assms(1)] assms(2-4) assms(6) [of g] fresh
    by (cases "g = h") (auto simp: pq'_def)
  ultimately have "heapInv pq'" unfolding heapInv_def by (auto simp: pq'_def)
  with contents show ?thesis by simp
qed

lemma heap_insert:
  assumes "heapInv pq" "heapInsert s v pq = (h, pq')"
  shows "heapInv pq' \<and> heapContents pq h = None \<and> heapContents pq' = (heapContents pq)(h \<mapsto> (s, v))"
proof -
  let ?nodes = "pqNodes pq @ [\<lparr>pnScore = Some s, pnValue = v, pnIsInPQ = True\<rparr>]"
  have h: "h = length (pqNodes pq)"
    and pq': "pq' = pq\<lparr>pqNodes := ?nodes, pqEntries := pqEntries pq @ [(s, h)], mSize := mSize pq + 1\<rparr>"
    using assms(2) by (auto simp: heapInsert_def Let_def)
  have none: "heapContents pq h = None" by (simp add: heapContents_def h)
  then have "mSize pq + 1 = card (insert h (dom (heapContents pq)))"
    using heapInvD(5) [OF assms(1)] heapContents_finite [of pq] by (subst card_insert_disjoint) auto
  from heap_add_entry [OF assms(1), of h ?nodes s v, OF _ _ _ _ _ _ this] none show ?thesis
    using heapInvD(1) [OF assms(1)] unfolding pq' by (auto simp: h nth_append)
qed

lemma heap_update:
  assumes "heapInv pq" "heapContents pq h = Some (s, v)" "s \<le> s'"
  shows "\<exists>h' pq'. heapUpdateKey s' h pq = Inr (h', pq') \<and> heapInv pq' \<and>
    ((heapContents pq)(h := None)) h' = None \<and>
    heapContents pq' = (heapContents pq)(h := None, h' \<mapsto> (s', v))"
proof (cases "s' = s")
  case True
  then have "heapUpdateKey s' h pq = Inr (h, pq)"
    using assms(2) by (simp add: heapUpdateKey_def assertValidHandle_def isInPq_def handleScore_def heapContents_Some)
  with assms True show ?thesis by (auto simp: fun_upd_idem)
next
  case False
  let ?nodes = "(pqNodes pq)[h := (pqNodes pq ! h)\<lparr>pnScore := Some s'\<rparr>]"
  note node = assms(2) [unfolded heapContents_Some]
  have upd: "heapUpdateKey s' h pq = Inr (h, pq\<lparr>pqNodes := ?nodes, pqEntries := pqEntries pq @ [(s', h)], mSize := mSize pq\<rparr>)"
    using node False
    by (simp add: heapUpdateKey_def assertValidHandle_def isInPq_def handleScore_def)
  have size: "mSize pq = card (insert h (dom (heapContents pq)))"
    using heapInvD(5) [OF assms(1)] assms(2) by (simp add: insert_absorb domI)
  have "r < s'" if "(r, h) \<in> set (pqEntries pq)" for r
    using heapInvD(2) [OF assms(1) that] node assms(3) False by fastforce
  from heap_add_entry [OF assms(1), of h ?nodes s' v, OF _ _ _ _ _ this size] node upd show ?thesis by auto
qed

lemma heap_rest:
  "heapInv pq \<Longrightarrow> heapInv (heapClear pq) \<and> heapContents (heapClear pq) = Map.empty"
  "heapInv pq \<Longrightarrow> finite (dom (heapContents pq)) \<and> mSize pq = card (dom (heapContents pq))"
  "heapContents pq h = Some (s, v) \<Longrightarrow> handleScore pq h = Inr s \<and> handleValue pq h = v"
proof -
  have "heapContents (heapClear pq) = Map.empty"
    by (rule ext) (simp add: heapContents_def heapClear_def split: option.splits)
  then show "heapInv pq \<Longrightarrow> heapInv (heapClear pq) \<and> heapContents (heapClear pq) = Map.empty"
    by (simp add: heapInv_def) (simp add: heapClear_def)
qed (auto simp: heapContents_finite heapInvD(5) heapContents_Some handleScore_def handleValue_def)

locale heap_top =
  fixes pick :: "('s::linorder) topOf" and dflt :: 'e
  assumes top: "topIsMinimal pick"

sublocale heap_top \<subseteq> priority_queue "heapOps pick dflt" heapInv heapContents
  by (unfold_locales, unfold heapOps_def PQOps.simps)
     (rule heap_insert heap_pop_empty [OF top] heap_pop [OF top] heap_erase heap_update heap_rest; assumption)+

section \<open>Sorting with a queue\<close>

fun insertAll :: "('pq, 'h, 's, 'e) PQOps \<Rightarrow> ('s \<times> 'e) list \<Rightarrow> 'pq \<Rightarrow> 'pq" where
  "insertAll ops [] pq = pq"
| "insertAll ops ((s, v) # xs) pq = insertAll ops xs (snd (pqInsert ops s v pq))"

fun popAll :: "('pq, 'h, 's, 'e) PQOps \<Rightarrow> nat \<Rightarrow> 'pq \<Rightarrow> ('s \<times> 'e) list result" where
  "popAll ops 0 pq = Inr []"
| "popAll ops (Suc n) pq =
     res_bind (pqPop ops pq) (\<lambda>(h, pq').
       res_bind (pqScore ops pq' h) (\<lambda>s.
         res_bind (popAll ops n pq') (\<lambda>xs. Inr ((s, pqValue ops pq' h) # xs))))"

definition bag :: "('h \<rightharpoonup> 'x) \<Rightarrow> 'x multiset" where
  "bag m = image_mset (\<lambda>h. the (m h)) (mset_set (dom m))"

lemma bag_update:
  assumes "finite (dom m)" "m h = None"
  shows "bag (m(h \<mapsto> x)) = add_mset x (bag m)"
proof -
  have "image_mset (\<lambda>g. the ((m(h \<mapsto> x)) g)) (mset_set (dom m)) = image_mset (\<lambda>g. the (m g)) (mset_set (dom m))"
    using assms by (intro image_mset_cong) auto
  moreover have "h \<notin> dom m" using assms(2) by auto
  ultimately show ?thesis using assms(1) by (simp add: bag_def)
qed

lemma bag_remove:
  assumes "finite (dom m)" "m h = Some x"
  shows "bag m = add_mset x (bag (m(h := None)))"
proof -
  have "bag ((m(h := None))(h \<mapsto> x)) = add_mset x (bag (m(h := None)))" using assms(1) by (intro bag_update) auto
  then show ?thesis using assms(2) by (simp add: fun_upd_idem)
qed

lemma size_bag: "finite (dom m) \<Longrightarrow> size (bag m) = card (dom m)"
  by (simp add: bag_def)

lemma set_bag: "finite (dom m) \<Longrightarrow> set_mset (bag m) = ran m"
  by (auto simp: bag_def ran_def image_iff dom_def) (metis option.sel)+

context priority_queue
begin

lemma insertAll_bag:
  assumes "inv pq"
  shows "inv (insertAll ops xs pq) \<and> bag (contents (insertAll ops xs pq)) = mset xs + bag (contents pq)"
  using assms
proof (induction xs arbitrary: pq)
  case (Cons x xs)
  obtain s v where x: "x = (s, v)" by (cases x)
  obtain h pq' where ins: "pqInsert ops s v pq = (h, pq')" by (cases "pqInsert ops s v pq")
  note law = insert_law [OF Cons.prems ins]
  have "bag (contents pq') = add_mset x (bag (contents pq))"
    using law size_law [OF Cons.prems] by (simp add: x bag_update)
  moreover have "inv (insertAll ops xs pq') \<and> bag (contents (insertAll ops xs pq')) = mset xs + bag (contents pq')"
    using Cons.IH law by blast
  ultimately show ?case by (simp add: x ins)
qed simp

lemma popAll_sorted:
  assumes "inv pq" "n = card (dom (contents pq))"
  shows "\<exists>xs. popAll ops n pq = Inr xs \<and> mset xs = bag (contents pq) \<and> sorted (map fst xs)"
  using assms
proof (induction n arbitrary: pq)
  case 0
  then have "dom (contents pq) = {}" using size_law [OF 0(1)] by simp
  then show ?case by (simp add: bag_def)
next
  case (Suc n)
  then have "contents pq \<noteq> Map.empty" by auto
  from pop_law [OF Suc.prems(1) this] obtain h pq' s v where pop: "pqPop ops pq = Inr (h, pq')" "inv pq'"
      "contents pq h = Some (s, v)" "contents pq' = (contents pq)(h := None)" "pqScore ops pq' h = Inr s"
      "pqValue ops pq' h = v" and least: "\<And>h' s' v'. contents pq h' = Some (s', v') \<Longrightarrow> s \<le> s'" by blast
  note fin = conjunct1 [OF size_law [OF Suc.prems(1)]]
  have "n = card (dom (contents pq'))" using Suc.prems(2) pop(3,4) fin by (simp add: card_Diff_singleton domI)
  from Suc.IH [OF pop(2) this] obtain xs where xs: "popAll ops n pq' = Inr xs" "mset xs = bag (contents pq')"
    "sorted (map fst xs)" by blast
  have "set xs = ran (contents pq')"
    using arg_cong [OF xs(2), of set_mset] set_bag [of "contents pq'"] size_law [OF pop(2)] by simp
  then have "\<forall>x\<in>set xs. s \<le> fst x" using least pop(4) by (fastforce simp: ran_def split: if_splits)
  then show ?case using xs pop bag_remove [OF fin pop(3)] by simp
qed

lemma sort_by_queue:
  assumes "inv pq" "contents pq = Map.empty"
  shows "\<exists>ys. popAll ops (length xs) (insertAll ops xs pq) = Inr ys \<and> mset ys = mset xs \<and> sorted (map fst ys)"
proof -
  let ?pq = "insertAll ops xs pq"
  have "bag (contents pq) = {#}" using assms(2) by (simp add: bag_def)
  then have "inv ?pq" "bag (contents ?pq) = mset xs" using insertAll_bag [OF assms(1), of xs] by auto
  moreover from this have "card (dom (contents ?pq)) = length xs"
    using size_bag [of "contents ?pq"] size_law [of ?pq] by (metis size_mset)
  ultimately show ?thesis using popAll_sorted [of ?pq "length xs"] by simp
qed

end

fun firstTop :: "('s::linorder) topOf" where
  "firstTop [] = 0"
| "firstTop [x] = 0"
| "firstTop (x # y # xs) = (let i = firstTop (y # xs) in if fst x \<le> fst ((y # xs) ! i) then 0 else Suc i)"

lemma firstTop_minimal: "topIsMinimal firstTop"
proof -
  have "firstTop es < length es \<and> (\<forall>x\<in>set es. fst (es ! firstTop es) \<le> fst x)" if "es \<noteq> []" for es :: "('s::linorder \<times> nat) list"
    using that by (induction es rule: firstTop.induct) (auto simp: Let_def intro: order_trans)
  then show ?thesis unfolding topIsMinimal_def by blast
qed

interpretation heap: heap_top firstTop dflt for dflt
  by unfold_locales (rule firstTop_minimal)

lemma empty_queues:
  "treeInv makeTreeBasedPQ" "treeContents makeTreeBasedPQ = Map.empty"
  "heapInv makeHeapBasedPQ" "heapContents makeHeapBasedPQ = Map.empty"
proof -
  show *: "heapContents makeHeapBasedPQ = Map.empty" by (rule ext) (simp add: heapContents_def makeHeapBasedPQ_def)
  show "heapInv makeHeapBasedPQ" unfolding heapInv_def * by (simp add: makeHeapBasedPQ_def)
  show "treeContents makeTreeBasedPQ = Map.empty" by (simp add: treeContents_empty) (simp add: makeTreeBasedPQ_def)
qed (simp add: treeInv_def makeTreeBasedPQ_def)

context heap_top
begin

lemmas heap_sorts = sort_by_queue [OF empty_queues(3,4)]

end



text \<open>The queue based on a heap can hand out a handle twice: when a key is changed and then changed
  back, two entries of the heap carry the current score of the node, popping the first does not reset
  the score, so the second pop returns the same handle again and the size wraps around. The queue based
  on a tree raises the exception of the empty queue.\<close>

theorem heap_pops_handle_twice:
  "\<exists>pq1 pq2 h pq3 pq4.
     heapUpdateKey 2 0 (snd (heapInsert (1::nat) CHR ''a'' makeHeapBasedPQ)) = Inr (0, pq1) \<and>
     heapUpdateKey 1 0 pq1 = Inr (0, pq2) \<and> mSize pq2 = 1 \<and>
     heapPop firstTop pq2 = Inr (h, pq3) \<and> heapPop firstTop pq3 = Inr (h, pq4) \<and> mSize pq4 = 2 ^ 64 - 1"
  by (simp add: heapInsert_def makeHeapBasedPQ_def heapUpdateKey_def assertValidHandle_def isInPq_def handleScore_def
      heapPop_def Let_def pruneChangedKeys.simps isCurrent_def isValid_def eraseHandle_def removeNth_def decrement_def)

end
