(* ===== verification/MemorySize.thy ===== *)
theory MemorySize
  imports Prelude
begin

text \<open>
  Amounts of memory (\<open>util/MemorySize/MemorySize.h\<close>): the checked addition and subtraction, the
  conversion of integral amounts of the memory units, and the literals. An amount is a number of bytes
  below \<open>2 ^ 64\<close>. The conversion compares with a limit that is computed in \<open>double\<close>, so the rounding of
  large integers to 53 significant bits is part of the model. The factories, products and quotients
  with floating point arguments and the text format are not modelled.
\<close>

section \<open>Amounts\<close>

type_synonym MemorySize = nat

definition size_t_max :: nat where "size_t_max = 2 ^ 64 - 1"

definition maxMemory :: MemorySize where "maxMemory = size_t_max"

text \<open>The factory for an integral type; \<open>isSigned\<close> is \<open>std::is_signed_v<T>\<close>. The cast to \<open>size_t\<close>
  wraps.\<close>

definition bytes :: "bool \<Rightarrow> int \<Rightarrow> MemorySize result" where
  "bytes isSigned numBytes =
     res_bind (if isSigned then ensure ContractViolation (0 \<le> numBytes) else Inr ()) (\<lambda>_.
       Inr (nat (numBytes mod 2 ^ 64)))"

definition plusMemory :: "MemorySize \<Rightarrow> MemorySize \<Rightarrow> MemorySize result" where
  "plusMemory a b =
     (if size_t_max - b < a then Inl OverflowError else bytes False (int a + int b))"

definition minusMemory :: "MemorySize \<Rightarrow> MemorySize \<Rightarrow> MemorySize result" where
  "minusMemory a b = (if a < b then Inl UnderflowError else bytes False (int a - int b))"

section \<open>Units\<close>

datatype unit_name = B | kB | MB | GB | TB

fun numBytesPerUnit :: "unit_name \<Rightarrow> nat" where
  "numBytesPerUnit B = 1"
| "numBytesPerUnit kB = 10 ^ 3"
| "numBytesPerUnit MB = 10 ^ 6"
| "numBytesPerUnit GB = 10 ^ 9"
| "numBytesPerUnit TB = 10 ^ 12"

text \<open>The conversion of a \<open>size_t\<close> to \<open>double\<close>: the integer with 53 significant bits that is nearest,
  and the even one of two equally near ones.\<close>

definition roundToBits :: "nat \<Rightarrow> nat \<Rightarrow> nat" where
  "roundToBits k n =
     (let q = n div 2 ^ k; r = n mod 2 ^ k
      in if 2 * r < 2 ^ k \<or> (2 * r = 2 ^ k \<and> even q) then q * 2 ^ k else (q + 1) * 2 ^ k)"

fun shiftFor :: "nat \<Rightarrow> nat" where
  "shiftFor n = (if n < 2 ^ 53 then 0 else Suc (shiftFor (n div 2)))"

declare shiftFor.simps [simp del]

definition toDouble :: "nat \<Rightarrow> nat" where
  "toDouble n = roundToBits (shiftFor n) n"

text \<open>The integral part of the double \<open>maxAmountOfUnit\<close>, the sum of the rounded quotient and of a
  fraction below one: the quotient itself where it is exact, because the fraction lies between 0.07 and
  0.71 and the distance of two doubles there is below 0.002; and the rounded quotient where it has more
  than 53 bits, because the fraction is then less than half of the distance to the next double.\<close>

definition truncatedMaxAmountOfUnit :: "unit_name \<Rightarrow> nat" where
  "truncatedMaxAmountOfUnit u = toDouble (size_t_max div numBytesPerUnit u)"

text \<open>\<open>convertMemoryUnitsToBytes\<close> for \<open>size_t\<close>; the minimum with the largest \<open>size_t\<close>, rounded to
  \<open>2 ^ 64\<close>, has no effect. The product of \<open>size_t\<close> values wraps.\<close>

definition convertMemoryUnitsToBytes :: "nat \<Rightarrow> unit_name \<Rightarrow> nat result" where
  "convertMemoryUnitsToBytes amountOfUnits unitName =
     (if min (truncatedMaxAmountOfUnit unitName) (2 ^ 64) < amountOfUnits then Inl RuntimeError
      else Inr ((amountOfUnits * numBytesPerUnit unitName) mod 2 ^ 64))"

definition kilobytes :: "nat \<Rightarrow> MemorySize result" where
  "kilobytes n = convertMemoryUnitsToBytes n kB"

definition megabytes :: "nat \<Rightarrow> MemorySize result" where
  "megabytes n = convertMemoryUnitsToBytes n MB"

definition gigabytes :: "nat \<Rightarrow> MemorySize result" where
  "gigabytes n = convertMemoryUnitsToBytes n GB"

definition terabytes :: "nat \<Rightarrow> MemorySize result" where
  "terabytes n = convertMemoryUnitsToBytes n TB"

section \<open>Correctness\<close>

lemma plusMemory_eq:
  "a < 2 ^ 64 \<Longrightarrow> b < 2 ^ 64 \<Longrightarrow> plusMemory a b = (if a + b < 2 ^ 64 then Inr (a + b) else Inl OverflowError)"
  by (auto simp: plusMemory_def size_t_max_def bytes_def nat_add_distrib nat_mod_distrib)

lemma minusMemory_eq:
  "a < 2 ^ 64 \<Longrightarrow> minusMemory a b = (if b \<le> a then Inr (a - b) else Inl UnderflowError)"
  by (auto simp: minusMemory_def bytes_def)

lemma shiftFor_small [simp]: "n < 2 ^ 53 \<Longrightarrow> shiftFor n = 0"
  by (simp add: shiftFor.simps)

lemma truncatedMax_values:
  "truncatedMaxAmountOfUnit kB = 18446744073709552"
  "truncatedMaxAmountOfUnit MB = 18446744073709"
  "truncatedMaxAmountOfUnit GB = 18446744073"
  "truncatedMaxAmountOfUnit TB = 18446744"
  by (simp_all add: truncatedMaxAmountOfUnit_def size_t_max_def toDouble_def roundToBits_def)
     (simp add: shiftFor.simps [of 18446744073709551] shiftFor.simps [of 9223372036854775] Let_def)

text \<open>C32: Addition and subtraction of amounts of memory give the exact result or raise an overflow or
  underflow error exactly when it does not fit 64 bits. The conversion from megabytes, gigabytes and
  terabytes is exact or raises an error exactly when the result does not fit. The conversion from
  kilobytes accepts one amount that does not fit, because the limit is rounded up when it is computed in
  double: for it the result wraps around to 384 bytes.\<close>

theorem memory_arithmetic:
  assumes "a < 2 ^ 64" "b < 2 ^ 64" "u \<in> {MB, GB, TB}"
  shows "plusMemory a b = (if a + b < 2 ^ 64 then Inr (a + b) else Inl OverflowError) \<and>
    minusMemory a b = (if b \<le> a then Inr (a - b) else Inl UnderflowError) \<and>
    convertMemoryUnitsToBytes a u =
      (if a * numBytesPerUnit u < 2 ^ 64 then Inr (a * numBytesPerUnit u) else Inl RuntimeError) \<and>
    kilobytes a = (if a * 1000 < 2 ^ 64 then Inr (a * 1000)
      else if a = 18446744073709552 then Inr 384 else Inl RuntimeError)"
proof (intro conjI)
  show "convertMemoryUnitsToBytes a u =
      (if a * numBytesPerUnit u < 2 ^ 64 then Inr (a * numBytesPerUnit u) else Inl RuntimeError)"
    using assms(3) by (auto simp: convertMemoryUnitsToBytes_def truncatedMax_values)
  show "kilobytes a = (if a * 1000 < 2 ^ 64 then Inr (a * 1000)
      else if a = 18446744073709552 then Inr 384 else Inl RuntimeError)"
    by (auto simp: kilobytes_def convertMemoryUnitsToBytes_def truncatedMax_values)
qed (use assms in \<open>simp_all add: plusMemory_eq minusMemory_eq\<close>)

lemma memory_arithmetic_witness:
  "plusMemory 3 4 = Inr 7 \<and> kilobytes 4 = Inr 4000 \<and> kilobytes 18446744073709552 = Inr 384"
  using memory_arithmetic [of 3 4 MB] memory_arithmetic [of 4 3 MB] memory_arithmetic [of 18446744073709552 3 MB]
  by simp

end
