(* ===== verification/Cache.thy ===== *)
theory Cache
  imports PriorityQueue MemorySize
begin

text \<open>
  The cache of \<open>util/Cache.h\<close>. \<open>FlexibleCache\<close> is a template over the priority queue, so the
  operations of the queue are a parameter; the lemmas rest on the contract of the queues and hold for
  both implementations. Values are immutable and shared, their addresses are not observable. The score
  functions are called with the current state of a clock in the LRU caches and are parameters of the
  calls. An operation that raises an exception gives only the exception. The hash maps are maps; their
  numbers of elements are far below \<open>2 ^ 64\<close>, so the sum of the numbers of elements is exact.
\<close>

section \<open>State\<close>

record ('k, 'v) Entry =
  entKey :: 'k
  entValue :: 'v

record ('k, 'v, 'pq, 'h) FlexibleCache =
  maxNumEntries :: nat
  maxSize :: MemorySize
  maxSizeSingleEntry :: MemorySize
  totalSizeNonPinned :: MemorySize
  totalSizePinned :: MemorySize
  entries :: 'pq
  pinnedMap :: "'k \<rightharpoonup> 'v"
  accessMap :: "'k \<rightharpoonup> 'h"

type_synonym ('k, 'v, 'pq, 'h, 's) queueOps = "('pq, 'h, 's, ('k, 'v) Entry) PQOps"

definition makeFlexibleCache ::
    "nat \<Rightarrow> MemorySize \<Rightarrow> MemorySize \<Rightarrow> 'pq \<Rightarrow> ('k, 'v, 'pq, 'h) FlexibleCache" where
  "makeFlexibleCache num limit single queue =
     \<lparr>maxNumEntries = num, maxSize = limit, maxSizeSingleEntry = single, totalSizeNonPinned = 0,
      totalSizePinned = 0, entries = queue, pinnedMap = Map.empty, accessMap = Map.empty\<rparr>"

section \<open>Look-up\<close>

text \<open>\<open>operator[]\<close>: the result \<open>None\<close> is the null pointer.\<close>

definition lookupCache ::
    "('k, 'v, 'pq, 'h, 's) queueOps \<Rightarrow> ('s \<Rightarrow> ('k, 'v) Entry \<Rightarrow> 's) \<Rightarrow> 'k \<Rightarrow> ('k, 'v, 'pq, 'h) FlexibleCache \<Rightarrow>
     ('v option \<times> ('k, 'v, 'pq, 'h) FlexibleCache) result" where
  "lookupCache ops accessUpdater key c =
     (case pinnedMap c key of
        Some v \<Rightarrow> Inr (Some v, c)
      | None \<Rightarrow> (case accessMap c key of
          None \<Rightarrow> Inr (None, c)
        | Some handle \<Rightarrow>
            res_bind (pqScore ops (entries c) handle) (\<lambda>s.
              res_bind (pqUpdateKey ops (accessUpdater s (pqValue ops (entries c) handle)) handle (entries c))
                (\<lambda>(handle', queue).
                  Inr (Some (entValue (pqValue ops queue handle')),
                       c\<lparr>entries := queue, accessMap := (accessMap c)(key \<mapsto> handle')\<rparr>)))))"

definition containsPinned :: "'k \<Rightarrow> ('k, 'v, 'pq, 'h) FlexibleCache \<Rightarrow> bool" where
  "containsPinned key c \<longleftrightarrow> pinnedMap c key \<noteq> None"

definition containsNonPinned :: "'k \<Rightarrow> ('k, 'v, 'pq, 'h) FlexibleCache \<Rightarrow> bool" where
  "containsNonPinned key c \<longleftrightarrow> accessMap c key \<noteq> None \<and> \<not> containsPinned key c"

definition containsKey :: "'k \<Rightarrow> ('k, 'v, 'pq, 'h) FlexibleCache \<Rightarrow> bool" where
  "containsKey key c \<longleftrightarrow> containsPinned key c \<or> containsNonPinned key c"

section \<open>Making room\<close>

definition removeOneEntry ::
    "('k, 'v, 'pq, 'h, 's) queueOps \<Rightarrow> ('v \<Rightarrow> MemorySize) \<Rightarrow> ('k, 'v, 'pq, 'h) FlexibleCache \<Rightarrow>
     ('k, 'v, 'pq, 'h) FlexibleCache result" where
  "removeOneEntry ops valueSizeGetter c =
     res_bind (ensure ContractViolation (pqSize ops (entries c) \<noteq> 0)) (\<lambda>_.
       res_bind (pqPop ops (entries c)) (\<lambda>(handle, queue).
         res_bind (minusMemory (totalSizeNonPinned c) (valueSizeGetter (entValue (pqValue ops queue handle)))) (\<lambda>total.
           Inr (c\<lparr>totalSizeNonPinned := total, entries := queue,
                  accessMap := (accessMap c)(entKey (pqValue ops queue handle) := None)\<rparr>))))"

definition needsRoom ::
    "('k, 'v, 'pq, 'h, 's) queueOps \<Rightarrow> nat \<Rightarrow> MemorySize \<Rightarrow> ('k, 'v, 'pq, 'h) FlexibleCache \<Rightarrow> bool result" where
  "needsRoom ops needToAddNewElement sizeToMakeRoomFor c =
     (if pqSize ops (entries c) = 0 then Inr False
      else if maxNumEntries c < pqSize ops (entries c) + card (dom (pinnedMap c)) + needToAddNewElement then Inr True
      else res_bind (plusMemory (totalSizeNonPinned c) (totalSizePinned c)) (\<lambda>total.
        res_bind (plusMemory total sizeToMakeRoomFor) (\<lambda>total'. Inr (maxSize c < total'))))"

partial_function (option) makeRoomLoop ::
    "('k, 'v, 'pq, 'h, 's) queueOps \<Rightarrow> ('v \<Rightarrow> MemorySize) \<Rightarrow> nat \<Rightarrow> MemorySize \<Rightarrow>
     ('k, 'v, 'pq, 'h) FlexibleCache \<Rightarrow> ('k, 'v, 'pq, 'h) FlexibleCache result option" where
  "makeRoomLoop ops valueSizeGetter needToAddNewElement sizeToMakeRoomFor c =
     (case needsRoom ops needToAddNewElement sizeToMakeRoomFor c of
        Inl e \<Rightarrow> Some (Inl e)
      | Inr b \<Rightarrow>
          if \<not> b then Some (Inr c)
          else (case removeOneEntry ops valueSizeGetter c of
                  Inl e \<Rightarrow> Some (Inl e)
                | Inr c' \<Rightarrow> makeRoomLoop ops valueSizeGetter needToAddNewElement sizeToMakeRoomFor c'))"

definition opt_bind :: "'a result option \<Rightarrow> ('a \<Rightarrow> 'b result option) \<Rightarrow> 'b result option" where
  "opt_bind m f = (case m of None \<Rightarrow> None | Some (Inl e) \<Rightarrow> Some (Inl e) | Some (Inr x) \<Rightarrow> f x)"

definition makeRoomIfFits ::
    "('k, 'v, 'pq, 'h, 's) queueOps \<Rightarrow> ('v \<Rightarrow> MemorySize) \<Rightarrow> MemorySize \<Rightarrow> ('k, 'v, 'pq, 'h) FlexibleCache \<Rightarrow>
     (bool \<times> ('k, 'v, 'pq, 'h) FlexibleCache) result option" where
  "makeRoomIfFits ops valueSizeGetter sizeToMakeRoomFor c =
     opt_bind (Some (minusMemory (maxSize c) (totalSizePinned c))) (\<lambda>available.
       if available < sizeToMakeRoomFor then Some (Inr (False, c))
       else opt_bind (makeRoomLoop ops valueSizeGetter (if sizeToMakeRoomFor \<noteq> 0 then 1 else 0) sizeToMakeRoomFor c)
         (\<lambda>c'. Some (Inr (True, c'))))"

definition clearUnpinnedOnly ::
    "('k, 'v, 'pq, 'h, 's) queueOps \<Rightarrow> ('k, 'v, 'pq, 'h) FlexibleCache \<Rightarrow> ('k, 'v, 'pq, 'h) FlexibleCache" where
  "clearUnpinnedOnly ops c =
     c\<lparr>totalSizeNonPinned := 0, entries := pqClear ops (entries c), accessMap := Map.empty\<rparr>"

definition clearAll ::
    "('k, 'v, 'pq, 'h, 's) queueOps \<Rightarrow> ('k, 'v, 'pq, 'h) FlexibleCache \<Rightarrow> ('k, 'v, 'pq, 'h) FlexibleCache" where
  "clearAll ops c =
     c\<lparr>totalSizeNonPinned := 0, totalSizePinned := 0, entries := pqClear ops (entries c),
       pinnedMap := Map.empty, accessMap := Map.empty\<rparr>"

partial_function (option) shrinkLoop ::
    "('k, 'v, 'pq, 'h, 's) queueOps \<Rightarrow> ('v \<Rightarrow> MemorySize) \<Rightarrow> MemorySize \<Rightarrow>
     ('k, 'v, 'pq, 'h) FlexibleCache \<Rightarrow> ('k, 'v, 'pq, 'h) FlexibleCache result option" where
  "shrinkLoop ops valueSizeGetter targetSize c =
     (if pqSize ops (entries c) = 0 \<or> totalSizeNonPinned c \<le> targetSize then Some (Inr c)
      else (case removeOneEntry ops valueSizeGetter c of
              Inl e \<Rightarrow> Some (Inl e)
            | Inr c' \<Rightarrow> shrinkLoop ops valueSizeGetter targetSize c'))"

definition makeRoomAsMuchAsPossible ::
    "('k, 'v, 'pq, 'h, 's) queueOps \<Rightarrow> ('v \<Rightarrow> MemorySize) \<Rightarrow> MemorySize \<Rightarrow> ('k, 'v, 'pq, 'h) FlexibleCache \<Rightarrow>
     (bool \<times> ('k, 'v, 'pq, 'h) FlexibleCache) result option" where
  "makeRoomAsMuchAsPossible ops valueSizeGetter sizeToMakeRoomFor c =
     (if totalSizeNonPinned c < sizeToMakeRoomFor then Some (Inr (False, clearUnpinnedOnly ops c))
      else opt_bind (Some (minusMemory (totalSizeNonPinned c) sizeToMakeRoomFor)) (\<lambda>targetSize.
        opt_bind (shrinkLoop ops valueSizeGetter targetSize c) (\<lambda>c'. Some (Inr (True, c')))))"

section \<open>Insertion and limits\<close>

definition insertCache ::
    "('k, 'v, 'pq, 'h, 's) queueOps \<Rightarrow> ('v \<Rightarrow> MemorySize) \<Rightarrow> ('v \<Rightarrow> 's) \<Rightarrow> 'k \<Rightarrow> 'v \<Rightarrow>
     ('k, 'v, 'pq, 'h) FlexibleCache \<Rightarrow> ('v option \<times> ('k, 'v, 'pq, 'h) FlexibleCache) result option" where
  "insertCache ops valueSizeGetter scoreCalculator key v c =
     (if containsKey key c then Some (Inl RuntimeError)
      else if maxSizeSingleEntry c < valueSizeGetter v then Some (Inr (None, c))
      else opt_bind (makeRoomIfFits ops valueSizeGetter (valueSizeGetter v) c) (\<lambda>(fits, c').
        if \<not> fits then Some (Inr (None, c'))
        else opt_bind (Some (plusMemory (totalSizeNonPinned c') (valueSizeGetter v))) (\<lambda>total.
          let (handle, queue) = pqInsert ops (scoreCalculator v) \<lparr>entKey = key, entValue = v\<rparr> (entries c')
          in Some (Inr (Some (entValue (pqValue ops queue handle)),
               c'\<lparr>totalSizeNonPinned := total, entries := queue, accessMap := (accessMap c')(key \<mapsto> handle)\<rparr>)))))"

definition insertPinned ::
    "('k, 'v, 'pq, 'h, 's) queueOps \<Rightarrow> ('v \<Rightarrow> MemorySize) \<Rightarrow> 'k \<Rightarrow> 'v \<Rightarrow>
     ('k, 'v, 'pq, 'h) FlexibleCache \<Rightarrow> ('v \<times> ('k, 'v, 'pq, 'h) FlexibleCache) result option" where
  "insertPinned ops valueSizeGetter key v c =
     (if containsKey key c then Some (Inl RuntimeError)
      else if maxSizeSingleEntry c < valueSizeGetter v then Some (Inl RuntimeError)
      else opt_bind (makeRoomIfFits ops valueSizeGetter (valueSizeGetter v) c) (\<lambda>(_, c').
        opt_bind (Some (plusMemory (totalSizePinned c') (valueSizeGetter v))) (\<lambda>total.
          Some (Inr (v, c'\<lparr>totalSizePinned := total, pinnedMap := (pinnedMap c')(key \<mapsto> v)\<rparr>)))))"

definition setMaxNumEntries ::
    "('k, 'v, 'pq, 'h, 's) queueOps \<Rightarrow> ('v \<Rightarrow> MemorySize) \<Rightarrow> nat \<Rightarrow> ('k, 'v, 'pq, 'h) FlexibleCache \<Rightarrow>
     ('k, 'v, 'pq, 'h) FlexibleCache result option" where
  "setMaxNumEntries ops valueSizeGetter n c =
     opt_bind (makeRoomIfFits ops valueSizeGetter 0 (c\<lparr>maxNumEntries := n\<rparr>)) (\<lambda>(_, c'). Some (Inr c'))"

definition setMaxSize ::
    "('k, 'v, 'pq, 'h, 's) queueOps \<Rightarrow> ('v \<Rightarrow> MemorySize) \<Rightarrow> MemorySize \<Rightarrow> ('k, 'v, 'pq, 'h) FlexibleCache \<Rightarrow>
     ('k, 'v, 'pq, 'h) FlexibleCache result option" where
  "setMaxSize ops valueSizeGetter n c =
     opt_bind (makeRoomIfFits ops valueSizeGetter 0 (c\<lparr>maxSize := n\<rparr>)) (\<lambda>(_, c'). Some (Inr c'))"

definition setMaxSizeSingleEntry ::
    "MemorySize \<Rightarrow> ('k, 'v, 'pq, 'h) FlexibleCache \<Rightarrow> ('k, 'v, 'pq, 'h) FlexibleCache" where
  "setMaxSizeSingleEntry n c = c\<lparr>maxSizeSingleEntry := n\<rparr>"

definition containsAndMakePinnedIfExists ::
    "('k, 'v, 'pq, 'h, 's) queueOps \<Rightarrow> ('v \<Rightarrow> MemorySize) \<Rightarrow> 'k \<Rightarrow> ('k, 'v, 'pq, 'h) FlexibleCache \<Rightarrow>
     (bool \<times> ('k, 'v, 'pq, 'h) FlexibleCache) result" where
  "containsAndMakePinnedIfExists ops valueSizeGetter key c =
     (if pinnedMap c key \<noteq> None then Inr (True, c)
      else (case accessMap c key of
        None \<Rightarrow> Inr (False, c)
      | Some handle \<Rightarrow>
          let v = entValue (pqValue ops (entries c) handle); sz = valueSizeGetter v
          in res_bind (minusMemory (totalSizeNonPinned c) sz) (\<lambda>nonPinned.
            res_bind (plusMemory (totalSizePinned c) sz) (\<lambda>pinned.
              res_bind (pqErase ops handle (entries c)) (\<lambda>queue.
                Inr (True, c\<lparr>totalSizeNonPinned := nonPinned, totalSizePinned := pinned, entries := queue,
                              pinnedMap := (pinnedMap c)(key \<mapsto> v), accessMap := (accessMap c)(key := None)\<rparr>))))))"

section \<open>Sizes\<close>

definition accumulateSizes :: "nat \<Rightarrow> MemorySize result" where
  "accumulateSizes n = (if n < 2 ^ 64 then Inr n else Inl OverflowError)"

definition pinnedSize :: "('v \<Rightarrow> MemorySize) \<Rightarrow> ('k, 'v, 'pq, 'h) FlexibleCache \<Rightarrow> MemorySize result" where
  "pinnedSize valueSizeGetter c =
     accumulateSizes (\<Sum>key\<in>dom (pinnedMap c). valueSizeGetter (the (pinnedMap c key)))"

definition nonPinnedSize ::
    "('k, 'v, 'pq, 'h, 's) queueOps \<Rightarrow> ('v \<Rightarrow> MemorySize) \<Rightarrow> ('k, 'v, 'pq, 'h) FlexibleCache \<Rightarrow> MemorySize result" where
  "nonPinnedSize ops valueSizeGetter c =
     accumulateSizes (\<Sum>key\<in>dom (accessMap c).
       valueSizeGetter (entValue (pqValue ops (entries c) (the (accessMap c key)))))"

definition numNonPinnedEntries :: "('k, 'v, 'pq, 'h) FlexibleCache \<Rightarrow> nat" where
  "numNonPinnedEntries c = card (dom (accessMap c))"

definition numPinnedEntries :: "('k, 'v, 'pq, 'h) FlexibleCache \<Rightarrow> nat" where
  "numPinnedEntries c = card (dom (pinnedMap c))"

lemma opt_bind_simps [simp]:
  "opt_bind None f = None"
  "opt_bind (Some (Inl e)) f = Some (Inl e)"
  "opt_bind (Some (Inr x)) f = f x"
  by (simp_all add: opt_bind_def)

lemma opt_bind_SomeE:
  assumes "opt_bind m f = Some (Inr y)"
  obtains x where "m = Some (Inr x)" "f x = Some (Inr y)"
  using assms by (auto simp: opt_bind_def split: option.splits sum.splits)

section \<open>Sums over maps and linked maps\<close>

definition mapSum :: "('x \<Rightarrow> nat) \<Rightarrow> ('k \<rightharpoonup> 'x) \<Rightarrow> nat" where
  "mapSum f m = (\<Sum>key\<in>dom m. f (the (m key)))"

lemma mapSum_insert:
  assumes "finite (dom m)" "m k = None"
  shows "mapSum f (m(k \<mapsto> x)) = mapSum f m + f x"
proof -
  have k: "k \<notin> dom m" using assms(2) by auto
  then have "(\<Sum>key\<in>dom m. f (the ((m(k \<mapsto> x)) key))) = mapSum f m"
    unfolding mapSum_def by (intro sum.cong) auto
  then show ?thesis using assms(1) k by (simp add: mapSum_def)
qed

lemma mapSum_remove:
  assumes "finite (dom m)" "m k = Some x"
  shows "mapSum f m = mapSum f (m(k := None)) + f x"
  using mapSum_insert [of "m(k := None)" k f x] assms by (simp add: fun_upd_idem)

lemma mapSum_empty [simp]: "mapSum f Map.empty = 0"
  by (simp add: mapSum_def)

text \<open>The map of handles belongs to the contents of a queue when it maps exactly the keys of the entries
  to their handles; the view of both is the map from keys to scores and values.\<close>

definition linked :: "('h \<rightharpoonup> 's \<times> ('k, 'v) Entry) \<Rightarrow> ('k \<rightharpoonup> 'h) \<Rightarrow> bool" where
  "linked con acc \<longleftrightarrow>
     (\<forall>key h. acc key = Some h \<longleftrightarrow> (\<exists>s v. con h = Some (s, \<lparr>entKey = key, entValue = v\<rparr>)))"

definition view :: "('h \<rightharpoonup> 's \<times> ('k, 'v) Entry) \<Rightarrow> ('k \<rightharpoonup> 'h) \<Rightarrow> 'k \<rightharpoonup> 's \<times> 'v" where
  "view con acc key = Option.bind (acc key) (\<lambda>h. map_option (\<lambda>(s, e). (s, entValue e)) (con h))"

lemma linkedD:
  assumes "linked con acc"
  shows "acc key = Some h \<Longrightarrow> \<exists>s v. con h = Some (s, \<lparr>entKey = key, entValue = v\<rparr>)"
    and "con h = Some (s, e) \<Longrightarrow> acc (entKey e) = Some h"
proof -
  show "con h = Some (s, e) \<Longrightarrow> acc (entKey e) = Some h"
    using assms unfolding linked_def by (metis Entry.surjective old.unit.exhaust)
qed (use assms in \<open>simp add: linked_def\<close>)

lemma view_Some:
  assumes "linked con acc"
  shows "view con acc key = Some (s, v) \<longleftrightarrow> (\<exists>h. con h = Some (s, \<lparr>entKey = key, entValue = v\<rparr>))"
proof
  assume "view con acc key = Some (s, v)"
  then obtain h e where "acc key = Some h" "con h = Some (s, e)" "v = entValue e"
    by (auto simp: view_def bind_eq_Some_conv)
  with linkedD(1) [OF assms, of key h] show "\<exists>h. con h = Some (s, \<lparr>entKey = key, entValue = v\<rparr>)" by auto
next
  assume "\<exists>h. con h = Some (s, \<lparr>entKey = key, entValue = v\<rparr>)"
  then obtain h where h: "con h = Some (s, \<lparr>entKey = key, entValue = v\<rparr>)" ..
  with linkedD(2) [OF assms h] show "view con acc key = Some (s, v)" by (simp add: view_def)
qed

lemma view_cong:
  "(\<And>h. acc key = Some h \<Longrightarrow> con h = con' h) \<Longrightarrow> acc key = acc' key \<Longrightarrow> view con acc key = view con' acc' key"
  by (cases "acc' key") (auto simp: view_def)

lemma view_dom: "linked con acc \<Longrightarrow> dom (view con acc) = dom acc"
  by (auto simp: view_def bind_eq_Some_conv dest: linkedD(1))

lemma linked_inj:
  assumes "linked con acc" "con h = Some (s, e)" "con h' = Some (s', e')" "entKey e = entKey e'"
  shows "h = h'"
  using linkedD(2) [OF assms(1)] assms(2-4) by (metis option.sel)

lemma linked_remove:
  fixes con :: "'h \<rightharpoonup> 's \<times> ('k, 'v) Entry"
  assumes "linked con acc" "con h = Some (s, e)"
  shows "linked (con(h := None)) (acc(entKey e := None))"
    and "view (con(h := None)) (acc(entKey e := None)) = (view con acc)(entKey e := None)"
proof -
  show l: "linked (con(h := None)) (acc(entKey e := None))"
    unfolding linked_def
  proof (intro allI)
    fix key g
    have iff: "acc key = Some g \<longleftrightarrow> (\<exists>s v. con g = Some (s, \<lparr>entKey = key, entValue = v\<rparr>))"
      using assms(1) by (simp add: linked_def)
    show "(acc(entKey e := None)) key = Some g \<longleftrightarrow> (\<exists>s v. (con(h := None)) g = Some (s, \<lparr>entKey = key, entValue = v\<rparr>))"
    proof (cases "key = entKey e")
      case True
      have "g = h" if "con g = Some (s', \<lparr>entKey = key, entValue = v\<rparr>)" for s' v
        using linked_inj [OF assms(1) that assms(2)] True by simp
      then show ?thesis using True by auto
    next
      case False
      then show ?thesis using iff assms(2) by (cases "g = h") auto
    qed
  qed
  show "view (con(h := None)) (acc(entKey e := None)) = (view con acc)(entKey e := None)"
  proof (rule ext)
    fix key
    have "con g = (con(h := None)) g" if "acc key = Some g" "key \<noteq> entKey e" for g
      using linkedD(1) [OF assms(1) that(1)] assms(2) that(2) by auto
    then have "view con acc key = view (con(h := None)) (acc(entKey e := None)) key" if "key \<noteq> entKey e"
      using that by (intro view_cong) simp_all
    then show "view (con(h := None)) (acc(entKey e := None)) key = ((view con acc)(entKey e := None)) key"
      by (cases "key = entKey e") (simp_all add: view_def)
  qed
qed

lemma linked_insert:
  assumes "linked con acc" "con h = None" "acc key = None"
  shows "linked (con(h \<mapsto> (s, \<lparr>entKey = key, entValue = v\<rparr>))) (acc(key \<mapsto> h))"
    and "view (con(h \<mapsto> (s, \<lparr>entKey = key, entValue = v\<rparr>))) (acc(key \<mapsto> h)) = (view con acc)(key \<mapsto> (s, v))"
proof -
  show "linked (con(h \<mapsto> (s, \<lparr>entKey = key, entValue = v\<rparr>))) (acc(key \<mapsto> h))"
    unfolding linked_def
  proof (intro allI)
    fix key' g
    have iff: "acc key' = Some g \<longleftrightarrow> (\<exists>s v. con g = Some (s, \<lparr>entKey = key', entValue = v\<rparr>))"
      using assms(1) by (simp add: linked_def)
    then show "(acc(key \<mapsto> h)) key' = Some g \<longleftrightarrow>
        (\<exists>s' v'. (con(h \<mapsto> (s, \<lparr>entKey = key, entValue = v\<rparr>))) g = Some (s', \<lparr>entKey = key', entValue = v'\<rparr>))"
      using assms(2,3) by (cases "key' = key"; cases "g = h") auto
  qed
  show "view (con(h \<mapsto> (s, \<lparr>entKey = key, entValue = v\<rparr>))) (acc(key \<mapsto> h)) = (view con acc)(key \<mapsto> (s, v))"
  proof (rule ext)
    fix key'
    have "con g = (con(h \<mapsto> (s, \<lparr>entKey = key, entValue = v\<rparr>))) g" if "acc key' = Some g" for g
      using linkedD(1) [OF assms(1) that] assms(2) by auto
    then have "view con acc key' = view (con(h \<mapsto> (s, \<lparr>entKey = key, entValue = v\<rparr>))) (acc(key \<mapsto> h)) key'" if "key' \<noteq> key"
      using that by (intro view_cong) simp_all
    then show "view (con(h \<mapsto> (s, \<lparr>entKey = key, entValue = v\<rparr>))) (acc(key \<mapsto> h)) key' = ((view con acc)(key \<mapsto> (s, v))) key'"
      by (cases "key' = key") (simp_all add: view_def)
  qed
qed

lemma linked_image:
  assumes "linked con acc"
  shows "dom acc = (\<lambda>h. entKey (snd (the (con h)))) ` dom con"
proof (intro equalityI subsetI)
  fix key assume "key \<in> dom acc"
  then obtain h s v where "con h = Some (s, \<lparr>entKey = key, entValue = v\<rparr>)"
    using linkedD(1) [OF assms] by (meson domD)
  then show "key \<in> (\<lambda>h. entKey (snd (the (con h)))) ` dom con"
    by (intro image_eqI [of _ _ h]) auto
next
  fix key assume "key \<in> (\<lambda>h. entKey (snd (the (con h)))) ` dom con"
  then obtain h s e where "con h = Some (s, e)" "key = entKey e" by auto
  then show "key \<in> dom acc" using linkedD(2) [OF assms] by auto
qed

lemma linked_card: "linked con acc \<Longrightarrow> card (dom acc) = card (dom con)"
  by (subst linked_image, assumption, rule card_image) (auto simp: inj_on_def intro: linked_inj)

section \<open>The invariant\<close>

definition cacheView ::
    "('pq \<Rightarrow> 'h \<rightharpoonup> 's \<times> ('k, 'v) Entry) \<Rightarrow> ('k, 'v, 'pq, 'h) FlexibleCache \<Rightarrow> 'k \<rightharpoonup> 's \<times> 'v" where
  "cacheView contents c = view (contents (entries c)) (accessMap c)"

text \<open>The map of handles belongs to the queue, the two totals are the sums of the sizes, and the total
  size is within the limit unless the pinned entries alone exceed it.\<close>

definition cacheOk ::
    "('pq \<Rightarrow> bool) \<Rightarrow> ('pq \<Rightarrow> 'h \<rightharpoonup> 's \<times> ('k, 'v) Entry) \<Rightarrow> ('v \<Rightarrow> MemorySize) \<Rightarrow> ('k, 'v, 'pq, 'h) FlexibleCache \<Rightarrow> bool" where
  "cacheOk qinv contents sz c \<longleftrightarrow>
     qinv (entries c) \<and> linked (contents (entries c)) (accessMap c) \<and>
     dom (accessMap c) \<inter> dom (pinnedMap c) = {} \<and> finite (dom (pinnedMap c)) \<and>
     totalSizeNonPinned c = mapSum (\<lambda>(s, v). sz v) (cacheView contents c) \<and>
     totalSizePinned c = mapSum sz (pinnedMap c) \<and>
     totalSizeNonPinned c < 2 ^ 64 \<and> totalSizePinned c < 2 ^ 64 \<and> maxSize c < 2 ^ 64 \<and>
     maxSizeSingleEntry c < 2 ^ 64"

definition cacheBounded :: "('k, 'v, 'pq, 'h) FlexibleCache \<Rightarrow> bool" where
  "cacheBounded c \<longleftrightarrow>
     (totalSizePinned c \<le> maxSize c \<longrightarrow> totalSizeNonPinned c + totalSizePinned c \<le> maxSize c)"

text \<open>\<open>evicted con c c'\<close>: only entries of the queue were removed, and no removed entry has a larger score
  than a remaining one.\<close>

definition sameRest :: "('k, 'v, 'pq, 'h) FlexibleCache \<Rightarrow> ('k, 'v, 'pq, 'h) FlexibleCache \<Rightarrow> bool" where
  "sameRest c c' \<longleftrightarrow> maxNumEntries c' = maxNumEntries c \<and> maxSize c' = maxSize c \<and>
     maxSizeSingleEntry c' = maxSizeSingleEntry c \<and> totalSizePinned c' = totalSizePinned c \<and>
     pinnedMap c' = pinnedMap c"

definition evicted ::
    "('pq \<Rightarrow> 'h \<rightharpoonup> 's::linorder \<times> ('k, 'v) Entry) \<Rightarrow> ('k, 'v, 'pq, 'h) FlexibleCache \<Rightarrow> ('k, 'v, 'pq, 'h) FlexibleCache \<Rightarrow> bool" where
  "evicted contents c c' \<longleftrightarrow> sameRest c c' \<and> cacheView contents c' \<subseteq>\<^sub>m cacheView contents c \<and>
     (\<forall>key s v key' s' v'. cacheView contents c key = Some (s, v) \<longrightarrow> cacheView contents c' key = None \<longrightarrow>
        cacheView contents c' key' = Some (s', v') \<longrightarrow> s \<le> s')"

lemma evicted_refl: "evicted contents c c"
  by (simp add: evicted_def sameRest_def map_le_def)

locale cache_queue = priority_queue ops qinv contents
  for ops :: "('pq, 'h, 's::linorder, ('k, 'v) Entry) PQOps" and qinv contents +
  fixes sz :: "'v \<Rightarrow> MemorySize"
begin

lemma okD:
  assumes "cacheOk qinv contents sz c"
  shows "qinv (entries c)" "linked (contents (entries c)) (accessMap c)"
    and "finite (dom (contents (entries c)))" "finite (dom (accessMap c))" "finite (dom (cacheView contents c))"
    and "pqSize ops (entries c) = card (dom (cacheView contents c))"
    and "dom (cacheView contents c) = dom (accessMap c)"
proof -
  show q: "qinv (entries c)" and l: "linked (contents (entries c)) (accessMap c)" using assms by (simp_all add: cacheOk_def)
  show fin: "finite (dom (contents (entries c)))" using size_law [OF q] by simp
  then show fin': "finite (dom (accessMap c))" unfolding linked_image [OF l] by simp
  show dom: "dom (cacheView contents c) = dom (accessMap c)" by (simp add: cacheView_def view_dom [OF l])
  then show "finite (dom (cacheView contents c))" using fin' by simp
  show "pqSize ops (entries c) = card (dom (cacheView contents c))"
    using size_law [OF q] linked_card [OF l] dom by simp
qed

lemma ok_remove:
  assumes "cacheOk qinv contents sz c" "contents (entries c) h = Some (s, e)" "qinv q"
    and "contents q = (contents (entries c))(h := None)"
  defines "c' \<equiv> c\<lparr>totalSizeNonPinned := totalSizeNonPinned c - sz (entValue e), entries := q,
      accessMap := (accessMap c)(entKey e := None)\<rparr>"
  shows "cacheOk qinv contents sz c' \<and> cacheView contents c' = (cacheView contents c)(entKey e := None) \<and>
    cacheView contents c (entKey e) = Some (s, entValue e) \<and> sz (entValue e) \<le> totalSizeNonPinned c"
proof -
  note l = okD(2) [OF assms(1)]
  have v: "cacheView contents c' = (cacheView contents c)(entKey e := None)"
    using linked_remove(2) [OF l assms(2)] assms(4) by (simp add: cacheView_def c'_def)
  have at: "cacheView contents c (entKey e) = Some (s, entValue e)"
    using linkedD(2) [OF l assms(2)] assms(2) by (simp add: cacheView_def view_def)
  have "mapSum (\<lambda>(s, v). sz v) (cacheView contents c) =
      mapSum (\<lambda>(s, v). sz v) (cacheView contents c') + sz (entValue e)"
    unfolding v using mapSum_remove [OF okD(5) [OF assms(1)] at, of "\<lambda>(s, v). sz v"] by simp
  moreover have "linked (contents q) (accessMap c')"
    using linked_remove(1) [OF l assms(2)] assms(4) by (simp add: c'_def)
  ultimately show ?thesis using assms(1,3) v at by (auto simp: cacheOk_def c'_def)
qed

lemma removeOneEntry_law:
  assumes "cacheOk qinv contents sz c" "pqSize ops (entries c) \<noteq> 0"
  shows "\<exists>c' key s v. removeOneEntry ops sz c = Inr c' \<and> cacheOk qinv contents sz c' \<and> sameRest c c' \<and>
    cacheView contents c key = Some (s, v) \<and> cacheView contents c' = (cacheView contents c)(key := None) \<and>
    totalSizeNonPinned c' \<le> totalSizeNonPinned c \<and>
    (\<forall>key' s' v'. cacheView contents c key' = Some (s', v') \<longrightarrow> s \<le> s')"
proof -
  note q = okD(1) [OF assms(1)] and l = okD(2) [OF assms(1)]
  have "contents (entries c) \<noteq> Map.empty" using assms(2) size_law [OF q] by auto
  from pop_law [OF q this] obtain h q' s e where pop: "pqPop ops (entries c) = Inr (h, q')" "qinv q'"
      "contents (entries c) h = Some (s, e)" "contents q' = (contents (entries c))(h := None)"
      "pqValue ops q' h = e" and least: "\<And>h' s' v'. contents (entries c) h' = Some (s', v') \<Longrightarrow> s \<le> s'" by blast
  note rem = ok_remove [OF assms(1) pop(3,2,4)]
  let ?c = "c\<lparr>totalSizeNonPinned := totalSizeNonPinned c - sz (entValue e), entries := q',
      accessMap := (accessMap c)(entKey e := None)\<rparr>"
  have "minusMemory (totalSizeNonPinned c) (sz (entValue e)) = Inr (totalSizeNonPinned c - sz (entValue e))"
    using rem assms(1) by (simp add: minusMemory_eq cacheOk_def)
  then have "removeOneEntry ops sz c = Inr ?c"
    using assms(2) pop by (simp add: removeOneEntry_def)
  moreover have "s \<le> s'" if "cacheView contents c key' = Some (s', v')" for key' s' v'
    using that least view_Some [OF l] by (auto simp: cacheView_def)
  ultimately show ?thesis using rem by (intro exI [of _ ?c] exI [of _ "entKey e"] exI [of _ s] exI [of _ "entValue e"])
    (simp add: sameRest_def)
qed

lemma evicted_step:
  assumes "cacheView contents c1 = (cacheView contents c)(key := None)" "sameRest c c1"
    and "cacheView contents c key = Some (s, v)"
    and least: "\<forall>key' s' v'. cacheView contents c key' = Some (s', v') \<longrightarrow> s \<le> s'"
    and "evicted contents c1 c2"
  shows "evicted contents c c2"
proof -
  have sub: "cacheView contents c2 \<subseteq>\<^sub>m cacheView contents c1" using assms(5) by (simp add: evicted_def)
  have sub': "cacheView contents c1 \<subseteq>\<^sub>m cacheView contents c" by (simp add: assms(1) map_le_def)
  have "t \<le> t'" if a: "cacheView contents c k = Some (t, w)" "cacheView contents c2 k = None"
      "cacheView contents c2 k' = Some (t', w')" for k t w k' t' w'
  proof (cases "k = key")
    case True
    have "cacheView contents c k' = Some (t', w')" using a(3) sub sub' by (metis map_le_def domI)
    then show ?thesis using least a(1) assms(3) True by auto
  next
    case False
    then have "cacheView contents c1 k = Some (t, w)" using a(1) by (simp add: assms(1))
    then show ?thesis using assms(5) a(2,3) unfolding evicted_def by blast
  qed
  then show ?thesis using assms(2,5) map_le_trans [OF sub sub'] by (auto simp: evicted_def sameRest_def)
qed

lemma needsRoom_eq:
  assumes "totalSizeNonPinned c + totalSizePinned c + m < 2 ^ 64"
  shows "needsRoom ops n m c = Inr (pqSize ops (entries c) \<noteq> 0 \<and>
    (maxNumEntries c < pqSize ops (entries c) + card (dom (pinnedMap c)) + n \<or>
     maxSize c < totalSizeNonPinned c + totalSizePinned c + m))"
  using assms by (auto simp: needsRoom_def plusMemory_eq)

lemma makeRoomLoop_law:
  assumes "cacheOk qinv contents sz c" "totalSizeNonPinned c + totalSizePinned c + m < 2 ^ 64"
  shows "\<exists>c'. makeRoomLoop ops sz n m c = Some (Inr c') \<and> cacheOk qinv contents sz c' \<and> evicted contents c c' \<and>
    needsRoom ops n m c' = Inr False \<and> totalSizeNonPinned c' \<le> totalSizeNonPinned c"
  using assms
proof (induction "pqSize ops (entries c)" arbitrary: c rule: less_induct)
  case less
  note room = needsRoom_eq [OF less.prems(2), of n]
  then obtain b where b: "needsRoom ops n m c = Inr b" by blast
  show ?case
  proof (cases b)
    case False
    then show ?thesis using less.prems b evicted_refl by (simp add: makeRoomLoop.simps)
  next
    case True
    then have "pqSize ops (entries c) \<noteq> 0" using b room by simp
    from removeOneEntry_law [OF less.prems(1) this] obtain c1 key s v where c1: "removeOneEntry ops sz c = Inr c1"
        "cacheOk qinv contents sz c1" "sameRest c c1" "cacheView contents c key = Some (s, v)"
        "cacheView contents c1 = (cacheView contents c)(key := None)" "totalSizeNonPinned c1 \<le> totalSizeNonPinned c"
        "\<forall>key' s' v'. cacheView contents c key' = Some (s', v') \<longrightarrow> s \<le> s'" by blast
    have smaller: "pqSize ops (entries c1) < pqSize ops (entries c)"
      unfolding okD(6) [OF c1(2)] okD(6) [OF less.prems(1)] c1(5) using okD(5) [OF less.prems(1)] c1(4)
      by (auto intro!: psubset_card_mono)
    have "totalSizeNonPinned c1 + totalSizePinned c1 + m < 2 ^ 64"
      using c1(3,6) less.prems(2) by (simp add: sameRest_def)
    from less.hyps [OF smaller c1(2) this] obtain c2 where c2: "makeRoomLoop ops sz n m c1 = Some (Inr c2)"
        "cacheOk qinv contents sz c2" "evicted contents c1 c2" "needsRoom ops n m c2 = Inr False"
        "totalSizeNonPinned c2 \<le> totalSizeNonPinned c1" by blast
    have "makeRoomLoop ops sz n m c = Some (Inr c2)"
      using b True c1(1) c2(1) by (simp add: makeRoomLoop.simps [of ops sz n m c])
    then show ?thesis using c2(2,4,5) c1(6) evicted_step [OF c1(5,3,4,7) c2(3)] by force
  qed
qed

text \<open>The outcome of making room: an underflow error when the pinned entries exceed the limit, \<open>False\<close>
  when the new element does not fit besides them, and otherwise an eviction after which it fits.\<close>

lemma makeRoomIfFits_law:
  assumes ok: "cacheOk qinv contents sz c" and bound: "cacheBounded c" and small: "maxSize c < 2 ^ 63"
  shows "maxSize c < totalSizePinned c \<Longrightarrow> makeRoomIfFits ops sz m c = Some (Inl UnderflowError)"
    and "totalSizePinned c \<le> maxSize c \<Longrightarrow> maxSize c - totalSizePinned c < m \<Longrightarrow>
      makeRoomIfFits ops sz m c = Some (Inr (False, c))"
    and "totalSizePinned c + m \<le> maxSize c \<Longrightarrow>
      \<exists>c'. makeRoomIfFits ops sz m c = Some (Inr (True, c')) \<and> cacheOk qinv contents sz c' \<and> evicted contents c c' \<and>
        totalSizeNonPinned c' + totalSizePinned c' + m \<le> maxSize c \<and>
        (cacheView contents c' = Map.empty \<or>
         card (dom (cacheView contents c')) + card (dom (pinnedMap c)) + (if m \<noteq> 0 then 1 else 0) \<le> maxNumEntries c)"
proof -
  have max: "maxSize c < 2 ^ 64" using ok by (simp add: cacheOk_def)
  note minus = minusMemory_eq [OF max, of "totalSizePinned c"]
  show "maxSize c < totalSizePinned c \<Longrightarrow> makeRoomIfFits ops sz m c = Some (Inl UnderflowError)"
    and "totalSizePinned c \<le> maxSize c \<Longrightarrow> maxSize c - totalSizePinned c < m \<Longrightarrow>
      makeRoomIfFits ops sz m c = Some (Inr (False, c))"
    by (simp_all add: makeRoomIfFits_def minus)
  assume fits: "totalSizePinned c + m \<le> maxSize c"
  let ?n = "if m \<noteq> 0 then 1 else 0 :: nat"
  have sum: "totalSizeNonPinned c + totalSizePinned c + m < 2 ^ 64"
    using bound fits small by (simp add: cacheBounded_def)
  from makeRoomLoop_law [OF ok this, of ?n] obtain c' where c': "makeRoomLoop ops sz ?n m c = Some (Inr c')"
    "cacheOk qinv contents sz c'" "evicted contents c c'" "needsRoom ops ?n m c' = Inr False"
    "totalSizeNonPinned c' \<le> totalSizeNonPinned c" by blast
  have same: "maxSize c' = maxSize c" "totalSizePinned c' = totalSizePinned c" "pinnedMap c' = pinnedMap c"
    "maxNumEntries c' = maxNumEntries c" using c'(3) by (auto simp: evicted_def sameRest_def)
  have "totalSizeNonPinned c' + totalSizePinned c' + m \<le> maxSize c \<and> (cacheView contents c' = Map.empty \<or>
      card (dom (cacheView contents c')) + card (dom (pinnedMap c)) + ?n \<le> maxNumEntries c)"
  proof (cases "pqSize ops (entries c') = 0")
    case True
    then have "cacheView contents c' = Map.empty" using okD(5,6) [OF c'(2)] by simp
    moreover from this have "totalSizeNonPinned c' = 0" using c'(2) by (simp add: cacheOk_def)
    ultimately show ?thesis using fits same by simp
  next
    case False
    have "totalSizeNonPinned c' + totalSizePinned c' + m < 2 ^ 64" using sum c'(5) same by simp
    from needsRoom_eq [OF this, of ?n] False show ?thesis using c'(4) same okD(6) [OF c'(2)] by auto
  qed
  moreover have "makeRoomIfFits ops sz m c = Some (Inr (True, c'))"
    using fits c'(1) by (simp add: makeRoomIfFits_def minus)
  ultimately show "\<exists>c'. makeRoomIfFits ops sz m c = Some (Inr (True, c')) \<and> cacheOk qinv contents sz c' \<and>
      evicted contents c c' \<and> totalSizeNonPinned c' + totalSizePinned c' + m \<le> maxSize c \<and>
      (cacheView contents c' = Map.empty \<or> card (dom (cacheView contents c')) + card (dom (pinnedMap c)) + ?n \<le> maxNumEntries c)"
    using c'(2,3) by blast
qed

end

context cache_queue
begin

lemma cache_insert_law:
  assumes ok: "cacheOk qinv contents sz c" and bound: "cacheBounded c" and small: "maxSize c < 2 ^ 63"
    and new: "\<not> containsKey key c" and single: "sz v \<le> maxSizeSingleEntry c"
    and fits: "totalSizePinned c + sz v \<le> maxSize c"
  shows "\<exists>c1 c'. insertCache ops sz score key v c = Some (Inr (Some v, c')) \<and> cacheOk qinv contents sz c' \<and>
    evicted contents c c1 \<and> sameRest c c' \<and> cacheView contents c' = (cacheView contents c1)(key \<mapsto> (score v, v)) \<and>
    totalSizeNonPinned c' + totalSizePinned c' \<le> maxSize c' \<and>
    (cacheView contents c1 = Map.empty \<or> sz v = 0 \<or>
     card (dom (cacheView contents c')) + card (dom (pinnedMap c')) \<le> maxNumEntries c')"
proof -
  from makeRoomIfFits_law(3) [OF ok bound small fits] obtain c1 where c1:
      "makeRoomIfFits ops sz (sz v) c = Some (Inr (True, c1))" "cacheOk qinv contents sz c1" "evicted contents c c1"
      "totalSizeNonPinned c1 + totalSizePinned c1 + sz v \<le> maxSize c"
      "cacheView contents c1 = Map.empty \<or>
       card (dom (cacheView contents c1)) + card (dom (pinnedMap c)) + (if sz v \<noteq> 0 then 1 else 0) \<le> maxNumEntries c"
    by blast
  obtain h q where ins: "pqInsert ops (score v) \<lparr>entKey = key, entValue = v\<rparr> (entries c1) = (h, q)" by (rule prod.exhaust)
  note law = insert_law [OF okD(1) [OF c1(2)] ins]
  have same: "sameRest c c1" "dom (cacheView contents c1) \<subseteq> dom (cacheView contents c)"
    using c1(3) map_le_implies_dom_le unfolding evicted_def by blast+
  then have "key \<notin> dom (accessMap c1)"
    using new okD(7) [OF ok] okD(7) [OF c1(2)] by (auto simp: containsKey_def containsNonPinned_def)
  then have none: "accessMap c1 key = None" by auto
  let ?c = "c1\<lparr>totalSizeNonPinned := totalSizeNonPinned c1 + sz v, entries := q, accessMap := (accessMap c1)(key \<mapsto> h)\<rparr>"
  have max: "maxSize c < 2 ^ 64" using ok by (simp add: cacheOk_def)
  then have "plusMemory (totalSizeNonPinned c1) (sz v) = Inr (totalSizeNonPinned c1 + sz v)"
    using c1(4) by (simp add: plusMemory_eq)
  moreover have "pqValue ops q h = \<lparr>entKey = key, entValue = v\<rparr>"
    using law handle_law [of q h "score v"] by simp
  ultimately have run: "insertCache ops sz score key v c = Some (Inr (Some v, ?c))"
    using new single c1(1) ins by (simp add: insertCache_def Let_def)
  have l: "linked (contents q) (accessMap ?c)"
    and view: "cacheView contents ?c = (cacheView contents c1)(key \<mapsto> (score v, v))"
    using linked_insert [OF okD(2) [OF c1(2)], of h key "score v" v] law none by (simp_all add: cacheView_def)
  have notView: "cacheView contents c1 key = None" using okD(7) [OF c1(2)] none by auto
  have "mapSum (\<lambda>(s, v). sz v) (cacheView contents ?c) = mapSum (\<lambda>(s, v). sz v) (cacheView contents c1) + sz v"
    unfolding view using mapSum_insert [OF okD(5) [OF c1(2)] notView, of "\<lambda>(s, v). sz v"] by simp
  moreover have "key \<notin> dom (pinnedMap c1)"
    using new same(1) by (auto simp: containsKey_def containsPinned_def sameRest_def)
  ultimately have ok': "cacheOk qinv contents sz ?c"
    using c1(2,4) law l max by (auto simp: cacheOk_def)
  have card: "card (dom (cacheView contents ?c)) = Suc (card (dom (cacheView contents c1)))"
    unfolding view using okD(5) [OF c1(2)] notView by (simp add: card_insert_if domIff)
  have lim: "totalSizeNonPinned ?c + totalSizePinned ?c \<le> maxSize ?c"
    using c1(4) same(1) by (simp add: sameRest_def)
  have num: "cacheView contents c1 = Map.empty \<or> sz v = 0 \<or>
     card (dom (cacheView contents ?c)) + card (dom (pinnedMap ?c)) \<le> maxNumEntries ?c"
    unfolding card using c1(5) same(1) by (auto simp: sameRest_def)
  have "sameRest c ?c" using same(1) by (simp add: sameRest_def)
  with run ok' c1(3) view lim num show ?thesis by blast
qed

lemma lookup_law:
  assumes ok: "cacheOk qinv contents sz c"
    and later: "\<And>s v. cacheView contents c key = Some (s, v) \<Longrightarrow> s \<le> upd s \<lparr>entKey = key, entValue = v\<rparr>"
  shows "\<exists>c'. lookupCache ops upd key c =
      Inr (if containsPinned key c then pinnedMap c key else map_option snd (cacheView contents c key), c') \<and>
    cacheOk qinv contents sz c' \<and> sameRest c c' \<and> totalSizeNonPinned c' = totalSizeNonPinned c \<and>
    cacheView contents c' = (case pinnedMap c key of Some _ \<Rightarrow> cacheView contents c
      | None \<Rightarrow> (case cacheView contents c key of None \<Rightarrow> cacheView contents c
        | Some (s, v) \<Rightarrow> (cacheView contents c)(key \<mapsto> (upd s \<lparr>entKey = key, entValue = v\<rparr>, v))))"
proof (cases "pinnedMap c key = None \<and> accessMap c key \<noteq> None")
  case False
  then show ?thesis using ok okD(7) [OF ok]
    by (auto simp: lookupCache_def containsPinned_def sameRest_def domIff split: option.splits)
next
  case True
  then obtain h s v where h: "accessMap c key = Some h" "contents (entries c) h = Some (s, \<lparr>entKey = key, entValue = v\<rparr>)"
    using linkedD(1) [OF okD(2) [OF ok]] by blast
  have at: "cacheView contents c key = Some (s, v)" using h by (simp add: cacheView_def view_def)
  let ?s = "upd s \<lparr>entKey = key, entValue = v\<rparr>"
  from update_law [OF okD(1) [OF ok] h(2) later [OF at]] obtain h' q where
    q: "pqUpdateKey ops ?s h (entries c) = Inr (h', q)" "qinv q" "((contents (entries c))(h := None)) h' = None"
       "contents q = (contents (entries c))(h := None, h' \<mapsto> (?s, \<lparr>entKey = key, entValue = v\<rparr>))" by blast
  let ?c = "c\<lparr>entries := q, accessMap := (accessMap c)(key \<mapsto> h')\<rparr>"
  have "pqValue ops q h' = \<lparr>entKey = key, entValue = v\<rparr>" using handle_law [OF q(2), of h'] q(4) by simp
  then have run: "lookupCache ops upd key c = Inr (Some v, ?c)"
    using True h q(1) handle_law [OF okD(1) [OF ok] h(2)] by (simp add: lookupCache_def)
  note rem = linked_remove [OF okD(2) [OF ok] h(2), unfolded Entry.simps]
  note ins = linked_insert [OF rem(1) q(3), of key ?s v, OF fun_upd_same, folded q(4), unfolded rem(2) fun_upd_upd]
  have l: "linked (contents q) (accessMap ?c)"
    and view: "cacheView contents ?c = (cacheView contents c)(key \<mapsto> (?s, v))"
    using ins by (simp_all add: cacheView_def)
  have "mapSum (\<lambda>(s, v). sz v) (cacheView contents ?c) = mapSum (\<lambda>(s, v). sz v) (cacheView contents c)"
    using mapSum_insert [of "(cacheView contents c)(key := None)" key "\<lambda>(s, v). sz v" "(?s, v)"]
      mapSum_remove [OF okD(5) [OF ok] at, of "\<lambda>(s, v). sz v"] okD(5) [OF ok] unfolding view by simp
  then have "cacheOk qinv contents sz ?c" using ok q(2) l h(1) by (auto simp: cacheOk_def)
  then show ?thesis using run view True at by (auto simp: containsPinned_def sameRest_def)
qed

lemma insertPinned_law:
  assumes ok: "cacheOk qinv contents sz c" and bound: "cacheBounded c" and small: "maxSize c < 2 ^ 63"
    and run: "insertPinned ops sz key v c = Some (Inr (r, c'))"
  shows "r = v \<and> cacheOk qinv contents sz c' \<and> cacheBounded c' \<and> pinnedMap c' = (pinnedMap c)(key \<mapsto> v) \<and>
    maxSize c' = maxSize c \<and> cacheView contents c' \<subseteq>\<^sub>m cacheView contents c \<and>
    totalSizePinned c \<le> maxSize c"
proof -
  have new: "\<not> containsKey key c" using run by (auto simp: insertPinned_def split: if_splits)
  obtain b c1 t where c1: "makeRoomIfFits ops sz (sz v) c = Some (Inr (b, c1))"
      and t: "plusMemory (totalSizePinned c1) (sz v) = Inr t"
      and c': "c' = c1\<lparr>totalSizePinned := t, pinnedMap := (pinnedMap c1)(key \<mapsto> v)\<rparr>" and r: "r = v"
    using run by (auto simp: insertPinned_def split: if_splits elim!: opt_bind_SomeE)
  have within: "totalSizePinned c \<le> maxSize c"
    using c1 makeRoomIfFits_law(1) [OF ok bound small, of "sz v"] by (cases "totalSizePinned c \<le> maxSize c") auto
  have room: "cacheOk qinv contents sz c1 \<and> evicted contents c c1 \<and>
      (totalSizePinned c + sz v \<le> maxSize c \<longrightarrow> totalSizeNonPinned c1 + totalSizePinned c1 + sz v \<le> maxSize c)"
  proof (cases "totalSizePinned c + sz v \<le> maxSize c")
    case True
    then show ?thesis using makeRoomIfFits_law(3) [OF ok bound small True] c1 by auto
  next
    case False
    then have "maxSize c - totalSizePinned c < sz v" using within by linarith
    with False show ?thesis using makeRoomIfFits_law(2) [OF ok bound small within, of "sz v"] c1 ok evicted_refl by simp
  qed
  have same: "pinnedMap c1 = pinnedMap c" "maxSize c1 = maxSize c" "totalSizePinned c1 = totalSizePinned c"
    "cacheView contents c1 \<subseteq>\<^sub>m cacheView contents c" using room by (auto simp: evicted_def sameRest_def)
  have "sz v < 2 ^ 64" using run ok by (auto simp: insertPinned_def cacheOk_def split: if_splits)
  then have t': "t = totalSizePinned c1 + sz v" "t < 2 ^ 64"
    using t room plusMemory_eq [of "totalSizePinned c1" "sz v"] by (auto simp: cacheOk_def split: if_splits)
  have "key \<notin> dom (accessMap c)" "key \<notin> dom (pinnedMap c)"
    using new by (auto simp: containsKey_def containsNonPinned_def containsPinned_def)
  then have notIn: "key \<notin> dom (accessMap c1)" "pinnedMap c1 key = None"
    using map_le_implies_dom_le [OF same(4)] room okD(7) ok same(1) by auto
  then have "mapSum sz ((pinnedMap c1)(key \<mapsto> v)) = mapSum sz (pinnedMap c1) + sz v"
    using room by (simp add: mapSum_insert cacheOk_def)
  then have "cacheOk qinv contents sz c'"
    using room t' notIn by (auto simp: cacheOk_def c' cacheView_def)
  moreover have "cacheBounded c'" using room t'(1) same by (auto simp: cacheBounded_def c')
  ultimately show ?thesis using r same within by (simp add: c' cacheView_def)
qed

end

text \<open>A cache in which the LRU strategy was followed until the time \<open>t\<close>.\<close>

definition lruOk ::
    "('pq \<Rightarrow> bool) \<Rightarrow> ('pq \<Rightarrow> 'h \<rightharpoonup> 's::linorder \<times> ('k, 'v) Entry) \<Rightarrow> ('v \<Rightarrow> MemorySize) \<Rightarrow> 's \<Rightarrow>
     ('k, 'v, 'pq, 'h) FlexibleCache \<Rightarrow> bool" where
  "lruOk qinv contents sz t c \<longleftrightarrow> cacheOk qinv contents sz c \<and> cacheBounded c \<and> maxSize c < 2 ^ 63 \<and>
     (\<forall>key s v. cacheView contents c key = Some (s, v) \<longrightarrow> s \<le> t)"

context cache_queue
begin

lemma shrinkLoop_law:
  assumes "cacheOk qinv contents sz c"
  shows "\<exists>c'. shrinkLoop ops sz target c = Some (Inr c') \<and> cacheOk qinv contents sz c' \<and> evicted contents c c' \<and>
    totalSizeNonPinned c' \<le> totalSizeNonPinned c \<and> totalSizeNonPinned c' \<le> target"
  using assms
proof (induction "pqSize ops (entries c)" arbitrary: c rule: less_induct)
  case less
  show ?case
  proof (cases "pqSize ops (entries c) = 0 \<or> totalSizeNonPinned c \<le> target")
    case True
    moreover have "totalSizeNonPinned c = 0" if "pqSize ops (entries c) = 0"
      using that less.prems okD(5,6) [OF less.prems] by (simp add: cacheOk_def)
    ultimately have "totalSizeNonPinned c \<le> target" by fastforce
    then show ?thesis using less.prems evicted_refl True by (simp add: shrinkLoop.simps)
  next
    case False
    then have "pqSize ops (entries c) \<noteq> 0" by simp
    from removeOneEntry_law [OF less.prems this] obtain c1 key s v where c1: "removeOneEntry ops sz c = Inr c1"
        "cacheOk qinv contents sz c1" "sameRest c c1" "cacheView contents c key = Some (s, v)"
        "cacheView contents c1 = (cacheView contents c)(key := None)" "totalSizeNonPinned c1 \<le> totalSizeNonPinned c"
        "\<forall>key' s' v'. cacheView contents c key' = Some (s', v') \<longrightarrow> s \<le> s'" by blast
    have smaller: "pqSize ops (entries c1) < pqSize ops (entries c)"
      unfolding okD(6) [OF c1(2)] okD(6) [OF less.prems(1)] c1(5) using okD(5) [OF less.prems(1)] c1(4)
      by (auto intro!: psubset_card_mono)
    from less.hyps [OF smaller c1(2)] obtain c2 where c2: "shrinkLoop ops sz target c1 = Some (Inr c2)"
        "cacheOk qinv contents sz c2" "evicted contents c1 c2" "totalSizeNonPinned c2 \<le> totalSizeNonPinned c1"
        "totalSizeNonPinned c2 \<le> target" by blast
    have "shrinkLoop ops sz target c = Some (Inr c2)"
      using False c1(1) c2(1) by (simp add: shrinkLoop.simps [of ops sz target c])
    then show ?thesis using c2(2,4,5) c1(6) evicted_step [OF c1(5,3,4,7) c2(3)] by force
  qed
qed

lemma clear_ok:
  assumes "cacheOk qinv contents sz c"
  shows "cacheOk qinv contents sz (clearUnpinnedOnly ops c) \<and> cacheOk qinv contents sz (clearAll ops c) \<and>
    cacheView contents (clearUnpinnedOnly ops c) = Map.empty \<and> cacheView contents (clearAll ops c) = Map.empty"
proof -
  note q = clear_law [OF okD(1) [OF assms]]
  have "cacheView contents (clearUnpinnedOnly ops c) = Map.empty" "cacheView contents (clearAll ops c) = Map.empty"
    by (auto simp: cacheView_def view_def clearUnpinnedOnly_def clearAll_def)
  moreover have "linked Map.empty Map.empty" by (simp add: linked_def)
  ultimately show ?thesis using assms q by (simp add: cacheOk_def) (simp add: clearUnpinnedOnly_def clearAll_def)
qed

lemma shrink_law:
  assumes "cacheOk qinv contents sz c"
  shows "\<exists>b c'. makeRoomAsMuchAsPossible ops sz m c = Some (Inr (b, c')) \<and> cacheOk qinv contents sz c' \<and>
    evicted contents c c' \<and> totalSizeNonPinned c' \<le> totalSizeNonPinned c \<and>
    (b \<longrightarrow> totalSizeNonPinned c' + m \<le> totalSizeNonPinned c) \<and> (\<not> b \<longrightarrow> cacheView contents c' = Map.empty)"
proof (cases "totalSizeNonPinned c < m")
  case True
  then show ?thesis using clear_ok [OF assms]
    by (intro exI [of _ False] exI [of _ "clearUnpinnedOnly ops c"])
       (simp add: makeRoomAsMuchAsPossible_def evicted_def sameRest_def, simp add: clearUnpinnedOnly_def)
next
  case False
  from shrinkLoop_law [OF assms, of "totalSizeNonPinned c - m"] obtain c' where
    c': "shrinkLoop ops sz (totalSizeNonPinned c - m) c = Some (Inr c')" "cacheOk qinv contents sz c'" "evicted contents c c'"
      "totalSizeNonPinned c' \<le> totalSizeNonPinned c" "totalSizeNonPinned c' \<le> totalSizeNonPinned c - m" by blast
  moreover have "totalSizeNonPinned c < 2 ^ 64" using assms by (simp add: cacheOk_def)
  ultimately have "makeRoomAsMuchAsPossible ops sz m c = Some (Inr (True, c'))"
    using False by (simp add: makeRoomAsMuchAsPossible_def minusMemory_eq)
  then show ?thesis using c' False by force
qed

lemma pin_law:
  assumes ok: "cacheOk qinv contents sz c" and run: "containsAndMakePinnedIfExists ops sz key c = Inr (b, c')"
  shows "b = containsKey key c \<and> cacheOk qinv contents sz c' \<and> maxSize c' = maxSize c \<and>
    totalSizeNonPinned c' + totalSizePinned c' = totalSizeNonPinned c + totalSizePinned c \<and>
    totalSizePinned c \<le> totalSizePinned c' \<and>
    pinnedMap c' = (case cacheView contents c key of None \<Rightarrow> pinnedMap c | Some (s, v) \<Rightarrow> (pinnedMap c)(key \<mapsto> v)) \<and>
    cacheView contents c' = (cacheView contents c)(key := None)"
proof (cases "accessMap c key")
  case None
  then have "cacheView contents c key = None" using okD(7) [OF ok] by auto
  then show ?thesis using run ok None
    by (auto simp: containsAndMakePinnedIfExists_def containsKey_def containsNonPinned_def containsPinned_def
        fun_upd_idem split: if_splits)
next
  case (Some h)
  then obtain s v where h: "contents (entries c) h = Some (s, \<lparr>entKey = key, entValue = v\<rparr>)"
    using linkedD(1) [OF okD(2) [OF ok]] by blast
  have pin: "pinnedMap c key = None" using ok Some by (auto simp: cacheOk_def)
  have at: "cacheView contents c key = Some (s, v)" using h Some by (simp add: cacheView_def view_def)
  from erase_law [OF okD(1) [OF ok]] h obtain q where
    q: "pqErase ops h (entries c) = Inr q" "qinv q" "contents q = (contents (entries c))(h := None)" by blast
  note rem = ok_remove [OF ok h q(2,3), unfolded Entry.simps]
  have le: "sz v \<le> totalSizeNonPinned c" "totalSizeNonPinned c < 2 ^ 64" "totalSizePinned c < 2 ^ 64"
    using rem ok by (auto simp: cacheOk_def)
  have b: "b" and sum: "totalSizePinned c + sz v < 2 ^ 64" and c': "c' = c\<lparr>totalSizeNonPinned := totalSizeNonPinned c - sz v,
      totalSizePinned := totalSizePinned c + sz v, entries := q, pinnedMap := (pinnedMap c)(key \<mapsto> v),
      accessMap := (accessMap c)(key := None)\<rparr>"
    using run pin Some q(1) handle_law [OF okD(1) [OF ok] h] le
    by (auto simp: containsAndMakePinnedIfExists_def Let_def minusMemory_eq plusMemory_eq split: if_splits)
  have "mapSum sz ((pinnedMap c)(key \<mapsto> v)) = mapSum sz (pinnedMap c) + sz v"
    using ok pin by (simp add: mapSum_insert cacheOk_def)
  then have "cacheOk qinv contents sz c'"
    using rem sum ok Some unfolding cacheOk_def c' by (auto simp: cacheView_def)
  moreover have "cacheView contents c' = (cacheView contents c)(key := None)"
    using rem by (simp add: c' cacheView_def)
  ultimately show ?thesis using b at Some pin le by (simp add: c' containsKey_def containsNonPinned_def containsPinned_def)
qed

end

text \<open>The states that an LRU cache can reach with calls that do not raise an exception, together with the
  time of the last access. The clock never goes back; the limits are below \<open>2 ^ 63\<close>, so that the sum of
  two sizes within the limits fits 64 bits.\<close>

inductive lruReachable ::
    "('k, 'v, 'pq, 'h, 's::linorder) queueOps \<Rightarrow> ('v \<Rightarrow> MemorySize) \<Rightarrow> 'pq \<Rightarrow> 's \<Rightarrow> ('k, 'v, 'pq, 'h) FlexibleCache \<Rightarrow> bool"
  for ops sz queue where
  init: "limit < 2 ^ 63 \<Longrightarrow> single < 2 ^ 64 \<Longrightarrow> lruReachable ops sz queue t (makeFlexibleCache num limit single queue)"
| lookup: "lruReachable ops sz queue t c \<Longrightarrow> t \<le> t' \<Longrightarrow> lookupCache ops (\<lambda>_ _. t') key c = Inr (r, c') \<Longrightarrow>
    lruReachable ops sz queue t' c'"
| insert: "lruReachable ops sz queue t c \<Longrightarrow> t \<le> t' \<Longrightarrow> insertCache ops sz (\<lambda>_. t') key v c = Some (Inr (r, c')) \<Longrightarrow>
    lruReachable ops sz queue t' c'"
| insertPinned: "lruReachable ops sz queue t c \<Longrightarrow> insertPinned ops sz key v c = Some (Inr (r', c')) \<Longrightarrow>
    lruReachable ops sz queue t c'"
| pin: "lruReachable ops sz queue t c \<Longrightarrow> containsAndMakePinnedIfExists ops sz key c = Inr (b, c') \<Longrightarrow>
    lruReachable ops sz queue t c'"
| shrink: "lruReachable ops sz queue t c \<Longrightarrow> makeRoomAsMuchAsPossible ops sz m c = Some (Inr (b, c')) \<Longrightarrow>
    lruReachable ops sz queue t c'"
| setMaxNumEntries: "lruReachable ops sz queue t c \<Longrightarrow> setMaxNumEntries ops sz n c = Some (Inr c') \<Longrightarrow>
    lruReachable ops sz queue t c'"
| setMaxSize: "lruReachable ops sz queue t c \<Longrightarrow> n < 2 ^ 63 \<Longrightarrow> setMaxSize ops sz n c = Some (Inr c') \<Longrightarrow>
    lruReachable ops sz queue t c'"
| setMaxSizeSingleEntry: "lruReachable ops sz queue t c \<Longrightarrow> n < 2 ^ 64 \<Longrightarrow>
    lruReachable ops sz queue t (setMaxSizeSingleEntry n c)"
| clearUnpinnedOnly: "lruReachable ops sz queue t c \<Longrightarrow> lruReachable ops sz queue t (clearUnpinnedOnly ops c)"
| clearAll: "lruReachable ops sz queue t c \<Longrightarrow> lruReachable ops sz queue t (clearAll ops c)"

lemma lruOk_evicted:
  assumes "lruOk qinv contents sz t c" "cacheOk qinv contents sz c'" "cacheView contents c' \<subseteq>\<^sub>m cacheView contents c"
    and "cacheBounded c'" "maxSize c' < 2 ^ 63"
  shows "lruOk qinv contents sz t c'"
proof -
  have "s \<le> t" if "cacheView contents c' key = Some (s, v)" for key s v
    using that assms(1,3) by (metis lruOk_def map_le_def domI)
  then show ?thesis using assms by (simp add: lruOk_def)
qed

context cache_queue
begin

lemma lru_lookup:
  assumes "lruOk qinv contents sz t c" "t \<le> t'" "lookupCache ops (\<lambda>_ _. t') key c = Inr (r, c')"
  shows "lruOk qinv contents sz t' c'"
proof -
  have ok: "cacheOk qinv contents sz c" "cacheBounded c" "maxSize c < 2 ^ 63"
    and le: "\<And>key s v. cacheView contents c key = Some (s, v) \<Longrightarrow> s \<le> t'"
    using assms(1,2) by (auto simp: lruOk_def intro: order_trans)
  from lookup_law [OF ok(1), of key "\<lambda>_ _. t'"] le assms(3)
  have "cacheOk qinv contents sz c'" and same: "sameRest c c'" "totalSizeNonPinned c' = totalSizeNonPinned c"
    and view: "cacheView contents c' = (case pinnedMap c key of Some _ \<Rightarrow> cacheView contents c
      | None \<Rightarrow> (case cacheView contents c key of None \<Rightarrow> cacheView contents c
        | Some (s, v) \<Rightarrow> (cacheView contents c)(key \<mapsto> (t', v))))" by auto
  moreover have "s \<le> t'" if "cacheView contents c' k = Some (s, v)" for k s v
    using that le unfolding view by (auto split: option.splits if_splits)
  ultimately show ?thesis using ok same by (simp add: lruOk_def cacheBounded_def sameRest_def)
qed

lemma lru_room:
  assumes "lruOk qinv contents sz t c" "makeRoomIfFits ops sz m c = Some (Inr (b, c'))"
  shows "lruOk qinv contents sz t c' \<and> sameRest c c' \<and> cacheView contents c' \<subseteq>\<^sub>m cacheView contents c \<and>
    b = (totalSizePinned c + m \<le> maxSize c)"
proof -
  have ok: "cacheOk qinv contents sz c" "cacheBounded c" "maxSize c < 2 ^ 63" using assms(1) by (simp_all add: lruOk_def)
  note law = makeRoomIfFits_law [OF ok, of m]
  have within: "totalSizePinned c \<le> maxSize c" using law(1) assms(2) by fastforce
  show ?thesis
  proof (cases "totalSizePinned c + m \<le> maxSize c")
    case True
    from law(3) [OF True] assms(2) have c': "b" "cacheOk qinv contents sz c'" "evicted contents c c'"
      "totalSizeNonPinned c' + totalSizePinned c' + m \<le> maxSize c" by auto
    then have same: "sameRest c c'" "cacheView contents c' \<subseteq>\<^sub>m cacheView contents c" by (auto simp: evicted_def)
    moreover have "cacheBounded c'" "maxSize c' < 2 ^ 63" using same(1) c'(4) ok(3) by (simp_all add: cacheBounded_def sameRest_def)
    ultimately show ?thesis using lruOk_evicted [OF assms(1) c'(2) same(2)] True c'(1) by simp
  next
    case False
    then have "maxSize c - totalSizePinned c < m" using within by linarith
    with law(2) [OF within] assms(2) False show ?thesis using assms(1) by (auto simp: sameRest_def)
  qed
qed

end

context cache_queue
begin

lemma makeRoomLoop_run:
  assumes "cacheOk qinv contents sz c" "makeRoomLoop ops sz n m c = Some (Inr c')"
  shows "cacheOk qinv contents sz c' \<and> evicted contents c c' \<and> needsRoom ops n m c' = Inr False"
  using assms
proof (induction "pqSize ops (entries c)" arbitrary: c rule: less_induct)
  case less
  obtain b where b: "needsRoom ops n m c = Inr b"
    using less.prems(2) by (cases "needsRoom ops n m c") (auto simp: makeRoomLoop.simps [of ops sz n m c])
  show ?case
  proof (cases b)
    case False
    then show ?thesis using less.prems b evicted_refl by (simp add: makeRoomLoop.simps [of ops sz n m c])
  next
    case True
    then have "pqSize ops (entries c) \<noteq> 0" using b by (auto simp: needsRoom_def split: if_splits)
    from removeOneEntry_law [OF less.prems(1) this] obtain c1 key s v where c1: "removeOneEntry ops sz c = Inr c1"
        "cacheOk qinv contents sz c1" "sameRest c c1" "cacheView contents c key = Some (s, v)"
        "cacheView contents c1 = (cacheView contents c)(key := None)" "totalSizeNonPinned c1 \<le> totalSizeNonPinned c"
        "\<forall>key' s' v'. cacheView contents c key' = Some (s', v') \<longrightarrow> s \<le> s'" by blast
    have smaller: "pqSize ops (entries c1) < pqSize ops (entries c)"
      unfolding okD(6) [OF c1(2)] okD(6) [OF less.prems(1)] c1(5) using okD(5) [OF less.prems(1)] c1(4)
      by (auto intro!: psubset_card_mono)
    have "makeRoomLoop ops sz n m c1 = Some (Inr c')"
      using b True c1(1) less.prems(2) by (simp add: makeRoomLoop.simps [of ops sz n m c])
    from less.hyps [OF smaller c1(2) this] show ?thesis using evicted_step [OF c1(5,3,4,7)] by blast
  qed
qed

lemma lru_setMaxSize:
  assumes lru: "lruOk qinv contents sz t c" and n: "n < 2 ^ 63" and run: "setMaxSize ops sz n c = Some (Inr c')"
  shows "lruOk qinv contents sz t c'"
proof -
  let ?c = "c\<lparr>maxSize := n\<rparr>"
  have ok: "cacheOk qinv contents sz ?c" using lru n by (simp add: lruOk_def cacheOk_def cacheView_def)
  have loop: "makeRoomLoop ops sz 0 0 ?c = Some (Inr c')"
    using run by (auto simp: setMaxSize_def makeRoomIfFits_def split: if_splits elim!: opt_bind_SomeE)
  note c' = makeRoomLoop_run [OF ok loop]
  have same: "maxSize c' = n" "cacheView contents c' \<subseteq>\<^sub>m cacheView contents c"
    using c' by (auto simp: evicted_def sameRest_def cacheView_def)
  have "cacheBounded c'"
  proof (cases "pqSize ops (entries c') = 0")
    case True
    then show ?thesis using c' okD(5,6) [of c'] by (simp add: cacheBounded_def cacheOk_def)
  next
    case False
    then show ?thesis using c' same
      by (auto simp: needsRoom_def cacheBounded_def plusMemory_eq cacheOk_def split: if_splits)
  qed
  then show ?thesis using lruOk_evicted [OF lru] c' same n by simp
qed

lemma lru_setMaxNumEntries:
  assumes lru: "lruOk qinv contents sz t c" and run: "setMaxNumEntries ops sz n c = Some (Inr c')"
  shows "lruOk qinv contents sz t c'"
proof -
  have "lruOk qinv contents sz t (c\<lparr>maxNumEntries := n\<rparr>)"
    using lru by (auto simp: lruOk_def cacheOk_def cacheBounded_def cacheView_def)
  then show ?thesis using lru_room run by (auto simp: setMaxNumEntries_def elim!: opt_bind_SomeE)
qed

text \<open>The outcome of an insertion in all cases.\<close>

lemma lru_insert_outcome:
  assumes lru: "lruOk qinv contents sz t c"
  shows "containsKey key c \<Longrightarrow> insertCache ops sz score key v c = Some (Inl RuntimeError)"
    and "\<not> containsKey key c \<Longrightarrow> maxSizeSingleEntry c < sz v \<Longrightarrow> insertCache ops sz score key v c = Some (Inr (None, c))"
    and "\<not> containsKey key c \<Longrightarrow> sz v \<le> maxSizeSingleEntry c \<Longrightarrow> maxSize c < totalSizePinned c \<Longrightarrow>
      insertCache ops sz score key v c = Some (Inl UnderflowError)"
    and "\<not> containsKey key c \<Longrightarrow> sz v \<le> maxSizeSingleEntry c \<Longrightarrow> totalSizePinned c \<le> maxSize c \<Longrightarrow>
      maxSize c < totalSizePinned c + sz v \<Longrightarrow> insertCache ops sz score key v c = Some (Inr (None, c))"
proof -
  have ok: "cacheOk qinv contents sz c" "cacheBounded c" "maxSize c < 2 ^ 63" using lru by (simp_all add: lruOk_def)
  note law = makeRoomIfFits_law [OF ok, of "sz v"]
  show "containsKey key c \<Longrightarrow> insertCache ops sz score key v c = Some (Inl RuntimeError)"
    and "\<not> containsKey key c \<Longrightarrow> maxSizeSingleEntry c < sz v \<Longrightarrow> insertCache ops sz score key v c = Some (Inr (None, c))"
    by (simp_all add: insertCache_def)
  show "\<not> containsKey key c \<Longrightarrow> sz v \<le> maxSizeSingleEntry c \<Longrightarrow> maxSize c < totalSizePinned c \<Longrightarrow>
      insertCache ops sz score key v c = Some (Inl UnderflowError)"
    using law(1) by (simp add: insertCache_def)
  show "\<not> containsKey key c \<Longrightarrow> sz v \<le> maxSizeSingleEntry c \<Longrightarrow> totalSizePinned c \<le> maxSize c \<Longrightarrow>
      maxSize c < totalSizePinned c + sz v \<Longrightarrow> insertCache ops sz score key v c = Some (Inr (None, c))"
    using law(2) less_diff_conv2 [of "totalSizePinned c" "maxSize c" "sz v"] by (simp add: insertCache_def add.commute)
qed

lemma lru_insert:
  assumes lru: "lruOk qinv contents sz t c" and t': "t \<le> t'"
    and run: "insertCache ops sz (\<lambda>_. t') key v c = Some (Inr (r, c'))"
  shows "lruOk qinv contents sz t' c'"
proof -
  have ok: "cacheOk qinv contents sz c" "cacheBounded c" "maxSize c < 2 ^ 63" using lru by (simp_all add: lruOk_def)
  have later: "lruOk qinv contents sz t' c" using lru t' by (auto simp: lruOk_def intro: order_trans)
  show ?thesis
  proof (cases "\<not> containsKey key c \<and> sz v \<le> maxSizeSingleEntry c \<and> totalSizePinned c + sz v \<le> maxSize c")
    case False
    then have "c' = c" using lru_insert_outcome [OF lru, where key = key and v = v and score = "\<lambda>_. t'"] run
      by (auto simp: not_le) (metis Inl_Inr_False Pair_inject le_less_linear option.inject sum.inject(2))+
    then show ?thesis using later by simp
  next
    case True
    then obtain c1 where c1: "cacheOk qinv contents sz c'" "evicted contents c c1" "sameRest c c'"
      "cacheView contents c' = (cacheView contents c1)(key \<mapsto> (t', v))"
      "totalSizeNonPinned c' + totalSizePinned c' \<le> maxSize c'"
      using cache_insert_law [OF ok, of key v "\<lambda>_. t'"] run by auto
    have "s \<le> t'" if "cacheView contents c1 k = Some (s, w)" for k s w
      using that c1(2) later unfolding evicted_def lruOk_def by (metis domI map_le_def)
    then show ?thesis using c1 ok(3) by (auto simp: lruOk_def cacheBounded_def sameRest_def)
  qed
qed

lemma reachable_lruOk:
  assumes "lruReachable ops sz queue t c" "qinv queue" "contents queue = Map.empty"
  shows "lruOk qinv contents sz t c"
  using assms(1)
proof induction
  case (init limit single t num)
  then show ?case using assms(2,3)
    by (simp add: lruOk_def cacheOk_def makeFlexibleCache_def cacheBounded_def cacheView_def view_def linked_def mapSum_def dom_def)
next
  case (lookup t c t' key r c')
  then show ?case by (blast intro: lru_lookup)
next
  case (insert t c t' key v r c')
  then show ?case by (blast intro: lru_insert)
next
  case (insertPinned t c key v r' c')
  then have "cacheOk qinv contents sz c" "cacheBounded c" "maxSize c < 2 ^ 63" by (simp_all add: lruOk_def)
  with insertPinned_law [OF this insertPinned(2)] show ?case
    by (intro lruOk_evicted [OF insertPinned.IH]) auto
next
  case (pin t c key b c')
  then have "cacheOk qinv contents sz c" "cacheBounded c" "maxSize c < 2 ^ 63" by (simp_all add: lruOk_def)
  with pin_law [OF this(1) pin(2)] show ?case
    by (intro lruOk_evicted [OF pin.IH]) (auto simp: map_le_def cacheBounded_def)
next
  case (shrink t c m b c')
  then have ok: "cacheOk qinv contents sz c" "cacheBounded c" "maxSize c < 2 ^ 63" by (simp_all add: lruOk_def)
  with shrink_law [OF this(1), of m] shrink(2) show ?case
    by (intro lruOk_evicted [OF shrink.IH]) (auto simp: evicted_def sameRest_def cacheBounded_def)
next
  case (setMaxNumEntries t c n c')
  then show ?case by (blast intro: lru_setMaxNumEntries)
next
  case (setMaxSize t c n c')
  then show ?case by (blast intro: lru_setMaxSize)
next
  case (setMaxSizeSingleEntry t c n)
  then show ?case by (auto simp: lruOk_def cacheOk_def setMaxSizeSingleEntry_def cacheView_def cacheBounded_def)
next
  case (clearUnpinnedOnly t c)
  then have "cacheOk qinv contents sz c" "maxSize c < 2 ^ 63" by (simp_all add: lruOk_def)
  from clear_ok [OF this(1)] this(2) show ?case
    by (simp add: lruOk_def) (simp add: clearUnpinnedOnly_def cacheBounded_def)
next
  case (clearAll t c)
  then have "cacheOk qinv contents sz c" "maxSize c < 2 ^ 63" by (simp_all add: lruOk_def)
  from clear_ok [OF this(1)] this(2) show ?case
    by (simp add: lruOk_def) (simp add: clearAll_def cacheBounded_def)
qed

end

context cache_queue
begin

lemma sizes_law:
  assumes "cacheOk qinv contents sz c"
  shows "nonPinnedSize ops sz c = Inr (totalSizeNonPinned c) \<and> pinnedSize sz c = Inr (totalSizePinned c) \<and>
    numNonPinnedEntries c = pqSize ops (entries c) \<and> dom (accessMap c) \<inter> dom (pinnedMap c) = {}"
proof -
  have "(\<Sum>key\<in>dom (accessMap c). sz (entValue (pqValue ops (entries c) (the (accessMap c key))))) =
      mapSum (\<lambda>(s, v). sz v) (cacheView contents c)"
    unfolding mapSum_def okD(7) [OF assms]
  proof (rule sum.cong [OF refl])
    fix key assume "key \<in> dom (accessMap c)"
    then obtain h s v where h: "accessMap c key = Some h" "contents (entries c) h = Some (s, \<lparr>entKey = key, entValue = v\<rparr>)"
      using linkedD(1) [OF okD(2) [OF assms]] by (meson domD)
    then show "sz (entValue (pqValue ops (entries c) (the (accessMap c key)))) =
        (case the (cacheView contents c key) of (s, v) \<Rightarrow> sz v)"
      using handle_law [OF okD(1) [OF assms] h(2)] by (simp add: cacheView_def view_def)
  qed
  then show ?thesis using assms okD(6,7) [OF assms]
    by (simp add: nonPinnedSize_def pinnedSize_def accumulateSizes_def cacheOk_def mapSum_def numNonPinnedEntries_def)
qed

lemma room_returns:
  assumes "lruOk qinv contents sz t c"
  shows "\<exists>r. makeRoomIfFits ops sz m c = Some r"
proof -
  have ok: "cacheOk qinv contents sz c" "cacheBounded c" "maxSize c < 2 ^ 63" using assms by (simp_all add: lruOk_def)
  consider "maxSize c < totalSizePinned c" | "totalSizePinned c \<le> maxSize c" "maxSize c - totalSizePinned c < m"
    | "totalSizePinned c + m \<le> maxSize c" by linarith
  then show ?thesis using makeRoomIfFits_law [OF ok, of m] by cases blast+
qed

end

section \<open>The two caches\<close>

context heap_top
begin

lemma heap_queue: "priority_queue (heapOps pick dflt) heapInv heapContents"
  by unfold_locales

end

interpretation treeCache: cache_queue treeOps treeInv treeContents sz for sz
  by unfold_locales

interpretation heapCache: cache_queue "heapOps firstTop dflt" heapInv heapContents sz for dflt sz
  by (intro cache_queue.intro heap_top.heap_queue heap_top.intro firstTop_minimal)

lemma heap_cache_queue: "topIsMinimal pick \<Longrightarrow> cache_queue (heapOps pick dflt) heapInv heapContents"
  by (intro cache_queue.intro heap_top.heap_queue heap_top.intro)

lemma heap_reachable:
  assumes "topIsMinimal pick" "lruReachable (heapOps pick dflt) sz makeHeapBasedPQ t c"
  shows "lruOk heapInv heapContents sz t c"
  using cache_queue.reachable_lruOk [OF heap_cache_queue [OF assms(1)] assms(2)] empty_queues by blast

lemma tree_reachable:
  assumes "lruReachable treeOps sz makeTreeBasedPQ t c"
  shows "lruOk treeInv treeContents sz t c"
  using treeCache.reachable_lruOk [OF assms] empty_queues by blast


abbreviation exampleCache :: "(nat, nat, (nat, (nat, nat) Entry) HeapBasedPQ, nat) FlexibleCache" where
  "exampleCache \<equiv> makeFlexibleCache 2 100 50 makeHeapBasedPQ"

abbreviation exampleHeapOps :: "(nat, nat, (nat, (nat, nat) Entry) HeapBasedPQ, nat, nat) queueOps" where
  "exampleHeapOps \<equiv> heapOps firstTop \<lparr>entKey = 0, entValue = 0\<rparr>"

lemma exampleCache_reachable:
  "lruReachable exampleHeapOps id makeHeapBasedPQ 0 exampleCache"
  by (rule lruReachable.init) simp_all

lemma example_insert:
  "\<exists>c. insertCache exampleHeapOps id (\<lambda>_. 5) 1 30 exampleCache = Some (Inr (Some 30, c)) \<and>
     pinnedMap c = Map.empty \<and> accessMap c = [1 \<mapsto> 0] \<and> totalSizeNonPinned c = 30 \<and> totalSizePinned c = 0 \<and>
     maxSize c = 100 \<and> maxSizeSingleEntry c = 50"
  by (simp add: insertCache_def makeFlexibleCache_def containsKey_def containsPinned_def containsNonPinned_def
      makeRoomIfFits_def minusMemory_def bytes_def makeRoomLoop.simps needsRoom_def heapOps_def makeHeapBasedPQ_def
      plusMemory_def size_t_max_def heapInsert_def handleValue_def)


text \<open>C33: An insertion into the LRU cache raises an exception for a key that is present, ignores a value that
  is too large for a single entry or does not fit besides the pinned entries, and raises an underflow
  error when the pinned entries exceed the limit of the cache: once more was pinned than the limit
  allows, which \<open>insertPinned\<close> does not prevent, every insertion of a new key fails.\<close>

theorem lru_insert_errors:
  assumes "topIsMinimal pick" "lruReachable (heapOps pick dflt) sz makeHeapBasedPQ t c"
  shows "(containsKey key c \<longrightarrow> insertCache (heapOps pick dflt) sz score key v c = Some (Inl RuntimeError)) \<and>
    (\<not> containsKey key c \<longrightarrow> maxSizeSingleEntry c < sz v \<longrightarrow>
       insertCache (heapOps pick dflt) sz score key v c = Some (Inr (None, c))) \<and>
    (\<not> containsKey key c \<longrightarrow> sz v \<le> maxSizeSingleEntry c \<longrightarrow> maxSize c < totalSizePinned c \<longrightarrow>
       insertCache (heapOps pick dflt) sz score key v c = Some (Inl UnderflowError)) \<and>
    (\<not> containsKey key c \<longrightarrow> sz v \<le> maxSizeSingleEntry c \<longrightarrow> totalSizePinned c \<le> maxSize c \<longrightarrow>
       maxSize c < totalSizePinned c + sz v \<longrightarrow> insertCache (heapOps pick dflt) sz score key v c = Some (Inr (None, c)))"
  using cache_queue.lru_insert_outcome [OF heap_cache_queue [OF assms(1)] heap_reachable [OF assms]] by blast

lemma example_pinned:
  "\<exists>c. insertPinned exampleHeapOps id 1 50 exampleCache = Some (Inr (50, c)) \<and>
     (\<exists>c'. insertPinned exampleHeapOps id 2 40 c = Some (Inr (40, c')) \<and>
       (\<exists>c''. insertPinned exampleHeapOps id 3 20 c' = Some (Inr (20, c'')) \<and> totalSizePinned c'' = 110 \<and>
         maxSize c'' = 100 \<and> maxSizeSingleEntry c'' = 50 \<and> pinnedMap c'' = [1 \<mapsto> 50, 2 \<mapsto> 40, 3 \<mapsto> 20] \<and>
         accessMap c'' = Map.empty))"
  by (simp add: insertPinned_def makeFlexibleCache_def containsKey_def containsPinned_def containsNonPinned_def
      makeRoomIfFits_def minusMemory_def bytes_def makeRoomLoop.simps needsRoom_def heapOps_def makeHeapBasedPQ_def
      plusMemory_def size_t_max_def)

lemma lru_insert_errors_witness:
  "\<exists>c. lruReachable exampleHeapOps id makeHeapBasedPQ 0 c \<and>
     insertCache exampleHeapOps id (\<lambda>_. 5) 4 10 c = Some (Inl UnderflowError)"
proof -
  from example_pinned obtain c c' c'' where
    c: "insertPinned exampleHeapOps id 1 50 exampleCache = Some (Inr (50, c))"
       "insertPinned exampleHeapOps id 2 40 c = Some (Inr (40, c'))"
       "insertPinned exampleHeapOps id 3 20 c' = Some (Inr (20, c''))"
    and c'': "totalSizePinned c'' = 110" "maxSize c'' = 100" "maxSizeSingleEntry c'' = 50"
       "pinnedMap c'' = [1 \<mapsto> 50, 2 \<mapsto> 40, 3 \<mapsto> 20]" "accessMap c'' = Map.empty" by blast
  have r: "lruReachable exampleHeapOps id makeHeapBasedPQ 0 c''"
    using lruReachable.insertPinned [OF lruReachable.insertPinned [OF lruReachable.insertPinned [OF exampleCache_reachable c(1)] c(2)] c(3)] .
  have "\<not> containsKey 4 c''" using c'' by (simp add: containsKey_def containsPinned_def containsNonPinned_def)
  then show ?thesis using lru_insert_errors [OF firstTop_minimal r, where key = 4 and v = 10 and score = "\<lambda>_. 5"] r c'' by auto
qed



text \<open>C30: Both loops that make room in the LRU cache end in every reachable state; freeing as much memory as
  possible either frees the requested amount or empties the part of the cache that is not pinned.\<close>

theorem cache_loops_return:
  assumes "topIsMinimal pick" "lruReachable (heapOps pick dflt) sz makeHeapBasedPQ t c"
  shows "(\<exists>r. makeRoomIfFits (heapOps pick dflt) sz m c = Some r) \<and>
    (\<exists>b c'. makeRoomAsMuchAsPossible (heapOps pick dflt) sz m c = Some (Inr (b, c')) \<and>
      (if b then totalSizeNonPinned c' + m \<le> totalSizeNonPinned c else accessMap c' = Map.empty))"
proof -
  note queue = heap_cache_queue [OF assms(1)]
  have lru: "lruOk heapInv heapContents sz t c" by (rule heap_reachable [OF assms])
  then have ok: "cacheOk heapInv heapContents sz c" by (simp add: lruOk_def)
  from cache_queue.shrink_law [OF queue ok, of dflt m] obtain b c' where
    c': "makeRoomAsMuchAsPossible (heapOps pick dflt) sz m c = Some (Inr (b, c'))" "cacheOk heapInv heapContents sz c'"
     "b \<longrightarrow> totalSizeNonPinned c' + m \<le> totalSizeNonPinned c" "\<not> b \<longrightarrow> cacheView heapContents c' = Map.empty" by blast
  have "accessMap c' = Map.empty" if "\<not> b"
    using c'(4) that cache_queue.okD(7) [OF queue c'(2)] by (metis dom_eq_empty_conv)
  then show ?thesis using cache_queue.room_returns [OF queue lru, of dflt m] c' by auto
qed

lemma cache_loops_return_witness:
  "\<exists>b c'. makeRoomAsMuchAsPossible exampleHeapOps id 10 exampleCache = Some (Inr (b, c')) \<and>
     (if b then totalSizeNonPinned c' + 10 \<le> totalSizeNonPinned exampleCache else accessMap c' = Map.empty)"
  using cache_loops_return [OF firstTop_minimal exampleCache_reachable] by blast

end
