(* ===== verification/LruCache.thy ===== *)
theory LruCache
  imports Prelude
begin

text \<open>
  The small LRU cache of \<open>util/LruCache.h\<close>. The nodes of the \<open>std::list\<close> of keys have an identity (the
  iterators that the map stores), here a number that is fresh for every allocated node. The function that
  computes a missing value may raise an exception; the state that is left behind is part of the result.
\<close>

record ('k, 'v) LRUCache =
  capacity :: nat
  keys :: "(nat \<times> 'k) list"            \<comment> \<open>most recently used first\<close>
  cacheMap :: "'k \<rightharpoonup> 'v \<times> nat"
  nextNode :: nat

definition makeLRUCache :: "nat \<Rightarrow> ('k, 'v) LRUCache result" where
  "makeLRUCache n = (if 0 < n then Inr \<lparr>capacity = n, keys = [], cacheMap = Map.empty, nextNode = 0\<rparr>
     else Inl ContractViolation)"

text \<open>\<open>keys_.splice(keys_.begin(), keys_, it)\<close> moves a node to the front.\<close>

definition spliceFront :: "nat \<Rightarrow> (nat \<times> 'k) list \<Rightarrow> (nat \<times> 'k) list" where
  "spliceFront i ks = filter (\<lambda>x. fst x = i) ks @ filter (\<lambda>x. fst x \<noteq> i) ks"

definition getOrCompute :: "'k \<Rightarrow> ('k \<Rightarrow> 'v result) \<Rightarrow> ('k, 'v) LRUCache \<Rightarrow> 'v result \<times> ('k, 'v) LRUCache" where
  "getOrCompute key computeFunction c =
     (case cacheMap c key of
        Some (v, i) \<Rightarrow> (Inr v, c\<lparr>keys := spliceFront i (keys c)\<rparr>)
      | None \<Rightarrow>
          let c1 = (if capacity c \<le> card (dom (cacheMap c))
                    then let (i, lruKey) = last (keys c)
                         in c\<lparr>cacheMap := (cacheMap c)(lruKey := None), keys := (i, key) # butlast (keys c)\<rparr>
                    else c\<lparr>keys := (nextNode c, key) # keys c, nextNode := nextNode c + 1\<rparr>)
          in (case computeFunction key of
                Inl e \<Rightarrow> (Inl e, c1)
              | Inr v \<Rightarrow>
                  if cacheMap c1 key = None
                  then (Inr v, c1\<lparr>cacheMap := (cacheMap c1)(key \<mapsto> (v, fst (hd (keys c1))))\<rparr>)
                  else (Inl CorrectnessViolation, c1)))"

section \<open>Correctness\<close>

text \<open>The nodes are distinct and hold exactly the keys of the map, with their iterators; the values are
  those of the function.\<close>

definition lruInv :: "('k \<Rightarrow> 'v) \<Rightarrow> ('k, 'v) LRUCache \<Rightarrow> bool" where
  "lruInv f c \<longleftrightarrow> 0 < capacity c \<and> distinct (map fst (keys c)) \<and> distinct (map snd (keys c)) \<and>
     (\<forall>x\<in>set (keys c). fst x < nextNode c) \<and>
     (\<forall>key v i. cacheMap c key = Some (v, i) \<longleftrightarrow> (i, key) \<in> set (keys c) \<and> v = f key) \<and>
     length (keys c) \<le> capacity c"

lemma lruInv_dom:
  assumes "lruInv f c"
  shows "dom (cacheMap c) = snd ` set (keys c)" "card (dom (cacheMap c)) = length (keys c)"
proof -
  have map: "\<And>key v i. cacheMap c key = Some (v, i) \<longleftrightarrow> (i, key) \<in> set (keys c) \<and> v = f key"
    using assms by (simp add: lruInv_def)
  show dom: "dom (cacheMap c) = snd ` set (keys c)" using map by (force simp: dom_def)
  have "card (set (map snd (keys c))) = length (map snd (keys c))"
    using assms by (intro distinct_card) (simp add: lruInv_def)
  then show "card (dom (cacheMap c)) = length (keys c)" by (simp add: dom)
qed

text \<open>The keys that were used most recently, each once, most recent first.\<close>

fun recentKeys :: "'k list \<Rightarrow> 'k list" where
  "recentKeys [] = []"
| "recentKeys (key # history) = key # removeAll key (recentKeys history)"

lemma spliceFront_keys:
  assumes "distinct (map fst ks)" "distinct (map snd ks)" "(i, key) \<in> set ks"
  shows "map snd (spliceFront i ks) = key # removeAll key (map snd ks)" "set (spliceFront i ks) = set ks"
    "map fst (spliceFront i ks) = i # removeAll i (map fst ks)"
proof -
  obtain xs ys where ks: "ks = xs @ (i, key) # ys" using assms(3) by (auto dest: split_list)
  have "i \<notin> fst ` set xs" "i \<notin> fst ` set ys" "key \<notin> snd ` set xs" "key \<notin> snd ` set ys"
    using assms(1,2) by (auto simp: ks)
  moreover from this have "filter (\<lambda>x. fst x = i) xs = []" "filter (\<lambda>x. fst x = i) ys = []"
    "filter (\<lambda>x. fst x \<noteq> i) xs = xs" "filter (\<lambda>x. fst x \<noteq> i) ys = ys"
    by (auto simp: filter_empty_conv filter_id_conv)
  ultimately show "map snd (spliceFront i ks) = key # removeAll key (map snd ks)" "set (spliceFront i ks) = set ks"
    "map fst (spliceFront i ks) = i # removeAll i (map fst ks)"
    by (auto simp: spliceFront_def ks removeAll_id)
qed

text \<open>One call on a function that does not raise an exception.\<close>

lemma getOrCompute_step:
  assumes inv: "lruInv f c"
  shows "\<exists>c'. getOrCompute key (\<lambda>k. Inr (f k)) c = (Inr (f key), c') \<and> lruInv f c' \<and> capacity c' = capacity c \<and>
    map snd (keys c') = take (capacity c) (key # removeAll key (map snd (keys c)))"
proof (cases "cacheMap c key")
  case (Some x)
  then obtain i where i: "cacheMap c key = Some (f key, i)" "(i, key) \<in> set (keys c)"
    using inv by (cases x) (auto simp: lruInv_def)
  let ?c = "c\<lparr>keys := spliceFront i (keys c)\<rparr>"
  have d: "distinct (map fst (keys c))" "distinct (map snd (keys c))" using inv by (simp_all add: lruInv_def)
  note sp = spliceFront_keys [OF d i(2)]
  have len: "length (spliceFront i (keys c)) = length (keys c)" by (simp add: spliceFront_def sum_length_filter_compl)
  have "lruInv f ?c" using inv sp len by (simp add: lruInv_def distinct_removeAll)
  moreover have "length (key # removeAll key (map snd (keys c))) \<le> capacity c"
    using len inv arg_cong [OF sp(1), of length] by (simp add: lruInv_def)
  ultimately show ?thesis using i sp by (simp add: getOrCompute_def)
next
  case None
  then have notIn: "key \<notin> snd ` set (keys c)" using lruInv_dom(1) [OF inv] by auto
  have rem: "removeAll key (map snd (keys c)) = map snd (keys c)" using notIn by (simp add: removeAll_id)
  show ?thesis
  proof (cases "capacity c \<le> length (keys c)")
    case True
    then have full: "length (keys c) = capacity c" "keys c \<noteq> []" using inv by (auto simp: lruInv_def)
    obtain i lruKey where l: "last (keys c) = (i, lruKey)" by (rule prod.exhaust)
    have ks: "keys c = butlast (keys c) @ [(i, lruKey)]" using append_butlast_last_id [OF full(2)] l by simp
    have d: "distinct (map fst (butlast (keys c) @ [(i, lruKey)]))" "distinct (map snd (butlast (keys c) @ [(i, lruKey)]))"
      using inv ks unfolding lruInv_def by metis+
    let ?c = "c\<lparr>cacheMap := (cacheMap c)(lruKey := None, key \<mapsto> (f key, i)), keys := (i, key) # butlast (keys c)\<rparr>"
    have member: "x \<in> set (keys c) \<longleftrightarrow> x \<in> set (butlast (keys c)) \<or> x = (i, lruKey)" for x
      using arg_cong [OF ks, of set] by auto
    have none: "cacheMap c key = None" "lruKey \<noteq> key" using None notIn member by force+
    have run: "getOrCompute key (\<lambda>k. Inr (f k)) c = (Inr (f key), ?c)"
      using None True lruInv_dom(2) [OF inv] l none by (simp add: getOrCompute_def Let_def)
    have "lruInv f ?c"
    proof -
      have "((cacheMap c)(lruKey := None, key \<mapsto> (f key, i))) k = Some (v, j) \<longleftrightarrow>
          (j, k) \<in> set ((i, key) # butlast (keys c)) \<and> v = f k" for k v j
        using inv member [of "(j, k)"] d none notIn by (auto simp: lruInv_def image_iff)
      moreover have "length ((i, key) # butlast (keys c)) \<le> capacity c" using full by (cases "keys c") auto
      moreover have "key \<notin> snd ` set (butlast (keys c))" using notIn member by blast
      moreover have "i < nextNode c" using inv member [of "(i, lruKey)"] unfolding lruInv_def by (metis fst_conv)
      ultimately show ?thesis using inv d member by (simp add: lruInv_def)
    qed
    moreover have "map snd (keys ?c) = take (capacity c) (key # map snd (keys c))"
    proof -
      have "length (butlast (keys c)) = capacity c - 1" "0 < capacity c" using full inv by (auto simp: lruInv_def)
      then show ?thesis by (subst (2) ks) (cases "capacity c", auto)
    qed
    ultimately show ?thesis using run rem by simp
  next
    case False
    let ?c = "c\<lparr>cacheMap := (cacheMap c)(key \<mapsto> (f key, nextNode c)), keys := (nextNode c, key) # keys c, nextNode := nextNode c + 1\<rparr>"
    have run: "getOrCompute key (\<lambda>k. Inr (f k)) c = (Inr (f key), ?c)"
      using None False lruInv_dom(2) [OF inv] by (simp add: getOrCompute_def Let_def)
    have "nextNode c \<notin> fst ` set (keys c)" using inv by (force simp: lruInv_def)
    moreover have "((cacheMap c)(key \<mapsto> (f key, nextNode c))) k = Some (v, j) \<longleftrightarrow>
        (j, k) \<in> set ((nextNode c, key) # keys c) \<and> v = f k" for k v j
      using inv None notIn by (auto simp: lruInv_def image_iff)
    ultimately have "lruInv f ?c" using inv False notIn by (auto simp: lruInv_def less_Suc_eq)
    then show ?thesis using run rem False by simp
  qed
qed

section \<open>Histories of calls\<close>

fun accessAll :: "('k \<Rightarrow> 'v result) \<Rightarrow> 'k list \<Rightarrow> ('k, 'v) LRUCache \<Rightarrow> 'v result list \<times> ('k, 'v) LRUCache" where
  "accessAll f [] c = ([], c)"
| "accessAll f (key # history) c =
     (let (r, c') = getOrCompute key f c; (rs, c'') = accessAll f history c' in (r # rs, c''))"

lemma distinct_recentKeys: "distinct (recentKeys history)"
  by (induction history) (auto simp: distinct_removeAll)

lemma take_removeAll:
  "distinct xs \<Longrightarrow> take n (removeAll k (take (Suc n) xs)) = take n (removeAll k xs)"
proof (induction xs arbitrary: n)
  case (Cons x xs)
  show ?case
  proof (cases "x = k")
    case True
    then have "k \<notin> set xs" "k \<notin> set (take n xs)" using Cons.prems by (auto dest: in_set_takeD)
    then show ?thesis using True by (simp add: removeAll_id)
  next
    case False
    then show ?thesis using Cons by (cases n) simp_all
  qed
qed simp

lemma take_recent:
  "distinct xs \<Longrightarrow> 0 < n \<Longrightarrow> take n (k # removeAll k (take n xs)) = take n (k # removeAll k xs)"
  using take_removeAll [of xs "n - 1" k] by (cases n) simp_all

lemma accessAll_law:
  assumes "lruInv f c" "map snd (keys c) = take (capacity c) (recentKeys past)"
  shows "\<exists>c'. accessAll (\<lambda>k. Inr (f k)) history c = (map (\<lambda>k. Inr (f k)) history, c') \<and> lruInv f c' \<and>
    capacity c' = capacity c \<and> map snd (keys c') = take (capacity c) (recentKeys (rev history @ past))"
  using assms
proof (induction history arbitrary: c past)
  case (Cons key history)
  from getOrCompute_step [OF Cons.prems(1), of key] obtain c1 where
    c1: "getOrCompute key (\<lambda>k. Inr (f k)) c = (Inr (f key), c1)" "lruInv f c1" "capacity c1 = capacity c"
      "map snd (keys c1) = take (capacity c) (key # removeAll key (map snd (keys c)))" by blast
  have "0 < capacity c" using Cons.prems(1) by (simp add: lruInv_def)
  then have "map snd (keys c1) = take (capacity c1) (recentKeys (key # past))"
    using c1(3,4) Cons.prems(2) take_recent [OF distinct_recentKeys, of "capacity c" key past] by simp
  from Cons.IH [OF c1(2) this] obtain c2 where
    c2: "accessAll (\<lambda>k. Inr (f k)) history c1 = (map (\<lambda>k. Inr (f k)) history, c2)" "lruInv f c2"
      "capacity c2 = capacity c1" "map snd (keys c2) = take (capacity c1) (recentKeys (rev history @ key # past))" by blast
  then show ?case using c1 by simp
qed simp

text \<open>C31: For a function that does not raise an exception every sequence of calls of the LRU cache returns
  the values of the function, no check fails, and the cache then holds exactly the most recently used keys,
  as many as its capacity allows. A capacity of zero is refused.\<close>

theorem lru_most_recent:
  "(case makeLRUCache n of
      Inl e \<Rightarrow> n = 0 \<and> e = ContractViolation
    | Inr c \<Rightarrow> (case accessAll (\<lambda>k. Inr (f k)) history c of (rs, c') \<Rightarrow>
        rs = map (\<lambda>k. Inr (f k)) history \<and> map snd (keys c') = take n (recentKeys (rev history)) \<and>
        dom (cacheMap c') = set (take n (recentKeys (rev history))) \<and>
        (\<forall>key\<in>dom (cacheMap c'). fst (the (cacheMap c' key)) = f key)))"
proof (cases "n = 0")
  case False
  define c :: "('a, 'b) LRUCache" where "c = \<lparr>capacity = n, keys = [], cacheMap = Map.empty, nextNode = 0\<rparr>"
  have "lruInv f c" "map snd (keys c) = take (capacity c) (recentKeys [])" using False by (simp_all add: lruInv_def c_def)
  from accessAll_law [OF this, of history] obtain c' where
    c': "accessAll (\<lambda>k. Inr (f k)) history c = (map (\<lambda>k. Inr (f k)) history, c')" "lruInv f c'"
      "map snd (keys c') = take n (recentKeys (rev history))" by (auto simp: c_def)
  have "dom (cacheMap c') = set (take n (recentKeys (rev history)))"
    using lruInv_dom(1) [OF c'(2)] arg_cong [OF c'(3), of set] by simp
  moreover have "fst (the (cacheMap c' key)) = f key" if "key \<in> dom (cacheMap c')" for key
  proof -
    obtain v i where "cacheMap c' key = Some (v, i)" using \<open>key \<in> dom (cacheMap c')\<close> by auto
    moreover from this have "v = f key" using c'(2) by (simp add: lruInv_def)
    ultimately show ?thesis by simp
  qed
  moreover have "makeLRUCache n = Inr c" using False by (simp add: makeLRUCache_def c_def)
  ultimately show ?thesis using c' by simp
qed (simp add: makeLRUCache_def)

lemma lru_most_recent_witness:
  "\<exists>c'. accessAll (\<lambda>k. Inr (k * k)) [1, 2, 1, 3 :: nat] \<lparr>capacity = 2, keys = [], cacheMap = Map.empty, nextNode = 0\<rparr> =
     ([Inr 1, Inr 4, Inr 1, Inr 9], c') \<and> map snd (keys c') = [3, 1]"
  using lru_most_recent [of 2 "\<lambda>k::nat. k * k" "[1, 2, 1, 3]"]
  by (auto simp: makeLRUCache_def eval_nat_numeral split: prod.splits)

text \<open>If the function raises an exception while the cache is full, the evicted node already carries the
  new key, which is not in the map; from then on the list has more nodes than the map has keys, and a
  cache of capacity one can hold two values.\<close>

theorem lru_exception_exceeds_capacity:
  "\<exists>c. accessAll (\<lambda>k. if k = 2 then Inl RuntimeError else Inr k) [1, 2, 3, 4 :: nat]
      \<lparr>capacity = 1, keys = [], cacheMap = Map.empty, nextNode = 0\<rparr> =
      ([Inr 1, Inl RuntimeError, Inr 3, Inr 4], c) \<and> capacity c = 1 \<and> dom (cacheMap c) = {3, 4}"
  by (simp add: getOrCompute_def Let_def insert_commute)

end
