(* ===== verification/BinarySearch.thy ===== *)
theory BinarySearch
  imports Prelude
begin

text \<open>
  The binary searches of the standard library on random-access ranges (\<open>std::lower_bound\<close>,
  \<open>std::upper_bound\<close> and the two ends of \<open>std::ranges::equal_range\<close>), shared by the search for ranges
  of ids and by the reader of the compressed relations.
\<close>

text \<open>The binary search of \<open>std::lower_bound\<close> and \<open>std::upper_bound\<close> for the first position in the range from
  \<open>first\<close> with \<open>len\<close> positions that does not satisfy the predicate.\<close>

function partitionPoint :: "(nat \<Rightarrow> bool) \<Rightarrow> nat \<Rightarrow> nat \<Rightarrow> nat" where
  "partitionPoint P first len =
     (if len = 0 then first
      else let half = len div 2; mid = first + half
           in if P mid then partitionPoint P (mid + 1) (len - half - 1) else partitionPoint P first half)"
  by pat_completeness auto
termination
  by (relation "measure (\<lambda>(_, _, len). len)") auto

declare partitionPoint.simps [simp del]

definition lowerBound :: "(nat \<Rightarrow> bool) \<Rightarrow> nat \<Rightarrow> nat \<Rightarrow> nat" where
  "lowerBound P b e = partitionPoint P b (e - b)"

lemma partitionPoint_eq:
  assumes "first \<le> m" "m \<le> first + len" "\<And>i. first \<le> i \<Longrightarrow> i < m \<Longrightarrow> P i" "\<And>i. m \<le> i \<Longrightarrow> i < first + len \<Longrightarrow> \<not> P i"
  shows "partitionPoint P first len = m"
  using assms
proof (induction P first len rule: partitionPoint.induct)
  case (1 P first len)
  show ?case
  proof (cases "len = 0")
    case True
    then show ?thesis using "1.prems" by (simp add: partitionPoint.simps)
  next
    case False
    let ?mid = "first + len div 2"
    have mid: "?mid < first + len" using False by simp
    show ?thesis
    proof (cases "P ?mid")
      case True
      then have "?mid < m" using "1.prems"(4) [of ?mid] mid by (meson not_le)
      with "1.IH"(1) [OF False refl refl True] "1.prems" True False show ?thesis
        by (simp add: partitionPoint.simps [of P first len] Let_def)
    next
      case F: False
      then have "m \<le> ?mid" using "1.prems"(3) [of ?mid] by (meson le_add1 not_le)
      with "1.IH"(2) [OF False refl refl F] "1.prems" F False show ?thesis
        by (simp add: partitionPoint.simps [of P first len] Let_def)
    qed
  qed
qed

text \<open>On a partitioned range the search gives the partition point.\<close>

lemma lowerBound_spec:
  assumes "b \<le> e" "\<And>i j. b \<le> i \<Longrightarrow> i \<le> j \<Longrightarrow> j < e \<Longrightarrow> P j \<Longrightarrow> P i"
  shows "b \<le> lowerBound P b e" "lowerBound P b e \<le> e"
    "\<And>i. b \<le> i \<Longrightarrow> i < e \<Longrightarrow> i < lowerBound P b e \<longleftrightarrow> P i"
proof -
  define m where "m = b + length (takeWhile P [b..<e])"
  have m: "b \<le> m" "m \<le> e" using length_takeWhile_le [of P "[b..<e]"] assms(1) by (simp_all add: m_def)
  have low: "P i" if "b \<le> i" "i < m" for i
  proof -
    have "i - b < length (takeWhile P [b..<e])" using that by (simp add: m_def)
    from nth_mem [OF this] takeWhile_nth [OF this] have "[b..<e] ! (i - b) \<in> set (takeWhile P [b..<e])" by simp
    moreover have "[b..<e] ! (i - b) = i" using that m by simp
    ultimately show ?thesis by (auto dest: set_takeWhileD)
  qed
  have high: "\<not> P i" if "m \<le> i" "i < e" for i
  proof
    assume "P i"
    then have "P m" using assms(2) [of m i] that m(1) by simp
    moreover have "\<not> P ([b..<e] ! length (takeWhile P [b..<e]))"
      using that by (intro nth_length_takeWhile) (simp add: m_def)
    moreover have "[b..<e] ! length (takeWhile P [b..<e]) = m" using that by (simp add: m_def)
    ultimately show False by simp
  qed
  have "lowerBound P b e = m" unfolding lowerBound_def
    using m low high by (intro partitionPoint_eq) simp_all
  then show "b \<le> lowerBound P b e" "lowerBound P b e \<le> e"
    "\<And>i. b \<le> i \<Longrightarrow> i < e \<Longrightarrow> i < lowerBound P b e \<longleftrightarrow> P i"
    using m low high by (auto simp: not_le [symmetric])
qed

lemma partitionPoint_cong:
  "(\<And>i. f \<le> i \<Longrightarrow> i < f + len \<Longrightarrow> P i = Q i) \<Longrightarrow> partitionPoint P f len = partitionPoint Q f len"
proof (induction P f len rule: partitionPoint.induct)
  case (1 P f len)
  then show ?case
    by (subst (1 2) partitionPoint.simps) (auto simp: Let_def)
qed

lemma lowerBound_cong: "(\<And>i. b \<le> i \<Longrightarrow> i < e \<Longrightarrow> P i = Q i) \<Longrightarrow> lowerBound P b e = lowerBound Q b e"
  unfolding lowerBound_def by (rule partitionPoint_cong) simp

end
