(* ===== verification/ValueIdComparators.thy ===== *)
theory ValueIdComparators
  imports BinarySearch ValueId "HOL-Library.Log_Nat"
begin

text \<open>
  The comparison of ids by the values they stand for (\<open>global/ValueIdComparators.h\<close>) and the search for
  the ranges of a sorted list of ids that compare in a given way with a value. Doubles are bit patterns:
  they are ordered by sign and magnitude, which are the lower 63 bits, and compare false with NaN. A
  comparison of an integer with a double converts the integer to the nearest double. The searches of the
  standard library are modelled as the usual binary search, because one of them is called on a list that
  is not partitioned.
\<close>

section \<open>Comparisons of values\<close>

datatype Comparison = LT | LE | EQ | NE | GE | GT

datatype ComparisonForIncompatibleTypes = CompareByType | AlwaysUndef

datatype ComparisonResult = CFalse | CTrue | CUndef

definition toBoolNotUndef :: "ComparisonResult \<Rightarrow> bool" where
  "toBoolNotUndef r \<longleftrightarrow> r = CTrue"

definition fromBool :: "bool \<Rightarrow> ComparisonResult" where
  "fromBool b = (if b then CTrue else CFalse)"

fun toValueId :: "ComparisonResult \<Rightarrow> ValueId" where
  "toValueId CFalse = makeFromBool False"
| "toValueId CTrue = makeFromBool True"
| "toValueId CUndef = makeUndefined"

definition compareByBits :: "('w::linorder) local_vocab \<Rightarrow> ValueId \<Rightarrow> ValueId \<Rightarrow> bool" where
  "compareByBits lv a b \<longleftrightarrow> compareValueId lv a b = Less"

text \<open>The standard comparators on a linear order and on the result of a three-way comparison.\<close>

fun cmp3 :: "Comparison \<Rightarrow> ordering \<Rightarrow> bool" where
  "cmp3 LT r = (r = Less)"
| "cmp3 LE r = (r \<noteq> Greater)"
| "cmp3 EQ r = (r = Equal)"
| "cmp3 NE r = (r \<noteq> Equal)"
| "cmp3 GE r = (r \<noteq> Less)"
| "cmp3 GT r = (r = Greater)"

definition cmp :: "Comparison \<Rightarrow> 'a::linorder \<Rightarrow> 'a \<Rightarrow> bool" where
  "cmp c a b = cmp3 c (three_way a b)"

text \<open>Doubles: NaN has all bits of the exponent set and a significand other than zero.\<close>

definition isnan :: "u64 \<Rightarrow> bool" where
  "isnan d \<longleftrightarrow> 0x7FF0000000000000 < take_bit 63 d"

definition doubleNegative :: "u64 \<Rightarrow> bool" where
  "doubleNegative d \<longleftrightarrow> bit d 63"

definition doubleKey :: "u64 \<Rightarrow> int" where
  "doubleKey d = (if doubleNegative d then - uint (take_bit 63 d) else uint (take_bit 63 d))"

text \<open>The magnitude of the double that is nearest to a natural number below \<open>2 ^ 63\<close>, ties to even: with
  \<open>l\<close> the number of bits, the biased exponent is \<open>l + 1022\<close>, and the leading one of the 53-bit significand
  carries into it.\<close>

definition roundQuotient :: "nat \<Rightarrow> nat \<Rightarrow> nat" where
  "roundQuotient k n =
     (let q = n div 2 ^ k; r = n mod 2 ^ k in if 2 * r < 2 ^ k \<or> (2 * r = 2 ^ k \<and> even q) then q else q + 1)"

definition natKey :: "nat \<Rightarrow> nat" where
  "natKey n =
     (if n = 0 then 0
      else let l = floorlog 2 n
           in (l + 1021) * 2 ^ 52 + (if l \<le> 53 then n * 2 ^ (53 - l) else roundQuotient (l - 53) n))"

definition intKey :: "int \<Rightarrow> int" where
  "intKey i = (if i < 0 then - int (natKey (nat (- i))) else int (natKey (nat i)))"

datatype numeric = NInt int | NDouble u64

fun numericNan :: "numeric \<Rightarrow> bool" where
  "numericNan (NInt i) = False"
| "numericNan (NDouble d) = isnan d"

fun numericKey :: "numeric \<Rightarrow> int" where
  "numericKey (NInt i) = intKey i"
| "numericKey (NDouble d) = doubleKey d"

text \<open>The comparators on numbers: integers are compared exactly, all other pairs as doubles.\<close>

fun cmpNumeric :: "Comparison \<Rightarrow> numeric \<Rightarrow> numeric \<Rightarrow> bool" where
  "cmpNumeric c (NInt i) (NInt j) = cmp c i j"
| "cmpNumeric c a b = (if numericNan a \<or> numericNan b then c = NE else cmp c (numericKey a) (numericKey b))"

text \<open>\<open>makeComparatorForNans\<close>: NaN is equal to NaN and greater than all other numbers.\<close>

definition cmpNumericWithNan :: "Comparison \<Rightarrow> numeric \<Rightarrow> numeric \<Rightarrow> bool" where
  "cmpNumericWithNan c a b =
     (if numericNan a \<and> numericNan b then cmp c (0 :: int) 0
      else if numericNan a then cmp c (1 :: int) 0
      else if numericNan b then cmp c (0 :: int) 1
      else cmpNumeric c a b)"

section \<open>Comparison of ids\<close>

definition isString :: "Datatype \<Rightarrow> bool" where
  "isString t \<longleftrightarrow> t \<in> set stringTypes"

definition areTypesCompatible :: "Datatype \<Rightarrow> Datatype \<Rightarrow> bool" where
  "areTypesCompatible typeA typeB \<longleftrightarrow>
     typeA \<noteq> Undefined \<and>
     (typeA = typeB \<or> (typeA \<in> {Double, Int_T} \<and> typeB \<in> {Double, Int_T}) \<or> (isString typeA \<and> isString typeB))"

text \<open>The visitor for two values; the comparators of \<open>CompareByType\<close> are those for NaN.\<close>

definition numericOf :: "visited \<Rightarrow> numeric option" where
  "numericOf x = (case x of VInt i \<Rightarrow> Some (NInt (sint i)) | VDouble d \<Rightarrow> Some (NDouble d) | _ \<Rightarrow> None)"

definition compareVisited :: "ComparisonForIncompatibleTypes \<Rightarrow> Comparison \<Rightarrow> visited \<Rightarrow> visited \<Rightarrow> ComparisonResult result" where
  "compareVisited mode c x y =
     (case (numericOf x, numericOf y) of
        (Some m, Some n) \<Rightarrow> Inr (fromBool ((if mode = CompareByType then cmpNumericWithNan else cmpNumeric) c m n))
      | _ \<Rightarrow> (case x of
          VBool a \<Rightarrow> (case y of VBool b \<Rightarrow> Inr (fromBool (cmp c a b)) | _ \<Rightarrow> Inl CorrectnessViolation)
        | VVocabIndex a \<Rightarrow> (case y of VVocabIndex b \<Rightarrow> Inr (fromBool (cmp c a b)) | _ \<Rightarrow> Inl CorrectnessViolation)
        | VTextRecordIndex a \<Rightarrow> (case y of VTextRecordIndex b \<Rightarrow> Inr (fromBool (cmp c a b)) | _ \<Rightarrow> Inl CorrectnessViolation)
        | VWordVocabIndex a \<Rightarrow> (case y of VWordVocabIndex b \<Rightarrow> Inr (fromBool (cmp c a b)) | _ \<Rightarrow> Inl CorrectnessViolation)
        | VBlankNodeIndex a \<Rightarrow> (case y of VBlankNodeIndex b \<Rightarrow> Inr (fromBool (cmp c a b)) | _ \<Rightarrow> Inl CorrectnessViolation)
        | VDate a \<Rightarrow> (case y of VDate b \<Rightarrow> Inr (fromBool (cmp c a b)) | _ \<Rightarrow> Inl CorrectnessViolation)
        | _ \<Rightarrow> Inl CorrectnessViolation))"

definition compareIdsImpl ::
    "('w::linorder) local_vocab \<Rightarrow> ComparisonForIncompatibleTypes \<Rightarrow> ValueId \<Rightarrow> ValueId \<Rightarrow> Comparison \<Rightarrow>
     ComparisonResult result" where
  "compareIdsImpl lv mode a b c =
     (case (getDatatype a, getDatatype b) of
        (Some typeA, Some typeB) \<Rightarrow>
          if \<not> areTypesCompatible typeA typeB
          then Inr (if mode = CompareByType then fromBool (cmp c typeA typeB) else CUndef)
          else if typeA = LocalVocabIndex \<or> typeB = LocalVocabIndex
          then Inr (fromBool (cmp3 c (compareValueId lv a b)))
          else if typeA = GeoPoint \<and> typeB = GeoPoint then Inr (fromBool (cmp c a b))
          else res_bind (visit a) (\<lambda>x. res_bind (visit b) (\<lambda>y. compareVisited mode c x y))
      | _ \<Rightarrow> Inl CorrectnessViolation)"

definition compareIds ::
    "('w::linorder) local_vocab \<Rightarrow> ComparisonForIncompatibleTypes \<Rightarrow> ValueId \<Rightarrow> ValueId \<Rightarrow> Comparison \<Rightarrow>
     ComparisonResult result" where
  "compareIds lv mode a b comparison = compareIdsImpl lv mode a b comparison"

text \<open>The comparison with the range of ids from \<open>bBegin\<close> to \<open>bEnd\<close> that count as equal.\<close>

definition compareEqual ::
    "('w::linorder) local_vocab \<Rightarrow> ComparisonForIncompatibleTypes \<Rightarrow> ValueId \<Rightarrow> ValueId \<Rightarrow> ValueId \<Rightarrow> bool result" where
  "compareEqual lv mode a bBegin bEnd =
     res_bind (compareIdsImpl lv mode a bBegin GE) (\<lambda>r.
       if \<not> toBoolNotUndef r then Inr False
       else res_bind (compareIdsImpl lv mode a bEnd LT) (\<lambda>s. Inr (toBoolNotUndef s)))"

definition compareWithEqualIds ::
    "('w::linorder) local_vocab \<Rightarrow> ComparisonForIncompatibleTypes \<Rightarrow> ValueId \<Rightarrow> ValueId \<Rightarrow> ValueId \<Rightarrow> Comparison \<Rightarrow>
     ComparisonResult result" where
  "compareWithEqualIds lv mode a bBegin bEnd comparison =
     res_bind (ensure ContractViolation (compareValueId lv bBegin bEnd \<noteq> Greater)) (\<lambda>_.
       let compatible = (case (getDatatype a, getDatatype bBegin) of
                           (Some x, Some y) \<Rightarrow> areTypesCompatible x y | _ \<Rightarrow> False)
       in case comparison of
            LT \<Rightarrow> compareIdsImpl lv mode a bBegin LT
          | LE \<Rightarrow> compareIdsImpl lv mode a bEnd LT
          | EQ \<Rightarrow>
              if mode = AlwaysUndef \<and> \<not> compatible then Inr CUndef
              else res_bind (compareEqual lv mode a bBegin bEnd) (\<lambda>b. Inr (fromBool b))
          | NE \<Rightarrow>
              if \<not> compatible then Inr (if mode = AlwaysUndef then CUndef else CTrue)
              else res_bind (compareEqual lv mode a bBegin bEnd) (\<lambda>b. Inr (fromBool (\<not> b)))
          | GE \<Rightarrow> compareIdsImpl lv mode a bBegin GE
          | GT \<Rightarrow> compareIdsImpl lv mode a bEnd GE)"

section \<open>Ranges of a sorted list\<close>

type_synonym range = "nat \<times> nat"

definition typeLess :: "Datatype option \<Rightarrow> Datatype option \<Rightarrow> bool" where
  "typeLess d1 d2 =
     (case (d1, d2) of
        (Some x, Some y) \<Rightarrow> if isString x \<and> isString y then False else x < y
      | _ \<Rightarrow> False)"

definition getRangeForDatatype :: "ValueId list \<Rightarrow> nat \<Rightarrow> nat \<Rightarrow> Datatype \<Rightarrow> range" where
  "getRangeForDatatype ids b e t =
     (lowerBound (\<lambda>i. typeLess (getDatatype (ids ! i)) (Some t)) b e,
      lowerBound (\<lambda>i. \<not> typeLess (Some t) (getDatatype (ids ! i))) b e)"

text \<open>\<open>RangeFilter\<close> keeps the ranges whose relation to the value satisfies the comparison.\<close>

definition addImpl :: "Comparison list \<Rightarrow> Comparison \<Rightarrow> nat \<Rightarrow> nat \<Rightarrow> range list \<Rightarrow> range list" where
  "addImpl accepted comparison b e result = (if comparison \<in> set accepted then result @ [(b, e)] else result)"

definition addEqual :: "Comparison \<Rightarrow> nat \<Rightarrow> nat \<Rightarrow> range list \<Rightarrow> range list" where
  "addEqual = addImpl [LE, EQ, GE]"

definition addSmaller :: "Comparison \<Rightarrow> nat \<Rightarrow> nat \<Rightarrow> range list \<Rightarrow> range list" where
  "addSmaller = addImpl [LT, LE, NE]"

definition addGreater :: "Comparison \<Rightarrow> nat \<Rightarrow> nat \<Rightarrow> range list \<Rightarrow> range list" where
  "addGreater = addImpl [GE, GT, NE]"

definition addNotEqual :: "Comparison \<Rightarrow> nat \<Rightarrow> nat \<Rightarrow> range list \<Rightarrow> range list" where
  "addNotEqual = addImpl [NE]"

definition doubleIdIsNegative :: "ValueId \<Rightarrow> bool" where
  "doubleIdIsNegative v = doubleNegative (getDouble v)"

text \<open>The comparators between an id and the value; the value is a \<open>double\<close> or an \<open>int64_t\<close>.\<close>

definition doubleCmp :: "Comparison \<Rightarrow> ValueId \<Rightarrow> numeric \<Rightarrow> bool" where
  "doubleCmp c v value = cmpNumeric c (NDouble (getDouble v)) value"

definition intCmp :: "Comparison \<Rightarrow> ValueId \<Rightarrow> numeric \<Rightarrow> bool" where
  "intCmp c v value = cmpNumeric c (NInt (sint (getInt v))) value"

definition getRangesForDouble :: "ValueId list \<Rightarrow> nat \<Rightarrow> nat \<Rightarrow> numeric \<Rightarrow> Comparison \<Rightarrow> range list result" where
  "getRangesForDouble ids b0 e0 value comparison =
     (let (b, e) = getRangeForDatatype ids b0 e0 Double
      in if numericNan value then Inr (if comparison = NE then [(b, e)] else [])
         else
           let beginOfNans = lowerBound (\<lambda>i. \<not> doubleIdIsNegative (ids ! i) \<and> \<not> isnan (getDouble (ids ! i))) b e;
               beginOfNegatives = lowerBound (\<lambda>i. \<not> doubleIdIsNegative (ids ! i)) b e
           in res_bind (ensure ContractViolation (beginOfNans \<le> beginOfNegatives)) (\<lambda>_.
             let r = addNotEqual comparison beginOfNans beginOfNegatives []
             in if cmpNumeric GT value (NInt 0) then
                  let eqBegin = lowerBound (\<lambda>i. doubleCmp LT (ids ! i) value) b beginOfNans;
                      eqEnd = lowerBound (\<lambda>i. \<not> doubleCmp GT (ids ! i) value) b beginOfNans
                  in Inr (addSmaller comparison beginOfNegatives e (addGreater comparison eqEnd beginOfNans
                       (addEqual comparison eqBegin eqEnd (addSmaller comparison b eqBegin r))))
                else if cmpNumeric LT value (NInt 0) then
                  let eqBegin = lowerBound (\<lambda>i. doubleCmp GT (ids ! i) value) beginOfNegatives e;
                      eqEnd = lowerBound (\<lambda>i. \<not> doubleCmp LT (ids ! i) value) beginOfNegatives e
                  in Inr (addSmaller comparison eqEnd e (addEqual comparison eqBegin eqEnd
                       (addGreater comparison beginOfNegatives eqBegin (addGreater comparison b beginOfNans r))))
                else if cmpNumeric EQ value (NInt 0) then
                  let positiveEnd = lowerBound (\<lambda>i. \<not> doubleCmp GT (ids ! i) (NDouble 0)) b beginOfNegatives;
                      negativeEnd = lowerBound (\<lambda>i. \<not> doubleCmp LT (ids ! i) (NDouble 0)) beginOfNegatives e
                  in Inr (addSmaller comparison negativeEnd e (addEqual comparison beginOfNegatives negativeEnd
                       (addGreater comparison positiveEnd beginOfNans (addEqual comparison b positiveEnd r))))
                else Inl CorrectnessViolation))"

definition getRangesForInt :: "ValueId list \<Rightarrow> nat \<Rightarrow> nat \<Rightarrow> numeric \<Rightarrow> Comparison \<Rightarrow> range list result" where
  "getRangesForInt ids b0 e0 value comparison =
     (let (b, e) = getRangeForDatatype ids b0 e0 Int_T
      in if numericNan value then Inr (if comparison = NE then [(b, e)] else [])
         else
           let firstNegative = lowerBound (\<lambda>i. 0 \<le> sint (getInt (ids ! i))) b e
           in if cmpNumeric GE value (NInt 0) then
                let eqBegin = lowerBound (\<lambda>i. intCmp LT (ids ! i) value) b firstNegative;
                    eqEnd = lowerBound (\<lambda>i. \<not> intCmp GT (ids ! i) value) b firstNegative
                in Inr (addSmaller comparison firstNegative e (addGreater comparison eqEnd firstNegative
                     (addEqual comparison eqBegin eqEnd (addSmaller comparison b eqBegin []))))
              else if cmpNumeric LT value (NInt 0) then
                let eqBegin = lowerBound (\<lambda>i. intCmp LT (ids ! i) value) firstNegative e;
                    eqEnd = lowerBound (\<lambda>i. \<not> intCmp GT (ids ! i) value) firstNegative e
                in Inr (addGreater comparison eqEnd e (addEqual comparison eqBegin eqEnd
                     (addSmaller comparison firstNegative eqBegin (addGreater comparison b firstNegative []))))
              else Inl CorrectnessViolation)"

definition getRangesForIntsAndDoubles :: "ValueId list \<Rightarrow> nat \<Rightarrow> nat \<Rightarrow> numeric \<Rightarrow> Comparison \<Rightarrow> range list result" where
  "getRangesForIntsAndDoubles ids b e value comparison =
     res_bind (getRangesForDouble ids b e value comparison) (\<lambda>r.
       res_bind (getRangesForInt ids b e value comparison) (\<lambda>r'. Inr (r @ r')))"

definition getRangesForIndexTypes ::
    "('w::linorder) local_vocab \<Rightarrow> ValueId list \<Rightarrow> nat \<Rightarrow> nat \<Rightarrow> Datatype \<Rightarrow> ValueId \<Rightarrow> Comparison \<Rightarrow> range list" where
  "getRangesForIndexTypes lv ids b e t valueId comparison =
     (let (beginType, endType) = getRangeForDatatype ids b e t;
          eqBegin = lowerBound (\<lambda>i. compareByBits lv (ids ! i) valueId) beginType endType;
          eqEnd = lowerBound (\<lambda>i. \<not> compareByBits lv valueId (ids ! i)) beginType endType
      in addGreater comparison eqEnd endType (addEqual comparison eqBegin eqEnd (addSmaller comparison beginType eqBegin [])))"

definition getRangesForIndexRange ::
    "('w::linorder) local_vocab \<Rightarrow> ValueId list \<Rightarrow> nat \<Rightarrow> nat \<Rightarrow> Datatype \<Rightarrow> ValueId \<Rightarrow> ValueId \<Rightarrow> Comparison \<Rightarrow> range list" where
  "getRangesForIndexRange lv ids b e t valueIdBegin valueIdEnd comparison =
     (let (beginType, endType) = getRangeForDatatype ids b e t;
          eqBegin = lowerBound (\<lambda>i. compareByBits lv (ids ! i) valueIdBegin) beginType endType;
          eqEnd = lowerBound (\<lambda>i. compareByBits lv (ids ! i) valueIdEnd) beginType endType
      in addGreater comparison eqEnd endType (addEqual comparison eqBegin eqEnd (addSmaller comparison beginType eqBegin [])))"

text \<open>The merging loop of \<open>simplifyRanges\<close>, with the last range of the result as a separate argument.\<close>

fun mergeRanges :: "range \<Rightarrow> range list \<Rightarrow> range list" where
  "mergeRanges cur [] = [cur]"
| "mergeRanges cur (r # rs) =
     (if fst r = snd cur then mergeRanges (fst cur, snd r) rs else cur # mergeRanges r rs)"

fun rangeLeq :: "range \<Rightarrow> range \<Rightarrow> bool" where
  "rangeLeq (a, b) (c, d) \<longleftrightarrow> a < c \<or> (a = c \<and> b \<le> d)"

fun insertRange :: "range \<Rightarrow> range list \<Rightarrow> range list" where
  "insertRange r [] = [r]"
| "insertRange r (x # xs) = (if rangeLeq r x then r # x # xs else x # insertRange r xs)"

text \<open>\<open>std::sort\<close> on pairs.\<close>

definition sortRanges :: "range list \<Rightarrow> range list" where
  "sortRanges rs = foldr insertRange rs []"

definition simplifyRanges :: "bool \<Rightarrow> range list \<Rightarrow> range list" where
  "simplifyRanges removeEmptyRanges input =
     (let input = (if removeEmptyRanges then filter (\<lambda>p. fst p \<noteq> snd p) input else input)
      in case sortRanges input of [] \<Rightarrow> [] | r # rs \<Rightarrow> mergeRanges r rs)"

definition getRangesForId ::
    "('w::linorder) local_vocab \<Rightarrow> ValueId list \<Rightarrow> nat \<Rightarrow> nat \<Rightarrow> ValueId \<Rightarrow> Comparison \<Rightarrow> bool \<Rightarrow> range list result" where
  "getRangesForId lv ids b e valueId comparison removeEmptyRanges =
     (case getDatatype valueId of
        None \<Rightarrow> Inl CorrectnessViolation
      | Some Undefined \<Rightarrow> Inr []
      | Some Double \<Rightarrow>
          res_bind (getRangesForIntsAndDoubles ids b e (NDouble (getDouble valueId)) comparison)
            (\<lambda>r. Inr (simplifyRanges removeEmptyRanges r))
      | Some Int_T \<Rightarrow>
          res_bind (getRangesForIntsAndDoubles ids b e (NInt (sint (getInt valueId))) comparison)
            (\<lambda>r. Inr (simplifyRanges removeEmptyRanges r))
      | Some t \<Rightarrow> Inr (simplifyRanges removeEmptyRanges (getRangesForIndexTypes lv ids b e t valueId comparison)))"

definition getRangesForEqualIds ::
    "('w::linorder) local_vocab \<Rightarrow> ValueId list \<Rightarrow> nat \<Rightarrow> nat \<Rightarrow> ValueId \<Rightarrow> ValueId \<Rightarrow> Comparison \<Rightarrow> range list result" where
  "getRangesForEqualIds lv ids b e valueIdBegin valueIdEnd comparison =
     res_bind (ensure ContractViolation (compareValueId lv valueIdBegin valueIdEnd \<noteq> Greater)) (\<lambda>_.
       case (getDatatype valueIdBegin, getDatatype valueIdEnd) of
         (Some typeBegin, Some typeEnd) \<Rightarrow>
           res_bind (ensure ContractViolation (typeBegin = typeEnd \<or> (isString typeBegin \<and> isString typeEnd))) (\<lambda>_.
             res_bind (ensure CorrectnessViolation
                 (typeBegin \<in> {VocabIndex, LocalVocabIndex, WordVocabIndex, TextRecordIndex})) (\<lambda>_.
               Inr (simplifyRanges True (getRangesForIndexRange lv ids b e typeBegin valueIdBegin valueIdEnd comparison))))
       | _ \<Rightarrow> Inl CorrectnessViolation)"

section \<open>Segments of a sorted list\<close>

text \<open>The three parts of a segment that is ordered by a key.\<close>

lemma segment_increasing:
  fixes key :: "nat \<Rightarrow> 'a::linorder" and v :: 'a
  assumes "b \<le> e" "\<And>i j. b \<le> i \<Longrightarrow> i \<le> j \<Longrightarrow> j < e \<Longrightarrow> key i \<le> key j"
  defines "lo \<equiv> lowerBound (\<lambda>i. key i < v) b e" and "hi \<equiv> lowerBound (\<lambda>i. \<not> v < key i) b e"
  shows "b \<le> lo" "lo \<le> hi" "hi \<le> e"
    "{b..<lo} = {i \<in> {b..<e}. key i < v}" "{lo..<hi} = {i \<in> {b..<e}. key i = v}" "{hi..<e} = {i \<in> {b..<e}. v < key i}"
proof -
  have "key i < v" if "b \<le> i" "i \<le> j" "j < e" "key j < v" for i j
    using assms(2) [OF that(1-3)] that(4) by simp
  then have lo: "b \<le> lo" "lo \<le> e" "\<And>i. b \<le> i \<Longrightarrow> i < e \<Longrightarrow> i < lo \<longleftrightarrow> key i < v"
    unfolding lo_def using lowerBound_spec [of b e "\<lambda>i. key i < v"] assms(1) by blast+
  have "\<not> v < key i" if "b \<le> i" "i \<le> j" "j < e" "\<not> v < key j" for i j
    using assms(2) [OF that(1-3)] that(4) by simp
  then have hi: "b \<le> hi" "hi \<le> e" "\<And>i. b \<le> i \<Longrightarrow> i < e \<Longrightarrow> i < hi \<longleftrightarrow> \<not> v < key i"
    unfolding hi_def using lowerBound_spec [of b e "\<lambda>i. \<not> v < key i"] assms(1) by blast+
  show order: "b \<le> lo" "hi \<le> e" using lo hi by simp_all
  show le: "lo \<le> hi"
  proof (rule ccontr)
    assume "\<not> lo \<le> hi"
    then have "hi < lo" "hi < e" using lo(2) by simp_all
    then show False using lo(3) [of hi] hi(1) hi(3) [of hi] by auto
  qed
  have "i \<in> {b..<lo} \<longleftrightarrow> i \<in> {b..<e} \<and> key i < v" for i using lo(1,2) lo(3) [of i] by auto
  then show "{b..<lo} = {i \<in> {b..<e}. key i < v}" by blast
  have "i \<in> {hi..<e} \<longleftrightarrow> i \<in> {b..<e} \<and> v < key i" for i using hi(1,2) hi(3) [of i] by auto
  then show "{hi..<e} = {i \<in> {b..<e}. v < key i}" by blast
  have "i \<in> {lo..<hi} \<longleftrightarrow> i \<in> {b..<e} \<and> key i = v" for i
  proof (cases "b \<le> i \<and> i < e")
    case True
    then show ?thesis using lo(3) [of i] hi(3) [of i] by (cases "key i" v rule: linorder_cases) auto
  next
    case False
    then show ?thesis using lo(1) hi(2) by auto
  qed
  then show "{lo..<hi} = {i \<in> {b..<e}. key i = v}" by blast
qed

lemma segment_decreasing:
  fixes key :: "nat \<Rightarrow> int" and v :: int
  assumes "b \<le> e" "\<And>i j. b \<le> i \<Longrightarrow> i \<le> j \<Longrightarrow> j < e \<Longrightarrow> key j \<le> key i"
  defines "lo \<equiv> lowerBound (\<lambda>i. v < key i) b e" and "hi \<equiv> lowerBound (\<lambda>i. \<not> key i < v) b e"
  shows "b \<le> lo" "lo \<le> hi" "hi \<le> e"
    "{b..<lo} = {i \<in> {b..<e}. v < key i}" "{lo..<hi} = {i \<in> {b..<e}. key i = v}" "{hi..<e} = {i \<in> {b..<e}. key i < v}"
  using segment_increasing [of b e "\<lambda>i. - key i" "- v"] assms by (auto simp: lo_def hi_def)

definition rangesSet :: "range list \<Rightarrow> nat set" where
  "rangesSet rs = (\<Union>(b, e)\<in>set rs. {b..<e})"

text \<open>Ranges that are not inverted and share no position.\<close>

fun disjointRanges :: "range list \<Rightarrow> bool" where
  "disjointRanges [] \<longleftrightarrow> True"
| "disjointRanges (r # rs) \<longleftrightarrow> fst r \<le> snd r \<and> {fst r..<snd r} \<inter> rangesSet rs = {} \<and> disjointRanges rs"

lemma rangesSet_simps [simp]:
  "rangesSet [] = {}"
  "rangesSet (r # rs) = {fst r..<snd r} \<union> rangesSet rs"
  "rangesSet (rs @ rs') = rangesSet rs \<union> rangesSet rs'"
  by (auto simp: rangesSet_def split: prod.splits)

lemma disjointRanges_append:
  "disjointRanges (rs @ rs') \<longleftrightarrow> disjointRanges rs \<and> disjointRanges rs' \<and> rangesSet rs \<inter> rangesSet rs' = {}"
  by (induction rs) auto

text \<open>\<open>covers rs S\<close>: the ranges are disjoint and consist of the positions in \<open>S\<close>.\<close>

definition covers :: "range list \<Rightarrow> nat set \<Rightarrow> bool" where
  "covers rs S \<longleftrightarrow> disjointRanges rs \<and> rangesSet rs = S"

lemma covers_Nil [simp]: "covers [] S \<longleftrightarrow> S = {}"
  by (auto simp: covers_def)

lemma covers_addImpl:
  assumes "covers r S" "b \<le> e" "S \<inter> {b..<e} = {}"
  shows "covers (addImpl acc c b e r) (S \<union> {i \<in> {b..<e}. c \<in> set acc})"
  using assms by (auto simp: covers_def addImpl_def disjointRanges_append)

lemma insertRange_props:
  "rangesSet (insertRange r rs) = {fst r..<snd r} \<union> rangesSet rs"
  "disjointRanges (insertRange r rs) \<longleftrightarrow> disjointRanges (r # rs)"
  "set (insertRange r rs) = insert r (set rs)"
  by (induction rs) auto

lemma rangeLeq_order: "rangeLeq r s \<or> rangeLeq s r" "rangeLeq r s \<Longrightarrow> rangeLeq s t \<Longrightarrow> rangeLeq r t"
  by (cases r; cases s; cases t; auto)+

lemma insertRange_sorted: "sorted_wrt rangeLeq rs \<Longrightarrow> sorted_wrt rangeLeq (insertRange r rs)"
proof (induction rs)
  case (Cons x xs)
  then show ?case using rangeLeq_order(1) [of r x] by (auto simp: insertRange_props intro: rangeLeq_order(2))
qed simp

lemma sortRanges_props:
  "rangesSet (sortRanges rs) = rangesSet rs" "disjointRanges (sortRanges rs) \<longleftrightarrow> disjointRanges rs"
  "set (sortRanges rs) = set rs" "sorted_wrt rangeLeq (sortRanges rs)"
proof -
  have "rangesSet (sortRanges rs) = rangesSet rs \<and> (disjointRanges (sortRanges rs) \<longleftrightarrow> disjointRanges rs) \<and>
      set (sortRanges rs) = set rs \<and> sorted_wrt rangeLeq (sortRanges rs)"
    unfolding sortRanges_def by (induction rs) (auto simp: insertRange_props insertRange_sorted)
  then show "rangesSet (sortRanges rs) = rangesSet rs" "disjointRanges (sortRanges rs) \<longleftrightarrow> disjointRanges rs"
    "set (sortRanges rs) = set rs" "sorted_wrt rangeLeq (sortRanges rs)" by simp_all
qed

text \<open>Simplified ranges are not empty, ascending and not adjacent.\<close>

definition ascending :: "range list \<Rightarrow> bool" where
  "ascending rs \<longleftrightarrow> sorted_wrt (\<lambda>r s. snd r < fst s) rs \<and> (\<forall>r\<in>set rs. fst r < snd r)"

lemma mergeRanges_nonempty: "mergeRanges cur rs \<noteq> []"
  by (induction cur rs rule: mergeRanges.induct) auto

lemma mergeRanges_props:
  assumes "sorted_wrt (\<lambda>r s. snd r \<le> fst s) (cur # rs)" "\<forall>r\<in>set (cur # rs). fst r < snd r"
  shows "rangesSet (mergeRanges cur rs) = rangesSet (cur # rs) \<and> ascending (mergeRanges cur rs) \<and>
    fst (hd (mergeRanges cur rs)) = fst cur"
  using assms
proof (induction cur rs rule: mergeRanges.induct)
  case (2 cur r rs)
  show ?case
  proof (cases "fst r = snd cur")
    case True
    then have "sorted_wrt (\<lambda>r s. snd r \<le> fst s) ((fst cur, snd r) # rs)" "\<forall>r\<in>set ((fst cur, snd r) # rs). fst r < snd r"
      using "2.prems" by auto
    moreover have "{fst cur..<snd r} = {fst cur..<snd cur} \<union> {fst r..<snd r}" using True "2.prems"(2) by auto
    ultimately show ?thesis using "2.IH"(1) [OF True] True by auto
  next
    case False
    have IH: "rangesSet (mergeRanges r rs) = rangesSet (r # rs) \<and> ascending (mergeRanges r rs) \<and> fst (hd (mergeRanges r rs)) = fst r"
      using "2.IH"(2) [OF False] "2.prems" by simp
    obtain x xs where m: "mergeRanges r rs = x # xs" using mergeRanges_nonempty by (meson list.exhaust)
    have "snd cur < fst x" using IH m False "2.prems"(1) by auto
    then have "\<forall>s\<in>set (x # xs). snd cur < fst s" using IH unfolding m ascending_def by (auto intro: less_trans)
    then show ?thesis using IH False "2.prems"(2) by (auto simp: m ascending_def)
  qed
qed (simp add: ascending_def)

lemma simplifyRanges_covers:
  assumes "covers rs S"
  shows "rangesSet (simplifyRanges True rs) = S \<and> ascending (simplifyRanges True rs)"
proof -
  let ?rs = "filter (\<lambda>p. fst p \<noteq> snd p) rs"
  have "rangesSet ?rs = rangesSet rs" by (induction rs) auto
  moreover have "disjointRanges ?rs \<and> (\<forall>r\<in>set ?rs. fst r < snd r)" if "disjointRanges rs"
    using that
  proof (induction rs)
    case (Cons r rs)
    have "rangesSet (filter (\<lambda>p. fst p \<noteq> snd p) rs) \<subseteq> rangesSet rs" by (auto simp: rangesSet_def)
    then show ?case using Cons by auto
  qed simp
  ultimately have f: "rangesSet ?rs = S" "disjointRanges ?rs" "\<forall>r\<in>set ?rs. fst r < snd r"
    using assms by (auto simp: covers_def)
  have step: "sorted_wrt (\<lambda>r s. snd r \<le> fst s) xs"
    if "sorted_wrt rangeLeq xs" "disjointRanges xs" "\<forall>r\<in>set xs. fst r < snd r" for xs
    using that
  proof (induction xs)
    case (Cons x xs)
    have "snd x \<le> fst s" if "s \<in> set xs" for s
    proof (rule ccontr)
      assume "\<not> snd x \<le> fst s"
      moreover have "rangeLeq x s" using Cons.prems(1) that by simp
      then have "fst x \<le> fst s" by (cases x; cases s) auto
      moreover have "fst s \<in> rangesSet xs" using that Cons.prems(3) by (auto simp: rangesSet_def split: prod.splits intro!: bexI [of _ s])
      ultimately have "fst s \<in> {fst x..<snd x} \<inter> rangesSet xs" by simp
      moreover have "{fst x..<snd x} \<inter> rangesSet xs = {}" using Cons.prems(2) by simp
      ultimately show False by blast
    qed
    then show ?case using Cons by auto
  qed simp
  show ?thesis
  proof (cases "sortRanges ?rs")
    case Nil
    then show ?thesis using f(1) sortRanges_props(1) [of ?rs] by (simp add: simplifyRanges_def ascending_def)
  next
    case (Cons r xs)
    have "sorted_wrt (\<lambda>r s. snd r \<le> fst s) (r # xs)" "\<forall>s\<in>set (r # xs). fst s < snd s"
      using step [of "sortRanges ?rs"] sortRanges_props [of ?rs] f unfolding Cons by blast+
    from mergeRanges_props [OF this] show ?thesis
      using Cons f(1) sortRanges_props(1) [of ?rs] by (simp add: simplifyRanges_def)
  qed
qed

section \<open>Ids of one datatype\<close>

definition typeRank :: "Datatype \<Rightarrow> nat" where
  "typeRank t = (if isString t then 4 else unat (datatype_code t))"

lemma isString_simps [simp]:
  "isString VocabIndex" "isString LocalVocabIndex" "\<not> isString Undefined" "\<not> isString Bool" "\<not> isString Int_T"
  "\<not> isString Double" "\<not> isString TextRecordIndex" "\<not> isString Date" "\<not> isString GeoPoint"
  "\<not> isString WordVocabIndex" "\<not> isString BlankNodeIndex"
  by (simp_all add: isString_def stringTypes_def)

lemma typeLess_rank: "typeLess (Some x) (Some y) \<longleftrightarrow> typeRank x < typeRank y"
  by (cases x; cases y; simp add: typeLess_def typeRank_def less_Datatype_def)

lemma typeRank_eq: "typeRank x = typeRank y \<longleftrightarrow> x = y \<or> (isString x \<and> isString y)"
  by (cases x; cases y; simp add: typeRank_def)

lemma id_key_rank:
  assumes "getDatatype a = Some x" "getDatatype b = Some y" "id_key lv vocab a \<le> id_key lv vocab b"
  shows "typeRank x \<le> typeRank y"
proof -
  have rank: "typeRank t = unat (drop_bit 60 v)" if "getDatatype v = Some t" "\<not> isString t" for v :: ValueId and t
    using that by (simp add: typeRank_def getDatatype_Some)
  have str: "(\<exists>w. id_key lv vocab v = StringKey w) \<and> typeRank t = 4" if "getDatatype v = Some t" "isString t" for v :: ValueId and t
    using that by (cases t) (auto simp: id_key_def typeRank_def)
  have oth: "id_key lv vocab v = BelowStrings v \<and> drop_bit 60 v < 4 \<or> id_key lv vocab v = AboveStrings v \<and> 5 < drop_bit 60 v"
    if "getDatatype v = Some t" "\<not> isString t" for v :: ValueId and t
    using that by (intro id_key_non_string_cases) auto
  have small: "unat (drop_bit 60 v) < 4" if "drop_bit 60 v < (4 :: u64)" for v :: ValueId
    using that by (simp add: word_less_nat_alt)
  have large: "5 < unat (drop_bit 60 v)" if "5 < (drop_bit 60 v :: u64)" for v :: ValueId
    using that by (simp add: word_less_nat_alt)
  show ?thesis
  proof (cases "isString x"; cases "isString y")
    assume "isString x" "isString y"
    then show ?thesis by (simp add: typeRank_def)
  next
    assume "isString x" "\<not> isString y"
    then show ?thesis using str [OF assms(1)] oth [OF assms(2)] rank [OF assms(2)] assms(3) large [of b] by auto
  next
    assume "\<not> isString x" "isString y"
    then show ?thesis using str [OF assms(2)] oth [OF assms(1)] rank [OF assms(1)] assms(3) small [of a] by auto
  next
    assume ns: "\<not> isString x" "\<not> isString y"
    have "unat (drop_bit 60 a) \<le> unat (drop_bit 60 b)" if "a \<le> b"
      using drop_60_mono [OF that] by (rule word_le_nat_alt [THEN iffD1])
    then have "unat (drop_bit 60 a) \<le> unat (drop_bit 60 b)"
      using ns oth [OF assms(1)] oth [OF assms(2)] assms(3) small [of a] large [of b] by auto
    then show ?thesis using rank [OF assms(1)] rank [OF assms(2)] ns by simp
  qed
qed

text \<open>A list of ids as the functions expect it: sorted by the order of ids.\<close>

definition idsOk :: "('w::linorder) local_vocab \<Rightarrow> 'w list \<Rightarrow> u64 list \<Rightarrow> ValueId list \<Rightarrow> bool" where
  "idsOk lv vocab live ids \<longleftrightarrow> vocab_coherent lv vocab live \<and>
     (\<forall>v\<in>set ids. valid_id vocab live v \<and> getDatatype v \<noteq> None) \<and> sorted (map (id_key lv vocab) ids)"

definition typeOf :: "ValueId \<Rightarrow> Datatype" where
  "typeOf v = the (getDatatype v)"

lemma idsOk_nth:
  assumes "idsOk lv vocab live ids" "i < length ids"
  shows "getDatatype (ids ! i) = Some (typeOf (ids ! i))" "valid_id vocab live (ids ! i)"
  using assms by (auto simp: idsOk_def typeOf_def)

lemma idsOk_mono:
  assumes "idsOk lv vocab live ids" "i \<le> j" "j < length ids"
  shows "id_key lv vocab (ids ! i) \<le> id_key lv vocab (ids ! j)"
  using assms by (auto simp: idsOk_def sorted_iff_nth_mono)

lemma getRangeForDatatype_spec:
  assumes ok: "idsOk lv vocab live ids" and be: "b \<le> e" "e \<le> length ids"
    and r: "getRangeForDatatype ids b e t = (b', e')"
  shows "b \<le> b'" "b' \<le> e'" "e' \<le> e" "{b'..<e'} = {i \<in> {b..<e}. typeRank (typeOf (ids ! i)) = typeRank t}"
proof -
  let ?k = "\<lambda>i. typeRank (typeOf (ids ! i))"
  have mono: "?k i \<le> ?k j" if "b \<le> i" "i \<le> j" "j < e" for i j
    using that be id_key_rank [OF idsOk_nth(1) [OF ok, of i] idsOk_nth(1) [OF ok, of j] idsOk_mono [OF ok]] by simp
  have "b' = lowerBound (\<lambda>i. ?k i < typeRank t) b e" "e' = lowerBound (\<lambda>i. \<not> typeRank t < ?k i) b e"
    using r be idsOk_nth(1) [OF ok] by (auto simp: getRangeForDatatype_def typeLess_rank intro!: lowerBound_cong)
  with segment_increasing [of b e ?k "typeRank t", OF be(1) mono]
  show "b \<le> b'" "b' \<le> e'" "e' \<le> e" "{b'..<e'} = {i \<in> {b..<e}. ?k i = typeRank t}" by simp_all
qed


section \<open>Index types\<close>

lemma cmp3_iff:
  "cmp3 c r \<longleftrightarrow> (r = Less \<and> c \<in> {LT, LE, NE}) \<or> (r = Equal \<and> c \<in> {LE, EQ, GE}) \<or> (r = Greater \<and> c \<in> {GE, GT, NE})"
  by (cases c; cases r; simp)

lemma cmp_iff:
  "cmp c a b \<longleftrightarrow> (a < b \<and> c \<in> {LT, LE, NE}) \<or> (a = b \<and> c \<in> {LE, EQ, GE}) \<or> (b < a \<and> c \<in> {GE, GT, NE})"
  unfolding cmp_def cmp3_iff three_way_iff ..

lemma covers_adds:
  assumes "covers r S" "b \<le> e" "S \<inter> {b..<e} = {}"
  shows "covers (addEqual c b e r) (S \<union> {i \<in> {b..<e}. c \<in> {LE, EQ, GE}})"
    "covers (addSmaller c b e r) (S \<union> {i \<in> {b..<e}. c \<in> {LT, LE, NE}})"
    "covers (addGreater c b e r) (S \<union> {i \<in> {b..<e}. c \<in> {GE, GT, NE}})"
    "covers (addNotEqual c b e r) (S \<union> {i \<in> {b..<e}. c = NE})"
  using covers_addImpl [OF assms, of "[LE, EQ, GE]" c] covers_addImpl [OF assms, of "[LT, LE, NE]" c]
    covers_addImpl [OF assms, of "[GE, GT, NE]" c] covers_addImpl [OF assms, of "[NE]" c]
  by (simp_all add: addEqual_def addSmaller_def addGreater_def addNotEqual_def)

lemma covers_cong: "covers r S \<Longrightarrow> S = T \<Longrightarrow> covers r T"
  by simp

lemma three_parts:
  assumes "A = {i \<in> X. key i < v}" "B = {i \<in> X. key i = v}" "C = {i \<in> X. v < key i}"
  shows "{i \<in> A. c \<in> {LT, LE, NE}} \<union> {i \<in> B. c \<in> {LE, EQ, GE}} \<union> {i \<in> C. c \<in> {GE, GT, NE}} = {i \<in> X. cmp c (key i) v}"
  unfolding assms cmp_iff by blast

lemma getRangesForIndexTypes_covers:
  assumes ok: "idsOk lv vocab live ids" and be: "b \<le> e" "e \<le> length ids" and v: "valid_id vocab live v"
  shows "covers (getRangesForIndexTypes lv ids b e t v c)
    {i \<in> {b..<e}. typeRank (typeOf (ids ! i)) = typeRank t \<and> cmp3 c (compareValueId lv (ids ! i) v)}"
proof -
  obtain b' e' where r: "getRangeForDatatype ids b e t = (b', e')" by (rule prod.exhaust)
  note seg = getRangeForDatatype_spec [OF ok be r]
  let ?key = "\<lambda>i. id_key lv vocab (ids ! i)" and ?v = "id_key lv vocab v"
  have coh: "vocab_coherent lv vocab live" using ok by (simp add: idsOk_def)
  have compare: "compareValueId lv (ids ! i) v = three_way (?key i) ?v" "compareValueId lv v (ids ! i) = three_way ?v (?key i)"
    if "i < length ids" for i using compare_id_key [OF coh] idsOk_nth(2) [OF ok that] v by simp_all
  have mono: "?key i \<le> ?key j" if "b' \<le> i" "i \<le> j" "j < e'" for i j
    using that seg(3) be(2) by (intro idsOk_mono [OF ok]) simp_all
  let ?lo = "lowerBound (\<lambda>i. ?key i < ?v) b' e'" and ?hi = "lowerBound (\<lambda>i. \<not> ?v < ?key i) b' e'"
  note parts = segment_increasing [of b' e' ?key ?v, OF seg(2) mono]
  have "lowerBound (\<lambda>i. compareByBits lv (ids ! i) v) b' e' = ?lo" "lowerBound (\<lambda>i. \<not> compareByBits lv v (ids ! i)) b' e' = ?hi"
    using seg(3) be(2) compare by (auto simp: compareByBits_def intro!: lowerBound_cong)
  then have run: "getRangesForIndexTypes lv ids b e t v c =
      addGreater c ?hi e' (addEqual c ?lo ?hi (addSmaller c b' ?lo []))"
    by (simp add: getRangesForIndexTypes_def r Let_def)
  have "covers (addSmaller c b' ?lo []) {i \<in> {b'..<?lo}. c \<in> {LT, LE, NE}}"
    using covers_adds(2) [of "[]" "{}" b' ?lo c] parts(1) by simp
  then have "covers (addEqual c ?lo ?hi (addSmaller c b' ?lo []))
      ({i \<in> {b'..<?lo}. c \<in> {LT, LE, NE}} \<union> {i \<in> {?lo..<?hi}. c \<in> {LE, EQ, GE}})"
    by (rule covers_adds(1) [OF _ parts(2)]) auto
  then have "covers (getRangesForIndexTypes lv ids b e t v c)
      ({i \<in> {b'..<?lo}. c \<in> {LT, LE, NE}} \<union> {i \<in> {?lo..<?hi}. c \<in> {LE, EQ, GE}} \<union> {i \<in> {?hi..<e'}. c \<in> {GE, GT, NE}})"
    unfolding run by (rule covers_adds(3) [OF _ parts(3)]) (use parts(2) in auto)
  then show ?thesis
  proof (rule covers_cong)
    have "cmp3 c (compareValueId lv (ids ! i) v) \<longleftrightarrow> cmp c (?key i) ?v" if "i \<in> {b..<e}" for i
      using that be(2) compare by (simp add: cmp_def)
    then have "{i \<in> {b..<e}. typeRank (typeOf (ids ! i)) = typeRank t \<and> cmp3 c (compareValueId lv (ids ! i) v)} =
        {i \<in> {b'..<e'}. cmp c (?key i) ?v}" unfolding seg(4) by blast
    then show "{i \<in> {b'..<?lo}. c \<in> {LT, LE, NE}} \<union> {i \<in> {?lo..<?hi}. c \<in> {LE, EQ, GE}} \<union> {i \<in> {?hi..<e'}. c \<in> {GE, GT, NE}} =
        {i \<in> {b..<e}. typeRank (typeOf (ids ! i)) = typeRank t \<and> cmp3 c (compareValueId lv (ids ! i) v)}"
      using three_parts [OF parts(4-6), of c] by (simp only:)
  qed
qed

section \<open>Numbers\<close>

lemma roundQuotient_bounds: "n div 2 ^ k \<le> roundQuotient k n" "roundQuotient k n \<le> n div 2 ^ k + 1"
  by (simp_all add: roundQuotient_def Let_def)

lemma roundQuotient_mono:
  assumes "n \<le> m"
  shows "roundQuotient k n \<le> roundQuotient k m"
proof (cases "n div 2 ^ k = m div 2 ^ k")
  case True
  then have "n mod 2 ^ k \<le> m mod 2 ^ k" using assms
    by (metis add_le_cancel_left div_mult_mod_eq)
  then show ?thesis using True by (auto simp: roundQuotient_def Let_def)
next
  case False
  then have "n div 2 ^ k < m div 2 ^ k" using div_le_mono [OF assms, of "2 ^ k"] by simp
  then show ?thesis using roundQuotient_bounds [where k = k and n = n] roundQuotient_bounds(1) [of m k] by simp
qed

lemma floorlog_pos:
  assumes "0 < n"
  shows "2 ^ (floorlog 2 n - 1) \<le> n" "n < 2 ^ floorlog 2 n" "0 < floorlog 2 n"
proof -
  show *: "2 ^ (floorlog 2 n - 1) \<le> n" "n < 2 ^ floorlog 2 n" using floorlog_bounds [of n 2] assms by simp_all
  show "0 < floorlog 2 n" using *(2) assms by (cases "floorlog 2 n") simp_all
qed

text \<open>The significand lies between \<open>2 ^ 52\<close> and \<open>2 ^ 53\<close>.\<close>

definition significand :: "nat \<Rightarrow> nat" where
  "significand n = (let l = floorlog 2 n in if l \<le> 53 then n * 2 ^ (53 - l) else roundQuotient (l - 53) n)"

lemma natKey_eq: "0 < n \<Longrightarrow> natKey n = (floorlog 2 n + 1021) * 2 ^ 52 + significand n"
  by (simp add: natKey_def significand_def Let_def)

lemma significand_bounds:
  assumes "0 < n"
  shows "2 ^ 52 \<le> significand n" "significand n \<le> 2 ^ 53"
proof -
  let ?l = "floorlog 2 n"
  note l = floorlog_pos [OF assms]
  have "2 ^ 52 \<le> significand n \<and> significand n \<le> 2 ^ 53"
  proof (cases "?l \<le> 53")
    case True
    have "2 ^ (?l - 1) * 2 ^ (53 - ?l) = (2 :: nat) ^ 52" "2 ^ ?l * 2 ^ (53 - ?l) = (2 :: nat) ^ 53"
      using True l(3) by (simp_all flip: power_add)
    moreover have "2 ^ (?l - 1) * 2 ^ (53 - ?l) \<le> n * 2 ^ (53 - ?l)" "n * 2 ^ (53 - ?l) \<le> 2 ^ ?l * 2 ^ (53 - ?l)"
      using l by (auto intro: mult_right_mono)
    ultimately show ?thesis using True by (simp add: significand_def Let_def)
  next
    case False
    then have "?l - 1 = 52 + (?l - 53)" "?l = 53 + (?l - 53)" by simp_all
    then have e: "2 ^ (?l - 1) = 2 ^ 52 * (2 :: nat) ^ (?l - 53)" "2 ^ ?l = 2 ^ 53 * (2 :: nat) ^ (?l - 53)"
      by (metis power_add)+
    have "2 ^ 52 \<le> n div 2 ^ (?l - 53)" using l(1) e(1) by (simp add: less_eq_div_iff_mult_less_eq)
    moreover have "n div 2 ^ (?l - 53) < 2 ^ 53" using l(2) e(2) by (simp add: less_mult_imp_div_less)
    ultimately show ?thesis
      using False roundQuotient_bounds [where k = "?l - 53" and n = n] by (simp add: significand_def Let_def)
  qed
  then show "2 ^ 52 \<le> significand n" "significand n \<le> 2 ^ 53" by simp_all
qed

lemma natKey_mono:
  assumes "n \<le> m"
  shows "natKey n \<le> natKey m"
proof (cases "n = 0")
  case False
  then have pos: "0 < n" "0 < m" using assms by auto
  have le: "floorlog 2 n \<le> floorlog 2 m" using assms by (rule floorlog_mono)
  show ?thesis
  proof (cases "floorlog 2 n = floorlog 2 m")
    case True
    then have "significand n \<le> significand m"
      using assms roundQuotient_mono by (simp add: significand_def Let_def mult_right_mono)
    then show ?thesis using True natKey_eq pos by simp
  next
    case False
    then have "floorlog 2 n + 1 \<le> floorlog 2 m" using le by simp
    then have "(floorlog 2 n + 1 + 1021) * 2 ^ 52 \<le> (floorlog 2 m + 1021) * 2 ^ 52" by (intro mult_right_mono) simp_all
    then show ?thesis using significand_bounds [OF pos(1)] significand_bounds [OF pos(2)] natKey_eq pos by simp
  qed
qed (simp add: natKey_def)

lemma natKey_pos: "0 < n \<Longrightarrow> 0 < natKey n"
  using natKey_eq [of n] significand_bounds(1) [of n] by simp

lemma intKey_mono: "i \<le> j \<Longrightarrow> intKey i \<le> intKey j"
  using natKey_mono [of "nat i" "nat j"] natKey_mono [of "nat (- j)" "nat (- i)"] by (auto simp: intKey_def)

lemma intKey_sign: "0 < intKey i \<longleftrightarrow> 0 < i" "intKey i < 0 \<longleftrightarrow> i < 0" "intKey i = 0 \<longleftrightarrow> i = 0"
  using natKey_pos [of "nat i"] natKey_pos [of "nat (- i)"]
  by (auto simp: intKey_def natKey_def [of 0] intro: ccontr)

lemma cmpNumeric_zero:
  assumes "\<not> numericNan v"
  shows "cmpNumeric c v (NInt 0) \<longleftrightarrow> cmp c (numericKey v) 0"
  using assms intKey_sign by (cases v) (auto simp: cmp_iff intKey_def natKey_def)

text \<open>The keys by which the ids of numbers and a value are compared.\<close>

lemma doubleCmp_key:
  assumes "\<not> numericNan v" "\<not> isnan (getDouble a)"
  shows "doubleCmp c a v \<longleftrightarrow> cmp c (doubleKey (getDouble a)) (numericKey v)"
  using assms by (cases v) (simp_all add: doubleCmp_def)

fun intSide :: "numeric \<Rightarrow> int \<Rightarrow> int" where
  "intSide (NInt j) i = i"
| "intSide (NDouble d) i = intKey i"

fun valueSide :: "numeric \<Rightarrow> int" where
  "valueSide (NInt j) = j"
| "valueSide (NDouble d) = doubleKey d"

lemma intCmp_key:
  assumes "\<not> numericNan v"
  shows "intCmp c a v \<longleftrightarrow> cmp c (intSide v (sint (getInt a))) (valueSide v)"
  using assms by (cases v) (simp_all add: intCmp_def)

lemma intSide_mono: "i \<le> j \<Longrightarrow> intSide v i \<le> intSide v j"
  by (cases v) (simp_all add: intKey_mono)

lemma intSide_sign: "0 < intSide v i \<longleftrightarrow> 0 < i" "intSide v i < 0 \<longleftrightarrow> i < 0" "0 \<le> intSide v i \<longleftrightarrow> 0 \<le> i"
  using intKey_sign [of i] by (cases v; auto simp: not_less [symmetric])+

lemma valueSide_zero:
  assumes "\<not> numericNan v"
  shows "cmpNumeric c v (NInt 0) \<longleftrightarrow> cmp c (valueSide v) 0"
  using assms by (cases v) (simp_all add: intKey_def natKey_def)

lemma bit63_uint: "bit (d :: u64) 63 \<longleftrightarrow> 2 ^ 63 \<le> uint d"
proof -
  have lt: "uint d < 2 ^ 64" using uint_lt2p [of d] by simp
  have "bit d 63 \<longleftrightarrow> bit (uint d) 63" by (simp add: bit_uint_iff)
  then have "bit d 63 \<longleftrightarrow> odd (uint d div 2 ^ 63)" by (simp only: bit_iff_odd)
  moreover have "uint d div 2 ^ 63 = (if 2 ^ 63 \<le> uint d then 1 else 0)"
  proof (cases "2 ^ 63 \<le> uint d")
    case True
    then show ?thesis using lt by (simp add: div_pos_geq)
  qed simp
  ultimately show ?thesis by simp
qed

lemma mod_once:
  fixes k m :: int
  assumes "0 \<le> k" "k < 2 * m"
  shows "k mod m = (if m \<le> k then k - m else k)"
proof (cases "m \<le> k")
  case True
  then have "k mod m = (k - m) mod m" using assms by (intro mod_pos_geq) simp_all
  also have "\<dots> = k - m" using True assms by (intro mod_pos_pos_trivial) simp_all
  finally show ?thesis using True by simp
qed (use assms in \<open>simp add: mod_pos_pos_trivial\<close>)

lemma take63_uint: "uint (take_bit 63 (d :: u64)) = (if 2 ^ 63 \<le> uint d then uint d - 2 ^ 63 else uint d)"
proof -
  have lt: "uint d < 2 ^ 64" "0 \<le> uint d" using uint_lt2p [of d] by simp_all
  have "uint (take_bit 63 d) = uint d mod 2 ^ 63" unfolding unsigned_take_bit_eq by (simp only: take_bit_eq_mod)
  also have "\<dots> = (if 2 ^ 63 \<le> uint d then uint d - 2 ^ 63 else uint d)"
    by (rule mod_once) (use lt in simp_all)
  finally show ?thesis .
qed

lemma double_facts:
  "doubleNegative d \<longleftrightarrow> 2 ^ 63 \<le> uint d"
  "isnan d \<longleftrightarrow> (if 2 ^ 63 \<le> uint d then 0xFFF0000000000000 < uint d else 0x7FF0000000000000 < uint d)"
  "doubleKey d = (if 2 ^ 63 \<le> uint d then 2 ^ 63 - uint d else uint d)"
  using take63_uint [of d] by (auto simp: doubleNegative_def bit63_uint isnan_def doubleKey_def word_less_def)

lemma uint_getDouble: "uint (getDouble v) = 16 * uint (take_bit 60 v)"
proof -
  have "uint (getDouble v) = (uint v * 16) mod 2 ^ 64"
    unfolding getDouble_def unsigned_push_bit_eq by (simp add: push_bit_eq_mult take_bit_eq_mod)
  also have "\<dots> = 16 * (uint v mod 2 ^ 60)" using mod_mult_mult2 [of "uint v" 16 "2 ^ 60"] by (simp add: mult.commute)
  also have "uint v mod 2 ^ 60 = uint (take_bit 60 v)" unfolding unsigned_take_bit_eq by (simp only: take_bit_eq_mod)
  finally show ?thesis .
qed

lemma sint_getInt:
  "sint (getInt v) = (if uint (take_bit 60 v) < 2 ^ 59 then uint (take_bit 60 v) else uint (take_bit 60 v) - 2 ^ 60)"
proof -
  define t where "t = uint v mod 2 ^ 60"
  have t: "0 \<le> t" "t < 2 ^ 60" by (simp_all add: t_def)
  have "sint (getInt v) = signed_take_bit 59 (sint v)"
    by (simp add: getInt_def fromNBit_eq sint_signed_take_bit)
  also have "\<dots> = take_bit 60 (sint v + 2 ^ 59) - 2 ^ 59" by (simp add: signed_take_bit_eq_take_bit_shift)
  also have "take_bit 60 (sint v + 2 ^ 59) = (t + 2 ^ 59) mod 2 ^ 60"
  proof -
    have "sint v mod 2 ^ 60 = uint v mod 2 ^ 60"
    proof -
      have "uint v = sint v mod 2 ^ 64" by (simp add: uint_sint take_bit_eq_mod)
      moreover have "(2 :: int) ^ 60 dvd 2 ^ 64" by (rule le_imp_power_dvd) simp
      ultimately show ?thesis by (simp only: mod_mod_cancel)
    qed
    then show ?thesis unfolding t_def take_bit_eq_mod by (metis mod_add_left_eq)
  qed
  finally have "sint (getInt v) = (t + 2 ^ 59) mod 2 ^ 60 - 2 ^ 59" .
  moreover have "(t + 2 ^ 59) mod 2 ^ 60 = (if t < 2 ^ 59 then t + 2 ^ 59 else t - 2 ^ 59)"
    using mod_once [of "t + 2 ^ 59" "2 ^ 60"] t by auto
  moreover have "uint (take_bit 60 v) = t" unfolding t_def unsigned_take_bit_eq by (simp only: take_bit_eq_mod)
  ultimately show ?thesis by auto
qed

text \<open>The data bits of ids of one datatype are in the order of the ids.\<close>

lemma data_mono:
  assumes ok: "idsOk lv vocab live ids" and ij: "i \<le> j" "j < length ids"
    and t: "typeOf (ids ! i) = t" "typeOf (ids ! j) = t" "\<not> isString t"
  shows "uint (take_bit 60 (ids ! i)) \<le> uint (take_bit 60 (ids ! j))"
proof -
  have types: "getDatatype (ids ! i) = Some t" "getDatatype (ids ! j) = Some t"
    using idsOk_nth(1) [OF ok] ij t by fastforce+
  have same: "drop_bit 60 (ids ! i) = drop_bit 60 (ids ! j)" using types by (simp add: getDatatype_Some)
  have "id_key lv vocab (ids ! i) \<le> id_key lv vocab (ids ! j)" by (rule idsOk_mono [OF ok ij])
  moreover have ns: "getDatatype (ids ! k) \<noteq> Some VocabIndex" "getDatatype (ids ! k) \<noteq> Some LocalVocabIndex" if "k \<in> {i, j}" for k
    using types that t(3) by auto
  ultimately have "ids ! i \<le> ids ! j"
    using id_key_non_string(1) [OF ns(1) ns(2), of i lv vocab] id_key_non_string(1) [OF ns(1) ns(2), of j lv vocab] same
    by (auto split: if_splits)
  then have "\<not> ids ! j < ids ! i" by simp
  then have "\<not> take_bit 60 (ids ! j) < take_bit 60 (ids ! i)"
    using less_same_type [OF same [symmetric]] by blast
  then show ?thesis by (simp add: word_less_def)
qed

section \<open>Ranges of doubles\<close>

text \<open>The segment of the doubles has three parts: the numbers without a sign in ascending order, the NaNs
  without a sign, and the numbers with a sign in descending order, if there are no NaNs with a sign.\<close>

definition doublePart :: "ValueId list \<Rightarrow> nat \<Rightarrow> int" where
  "doublePart ids i = doubleKey (getDouble (ids ! i))"

lemma double_parts:
  assumes ok: "idsOk lv vocab live ids" and be: "b \<le> e" "e \<le> length ids"
    and dbl: "\<forall>i\<in>{b..<e}. typeOf (ids ! i) = Double"
    and noNeg: "\<forall>i\<in>{b..<e}. isnan (getDouble (ids ! i)) \<longrightarrow> \<not> doubleIdIsNegative (ids ! i)"
  defines "nans \<equiv> lowerBound (\<lambda>i. \<not> doubleIdIsNegative (ids ! i) \<and> \<not> isnan (getDouble (ids ! i))) b e"
    and "negs \<equiv> lowerBound (\<lambda>i. \<not> doubleIdIsNegative (ids ! i)) b e"
  shows "b \<le> nans" "nans \<le> negs" "negs \<le> e"
    and "\<And>i. i \<in> {b..<nans} \<Longrightarrow> \<not> isnan (getDouble (ids ! i)) \<and> 0 \<le> doublePart ids i"
    and "\<And>i. i \<in> {nans..<negs} \<Longrightarrow> isnan (getDouble (ids ! i))"
    and "\<And>i. i \<in> {negs..<e} \<Longrightarrow> \<not> isnan (getDouble (ids ! i)) \<and> doublePart ids i \<le> 0"
    and "\<forall>i j. b \<le> i \<longrightarrow> i \<le> j \<longrightarrow> j < nans \<longrightarrow> doublePart ids i \<le> doublePart ids j"
    and "\<forall>i j. negs \<le> i \<longrightarrow> i \<le> j \<longrightarrow> j < e \<longrightarrow> doublePart ids j \<le> doublePart ids i"
proof -
  let ?D = "\<lambda>i. uint (getDouble (ids ! i))"
  have D: "?D i \<le> ?D j" if "b \<le> i" "i \<le> j" "j < e" for i j
    using data_mono [OF ok, of i j Double] dbl that be by (simp add: uint_getDouble)
  have neg: "doubleIdIsNegative (ids ! i) \<longleftrightarrow> 2 ^ 63 \<le> ?D i" for i
    by (simp add: doubleIdIsNegative_def double_facts)
  have plain: "\<not> doubleIdIsNegative (ids ! i) \<and> \<not> isnan (getDouble (ids ! i)) \<longleftrightarrow> ?D i \<le> 0x7FF0000000000000" for i
    unfolding neg double_facts by auto
  have "?D i \<le> 0x7FF0000000000000" if "b \<le> i" "i \<le> j" "j < e" "?D j \<le> 0x7FF0000000000000" for i j
    using D [OF that(1-3)] that(4) by simp
  then have n: "b \<le> nans" "nans \<le> e" "\<And>i. b \<le> i \<Longrightarrow> i < e \<Longrightarrow> i < nans \<longleftrightarrow> ?D i \<le> 0x7FF0000000000000"
    unfolding nans_def plain using lowerBound_spec [of b e "\<lambda>i. ?D i \<le> 0x7FF0000000000000"] be(1) by blast+
  have "\<not> 2 ^ 63 \<le> ?D i" if "b \<le> i" "i \<le> j" "j < e" "\<not> 2 ^ 63 \<le> ?D j" for i j
    using D [OF that(1-3)] that(4) by simp
  then have m: "b \<le> negs" "negs \<le> e" "\<And>i. b \<le> i \<Longrightarrow> i < e \<Longrightarrow> i < negs \<longleftrightarrow> \<not> 2 ^ 63 \<le> ?D i"
    unfolding negs_def neg using lowerBound_spec [of b e "\<lambda>i. \<not> 2 ^ 63 \<le> ?D i"] be(1) by blast+
  show "b \<le> nans" "negs \<le> e" using n m by simp_all
  show nm: "nans \<le> negs"
  proof (rule ccontr)
    assume "\<not> nans \<le> negs"
    then have "negs < nans" "negs < e" using n(2) by simp_all
    then show False using n(3) [of negs] m(1) m(3) [of negs] by simp
  qed
  show "\<not> isnan (getDouble (ids ! i)) \<and> 0 \<le> doublePart ids i" if "i \<in> {b..<nans}" for i
    using that n(2) n(3) [of i] by (simp add: doublePart_def double_facts)
  show "isnan (getDouble (ids ! i))" if "i \<in> {nans..<negs}" for i
    using that n(1) n(3) [of i] m(2) m(3) [of i] by (simp add: double_facts)
  have high: "2 ^ 63 \<le> ?D i" if "negs \<le> i" "i < e" for i using that m(1) m(3) [of i] by simp
  show "\<not> isnan (getDouble (ids ! i)) \<and> doublePart ids i \<le> 0" if "i \<in> {negs..<e}" for i
  proof -
    have "2 ^ 63 \<le> ?D i" "i \<in> {b..<e}" using that high m(1) by simp_all
    then show ?thesis using noNeg neg [of i] by (auto simp: doublePart_def double_facts(3))
  qed
  have "doublePart ids i \<le> doublePart ids j" if "b \<le> i" "i \<le> j" "j < nans" for i j
    using D [of i j] that n(2) n(3) [of i] n(3) [of j] by (simp add: doublePart_def double_facts(3))
  then show "\<forall>i j. b \<le> i \<longrightarrow> i \<le> j \<longrightarrow> j < nans \<longrightarrow> doublePart ids i \<le> doublePart ids j" by blast
  have "doublePart ids j \<le> doublePart ids i" if "negs \<le> i" "i \<le> j" "j < e" for i j
    using D [of i j] that m(1) high [of i] high [of j] by (simp add: doublePart_def double_facts(3))
  then show "\<forall>i j. negs \<le> i \<longrightarrow> i \<le> j \<longrightarrow> j < e \<longrightarrow> doublePart ids j \<le> doublePart ids i" by blast
qed

lemma segment_increasing_all:
  fixes key :: "nat \<Rightarrow> 'a::linorder"
  assumes "b \<le> e" "\<forall>i j. b \<le> i \<longrightarrow> i \<le> j \<longrightarrow> j < e \<longrightarrow> key i \<le> key j"
  defines "lo v \<equiv> lowerBound (\<lambda>i. key i < v) b e" and "hi v \<equiv> lowerBound (\<lambda>i. \<not> v < key i) b e"
  shows "b \<le> lo v" "lo v \<le> hi v" "hi v \<le> e" "{b..<lo v} = {i \<in> {b..<e}. key i < v}"
    "{lo v..<hi v} = {i \<in> {b..<e}. key i = v}" "{hi v..<e} = {i \<in> {b..<e}. v < key i}"
  unfolding lo_def hi_def by (rule segment_increasing [OF assms(1)]; use assms(2) in blast)+

lemma segment_decreasing_all:
  fixes key :: "nat \<Rightarrow> int"
  assumes "b \<le> e" "\<forall>i j. b \<le> i \<longrightarrow> i \<le> j \<longrightarrow> j < e \<longrightarrow> key j \<le> key i"
  defines "lo v \<equiv> lowerBound (\<lambda>i. v < key i) b e" and "hi v \<equiv> lowerBound (\<lambda>i. \<not> key i < v) b e"
  shows "b \<le> lo v" "lo v \<le> hi v" "hi v \<le> e" "{b..<lo v} = {i \<in> {b..<e}. v < key i}"
    "{lo v..<hi v} = {i \<in> {b..<e}. key i = v}" "{hi v..<e} = {i \<in> {b..<e}. key i < v}"
  unfolding lo_def hi_def by (rule segment_decreasing [OF assms(1)]; use assms(2) in blast)+

lemma doubleCmp_nan: "isnan (getDouble a) \<Longrightarrow> doubleCmp c a v \<longleftrightarrow> c = NE"
  by (cases v) (simp_all add: doubleCmp_def)

lemma getRangesForDouble_covers:
  assumes ok: "idsOk lv vocab live ids" and be: "b \<le> e" "e \<le> length ids"
    and noNeg: "\<And>i. i \<in> {b..<e} \<Longrightarrow> typeOf (ids ! i) = Double \<Longrightarrow> isnan (getDouble (ids ! i)) \<Longrightarrow> \<not> doubleIdIsNegative (ids ! i)"
    and noNan: "\<And>i. i \<in> {b..<e} \<Longrightarrow> typeOf (ids ! i) = Double \<Longrightarrow> isnan (getDouble (ids ! i)) \<Longrightarrow> numericKey v \<noteq> 0"
  shows "\<exists>r. getRangesForDouble ids b e v c = Inr r \<and> covers r {i \<in> {b..<e}. typeOf (ids ! i) = Double \<and> doubleCmp c (ids ! i) v}"
proof -
  obtain b' e' where range: "getRangeForDatatype ids b e Double = (b', e')" by (rule prod.exhaust)
  note seg = getRangeForDatatype_spec [OF ok be range]
  have dbl: "{b'..<e'} = {i \<in> {b..<e}. typeOf (ids ! i) = Double}" unfolding seg(4) typeRank_eq by simp
  have target: "{i \<in> {b..<e}. typeOf (ids ! i) = Double \<and> doubleCmp c (ids ! i) v} = {i \<in> {b'..<e'}. doubleCmp c (ids ! i) v}"
    unfolding dbl by blast
  show ?thesis
  proof (cases "numericNan v")
    case True
    then have "doubleCmp c (ids ! i) v \<longleftrightarrow> c = NE" for i by (cases v) (simp_all add: doubleCmp_def)
    then show ?thesis unfolding target using True range seg(2) by (auto simp: getRangesForDouble_def covers_def)
  next
    case False
    define nans negs where "nans = lowerBound (\<lambda>i. \<not> doubleIdIsNegative (ids ! i) \<and> \<not> isnan (getDouble (ids ! i))) b' e'"
      and "negs = lowerBound (\<lambda>i. \<not> doubleIdIsNegative (ids ! i)) b' e'"
    have isDbl: "\<forall>i\<in>{b'..<e'}. typeOf (ids ! i) = Double" using dbl by blast
    have nn: "\<forall>i\<in>{b'..<e'}. isnan (getDouble (ids ! i)) \<longrightarrow> \<not> doubleIdIsNegative (ids ! i)" using dbl noNeg by blast
    have len: "e' \<le> length ids" using seg(3) be(2) by simp
    note parts = double_parts [OF ok seg(2) len isDbl nn, folded nans_def negs_def]
    let ?k = "doublePart ids" and ?v = "numericKey v"
    have key: "doubleCmp c' (ids ! i) w \<longleftrightarrow> cmp c' (?k i) (numericKey w)"
      if "i \<in> {b'..<nans} \<or> i \<in> {negs..<e'}" "\<not> numericNan w" for c' i w
      using that parts(4,6) doubleCmp_key by (auto simp: doublePart_def)
    have split: "{i \<in> {b'..<e'}. doubleCmp c (ids ! i) v} = {i \<in> {nans..<negs}. c = NE} \<union>
        {i \<in> {b'..<nans}. cmp c (?k i) ?v} \<union> {i \<in> {negs..<e'}. cmp c (?k i) ?v}"
    proof (rule set_eqI)
      fix i
      consider "i \<in> {b'..<nans}" "i \<notin> {nans..<negs}" "i \<notin> {negs..<e'}" "i \<in> {b'..<e'}"
        | "i \<in> {nans..<negs}" "i \<notin> {b'..<nans}" "i \<notin> {negs..<e'}" "i \<in> {b'..<e'}"
        | "i \<in> {negs..<e'}" "i \<notin> {b'..<nans}" "i \<notin> {nans..<negs}" "i \<in> {b'..<e'}"
        | "i \<notin> {b'..<e'}" "i \<notin> {b'..<nans}" "i \<notin> {nans..<negs}" "i \<notin> {negs..<e'}"
        using parts(1-3) by fastforce
      then show "i \<in> {i \<in> {b'..<e'}. doubleCmp c (ids ! i) v} \<longleftrightarrow> i \<in> {i \<in> {nans..<negs}. c = NE} \<union>
          {i \<in> {b'..<nans}. cmp c (?k i) ?v} \<union> {i \<in> {negs..<e'}. cmp c (?k i) ?v}"
        by cases (use key [OF _ False] parts(5) doubleCmp_nan in \<open>simp_all del: atLeastLessThan_iff\<close>)
    qed
    have nanPart: "covers (addNotEqual c nans negs []) {i \<in> {nans..<negs}. c = NE}"
      using covers_adds(4) [of "[]" "{}" nans negs c] parts(2) by simp
    have bound: "lowerBound (\<lambda>i. doubleCmp c' (ids ! i) w) x y = lowerBound (\<lambda>i. cmp c' (?k i) (numericKey w)) x y"
        "lowerBound (\<lambda>i. \<not> doubleCmp c' (ids ! i) w) x y = lowerBound (\<lambda>i. \<not> cmp c' (?k i) (numericKey w)) x y"
      if "{x..<y} \<subseteq> {b'..<nans} \<or> {x..<y} \<subseteq> {negs..<e'}" "\<not> numericNan w" for x y c' w
    proof -
      have "doubleCmp c' (ids ! i) w \<longleftrightarrow> cmp c' (?k i) (numericKey w)" if "x \<le> i" "i < y" for i
        using key [of i w c'] \<open>{x..<y} \<subseteq> {b'..<nans} \<or> {x..<y} \<subseteq> {negs..<e'}\<close> \<open>\<not> numericNan w\<close> that by (meson atLeastLessThan_iff subsetD)
      then show "lowerBound (\<lambda>i. doubleCmp c' (ids ! i) w) x y = lowerBound (\<lambda>i. cmp c' (?k i) (numericKey w)) x y"
        "lowerBound (\<lambda>i. \<not> doubleCmp c' (ids ! i) w) x y = lowerBound (\<lambda>i. \<not> cmp c' (?k i) (numericKey w)) x y"
        by (auto intro: lowerBound_cong)
    qed
    have cmpSimps: "cmp LT x y \<longleftrightarrow> x < y" "cmp GT x y \<longleftrightarrow> y < x" for x y :: int by (simp_all add: cmp_def)
    consider "0 < ?v" | "?v < 0" | "?v = 0" by linarith
    then show ?thesis
    proof cases
      case 1
      let ?lo = "lowerBound (\<lambda>i. ?k i < ?v) b' nans" and ?hi = "lowerBound (\<lambda>i. \<not> ?v < ?k i) b' nans"
      note three = segment_increasing_all [OF parts(1,7), of ?v]
      have run: "getRangesForDouble ids b e v c = Inr (addSmaller c negs e' (addGreater c ?hi nans
          (addEqual c ?lo ?hi (addSmaller c b' ?lo (addNotEqual c nans negs [])))))"
        using False 1 parts(2) bound [of b' nans v, OF _ False]
        by (simp add: getRangesForDouble_def range Let_def cmpNumeric_zero cmpSimps flip: nans_def negs_def)
      have "covers (addSmaller c negs e' (addGreater c ?hi nans (addEqual c ?lo ?hi (addSmaller c b' ?lo (addNotEqual c nans negs [])))))
         ({i \<in> {nans..<negs}. c = NE} \<union> {i \<in> {b'..<?lo}. c \<in> {LT, LE, NE}} \<union> {i \<in> {?lo..<?hi}. c \<in> {LE, EQ, GE}} \<union>
          {i \<in> {?hi..<nans}. c \<in> {GE, GT, NE}} \<union> {i \<in> {negs..<e'}. c \<in> {LT, LE, NE}})"
        by (intro covers_adds nanPart) (use three(1-3) parts(1-3) in auto)
      moreover have "cmp c (?k i) ?v \<longleftrightarrow> c \<in> {LT, LE, NE}" if "i \<in> {negs..<e'}" for i
        using parts(6) [OF that] 1 by (auto simp: cmp_iff)
      then have "{i \<in> {negs..<e'}. c \<in> {LT, LE, NE}} = {i \<in> {negs..<e'}. cmp c (?k i) ?v}" by blast
      ultimately show ?thesis unfolding target split run three_parts [OF three(4-6), symmetric]
        by (simp add: Un_assoc)
    next
      case 2
      let ?lo = "lowerBound (\<lambda>i. ?v < ?k i) negs e'" and ?hi = "lowerBound (\<lambda>i. \<not> ?k i < ?v) negs e'"
      note three = segment_decreasing_all [OF parts(3,8), of ?v]
      have run: "getRangesForDouble ids b e v c = Inr (addSmaller c ?hi e' (addEqual c ?lo ?hi
          (addGreater c negs ?lo (addGreater c b' nans (addNotEqual c nans negs [])))))"
        using False 2 parts(2) bound [of negs e' v, OF _ False]
        by (simp add: getRangesForDouble_def range Let_def cmpNumeric_zero cmpSimps flip: nans_def negs_def)
      have "covers (addSmaller c ?hi e' (addEqual c ?lo ?hi (addGreater c negs ?lo (addGreater c b' nans (addNotEqual c nans negs [])))))
         ({i \<in> {nans..<negs}. c = NE} \<union> {i \<in> {b'..<nans}. c \<in> {GE, GT, NE}} \<union> {i \<in> {negs..<?lo}. c \<in> {GE, GT, NE}} \<union>
          {i \<in> {?lo..<?hi}. c \<in> {LE, EQ, GE}} \<union> {i \<in> {?hi..<e'}. c \<in> {LT, LE, NE}})"
        by (intro covers_adds nanPart) (use three(1-3) parts(1-3) in auto)
      moreover have "cmp c (?k i) ?v \<longleftrightarrow> c \<in> {GE, GT, NE}" if "i \<in> {b'..<nans}" for i
        using parts(4) [OF that] 2 by (auto simp: cmp_iff)
      then have "{i \<in> {b'..<nans}. c \<in> {GE, GT, NE}} = {i \<in> {b'..<nans}. cmp c (?k i) ?v}" by blast
      ultimately show ?thesis unfolding target split run three_parts [OF three(6,5,4), symmetric]
        by (simp add: Un_assoc Un_commute Un_left_commute)
    next
      case 3
      have same: "negs = nans"
      proof (rule ccontr)
        assume "negs \<noteq> nans"
        then have "nans \<in> {nans..<negs}" "nans \<in> {b'..<e'}" using parts(1-3) by simp_all
        with parts(5) [of nans] noNan [of nans] 3 dbl show False by blast
      qed
      let ?pos = "lowerBound (\<lambda>i. \<not> 0 < ?k i) b' nans" and ?neg = "lowerBound (\<lambda>i. \<not> ?k i < 0) nans e'"
      note p = segment_increasing_all [OF parts(1,7), of 0] and n = segment_decreasing_all [OF parts(3,8), of 0, unfolded same]
      have zero: "numericKey (NDouble 0) = 0" "\<not> numericNan (NDouble 0)" by (simp_all add: doubleKey_def isnan_def)
      have run: "getRangesForDouble ids b e v c = Inr (addSmaller c ?neg e' (addEqual c nans ?neg
          (addGreater c ?pos nans (addEqual c b' ?pos (addNotEqual c nans nans [])))))"
        using False 3 parts(2) bound [of b' nans "NDouble 0", OF _ zero(2)] bound [of nans e' "NDouble 0", OF _ zero(2)] zero same
        by (simp add: getRangesForDouble_def range Let_def cmpNumeric_zero cmpSimps cmp_iff flip: nans_def negs_def)
      have cov: "covers (addSmaller c ?neg e' (addEqual c nans ?neg (addGreater c ?pos nans (addEqual c b' ?pos (addNotEqual c nans nans [])))))
         ({i \<in> {nans..<nans}. c = NE} \<union> {i \<in> {b'..<?pos}. c \<in> {LE, EQ, GE}} \<union> {i \<in> {?pos..<nans}. c \<in> {GE, GT, NE}} \<union>
          {i \<in> {nans..<?neg}. c \<in> {LE, EQ, GE}} \<union> {i \<in> {?neg..<e'}. c \<in> {LT, LE, NE}})"
        by (intro covers_adds nanPart [unfolded same]) (use p(1-3) n(1-3) parts(1-3) in auto)
      have P: "{i \<in> {b'..<?pos}. c \<in> {LE, EQ, GE}} \<union> {i \<in> {?pos..<nans}. c \<in> {GE, GT, NE}} = {i \<in> {b'..<nans}. cmp c (?k i) ?v}"
      proof -
        have "{b'..<lowerBound (\<lambda>i. ?k i < 0) b' nans} = {}" unfolding p(4) using parts(4) by fastforce
        then have "lowerBound (\<lambda>i. ?k i < 0) b' nans = b'" using p(1) by simp
        then show ?thesis using three_parts [OF p(4-6), of c] 3 by simp
      qed
      have M: "{i \<in> {nans..<?neg}. c \<in> {LE, EQ, GE}} \<union> {i \<in> {?neg..<e'}. c \<in> {LT, LE, NE}} = {i \<in> {nans..<e'}. cmp c (?k i) ?v}"
      proof -
        have "{nans..<lowerBound (\<lambda>i. 0 < ?k i) nans e'} = {}" unfolding n(4) using parts(6) same by fastforce
        then have "lowerBound (\<lambda>i. 0 < ?k i) nans e' = nans" using n(1) by simp
        then show ?thesis using three_parts [OF n(6,5,4), of c] 3 by (simp add: Un_commute)
      qed
      show ?thesis unfolding target split run same P [symmetric] M [symmetric]
        by (rule exI, rule conjI, rule refl, rule covers_cong [OF cov]) (simp only: Un_assoc)
    qed
  qed
qed

section \<open>Ranges of integers\<close>

definition intPart :: "numeric \<Rightarrow> ValueId list \<Rightarrow> nat \<Rightarrow> int" where
  "intPart v ids i = intSide v (sint (getInt (ids ! i)))"

text \<open>The segment of the integers has two ascending parts, first the numbers without a sign.\<close>

lemma int_parts:
  assumes ok: "idsOk lv vocab live ids" and be: "b \<le> e" "e \<le> length ids"
    and int: "\<forall>i\<in>{b..<e}. typeOf (ids ! i) = Int_T"
  defines "negs \<equiv> lowerBound (\<lambda>i. 0 \<le> sint (getInt (ids ! i))) b e"
  shows "b \<le> negs" "negs \<le> e"
    and "\<And>i. i \<in> {b..<negs} \<Longrightarrow> 0 \<le> intPart v ids i"
    and "\<And>i. i \<in> {negs..<e} \<Longrightarrow> intPart v ids i < 0"
    and "\<forall>i j. b \<le> i \<longrightarrow> i \<le> j \<longrightarrow> j < negs \<longrightarrow> intPart v ids i \<le> intPart v ids j"
    and "\<forall>i j. negs \<le> i \<longrightarrow> i \<le> j \<longrightarrow> j < e \<longrightarrow> intPart v ids i \<le> intPart v ids j"
proof -
  let ?D = "\<lambda>i. uint (take_bit 60 (ids ! i))"
  have D: "?D i \<le> ?D j" if "b \<le> i" "i \<le> j" "j < e" for i j
    using data_mono [OF ok, of i j Int_T] int that be by simp
  have pos: "0 \<le> sint (getInt (ids ! i)) \<longleftrightarrow> ?D i < 2 ^ 59" for i
  proof -
    have "uint (take_bit 60 (ids ! i)) < 2 ^ 60"
      using take_bit_int_less_exp [of 60 "uint (ids ! i)"] by (simp add: unsigned_take_bit_eq)
    then show ?thesis unfolding sint_getInt by auto
  qed
  have "?D i < 2 ^ 59" if "b \<le> i" "i \<le> j" "j < e" "?D j < 2 ^ 59" for i j using D [OF that(1-3)] that(4) by simp
  then have n: "b \<le> negs" "negs \<le> e" "\<And>i. b \<le> i \<Longrightarrow> i < e \<Longrightarrow> i < negs \<longleftrightarrow> ?D i < 2 ^ 59"
    unfolding negs_def pos using lowerBound_spec [of b e "\<lambda>i. ?D i < 2 ^ 59"] be(1) by blast+
  then show "b \<le> negs" "negs \<le> e" by simp_all
  show "0 \<le> intPart v ids i" if "i \<in> {b..<negs}" for i
    using that n(2) n(3) [of i] by (simp add: intPart_def intSide_sign pos)
  show "intPart v ids i < 0" if "i \<in> {negs..<e}" for i
    using that n(1) n(3) [of i] pos [of i] by (simp add: intPart_def intSide_sign)
  have "intPart v ids i \<le> intPart v ids j" if "b \<le> i" "i \<le> j" "j < negs" for i j
    using D [of i j] that n(2) n(3) [of i] n(3) [of j] unfolding intPart_def by (intro intSide_mono) (simp add: sint_getInt)
  then show "\<forall>i j. b \<le> i \<longrightarrow> i \<le> j \<longrightarrow> j < negs \<longrightarrow> intPart v ids i \<le> intPart v ids j" by blast
  have "intPart v ids i \<le> intPart v ids j" if "negs \<le> i" "i \<le> j" "j < e" for i j
    using D [of i j] that n(1) n(3) [of i] n(3) [of j] unfolding intPart_def by (intro intSide_mono) (simp add: sint_getInt)
  then show "\<forall>i j. negs \<le> i \<longrightarrow> i \<le> j \<longrightarrow> j < e \<longrightarrow> intPart v ids i \<le> intPart v ids j" by blast
qed

lemma getRangesForInt_covers:
  assumes ok: "idsOk lv vocab live ids" and be: "b \<le> e" "e \<le> length ids"
  shows "\<exists>r. getRangesForInt ids b e v c = Inr r \<and> covers r {i \<in> {b..<e}. typeOf (ids ! i) = Int_T \<and> intCmp c (ids ! i) v}"
proof -
  obtain b' e' where range: "getRangeForDatatype ids b e Int_T = (b', e')" by (rule prod.exhaust)
  note seg = getRangeForDatatype_spec [OF ok be range]
  have int: "{b'..<e'} = {i \<in> {b..<e}. typeOf (ids ! i) = Int_T}" unfolding seg(4) typeRank_eq by simp
  have target: "{i \<in> {b..<e}. typeOf (ids ! i) = Int_T \<and> intCmp c (ids ! i) v} = {i \<in> {b'..<e'}. intCmp c (ids ! i) v}"
    unfolding int by blast
  show ?thesis
  proof (cases "numericNan v")
    case True
    then have "intCmp c (ids ! i) v \<longleftrightarrow> c = NE" for i by (cases v) (simp_all add: intCmp_def)
    then show ?thesis unfolding target using True range seg(2) by (auto simp: getRangesForInt_def covers_def)
  next
    case False
    define negs where "negs = lowerBound (\<lambda>i. 0 \<le> sint (getInt (ids ! i))) b' e'"
    have len: "e' \<le> length ids" using seg(3) be(2) by simp
    have isInt: "\<forall>i\<in>{b'..<e'}. typeOf (ids ! i) = Int_T" using int by blast
    note parts = int_parts [OF ok seg(2) len isInt, folded negs_def]
    let ?k = "intPart v ids" and ?v = "valueSide v"
    have key: "intCmp c' (ids ! i) v \<longleftrightarrow> cmp c' (?k i) ?v" for c' i
      using intCmp_key [OF False] by (simp add: intPart_def)
    have cmpSimps: "cmp LT x y \<longleftrightarrow> x < y" "cmp GT x y \<longleftrightarrow> y < x" "cmp GE x y \<longleftrightarrow> y \<le> x" for x y :: int
      by (auto simp: cmp_def)
    have split: "{i \<in> {b'..<e'}. intCmp c (ids ! i) v} =
        {i \<in> {b'..<negs}. cmp c (?k i) ?v} \<union> {i \<in> {negs..<e'}. cmp c (?k i) ?v}"
      using parts(1,2) by (auto simp: key)
    show ?thesis
    proof (cases "0 \<le> ?v")
      case True
      let ?lo = "lowerBound (\<lambda>i. ?k i < ?v) b' negs" and ?hi = "lowerBound (\<lambda>i. \<not> ?v < ?k i) b' negs"
      note three = segment_increasing_all [OF parts(1) parts(5) [where v = v], of ?v]
      have run: "getRangesForInt ids b e v c = Inr (addSmaller c negs e' (addGreater c ?hi negs (addEqual c ?lo ?hi (addSmaller c b' ?lo []))))"
        using False True by (simp add: getRangesForInt_def range Let_def valueSide_zero key cmpSimps flip: negs_def)
      have cov: "covers (addSmaller c negs e' (addGreater c ?hi negs (addEqual c ?lo ?hi (addSmaller c b' ?lo []))))
         ({} \<union> {i \<in> {b'..<?lo}. c \<in> {LT, LE, NE}} \<union> {i \<in> {?lo..<?hi}. c \<in> {LE, EQ, GE}} \<union>
          {i \<in> {?hi..<negs}. c \<in> {GE, GT, NE}} \<union> {i \<in> {negs..<e'}. c \<in> {LT, LE, NE}})"
        by (intro covers_adds) (use three(1-3) parts(1-2) in auto)
      have "cmp c (?k i) ?v \<longleftrightarrow> c \<in> {LT, LE, NE}" if "i \<in> {negs..<e'}" for i
        using parts(4) [OF that, of v] True by (auto simp: cmp_iff)
      then have M: "{i \<in> {negs..<e'}. c \<in> {LT, LE, NE}} = {i \<in> {negs..<e'}. cmp c (?k i) ?v}" by blast
      show ?thesis unfolding target split run three_parts [OF three(4-6), symmetric] M [symmetric]
        by (rule exI, rule conjI, rule refl, rule covers_cong [OF cov]) (simp only: Un_assoc Un_empty_left)
    next
      case F: False
      let ?lo = "lowerBound (\<lambda>i. ?k i < ?v) negs e'" and ?hi = "lowerBound (\<lambda>i. \<not> ?v < ?k i) negs e'"
      note three = segment_increasing_all [OF parts(2) parts(6) [where v = v], of ?v]
      have run: "getRangesForInt ids b e v c = Inr (addGreater c ?hi e' (addEqual c ?lo ?hi (addSmaller c negs ?lo (addGreater c b' negs []))))"
        using False F by (simp add: getRangesForInt_def range Let_def valueSide_zero key cmpSimps flip: negs_def)
      have cov: "covers (addGreater c ?hi e' (addEqual c ?lo ?hi (addSmaller c negs ?lo (addGreater c b' negs []))))
         ({} \<union> {i \<in> {b'..<negs}. c \<in> {GE, GT, NE}} \<union> {i \<in> {negs..<?lo}. c \<in> {LT, LE, NE}} \<union>
          {i \<in> {?lo..<?hi}. c \<in> {LE, EQ, GE}} \<union> {i \<in> {?hi..<e'}. c \<in> {GE, GT, NE}})"
        by (intro covers_adds) (use three(1-3) parts(1-2) in auto)
      have "cmp c (?k i) ?v \<longleftrightarrow> c \<in> {GE, GT, NE}" if "i \<in> {b'..<negs}" for i
        using parts(3) [OF that, of v] F by (auto simp: cmp_iff)
      then have P: "{i \<in> {b'..<negs}. c \<in> {GE, GT, NE}} = {i \<in> {b'..<negs}. cmp c (?k i) ?v}" by blast
      show ?thesis unfolding target split run three_parts [OF three(4-6), symmetric] P [symmetric]
        by (rule exI, rule conjI, rule refl, rule covers_cong [OF cov]) (simp only: Un_assoc Un_empty_left)
    qed
  qed
qed

section \<open>The ranges are those of the comparison\<close>

lemma covers_append:
  "covers r S \<Longrightarrow> covers r' S' \<Longrightarrow> S \<inter> S' = {} \<Longrightarrow> covers (r @ r') (S \<union> S')"
  by (auto simp: covers_def disjointRanges_append)

lemma fromBool_CTrue [simp]: "fromBool b = CTrue \<longleftrightarrow> b"
  by (simp add: fromBool_def)

definition valueOf :: "ValueId \<Rightarrow> numeric" where
  "valueOf v = (if getDatatype v = Some Double then NDouble (getDouble v) else NInt (sint (getInt v)))"

lemma compareIds_numeric:
  assumes "getDatatype v \<in> {Some Double, Some Int_T}" "getDatatype a = Some t"
  shows "compareIds lv AlwaysUndef a v c = Inr CTrue \<longleftrightarrow>
    (t = Double \<and> doubleCmp c a (valueOf v)) \<or> (t = Int_T \<and> intCmp c a (valueOf v))"
  using assms
  by (cases t) (auto simp: compareIds_def compareIdsImpl_def areTypesCompatible_def visit_def compareVisited_def
      numericOf_def valueOf_def doubleCmp_def intCmp_def)

lemma three_way_data:
  assumes "getDatatype a = Some t" "getDatatype v = Some t"
  shows "three_way (take_bit 60 a) (take_bit 60 v) = three_way a v"
proof -
  have d: "drop_bit 60 a = drop_bit 60 v" using assms by (simp add: getDatatype_Some)
  show ?thesis
    using less_same_type [OF d] less_same_type [OF d [symmetric]] word_eq_parts [OF d] by (auto simp: three_way_def)
qed

lemma compareIds_index:
  assumes "getDatatype v = Some t" "t \<notin> {Undefined, Bool, Int_T, Double}" "getDatatype a = Some s"
  shows "compareIds lv AlwaysUndef a v c = Inr CTrue \<longleftrightarrow> typeRank s = typeRank t \<and> cmp3 c (compareValueId lv a v)"
proof (cases "isString t")
  case True
  then show ?thesis
    using assms three_way_data [of a VocabIndex v]
    by (cases t; cases s)
      (auto simp: compareIds_def compareIdsImpl_def areTypesCompatible_def typeRank_def visit_def compareVisited_def numericOf_def
        cmp_def compareValueId_def getVocabIndex_def removeDatatypeBits_eq Let_def)
next
  case False
  have eq: "typeRank s = typeRank t \<longleftrightarrow> s = t" using False by (auto simp: typeRank_eq)
  show ?thesis
  proof (cases "s = t")
    case True
    have plain: "compareValueId lv a v = three_way a v" using assms True False by (auto simp: compareValueId_def Let_def)
    show ?thesis unfolding eq plain using assms False True three_way_data [of a t v]
      by (cases t) (auto simp: compareIds_def compareIdsImpl_def areTypesCompatible_def visit_def compareVisited_def numericOf_def
          cmp_def getTextRecordIndex_def getWordVocabIndex_def getBlankNodeIndex_def getDate_def removeDatatypeBits_eq)
  next
    case F: False
    then have "\<not> areTypesCompatible s t" using assms(2) False by (auto simp: areTypesCompatible_def)
    then show ?thesis using F eq assms by (simp add: compareIds_def compareIdsImpl_def)
  qed
qed

definition isZero :: "ValueId \<Rightarrow> bool" where
  "isZero v \<longleftrightarrow> getDatatype v \<in> {Some Double, Some Int_T} \<and> numericKey (valueOf v) = 0"

lemma getRangesForIntsAndDoubles_covers:
  assumes ok: "idsOk lv vocab live ids" and be: "b \<le> e" "e \<le> length ids"
    and nan: "\<forall>x\<in>set ids. getDatatype x = Some Double \<longrightarrow> isnan (getDouble x) \<longrightarrow> \<not> doubleIdIsNegative x \<and> numericKey v \<noteq> 0"
  shows "\<exists>r. getRangesForIntsAndDoubles ids b e v c = Inr r \<and>
    covers r {i \<in> {b..<e}. (typeOf (ids ! i) = Double \<and> doubleCmp c (ids ! i) v) \<or> (typeOf (ids ! i) = Int_T \<and> intCmp c (ids ! i) v)}"
proof -
  have "\<not> doubleIdIsNegative (ids ! i) \<and> numericKey v \<noteq> 0"
    if "i \<in> {b..<e}" "typeOf (ids ! i) = Double" "isnan (getDouble (ids ! i))" for i
  proof -
    have "ids ! i \<in> set ids" "getDatatype (ids ! i) = Some Double" using that idsOk_nth(1) [OF ok, of i] be(2) by simp_all
    then show ?thesis using nan that(3) by blast
  qed
  then obtain r where r: "getRangesForDouble ids b e v c = Inr r"
      "covers r {i \<in> {b..<e}. typeOf (ids ! i) = Double \<and> doubleCmp c (ids ! i) v}"
    using getRangesForDouble_covers [OF ok be, of v c] by blast
  obtain r' where r': "getRangesForInt ids b e v c = Inr r'"
      "covers r' {i \<in> {b..<e}. typeOf (ids ! i) = Int_T \<and> intCmp c (ids ! i) v}"
    using getRangesForInt_covers [OF ok be] by blast
  have "covers (r @ r') ({i \<in> {b..<e}. typeOf (ids ! i) = Double \<and> doubleCmp c (ids ! i) v} \<union>
      {i \<in> {b..<e}. typeOf (ids ! i) = Int_T \<and> intCmp c (ids ! i) v})"
    by (rule covers_append [OF r(2) r'(2)]) auto
  moreover have "\<dots> = {i \<in> {b..<e}. (typeOf (ids ! i) = Double \<and> doubleCmp c (ids ! i) v) \<or> (typeOf (ids ! i) = Int_T \<and> intCmp c (ids ! i) v)}"
    by blast
  ultimately show ?thesis using r(1) r'(1) by (simp add: getRangesForIntsAndDoubles_def)
qed

text \<open>C4: For a sorted list of ids and a value that is not a Boolean the function \<open>getRangesForId\<close> returns
  ascending, not empty and not adjacent ranges that consist of exactly the positions whose id compares
  true with the value, if there is no NaN with a sign in the list and no NaN at all when the value is zero.\<close>

theorem getRangesForId_correct:
  assumes ok: "idsOk lv vocab live ids" and be: "b \<le> e" "e \<le> length ids"
    and v: "valid_id vocab live v" "getDatatype v \<noteq> None" "getDatatype v \<noteq> Some Bool"
    and nan: "\<forall>x\<in>set ids. getDatatype x = Some Double \<longrightarrow> isnan (getDouble x) \<longrightarrow> \<not> doubleIdIsNegative x \<and> \<not> isZero v"
  shows "\<exists>rs. getRangesForId lv ids b e v c True = Inr rs \<and> ascending rs \<and>
    rangesSet rs = {i \<in> {b..<e}. compareIds lv AlwaysUndef (ids ! i) v c = Inr CTrue}"
proof -
  have types: "getDatatype (ids ! i) = Some (typeOf (ids ! i))" if "i \<in> {b..<e}" for i
    using that idsOk_nth(1) [OF ok] be(2) by simp
  obtain t where t: "getDatatype v = Some t" using v(2) by auto
  consider "t = Undefined" | "t \<in> {Double, Int_T}" | "t \<notin> {Undefined, Bool, Int_T, Double}" using v(3) t by blast
  then show ?thesis
  proof cases
    case 1
    have "compareIds lv AlwaysUndef (ids ! i) v c \<noteq> Inr CTrue" if "i \<in> {b..<e}" for i
      using types [OF that] t 1 by (simp add: compareIds_def compareIdsImpl_def areTypesCompatible_def)
    then show ?thesis using t 1 by (simp add: getRangesForId_def ascending_def)
  next
    case 2
    then have nan': "\<forall>x\<in>set ids. getDatatype x = Some Double \<longrightarrow> isnan (getDouble x) \<longrightarrow> \<not> doubleIdIsNegative x \<and> numericKey (valueOf v) \<noteq> 0"
      using nan t by (auto simp: isZero_def)
    from getRangesForIntsAndDoubles_covers [OF ok be nan', of c] obtain r where
      r: "getRangesForIntsAndDoubles ids b e (valueOf v) c = Inr r"
        "covers r {i \<in> {b..<e}. (typeOf (ids ! i) = Double \<and> doubleCmp c (ids ! i) (valueOf v)) \<or>
           (typeOf (ids ! i) = Int_T \<and> intCmp c (ids ! i) (valueOf v))}" by blast
    have "{i \<in> {b..<e}. (typeOf (ids ! i) = Double \<and> doubleCmp c (ids ! i) (valueOf v)) \<or>
           (typeOf (ids ! i) = Int_T \<and> intCmp c (ids ! i) (valueOf v))} =
        {i \<in> {b..<e}. compareIds lv AlwaysUndef (ids ! i) v c = Inr CTrue}"
      using compareIds_numeric [of v, where lv = lv and c = c] types t 2 by blast
    then show ?thesis using simplifyRanges_covers [OF r(2)] r(1) t 2 by (auto simp: getRangesForId_def valueOf_def)
  next
    case 3
    have "{i \<in> {b..<e}. typeRank (typeOf (ids ! i)) = typeRank t \<and> cmp3 c (compareValueId lv (ids ! i) v)} =
        {i \<in> {b..<e}. compareIds lv AlwaysUndef (ids ! i) v c = Inr CTrue}"
      using compareIds_index [OF t 3] types by blast
    moreover have "getRangesForId lv ids b e v c True = Inr (simplifyRanges True (getRangesForIndexTypes lv ids b e t v c))"
      using t 3 by (cases t) (simp_all add: getRangesForId_def)
    ultimately show ?thesis using simplifyRanges_covers [OF getRangesForIndexTypes_covers [OF ok be v(1), of t c]] by auto
  qed
qed

lemma example_idsOk:
  "idsOk example_lv [10, 20, 30] [16, 32] [makeFromInt 1, makeFromInt 5, makeFromDouble 0x3FF0000000000000]"
  by (simp add: idsOk_def vocab_coherent_def example_lv_def valid_id_def id_key_def make_simps get_simps getDatatype_def
      datatype_of_code_def addDatatypeBits_def toNBit_eq)

lemma getRangesForId_correct_witness:
  "\<exists>rs. getRangesForId example_lv [makeFromInt 1, makeFromInt 5, makeFromDouble 0x3FF0000000000000] 0 3 (makeFromInt 2) GT True = Inr rs \<and>
     ascending rs"
proof -
  have "getDatatype (makeFromInt 2) = Some Int_T" "valid_id [10, 20, 30 :: nat] [16, 32] (makeFromInt 2)"
    by (simp_all add: valid_id_def make_simps get_simps getDatatype_def datatype_of_code_def addDatatypeBits_def toNBit_eq)
  moreover have "\<not> isnan (getDouble (makeFromDouble 0x3FF0000000000000))" "getDatatype (makeFromInt 1) \<noteq> Some Double"
    "getDatatype (makeFromInt 5) \<noteq> Some Double"
    by (simp_all add: isnan_def make_simps get_simps getDatatype_def datatype_of_code_def addDatatypeBits_def toNBit_eq)
  ultimately show ?thesis using getRangesForId_correct [OF example_idsOk, of 0 3 "makeFromInt 2" GT] by auto
qed


lemma order_by_values:
  "sint (getInt (makeFromInt 0x20000000000000)) = 9007199254740992"
  "sint (getInt (makeFromInt 0x20000000000001)) = 9007199254740993"
  "doubleKey (getDouble (makeFromDouble 0x4340000000000000)) = 0x4340000000000000"
  "isnan (getDouble (makeFromDouble 0x4340000000000000)) = False"
  "getDatatype (makeFromInt 0x20000000000000) = Some Int_T" "getDatatype (makeFromInt 0x20000000000001) = Some Int_T"
  "getDatatype (makeFromDouble 0x4340000000000000) = Some Double"
  by code_simp+

lemma order_by_keys: "intKey 9007199254740992 = 0x4340000000000000" "intKey 9007199254740993 = 0x4340000000000000"
  by (simp_all add: intKey_def natKey_def compute_floorlog roundQuotient_def Let_def)

text \<open>The comparison for \<open>ORDER BY\<close> is not a strict weak order: an integer is rounded when it is compared
  with a double, so the two integers \<open>2 ^ 53\<close> and \<open>2 ^ 53 + 1\<close> are both equivalent to the double \<open>2 ^ 53\<close>,
  but not to each other.\<close>

theorem order_by_not_transitive:
  "compareIds example_lv CompareByType (makeFromInt 0x20000000000000) (makeFromInt 0x20000000000001) LT = Inr CTrue \<and>
   compareIds example_lv CompareByType (makeFromInt 0x20000000000000) (makeFromDouble 0x4340000000000000) EQ = Inr CTrue \<and>
   compareIds example_lv CompareByType (makeFromDouble 0x4340000000000000) (makeFromInt 0x20000000000001) EQ = Inr CTrue"
  by (simp add: compareIds_def compareIdsImpl_def areTypesCompatible_def visit_def compareVisited_def numericOf_def
      order_by_values order_by_keys cmpNumericWithNan_def cmp_iff)

end
