(* ===== verification/LimitOffset.thy ===== *)
theory LimitOffset
  imports Prelude
begin

text \<open>
  Models \<open>src/parser/data/LimitOffsetClause.h\<close>: the clause that selects a part of a result, the bounds of
  that part for a table of a known size, and the combination of two clauses as \<open>Operation::applyLimitOffset\<close> in
  \<open>src/engine/Operation.cpp\<close> uses it for nested subqueries. The limits for texts and for the export are only stored
  and are left out.
\<close>

section \<open>Limit and offset\<close>

text \<open>Unsigned 64-bit numbers are natural numbers; the only sum that can wrap around has it written out.\<close>

record LimitOffsetClause =
  limitClause :: "nat option"
  offsetClause :: nat

definition uint64_max :: nat where "uint64_max = 2 ^ 64 - 1"

definition limitOrDefault :: "LimitOffsetClause \<Rightarrow> nat" where
  "limitOrDefault lo = (case limitClause lo of None \<Rightarrow> uint64_max | Some n \<Rightarrow> n)"

definition actualOffset :: "LimitOffsetClause \<Rightarrow> nat \<Rightarrow> nat" where
  "actualOffset lo total_rows = min total_rows (offsetClause lo)"

definition upperBound :: "LimitOffsetClause \<Rightarrow> nat \<Rightarrow> nat" where
  "upperBound lo total_rows =
     (let val = (limitOrDefault lo + offsetClause lo) mod 2 ^ 64;
          val = (if val \<ge> max (limitOrDefault lo) (offsetClause lo) then val else uint64_max)
      in min val total_rows)"

definition actualSize :: "LimitOffsetClause \<Rightarrow> nat \<Rightarrow> nat result" where
  "actualSize lo total_rows =
     (let upper = upperBound lo total_rows; offset = actualOffset lo total_rows
      in res_bind (ensure CorrectnessViolation (upper \<ge> offset)) (\<lambda>_. Inr (upper - offset)))"

definition isUnconstrained :: "LimitOffsetClause \<Rightarrow> bool" where
  "isUnconstrained lo \<longleftrightarrow> limitClause lo = None \<and> offsetClause lo = 0"

definition mergeLimitAndOffset :: "LimitOffsetClause \<Rightarrow> LimitOffsetClause \<Rightarrow> LimitOffsetClause" where
  "mergeLimitAndOffset other lo =
     (let lo = lo\<lparr>offsetClause := (offsetClause lo + offsetClause other) mod 2 ^ 64\<rparr>
      in case limitClause other of
           None \<Rightarrow> lo
         | Some n \<Rightarrow> lo\<lparr>limitClause := Some (min (limitOrDefault lo) n)\<rparr>)"

definition applyLimitOffset :: "LimitOffsetClause \<Rightarrow> 'r list \<Rightarrow> 'r list" where
  "applyLimitOffset lo xs =
     (case limitClause lo of None \<Rightarrow> drop (offsetClause lo) xs | Some n \<Rightarrow> take n (drop (offsetClause lo) xs))"

section \<open>Selecting rows\<close>

definition clauseOk :: "LimitOffsetClause \<Rightarrow> bool" where
  "clauseOk lo \<longleftrightarrow> limitOrDefault lo < 2 ^ 64 \<and> offsetClause lo < 2 ^ 64"

lemma upperBound_eq:
  assumes "clauseOk lo" "n < 2 ^ 64"
  shows "upperBound lo n = min (limitOrDefault lo + offsetClause lo) n"
proof (cases "limitOrDefault lo + offsetClause lo < 2 ^ 64")
  case True
  then show ?thesis by (simp add: upperBound_def Let_def)
next
  case False
  let ?val = "(limitOrDefault lo + offsetClause lo) mod 2 ^ 64"
  have "?val = limitOrDefault lo + offsetClause lo - 2 ^ 64"
    using False assms(1) by (subst mod_if) (auto simp: clauseOk_def mod_if)
  then have "?val < limitOrDefault lo" using assms(1) False by (auto simp: clauseOk_def)
  then have "upperBound lo n = min uint64_max n" by (simp add: upperBound_def Let_def)
  also have "\<dots> = n" using assms(2) by (simp add: uint64_max_def)
  finally show ?thesis using False assms(2) by simp
qed

lemma applyLimitOffset_slice:
  assumes "clauseOk lo" "length xs < 2 ^ 64"
  shows "applyLimitOffset lo xs = take (upperBound lo (length xs) - actualOffset lo (length xs)) (drop (actualOffset lo (length xs)) xs)"
proof (cases "limitClause lo")
  case None
  then have "limitOrDefault lo = 2 ^ 64 - 1" by (simp add: limitOrDefault_def uint64_max_def)
  then have "upperBound lo (length xs) = length xs" using assms by (simp add: upperBound_eq)
  then show ?thesis using None by (simp add: applyLimitOffset_def actualOffset_def min_def)
next
  case (Some k)
  then show ?thesis using upperBound_eq [OF assms]
    by (auto simp: applyLimitOffset_def limitOrDefault_def actualOffset_def min_def)
qed

section \<open>Properties\<close>

text \<open>C36: For tables with fewer than \<open>2 ^ 64\<close> rows the rows between the actual offset and the upper bound, which is computed with
  a sum that may wrap around, are the rows that the clause selects, and the actual size, which never fails, is
  their number.\<close>

theorem limit_offset_bounds:
  assumes "clauseOk lo" "length xs < 2 ^ 64"
  shows "applyLimitOffset lo xs = take (upperBound lo (length xs) - actualOffset lo (length xs)) (drop (actualOffset lo (length xs)) xs) \<and>
    actualSize lo (length xs) = Inr (length (applyLimitOffset lo xs))"
proof -
  have "actualOffset lo (length xs) \<le> upperBound lo (length xs)"
    using upperBound_eq [OF assms] by (auto simp: actualOffset_def min_def)
  moreover have "upperBound lo (length xs) \<le> length xs" using upperBound_eq [OF assms] by simp
  ultimately show ?thesis unfolding applyLimitOffset_slice [OF assms]
    by (simp add: actualSize_def Let_def min_absorb2 diff_le_mono)
qed

theorem limit_offset_bounds_witness:
  "applyLimitOffset \<lparr>limitClause = Some (2 ^ 64 - 1), offsetClause = 2\<rparr> [1, 2, 3, 4::nat] = [3, 4] \<and>
   actualSize \<lparr>limitClause = Some (2 ^ 64 - 1), offsetClause = 2\<rparr> (length [1, 2, 3, 4::nat]) = Inr 2"
  using limit_offset_bounds [of "\<lparr>limitClause = Some (2 ^ 64 - 1), offsetClause = 2\<rparr>" "[1, 2, 3, 4::nat]"]
  by (simp add: clauseOk_def limitOrDefault_def applyLimitOffset_def numeral_2_eq_2 [symmetric])



end
