(* ===== verification/CompressedRelation.thy ===== *)
theory CompressedRelation
  imports LocatedTriples BinarySearch LimitOffset
begin

text \<open>
  Models the reader of \<open>src/index/CompressedRelation.{h,cpp}\<close> with
  \<open>src/index/ScanSpecification.{h,cpp}\<close>: the scan of a permutation for the triples with given leading
  columns, from the choice of the relevant blocks over reading, merging with the located triples and
  filtering by graphs to the clause for limit and offset. A table is the list of its rows. The file with
  the compression library is the argument \<open>file\<close>: the ids that the bytes at an offset decompress to, \<open>None\<close>
  for an error. The blocks between the first and the last one are read by several threads; the queue
  hands them out in their order, so they are read one after the other here. The argument \<open>cancelled\<close> says
  after how many blocks a cancellation is noticed, \<open>ex\<close> whether the expensive checks are switched on.
\<close>

section \<open>Specification of a scan\<close>

record 'id ScanSpecification =
  col0Id :: "'id option"
  col1Id :: "'id option"
  col2Id :: "'id option"
  graphsToFilter :: "'id set option"

fun validate :: "bool \<Rightarrow> 'id option list \<Rightarrow> unit result" where
  "validate nulloptFound [] = Inr ()"
| "validate nulloptFound (x # xs) =
     res_bind (ensure ContractViolation (\<not> nulloptFound \<or> x = None)) (\<lambda>_. validate (x = None) xs)"

definition makeScanSpecification ::
    "'id option \<Rightarrow> 'id option \<Rightarrow> 'id option \<Rightarrow> 'id set option \<Rightarrow> 'id ScanSpecification result" where
  "makeScanSpecification c0 c1 c2 graphs =
     res_bind (validate False [c0, c1, c2]) (\<lambda>_.
       Inr \<lparr>col0Id = c0, col1Id = c1, col2Id = c2, graphsToFilter = graphs\<rparr>)"

definition firstFreeColIndex :: "'id ScanSpecification \<Rightarrow> nat" where
  "firstFreeColIndex s =
     (if col0Id s = None then 0 else if col1Id s = None then 1 else if col2Id s = None then 2 else 3)"

section \<open>Pruning blocks\<close>

definition pruneBlock :: "'r list \<Rightarrow> LimitOffsetClause \<Rightarrow> 'r list \<times> LimitOffsetClause" where
  "pruneBlock block lo =
     (let offsetInBlock = min (offsetClause lo) (length block);
          block = (if offsetInBlock = length block then [] else drop offsetInBlock block);
          limitInBlock = min (length block) (case limitClause lo of None \<Rightarrow> length block | Some n \<Rightarrow> n)
      in (take limitInBlock block,
          lo\<lparr>offsetClause := offsetClause lo - offsetInBlock,
             limitClause := map_option (\<lambda>n. n - limitInBlock) (limitClause lo)\<rparr>))"

section \<open>Relevant blocks\<close>

definition getMaskedTriple :: "('id::order_bot) IdTriple \<Rightarrow> nat \<Rightarrow> 'id list result" where
  "getMaskedTriple triple ignoreIndex =
     (if ignoreIndex = 3 then Inr [triple ! 0, triple ! 1, triple ! 2]
      else if ignoreIndex = 2 then Inr [triple ! 0, triple ! 1, bot]
      else if ignoreIndex = 1 then Inr [triple ! 0, bot, bot]
      else if ignoreIndex = 0 then Inr [bot, bot, bot]
      else Inl CorrectnessViolation)"

definition containsInconsistentTriples :: "('id::order_bot) CompressedBlockMetadata \<Rightarrow> nat \<Rightarrow> bool result" where
  "containsInconsistentTriples b columnIndex =
     res_bind (getMaskedTriple (firstTriple b) columnIndex) (\<lambda>first.
       res_bind (getMaskedTriple (lastTriple b) columnIndex) (\<lambda>last. Inr (first \<noteq> last)))"

definition isConsistentWith ::
    "('id::order_bot) CompressedBlockMetadata \<Rightarrow> 'id CompressedBlockMetadata \<Rightarrow> nat \<Rightarrow> bool result" where
  "isConsistentWith b other columnIndex =
     res_bind (getMaskedTriple (lastTriple b) columnIndex) (\<lambda>last.
       res_bind (getMaskedTriple (firstTriple other) columnIndex) (\<lambda>first. Inr (last = first)))"

fun checkOrderAndUniqueness :: "('id::linorder) CompressedBlockMetadata list \<Rightarrow> unit result" where
  "checkOrderAndUniqueness (b1 # b2 # bs) =
     res_bind (ensure ContractViolation (b1 \<noteq> b2 \<and> metaBlockIndex b1 \<noteq> metaBlockIndex b2)) (\<lambda>_.
     res_bind (ensure ContractViolation
         (lastTriple b1 < lastTriple b2 \<and> metaBlockIndex b1 < metaBlockIndex b2)) (\<lambda>_.
       checkOrderAndUniqueness (b2 # bs)))"
| "checkOrderAndUniqueness bs = Inr ()"

fun checkBlockConsistency ::
    "nat \<Rightarrow> ('id::order_bot) CompressedBlockMetadata list \<Rightarrow> nat \<Rightarrow> unit result" where
  "checkBlockConsistency i (b1 # b2 # bs) firstFree =
     res_bind (isConsistentWith b1 b2 firstFree) (\<lambda>consistent.
     res_bind (ensure ContractViolation consistent) (\<lambda>_.
     res_bind (if i > 0
               then res_bind (containsInconsistentTriples b1 firstFree) (\<lambda>inconsistent.
                      ensure ContractViolation (\<not> inconsistent))
               else Inr ()) (\<lambda>_.
       checkBlockConsistency (i + 1) (b2 # bs) firstFree)))"
| "checkBlockConsistency i bs firstFree = Inr ()"

definition checkBlockMetadataInvariant ::
    "('id::{linorder,order_bot}) CompressedBlockMetadata list \<Rightarrow> nat \<Rightarrow> unit result" where
  "checkBlockMetadataInvariant blocks firstFree =
     res_bind (checkOrderAndUniqueness blocks) (\<lambda>_. checkBlockConsistency 0 blocks firstFree)"

definition orElse :: "'id option \<Rightarrow> 'id \<Rightarrow> 'id" where
  "orElse x d = (case x of None \<Rightarrow> d | Some i \<Rightarrow> i)"

definition keyFirst :: "('id::order_bot) ScanSpecification \<Rightarrow> 'id IdTriple" where
  "keyFirst s = [orElse (col0Id s) bot, orElse (col1Id s) bot, orElse (col2Id s) bot, bot]"

definition keyLast :: "('id::order_top) ScanSpecification \<Rightarrow> 'id IdTriple" where
  "keyLast s = [orElse (col0Id s) top, orElse (col1Id s) top, orElse (col2Id s) top, top]"

definition equalRangeBlocks ::
    "('id::{linorder,order_bot,order_top}) ScanSpecification \<Rightarrow> 'id CompressedBlockMetadata list
      \<Rightarrow> 'id CompressedBlockMetadata list" where
  "equalRangeBlocks s bs =
     (let lower = lowerBound (\<lambda>i. lastTriple (bs ! i) < keyFirst s) 0 (length bs);
          upper = lowerBound (\<lambda>i. \<not> keyLast s < firstTriple (bs ! i)) 0 (length bs)
      in take (upper - lower) (drop lower bs))"

type_synonym 'id BlockMetadataRanges = "'id CompressedBlockMetadata list list"

definition getRelevantBlocks ::
    "('id::{linorder,order_bot,order_top}) ScanSpecification \<Rightarrow> 'id BlockMetadataRanges \<Rightarrow> 'id BlockMetadataRanges" where
  "getRelevantBlocks s ranges = filter (\<lambda>r. r \<noteq> []) (map (equalRangeBlocks s) ranges)"

definition getNumberOfBlockMetadataValues :: "'id BlockMetadataRanges \<Rightarrow> nat" where
  "getNumberOfBlockMetadataValues ranges = sum_list (map length ranges)"

definition convertBlockMetadataRangesToVector :: "'id BlockMetadataRanges \<Rightarrow> 'id CompressedBlockMetadata list" where
  "convertBlockMetadataRangesToVector ranges = concat ranges"

record 'id ScanSpecAndBlocks =
  scanSpec :: "'id ScanSpecification"
  blockMetadata :: "'id BlockMetadataRanges"
  sizeBlockMetadata :: nat

definition getBlockMetadataView :: "'id ScanSpecAndBlocks \<Rightarrow> 'id CompressedBlockMetadata list" where
  "getBlockMetadataView s = concat (blockMetadata s)"

definition makeScanSpecAndBlocks ::
    "('id::{linorder,order_bot,order_top}) ScanSpecification \<Rightarrow> 'id BlockMetadataRanges
      \<Rightarrow> 'id ScanSpecAndBlocks result" where
  "makeScanSpecAndBlocks s ranges =
     res_bind (checkOrderAndUniqueness (concat ranges)) (\<lambda>_.
       let relevant = getRelevantBlocks s ranges in
       res_bind (checkBlockConsistency 0 (concat relevant) (firstFreeColIndex s)) (\<lambda>_.
         Inr \<lparr>scanSpec = s, blockMetadata = relevant,
              sizeBlockMetadata = getNumberOfBlockMetadataValues relevant\<rparr>))"

definition getBlockMetadataSpan :: "'id ScanSpecAndBlocks \<Rightarrow> 'id CompressedBlockMetadata list result" where
  "getBlockMetadataSpan s =
     res_bind (ensure ContractViolation (length (blockMetadata s) = 1)) (\<lambda>_. Inr (hd (blockMetadata s)))"

section \<open>Configuration of a scan\<close>

record 'id FilterDuplicatesAndGraphs =
  desiredGraphs :: "'id set option"
  graphColumn :: nat
  deleteGraphColumn :: bool

record 'id ScanImplConfig =
  scanColumns :: "nat list"
  graphFilter :: "'id FilterDuplicatesAndGraphs"
  locatedTriplesOf :: "'id LocatedTriplesPerBlock"

definition prepareColumnIndices :: "'id ScanSpecification \<Rightarrow> nat list \<Rightarrow> nat list" where
  "prepareColumnIndices s additionalColumns =
     (if col2Id s \<noteq> None then [] else if col1Id s \<noteq> None then [2]
      else if col0Id s \<noteq> None then [1, 2] else [0, 1, 2]) @ additionalColumns"

definition findIndex :: "nat \<Rightarrow> nat list \<Rightarrow> nat" where
  "findIndex x xs = length (takeWhile (\<lambda>y. y \<noteq> x) xs)"

definition prepareLocatedTriples :: "nat list \<Rightarrow> (nat \<times> bool) result" where
  "prepareLocatedTriples columns =
     res_bind (ensure CorrectnessViolation (sorted columns)) (\<lambda>_.
       let numScanColumns = (if columns = [] \<or> hd columns > 3 then 0 else 3 - hd columns);
           it = findIndex ADDITIONAL_COLUMN_GRAPH_ID columns;
           containsGraphId = (it \<noteq> length columns)
       in if containsGraphId
          then res_bind (ensure CorrectnessViolation (it = numScanColumns)) (\<lambda>_. Inr (numScanColumns, True))
          else Inr (numScanColumns, False))"

definition getScanConfig ::
    "'id ScanSpecification \<Rightarrow> nat list \<Rightarrow> 'id LocatedTriplesPerBlock \<Rightarrow> 'id ScanImplConfig" where
  "getScanConfig s additionalColumns l =
     (let columnIndices = prepareColumnIndices s additionalColumns;
          (columnIndices, graphColumnIndex, deleteColumn) =
            (if graphsToFilter s = None then (columnIndices, 0, False)
             else let idx = findIndex ADDITIONAL_COLUMN_GRAPH_ID columnIndices in
               if idx = length columnIndices
               then let idx = length columnIndices - length additionalColumns
                    in (take idx columnIndices @ ADDITIONAL_COLUMN_GRAPH_ID # drop idx columnIndices, idx, True)
               else (columnIndices, idx, False))
      in \<lparr>scanColumns = columnIndices,
          graphFilter = \<lparr>desiredGraphs = graphsToFilter s, graphColumn = graphColumnIndex,
                         deleteGraphColumn = deleteColumn\<rparr>,
          locatedTriplesOf = l\<rparr>)"

section \<open>Filtering by graphs\<close>

definition blockNeedsFilteringByGraph ::
    "'id FilterDuplicatesAndGraphs \<Rightarrow> 'id CompressedBlockMetadata \<Rightarrow> bool" where
  "blockNeedsFilteringByGraph f b =
     (case desiredGraphs f of
        None \<Rightarrow> False
      | Some wantedGraphs \<Rightarrow>
          (case graphInfo b of None \<Rightarrow> True | Some graphs \<Rightarrow> \<not> list_all (\<lambda>g. g \<in> wantedGraphs) graphs))"

definition isDesiredRow :: "'id FilterDuplicatesAndGraphs \<Rightarrow> 'id list \<Rightarrow> bool" where
  "isDesiredRow f row =
     (case desiredGraphs f of None \<Rightarrow> True | Some wantedGraphs \<Rightarrow> row ! graphColumn f \<in> wantedGraphs)"

definition filterByGraphIfNecessary ::
    "bool \<Rightarrow> 'id FilterDuplicatesAndGraphs \<Rightarrow> 'id CompressedBlockMetadata \<Rightarrow> 'id list list
      \<Rightarrow> ('id list list \<times> bool) result" where
  "filterByGraphIfNecessary ex f b block =
     (if blockNeedsFilteringByGraph f b then Inr (filter (isDesiredRow f) block, True)
      else res_bind (ensure CorrectnessViolation (\<not> ex \<or> list_all (isDesiredRow f) block)) (\<lambda>_. Inr (block, False)))"

definition filterDuplicatesIfNecessary ::
    "bool \<Rightarrow> 'id CompressedBlockMetadata \<Rightarrow> 'id list list \<Rightarrow> ('id list list \<times> bool) result" where
  "filterDuplicatesIfNecessary ex b block =
     (if \<not> containsDuplicatesWithDifferentGraphs b
      then res_bind (ensure CorrectnessViolation (\<not> ex \<or> distinct_adj block)) (\<lambda>_. Inr (block, False))
      else Inr (remdups_adj block, True))"

definition deleteColumn :: "nat \<Rightarrow> 'id list \<Rightarrow> 'id list" where
  "deleteColumn colIdx row = take colIdx row @ drop (colIdx + 1) row"

definition postprocessBlock ::
    "bool \<Rightarrow> 'id FilterDuplicatesAndGraphs \<Rightarrow> 'id CompressedBlockMetadata \<Rightarrow> nat \<Rightarrow> 'id list list
      \<Rightarrow> ('id list list \<times> bool) result" where
  "postprocessBlock ex f b numColumns block =
     res_bind (filterByGraphIfNecessary ex f b block) (\<lambda>(block, filteredByGraph).
     res_bind (if deleteGraphColumn f
               then res_bind (ensure ContractViolation (graphColumn f < numColumns)) (\<lambda>_.
                      Inr (map (deleteColumn (graphColumn f)) block))
               else Inr block) (\<lambda>block.
     res_bind (filterDuplicatesIfNecessary ex b block) (\<lambda>(block, filteredByDuplicates).
       Inr (block, filteredByGraph \<or> filteredByDuplicates))))"

definition canBlockBeSkipped :: "'id FilterDuplicatesAndGraphs \<Rightarrow> 'id CompressedBlockMetadata \<Rightarrow> bool" where
  "canBlockBeSkipped f b =
     (case (desiredGraphs f, graphInfo b) of
        (Some wantedGraphs, Some containedGraphs) \<Rightarrow> \<forall>g\<in>wantedGraphs. g \<notin> set containedGraphs
      | _ \<Rightarrow> False)"

section \<open>Reading blocks\<close>

type_synonym 'id columnFile = "int \<times> nat \<Rightarrow> 'id list option"

fun mapResult :: "('a \<Rightarrow> 'b result) \<Rightarrow> 'a list \<Rightarrow> 'b list result" where
  "mapResult f [] = Inr []"
| "mapResult f (x # xs) = res_bind (f x) (\<lambda>y. res_bind (mapResult f xs) (\<lambda>ys. Inr (y # ys)))"

definition readCompressedBlockFromFile ::
    "'id CompressedBlockMetadata \<Rightarrow> nat list \<Rightarrow> (int \<times> nat) list result" where
  "readCompressedBlockFromFile b columnIndices =
     mapResult (\<lambda>c. res_bind (ensure OutOfRange (c < length (offsetsAndCompressedSize b))) (\<lambda>_.
       Inr (offsetsAndCompressedSize b ! c))) columnIndices"

text \<open>The buffer has room for \<open>numRowsToRead\<close> ids; more of them are an error of the compression library.\<close>

definition decompressColumn :: "'id columnFile \<Rightarrow> nat \<Rightarrow> int \<times> nat \<Rightarrow> 'id list result" where
  "decompressColumn file numRowsToRead pos =
     (case file pos of
        None \<Rightarrow> Inl RuntimeError
      | Some column \<Rightarrow>
          if length column > numRowsToRead then Inl RuntimeError
          else res_bind (ensure CorrectnessViolation (length column = numRowsToRead)) (\<lambda>_. Inr column))"

definition decompressBlock :: "'id columnFile \<Rightarrow> (int \<times> nat) list \<Rightarrow> nat \<Rightarrow> 'id list list result" where
  "decompressBlock file compressedBlock numRowsToRead =
     res_bind (mapResult (decompressColumn file numRowsToRead) compressedBlock) (\<lambda>columns.
       Inr (map (\<lambda>i. map (\<lambda>column. column ! i) columns) [0..<numRowsToRead]))"

record 'id DecompressedBlockAndMetadata =
  decompressedBlock :: "'id list list"
  wasPostprocessed :: bool
  containsUpdates :: bool

definition decompressAndPostprocessBlock ::
    "bool \<Rightarrow> ('id::{linorder,order_bot}) columnFile \<Rightarrow> (int \<times> nat) list \<Rightarrow> nat \<Rightarrow> 'id ScanImplConfig
      \<Rightarrow> 'id CompressedBlockMetadata \<Rightarrow> 'id DecompressedBlockAndMetadata result" where
  "decompressAndPostprocessBlock ex file compressedBlock numRowsToRead config b =
     res_bind (decompressBlock file compressedBlock numRowsToRead) (\<lambda>block.
     res_bind (prepareLocatedTriples (scanColumns config)) (\<lambda>(numIndexColumns, includeGraphColumn).
     let updates = hasUpdates (locatedTriplesOf config) (metaBlockIndex b) in
     res_bind (if updates
               then mergeTriples (locatedTriplesOf config) (metaBlockIndex b) (length compressedBlock) block
                      numIndexColumns includeGraphColumn
               else Inr block) (\<lambda>block.
     res_bind (postprocessBlock ex (graphFilter config) b (length compressedBlock) block) (\<lambda>(block, processed).
       Inr \<lparr>decompressedBlock = block, wasPostprocessed = processed, containsUpdates = updates\<rparr>))))"

definition readAndDecompressBlock ::
    "bool \<Rightarrow> ('id::{linorder,order_bot}) columnFile \<Rightarrow> 'id CompressedBlockMetadata \<Rightarrow> 'id ScanImplConfig
      \<Rightarrow> 'id DecompressedBlockAndMetadata option result" where
  "readAndDecompressBlock ex file b config =
     (if canBlockBeSkipped (graphFilter config) b then Inr None
      else res_bind (readCompressedBlockFromFile b (scanColumns config)) (\<lambda>compressedColumns.
           res_bind (decompressAndPostprocessBlock ex file compressedColumns (numRows b) config b) (\<lambda>d.
             Inr (Some d))))"

record LazyScanMetadata =
  numBlocksRead :: nat
  numBlocksAll :: nat
  numBlocksSkippedBecauseOfGraph :: nat
  numBlocksPostprocessed :: nat
  numBlocksWithUpdate :: nat
  numElementsRead :: nat
  numElementsYielded :: nat

definition noDetails :: LazyScanMetadata where
  "noDetails = \<lparr>numBlocksRead = 0, numBlocksAll = 0, numBlocksSkippedBecauseOfGraph = 0, numBlocksPostprocessed = 0,
     numBlocksWithUpdate = 0, numElementsRead = 0, numElementsYielded = 0\<rparr>"

definition updateDetails :: "'id DecompressedBlockAndMetadata option \<Rightarrow> LazyScanMetadata \<Rightarrow> LazyScanMetadata" where
  "updateDetails optBlock d =
     (case optBlock of
        None \<Rightarrow> d\<lparr>numBlocksSkippedBecauseOfGraph := numBlocksSkippedBecauseOfGraph d + 1\<rparr>
      | Some b \<Rightarrow> d\<lparr>numBlocksPostprocessed := numBlocksPostprocessed d + of_bool (wasPostprocessed b),
            numBlocksWithUpdate := numBlocksWithUpdate d + of_bool (containsUpdates b),
            numBlocksRead := numBlocksRead d + 1,
            numElementsRead := numElementsRead d + length (decompressedBlock b)\<rparr>)"

definition aggregateDetails :: "LazyScanMetadata \<Rightarrow> LazyScanMetadata \<Rightarrow> LazyScanMetadata" where
  "aggregateDetails v d =
     \<lparr>numBlocksRead = numBlocksRead d + numBlocksRead v, numBlocksAll = numBlocksAll d + numBlocksAll v,
      numBlocksSkippedBecauseOfGraph = numBlocksSkippedBecauseOfGraph d + numBlocksSkippedBecauseOfGraph v,
      numBlocksPostprocessed = numBlocksPostprocessed d + numBlocksPostprocessed v,
      numBlocksWithUpdate = numBlocksWithUpdate d + numBlocksWithUpdate v,
      numElementsRead = numElementsRead d + numElementsRead v,
      numElementsYielded = numElementsYielded d + numElementsYielded v\<rparr>"

definition filterColumn ::
    "('id::linorder) list list \<Rightarrow> 'id option \<Rightarrow> nat \<Rightarrow> nat \<times> nat \<Rightarrow> nat \<times> nat" where
  "filterColumn block relevantId columnIdx = (\<lambda>(beginIdx, endIdx).
     case relevantId of
       None \<Rightarrow> (beginIdx, endIdx)
     | Some i \<Rightarrow>
         (lowerBound (\<lambda>k. block ! k ! columnIdx < i) beginIdx endIdx,
          lowerBound (\<lambda>k. \<not> i < block ! k ! columnIdx) beginIdx endIdx))"

definition readPossiblyIncompleteBlock ::
    "bool \<Rightarrow> ('id::{linorder,order_bot}) columnFile \<Rightarrow> 'id ScanSpecification \<Rightarrow> 'id ScanImplConfig
      \<Rightarrow> 'id CompressedBlockMetadata \<Rightarrow> LazyScanMetadata \<Rightarrow> ('id list list \<times> LazyScanMetadata) result" where
  "readPossiblyIncompleteBlock ex file s scanConfig b details =
     res_bind (ensure CorrectnessViolation (ADDITIONAL_COLUMN_GRAPH_ID < length (offsetsAndCompressedSize b))) (\<lambda>_.
     let specForAllColumns = \<lparr>col0Id = None, col1Id = None, col2Id = None,
                              graphsToFilter = desiredGraphs (graphFilter scanConfig)\<rparr>;
         config = getScanConfig specForAllColumns [ADDITIONAL_COLUMN_GRAPH_ID..<length (offsetsAndCompressedSize b)]
                    (locatedTriplesOf scanConfig);
         manuallyDeleteGraphColumn = deleteGraphColumn (graphFilter scanConfig) in
     res_bind (readAndDecompressBlock ex file b config) (\<lambda>optBlock.
       let block = (case optBlock of None \<Rightarrow> [] | Some d \<Rightarrow> decompressedBlock d);
           (beginIdx, endIdx) =
             filterColumn block (col2Id s) 2 (filterColumn block (col1Id s) 1 (filterColumn block (col0Id s) 0 (0, length block)));
           columns = filter (\<lambda>c. \<not> manuallyDeleteGraphColumn \<or> c \<noteq> ADDITIONAL_COLUMN_GRAPH_ID) (scanColumns scanConfig)
       in Inr (map (\<lambda>i. map (\<lambda>c. block ! i ! c) columns) [beginIdx..<endIdx], updateDetails optBlock details)))"

section \<open>The scan\<close>

definition throwIfCancelled :: "(nat \<Rightarrow> bool) \<Rightarrow> LazyScanMetadata \<Rightarrow> unit result" where
  "throwIfCancelled cancelled d =
     ensure CancellationException (\<not> cancelled (numBlocksRead d + numBlocksSkippedBecauseOfGraph d))"

definition yieldBlock :: "'r list \<Rightarrow> 'r list list \<times> LazyScanMetadata \<Rightarrow> 'r list list \<times> LazyScanMetadata" where
  "yieldBlock block = (\<lambda>(blocks, d).
     (if block = [] then blocks else blocks @ [block], d\<lparr>numElementsYielded := numElementsYielded d + length block\<rparr>))"

fun asyncParallelBlockGenerator ::
    "bool \<Rightarrow> ('id::{linorder,order_bot}) columnFile \<Rightarrow> (nat \<Rightarrow> bool) \<Rightarrow> 'id ScanImplConfig
      \<Rightarrow> 'id CompressedBlockMetadata list \<Rightarrow> LimitOffsetClause \<Rightarrow> 'id list list list \<times> LazyScanMetadata
      \<Rightarrow> (LimitOffsetClause \<times> 'id list list list \<times> LazyScanMetadata) result" where
  "asyncParallelBlockGenerator ex file cancelled config [] lo out = Inr (lo, out)"
| "asyncParallelBlockGenerator ex file cancelled config (b # bs) lo (blocks, details) =
     res_bind (readAndDecompressBlock ex file b config) (\<lambda>optBlock.
     let details = updateDetails optBlock details in
     res_bind (throwIfCancelled cancelled details) (\<lambda>_.
     case optBlock of
       None \<Rightarrow> asyncParallelBlockGenerator ex file cancelled config bs lo (blocks, details)
     | Some d \<Rightarrow>
         let (block, lo) = pruneBlock (decompressedBlock d) lo;
             out = yieldBlock block (blocks, details)
         in if limitClause lo = Some 0 then Inr (lo, out)
            else asyncParallelBlockGenerator ex file cancelled config bs lo out))"

definition getIncompleteBlock ::
    "bool \<Rightarrow> ('id::{linorder,order_bot}) columnFile \<Rightarrow> (nat \<Rightarrow> bool) \<Rightarrow> 'id ScanSpecification \<Rightarrow> 'id ScanImplConfig
      \<Rightarrow> 'id CompressedBlockMetadata \<Rightarrow> LimitOffsetClause \<Rightarrow> 'id list list list \<times> LazyScanMetadata
      \<Rightarrow> (LimitOffsetClause \<times> 'id list list list \<times> LazyScanMetadata) result" where
  "getIncompleteBlock ex file cancelled s config b lo = (\<lambda>(blocks, details).
     res_bind (readPossiblyIncompleteBlock ex file s config b details) (\<lambda>(block, details).
     res_bind (throwIfCancelled cancelled details) (\<lambda>_.
     let (block, lo) = pruneBlock block lo in Inr (lo, yieldBlock block (blocks, details)))))"

definition lazyScan ::
    "bool \<Rightarrow> ('id::{linorder,order_bot}) columnFile \<Rightarrow> (nat \<Rightarrow> bool) \<Rightarrow> 'id ScanSpecification
      \<Rightarrow> 'id CompressedBlockMetadata list \<Rightarrow> nat list \<Rightarrow> 'id LocatedTriplesPerBlock \<Rightarrow> LimitOffsetClause
      \<Rightarrow> ('id list list list \<times> LazyScanMetadata) result" where
  "lazyScan ex file cancelled s relevant additionalColumns l limitOffset =
     (if relevant = [] then Inr ([], noDetails)
      else
        let config = getScanConfig s additionalColumns l in
        res_bind (getIncompleteBlock ex file cancelled s config (hd relevant) limitOffset ([], noDetails)) (\<lambda>(lo, out).
        res_bind (if 1 < length relevant
                  then res_bind (asyncParallelBlockGenerator ex file cancelled config (butlast (tl relevant)) lo out)
                         (\<lambda>(lo, out). getIncompleteBlock ex file cancelled s config (last relevant) lo out)
                  else Inr (lo, out)) (\<lambda>(lo, blocks, details).
        res_bind (ensure CorrectnessViolation
            (case limitClause limitOffset of None \<Rightarrow> True | Some n \<Rightarrow> numElementsYielded details \<le> n)) (\<lambda>_.
        res_bind (ensure CorrectnessViolation
            (length relevant = numBlocksRead details + numBlocksSkippedBecauseOfGraph details \<or> \<not> isUnconstrained lo)) (\<lambda>_.
          Inr (blocks, details))))))"

definition scan ::
    "bool \<Rightarrow> ('id::{linorder,order_bot}) columnFile \<Rightarrow> (nat \<Rightarrow> bool) \<Rightarrow> 'id ScanSpecAndBlocks \<Rightarrow> nat list
      \<Rightarrow> 'id LocatedTriplesPerBlock \<Rightarrow> LimitOffsetClause \<Rightarrow> 'id list list result" where
  "scan ex file cancelled sb additionalColumns l limitOffset =
     res_bind (lazyScan ex file cancelled (scanSpec sb) (convertBlockMetadataRangesToVector (blockMetadata sb))
                 additionalColumns l limitOffset) (\<lambda>(blocks, details).
     res_bind (throwIfCancelled cancelled details) (\<lambda>_. Inr (concat blocks)))"

section \<open>Limit and offset on lists\<close>

lemma pruneBlock_apply:
  assumes "pruneBlock block lo = (block', lo')"
  shows "applyLimitOffset lo (block @ rest) = block' @ applyLimitOffset lo' rest"
    and "limitClause lo' = None \<longleftrightarrow> limitClause lo = None"
    and "limitClause lo' = Some 0 \<Longrightarrow> applyLimitOffset lo' rest = []"
proof -
  have b: "block' = applyLimitOffset lo block"
    using assms by (auto simp: pruneBlock_def applyLimitOffset_def Let_def min_def split: option.splits if_splits)
  show "applyLimitOffset lo (block @ rest) = block' @ applyLimitOffset lo' rest"
    using assms unfolding b
    by (cases "limitClause lo") (auto simp: pruneBlock_def applyLimitOffset_def Let_def min_def)
  show "limitClause lo' = None \<longleftrightarrow> limitClause lo = None"
    using assms by (auto simp: pruneBlock_def Let_def)
  show "limitClause lo' = Some 0 \<Longrightarrow> applyLimitOffset lo' rest = []"
    by (simp add: applyLimitOffset_def)
qed

section \<open>Reading columns\<close>

definition proj :: "nat list \<Rightarrow> 'id list \<Rightarrow> 'id list" where
  "proj cols row = map (\<lambda>c. row ! c) cols"

lemma mapResult_Inr:
  assumes "\<And>x. x \<in> set xs \<Longrightarrow> f x = Inr (g x)"
  shows "mapResult f xs = Inr (map g xs)"
  using assms by (induction xs) auto

text \<open>A block is stored in the file: every column decompresses to the values of the rows.\<close>

definition storedRows :: "'id columnFile \<Rightarrow> 'id CompressedBlockMetadata \<Rightarrow> 'id list list \<Rightarrow> bool" where
  "storedRows file b rows \<longleftrightarrow> numRows b = length rows \<and>
     (\<forall>c<length (offsetsAndCompressedSize b). file (offsetsAndCompressedSize b ! c) = Some (map (\<lambda>row. row ! c) rows)) \<and>
     (\<forall>row\<in>set rows. length row = length (offsetsAndCompressedSize b))"

lemma read_columns:
  assumes "storedRows file b rows" "\<forall>c\<in>set cols. c < length (offsetsAndCompressedSize b)"
  shows "\<exists>cs. readCompressedBlockFromFile b cols = Inr cs \<and> length cs = length cols \<and>
    decompressBlock file cs (numRows b) = Inr (map (proj cols) rows)"
proof -
  let ?pos = "\<lambda>c. offsetsAndCompressedSize b ! c"
  have "readCompressedBlockFromFile b cols = Inr (map ?pos cols)"
    unfolding readCompressedBlockFromFile_def using assms(2) by (intro mapResult_Inr) (simp add: ensure_def)
  moreover have "mapResult (decompressColumn file (numRows b)) (map ?pos cols) =
      Inr (map (\<lambda>c. map (\<lambda>row. row ! c) rows) cols)"
  proof -
    have "mapResult (decompressColumn file (numRows b)) (map ?pos cols) =
        mapResult (\<lambda>c. decompressColumn file (numRows b) (?pos c)) cols" by (induction cols) auto
    also have "\<dots> = Inr (map (\<lambda>c. map (\<lambda>row. row ! c) rows) cols)"
      using assms by (intro mapResult_Inr) (simp add: decompressColumn_def storedRows_def)
    finally show ?thesis .
  qed
  moreover have "map (\<lambda>i. map (\<lambda>column. column ! i) (map (\<lambda>c. map (\<lambda>row. row ! c) rows) cols)) [0..<length rows] =
      map (proj cols) rows"
    by (rule nth_equalityI) (simp_all add: proj_def)
  ultimately show ?thesis using assms(1) by (auto simp: decompressBlock_def storedRows_def)
qed

section \<open>Merging projected rows\<close>

lemma list4: "length t = 4 \<Longrightarrow> \<exists>a b c d. t = [a, b, c, d]"
  by (auto simp: numeral_eq_Suc length_Suc_conv)

lemma take4: "4 \<le> length (row :: 'a list) \<Longrightarrow> \<exists>a b c d rs. row = a # b # c # d # rs"
  by (auto simp: numeral_eq_Suc Suc_le_length_iff)

lemma tie_full:
  "length row \<ge> 4 \<Longrightarrow> tieIdTableRow 3 True row = take 4 row"
  "length (ltTriple lt) = 4 \<Longrightarrow> tieLocatedTriple 3 True lt = ltTriple lt"
  by (auto dest!: take4 simp: tieIdTableRow_def upt_rec)
    (auto dest!: list4 simp: tieLocatedTriple_def upt_rec)

lemma tie_projected:
  assumes "n \<in> {1, 2, 3}"
  shows "length row \<ge> 4 \<Longrightarrow> tieIdTableRow n True (proj ([3 - n..<3] @ 3 # rest) row) = drop (3 - n) (take 4 row)"
    and "length (ltTriple lt) = 4 \<Longrightarrow> tieLocatedTriple n True lt = drop (3 - n) (ltTriple lt)"
proof -
  have up: "[2..<3] = [2::nat]" "[Suc (Suc 0)..<3] = [2::nat]" "[Suc 0..<3] = [1, 2::nat]" "[0..<3] = [0, 1, 2::nat]" "[0..<Suc (Suc 0)] = [0, 1::nat]"
      "[0..<4] = [0, 1, 2, 3::nat]"
    by (simp_all add: upt_rec)
  show "tieIdTableRow n True (proj ([3 - n..<3] @ 3 # rest) row) = drop (3 - n) (take 4 row)" if len: "length row \<ge> 4"
  proof -
    obtain a b c d rs where r: "row = a # b # c # d # rs" using take4 [OF len] by blast
    show ?thesis using assms by (auto simp: r tieIdTableRow_def proj_def up numeral_2_eq_2)
  qed
  show "tieLocatedTriple n True lt = drop (3 - n) (ltTriple lt)" if len: "length (ltTriple lt) = 4"
  proof -
    obtain a b c d where r: "ltTriple lt = [a, b, c, d]" using list4 [OF len] by blast
    show ?thesis using assms by (auto simp: r tieLocatedTriple_def up numeral_2_eq_2)
  qed
qed

lemma write_row:
  assumes "n \<in> {1, 2, 3}" "length (ltTriple lt) = 4" "n + 1 \<le> c"
  shows "writeLocatedTripleToResult n True c lt = drop (3 - n) (ltTriple lt) @ replicate (c - (n + 1)) bot"
proof (rule nth_equalityI)
  show "length (writeLocatedTripleToResult n True c lt) = length (drop (3 - n) (ltTriple lt) @ replicate (c - (n + 1)) bot)"
    using assms by (auto simp: writeLocatedTripleToResult_def)
next
  fix i assume "i < length (writeLocatedTripleToResult n True c lt)"
  then show "writeLocatedTripleToResult n True c lt ! i = (drop (3 - n) (ltTriple lt) @ replicate (c - (n + 1)) bot) ! i"
    using assms by (auto simp: writeLocatedTripleToResult_def nth_append)
qed

lemma write_projected:
  assumes "n \<in> {1, 2, 3}" "length (ltTriple lt) = 4" "\<forall>c\<in>set rest. 4 \<le> c \<and> c < k" "4 \<le> k"
  shows "writeLocatedTripleToResult n True (length ([3 - n..<3] @ 3 # rest)) lt =
    proj ([3 - n..<3] @ 3 # rest) (writeLocatedTripleToResult 3 True k lt)"
proof -
  obtain a b c' d where t: "ltTriple lt = [a, b, c', d]" using list4 [OF assms(2)] by blast
  have k: "writeLocatedTripleToResult 3 True k lt = [a, b, c', d] @ replicate (k - 4) bot"
    using write_row [of 3 lt k] assms t by simp
  have "map (\<lambda>c. ([a, b, c', d] @ replicate (k - 4) bot) ! c) rest = replicate (length rest) bot"
  proof (rule nth_equalityI)
    fix i assume "i < length (map (\<lambda>c. ([a, b, c', d] @ replicate (k - 4) bot) ! c) rest)"
    then have "4 \<le> rest ! i" "rest ! i < k" "i < length rest" using assms(3) by auto
    then show "map (\<lambda>c. ([a, b, c', d] @ replicate (k - 4) bot) ! c) rest ! i = replicate (length rest) bot ! i"
      by (subst nth_map, simp, subst nth_append) simp
  qed simp
  then show ?thesis
    unfolding k proj_def using assms(1) write_row [OF assms(1,2), of "length ([3 - n..<3] @ 3 # rest)"]
    by (auto simp: t upt_rec numeral_3_eq_3 numeral_2_eq_2)
qed

lemma drop_less_iff:
  assumes "take n a = take n (b :: ('a::linorder) list)"
  shows "drop n a < drop n b \<longleftrightarrow> a < b" "drop n a = drop n b \<longleftrightarrow> a = b"
proof -
  have "take n a @ drop n a < take n a @ drop n b \<longleftrightarrow> drop n a < drop n b" by (rule append_less_same)
  moreover have "take n a @ drop n b = b" unfolding assms by simp
  ultimately show "drop n a < drop n b \<longleftrightarrow> a < b" by simp
  show "drop n a = drop n b \<longleftrightarrow> a = b" using assms by (metis append_take_drop_id)
qed

text \<open>The merge commutes with a function on rows that keeps the comparisons.\<close>

lemma mergeLoop_map:
  assumes "\<And>row lt. row \<in> set rows \<Longrightarrow> lt \<in> set lts \<Longrightarrow>
      (tieLocatedTriple n g lt < tieIdTableRow n g (f row)) = (tieLocatedTriple n' g' lt < tieIdTableRow n' g' row) \<and>
      (tieLocatedTriple n g lt = tieIdTableRow n g (f row)) = (tieLocatedTriple n' g' lt = tieIdTableRow n' g' row)"
    and "\<And>lt. lt \<in> set lts \<Longrightarrow> writeLocatedTripleToResult n g c lt = f (writeLocatedTripleToResult n' g' c' lt)"
  shows "mergeLoop n g c (map f rows) lts = map f (mergeLoop n' g' c' rows lts)"
  using assms by (induction n' g' c' rows lts rule: mergeLoop.induct) auto

lemma mergeLoop_projected:
  fixes rows :: "('id::{linorder,order_bot}) list list"
  assumes "n \<in> {1, 2, 3}" "4 \<le> k" "\<forall>c\<in>set rest. 4 \<le> c \<and> c < k"
    and "\<forall>row\<in>set rows. length row = k \<and> take (3 - n) row = p"
    and "\<forall>lt\<in>set lts. length (ltTriple lt) = 4 \<and> take (3 - n) (ltTriple lt) = p"
  shows "mergeLoop n True (length ([3 - n..<3] @ 3 # rest)) (map (proj ([3 - n..<3] @ 3 # rest)) rows) lts =
    map (proj ([3 - n..<3] @ 3 # rest)) (mergeLoop 3 True k rows lts)"
proof (rule mergeLoop_map)
  fix row lt assume mem: "row \<in> set rows" "lt \<in> set lts"
  have len: "4 \<le> length row" "length (ltTriple lt) = 4" using mem assms(2,4,5) by auto
  have "take (3 - n) (ltTriple lt) = take (3 - n) (take 4 row)" using mem assms(4,5) by (simp add: min_absorb1)
  note iff = drop_less_iff [OF this]
  show "(tieLocatedTriple n True lt < tieIdTableRow n True (proj ([3 - n..<3] @ 3 # rest) row)) =
      (tieLocatedTriple 3 True lt < tieIdTableRow 3 True row) \<and>
      (tieLocatedTriple n True lt = tieIdTableRow n True (proj ([3 - n..<3] @ 3 # rest) row)) =
      (tieLocatedTriple 3 True lt = tieIdTableRow 3 True row)"
    unfolding tie_projected(1) [OF assms(1) len(1)] tie_projected(2) [OF assms(1) len(2)]
      tie_full(1) [OF len(1)] tie_full(2) [OF len(2)] by (simp only: iff)
next
  fix lt assume "lt \<in> set lts"
  then show "writeLocatedTripleToResult n True (length ([3 - n..<3] @ 3 # rest)) lt =
      proj ([3 - n..<3] @ 3 # rest) (writeLocatedTripleToResult 3 True k lt)"
    using write_projected [OF assms(1) _ assms(3,2)] assms(5) by blast
qed

section \<open>Blocks of the permutation\<close>

lemma take_between:
  assumes "a \<le> t" "t \<le> b" "take n a = take n (b :: ('a::linorder) list)"
  shows "take n t = take n a"
  using take_mono_lex [OF assms(1), of n] take_mono_lex [OF assms(2), of n] assms(3) by simp

definition inBlock :: "('id::linorder) CompressedBlockMetadata \<Rightarrow> 'id IdTriple \<Rightarrow> bool" where
  "inBlock b t \<longleftrightarrow> firstTriple b \<le> t \<and> t \<le> lastTriple b"

definition updatesOf :: "'id LocatedTriplesPerBlock \<Rightarrow> 'id CompressedBlockMetadata \<Rightarrow> 'id LocatedTriples" where
  "updatesOf l b = (case ltMap l (metaBlockIndex b) of None \<Rightarrow> [] | Some lts \<Rightarrow> lts)"

definition numColumnsOf :: "'id CompressedBlockMetadata \<Rightarrow> nat" where
  "numColumnsOf b = length (offsetsAndCompressedSize b)"

text \<open>The rows of a block after its updates.\<close>

definition currentRows ::
    "('id::{linorder,order_bot}) LocatedTriplesPerBlock \<Rightarrow> 'id CompressedBlockMetadata \<Rightarrow> 'id list list \<Rightarrow> 'id list list" where
  "currentRows l b rows = mergeLoop 3 True (numColumnsOf b) rows (updatesOf l b)"

lemma mergeLoop_Nil [simp]: "mergeLoop n g c rows [] = rows"
  by (cases rows) simp_all

text \<open>What the reader relies on: the columns of the block are stored in the file, sorted, and described by the metadata,
  which also describes the located triples of the block.\<close>

definition blockReadable ::
    "('id::{linorder,order_bot}) columnFile \<Rightarrow> 'id LocatedTriplesPerBlock \<Rightarrow> 'id CompressedBlockMetadata \<Rightarrow> 'id list list \<Rightarrow> bool"
  where
  "blockReadable file l b rows \<longleftrightarrow> storedRows file b rows \<and> 4 \<le> numColumnsOf b \<and>
     sorted_wrt (\<lambda>r r'. take 4 r < take 4 r') rows \<and> (\<forall>row\<in>set rows. inBlock b (take 4 row)) \<and>
     sorted_wrt (\<lambda>x y. ltTriple x < ltTriple y) (updatesOf l b) \<and>
     (\<forall>lt\<in>set (updatesOf l b). length (ltTriple lt) = 4 \<and> describes b lt) \<and>
     (hasUpdates l (metaBlockIndex b) \<longrightarrow> containsDuplicatesWithDifferentGraphs b) \<and>
     (\<forall>gs row. graphInfo b = Some gs \<longrightarrow> row \<in> set rows \<longrightarrow> row ! 3 \<in> set gs) \<and>
     (\<not> containsDuplicatesWithDifferentGraphs b \<longrightarrow> distinct (map (take 3) rows))"

lemma blockReadableD:
  assumes "blockReadable file l b rows"
  shows "storedRows file b rows" "4 \<le> numColumnsOf b" "\<forall>row\<in>set rows. length row = numColumnsOf b"
    "sorted_wrt (\<lambda>r r'. take 4 r < take 4 r') rows" "\<forall>row\<in>set rows. inBlock b (take 4 row)"
    "sorted_wrt (\<lambda>x y. ltTriple x < ltTriple y) (updatesOf l b)"
    "\<forall>lt\<in>set (updatesOf l b). length (ltTriple lt) = 4 \<and> describes b lt"
  using assms by (auto simp: blockReadable_def storedRows_def numColumnsOf_def)

lemma currentRows_set:
  assumes "blockReadable file l b rows"
  shows "set (currentRows l b rows) =
      {row \<in> set rows. \<forall>lt\<in>set (updatesOf l b). \<not> ltInsert lt \<longrightarrow> ltTriple lt \<noteq> take 4 row} \<union>
      {ltTriple lt @ replicate (numColumnsOf b - 4) bot |lt.
         lt \<in> set (updatesOf l b) \<and> ltInsert lt \<and> ltTriple lt \<notin> take 4 ` set rows}"
    and "sorted_wrt (\<lambda>r r'. take 4 r < take 4 r') (currentRows l b rows)"
    and "\<forall>row\<in>set (currentRows l b rows). length row = numColumnsOf b"
proof -
  note ok = blockReadableD [OF assms]
  have tr: "tieIdTableRow 3 True row = take 4 row" if "row \<in> set rows" for row
    using ok(2,3) that by (intro tie_full(1)) simp
  have tl: "tieLocatedTriple 3 True lt = ltTriple lt" if "lt \<in> set (updatesOf l b)" for lt
    using ok(7) that by (intro tie_full(2)) simp
  have rs: "sorted_wrt (\<lambda>a b. tieIdTableRow 3 True a < tieIdTableRow 3 True b) rows"
    by (rule sorted_wrt_mono_rel [OF _ ok(4)]) (simp add: tr)
  have ls: "sorted_wrt (\<lambda>a b. tieLocatedTriple 3 True a < tieLocatedTriple 3 True b) (updatesOf l b)"
    by (rule sorted_wrt_mono_rel [OF _ ok(6)]) (simp add: tl)
  note merge = mergeLoop_set [OF _ _ rs ls, of "numColumnsOf b"]
  have w: "writeLocatedTripleToResult 3 True (numColumnsOf b) lt = ltTriple lt @ replicate (numColumnsOf b - 4) bot"
    if "lt \<in> set (updatesOf l b)" for lt using write_row [of 3 lt "numColumnsOf b"] ok(2,7) that by simp
  have "set (currentRows l b rows) = keptRows 3 True rows (updatesOf l b) \<union>
      writeLocatedTripleToResult 3 True (numColumnsOf b) ` newTriples 3 True rows (updatesOf l b)"
    using merge(1) ok(2) by (simp add: currentRows_def)
  moreover have "keptRows 3 True rows (updatesOf l b) =
      {row \<in> set rows. \<forall>lt\<in>set (updatesOf l b). \<not> ltInsert lt \<longrightarrow> ltTriple lt \<noteq> take 4 row}"
    using tr tl by (auto simp: keptRows_def)
  moreover have "newTriples 3 True rows (updatesOf l b) =
      {lt \<in> set (updatesOf l b). ltInsert lt \<and> ltTriple lt \<notin> take 4 ` set rows}"
    using tr tl by (auto simp: newTriples_def image_iff)
  ultimately show sets: "set (currentRows l b rows) =
      {row \<in> set rows. \<forall>lt\<in>set (updatesOf l b). \<not> ltInsert lt \<longrightarrow> ltTriple lt \<noteq> take 4 row} \<union>
      {ltTriple lt @ replicate (numColumnsOf b - 4) bot |lt.
         lt \<in> set (updatesOf l b) \<and> ltInsert lt \<and> ltTriple lt \<notin> take 4 ` set rows}"
    using w by auto
  show len: "\<forall>row\<in>set (currentRows l b rows). length row = numColumnsOf b"
    unfolding sets using ok(2,3,7) by auto
  have sorted: "sorted_wrt (\<lambda>a b. tieIdTableRow 3 True a < tieIdTableRow 3 True b) (currentRows l b rows)"
    using merge(2) ok(2) by (simp add: currentRows_def)
  show "sorted_wrt (\<lambda>r r'. take 4 r < take 4 r') (currentRows l b rows)"
    by (rule sorted_wrt_mono_rel [OF _ sorted]) (use len ok(2) in \<open>simp add: tie_full\<close>)
qed

lemma currentRows_described:
  assumes "blockReadable file l b rows" "row \<in> set (currentRows l b rows)"
  shows "inBlock b (take 4 row)" and "graphInfo b = Some gs \<Longrightarrow> row ! 3 \<in> set gs"
proof -
  note ok = blockReadableD [OF assms(1)]
  consider "row \<in> set rows" | lt where "lt \<in> set (updatesOf l b)" "ltInsert lt"
      "row = ltTriple lt @ replicate (numColumnsOf b - 4) bot"
    using assms(2) unfolding currentRows_set(1) [OF assms(1)] by auto
  then have "inBlock b (take 4 row) \<and> (graphInfo b = Some gs \<longrightarrow> row ! 3 \<in> set gs)"
  proof cases
    case 1
    then show ?thesis using ok(5) assms(1) by (simp add: blockReadable_def)
  next
    case 2
    then have "length (ltTriple lt) = 4" "describes b lt" using ok(7) by auto
    then show ?thesis using 2
      by (auto simp: describes_def inBlock_def ADDITIONAL_COLUMN_GRAPH_ID_def nth_append split: option.splits)
  qed
  then show "inBlock b (take 4 row)" "graphInfo b = Some gs \<Longrightarrow> row ! 3 \<in> set gs" by auto
qed

lemma currentRows_distinct:
  assumes "blockReadable file l b rows" "\<not> containsDuplicatesWithDifferentGraphs b"
  shows "distinct (map (take 3) (currentRows l b rows))"
proof -
  have "updatesOf l b = []" using assms by (auto simp: blockReadable_def hasUpdates_def updatesOf_def)
  then show ?thesis using assms by (simp add: currentRows_def blockReadable_def)
qed

section \<open>The columns of a scan\<close>

definition specOk :: "'id ScanSpecification \<Rightarrow> bool" where
  "specOk s \<longleftrightarrow> (col0Id s = None \<longrightarrow> col1Id s = None) \<and> (col1Id s = None \<longrightarrow> col2Id s = None)"

lemma makeScanSpecification_ok:
  "makeScanSpecification c0 c1 c2 gs =
     (let s = \<lparr>col0Id = c0, col1Id = c1, col2Id = c2, graphsToFilter = gs\<rparr>
      in if specOk s then Inr s else Inl ContractViolation)"
  by (auto simp: makeScanSpecification_def specOk_def ensure_def)

text \<open>Additional columns come after the columns of the triple, in ascending order.\<close>

definition additionalOk :: "nat list \<Rightarrow> bool" where
  "additionalOk extra \<longleftrightarrow> sorted_wrt (<) (2 # extra)"

definition payload :: "nat list \<Rightarrow> nat list" where
  "payload extra = filter (\<lambda>c. c \<noteq> 3) extra"

definition readsGraph :: "'id ScanSpecification \<Rightarrow> nat list \<Rightarrow> bool" where
  "readsGraph s extra \<longleftrightarrow> graphsToFilter s \<noteq> None \<or> 3 \<in> set extra"

lemma additional_split:
  assumes "additionalOk extra"
  shows "extra = (if 3 \<in> set extra then [3] else []) @ payload extra" "\<forall>c\<in>set (payload extra). 4 \<le> c" "sorted_wrt (<) (payload extra)"
proof -
  show "sorted_wrt (<) (payload extra)" using assms by (simp add: additionalOk_def payload_def sorted_wrt_filter)
  show "\<forall>c\<in>set (payload extra). 4 \<le> c" using assms by (fastforce simp: additionalOk_def payload_def)
  show "extra = (if 3 \<in> set extra then [3] else []) @ payload extra"
  proof (cases extra)
    case (Cons c cs)
    then have "\<forall>d\<in>set cs. 3 < d" "2 < c" "\<forall>d\<in>set cs. c < d" using assms by (auto simp: additionalOk_def)
    moreover then have "filter (\<lambda>c. c \<noteq> 3) cs = cs" by (auto simp: filter_id_conv)
    ultimately show ?thesis using Cons by (cases "c = 3") (auto simp: payload_def)
  qed (simp add: payload_def)
qed

lemma prepareColumnIndices_eq:
  assumes "specOk s"
  shows "prepareColumnIndices s extra = [firstFreeColIndex s..<3] @ extra"
proof -
  have up: "[2..<3] = [2::nat]" "[Suc 0..<3] = [1, 2::nat]" "[0..<3] = [0, 1, 2::nat]" by (simp_all add: upt_rec)
  show ?thesis using assms by (auto simp: prepareColumnIndices_def firstFreeColIndex_def specOk_def up)
qed

lemma findIndex_append:
  "x \<notin> set xs \<Longrightarrow> findIndex x (xs @ ys) = length xs + findIndex x ys"
  "findIndex x (x # ys) = 0" "x \<notin> set ys \<Longrightarrow> findIndex x ys = length ys"
proof -
  assume "x \<notin> set xs"
  then have "y \<noteq> x" if "y \<in> set xs" for y using that by blast
  then show "findIndex x (xs @ ys) = length xs + findIndex x ys" by (simp add: findIndex_def takeWhile_append2)
next
  assume "x \<notin> set ys"
  then have "takeWhile (\<lambda>y. y \<noteq> x) ys = ys" by (auto simp: takeWhile_eq_all_conv)
  then show "findIndex x ys = length ys" by (simp only: findIndex_def)
qed (simp add: findIndex_def)

lemma firstFree_le: "firstFreeColIndex s \<le> 3"
  by (simp add: firstFreeColIndex_def)

lemma getScanConfig_eq:
  assumes "specOk s" "additionalOk extra"
  shows "scanColumns (getScanConfig s extra l) =
      [firstFreeColIndex s..<3] @ (if readsGraph s extra then [3] else []) @ payload extra"
    and "desiredGraphs (graphFilter (getScanConfig s extra l)) = graphsToFilter s"
    and "graphsToFilter s \<noteq> None \<Longrightarrow> graphColumn (graphFilter (getScanConfig s extra l)) = 3 - firstFreeColIndex s"
    and "deleteGraphColumn (graphFilter (getScanConfig s extra l)) \<longleftrightarrow> graphsToFilter s \<noteq> None \<and> 3 \<notin> set extra"
    and "locatedTriplesOf (getScanConfig s extra l) = l"
proof -
  have extra: "extra = (if 3 \<in> set extra then [3] else []) @ payload extra" and p: "3 \<notin> set (payload extra)"
    using additional_split(1) [OF assms(2)] by (auto simp: payload_def)
  have base: "3 \<notin> set [firstFreeColIndex s..<3]" by simp
  note fi = findIndex_append(1) [OF base] findIndex_append(3) [OF p]
  have "getScanConfig s extra l = \<lparr>scanColumns = [firstFreeColIndex s..<3] @ (if readsGraph s extra then [3] else []) @ payload extra,
      graphFilter = \<lparr>desiredGraphs = graphsToFilter s,
        graphColumn = (if graphsToFilter s = None then 0 else 3 - firstFreeColIndex s),
        deleteGraphColumn = (graphsToFilter s \<noteq> None \<and> 3 \<notin> set extra)\<rparr>, locatedTriplesOf = l\<rparr>"
  proof (cases "3 \<in> set extra")
    case True
    then have eq: "extra = 3 # payload extra" using extra by simp
    then have "findIndex 3 ([firstFreeColIndex s..<3] @ extra) = 3 - firstFreeColIndex s"
      using findIndex_append(2) [of 3 "payload extra"] fi(1) [of extra] by simp
    moreover have "3 - firstFreeColIndex s \<noteq> length ([firstFreeColIndex s..<3] @ extra)" by (subst eq) simp
    ultimately show ?thesis using True eq
      by (auto simp: getScanConfig_def prepareColumnIndices_eq [OF assms(1)] readsGraph_def ADDITIONAL_COLUMN_GRAPH_ID_def)
  next
    case False
    then have eq: "payload extra = extra" using extra by simp
    then have "findIndex 3 ([firstFreeColIndex s..<3] @ extra) = length ([firstFreeColIndex s..<3] @ extra)"
      using fi by simp
    then show ?thesis using False eq
      by (simp add: getScanConfig_def prepareColumnIndices_eq [OF assms(1)] readsGraph_def ADDITIONAL_COLUMN_GRAPH_ID_def
        Let_def)
  qed
  then show "scanColumns (getScanConfig s extra l) =
      [firstFreeColIndex s..<3] @ (if readsGraph s extra then [3] else []) @ payload extra"
    "desiredGraphs (graphFilter (getScanConfig s extra l)) = graphsToFilter s"
    "graphsToFilter s \<noteq> None \<Longrightarrow> graphColumn (graphFilter (getScanConfig s extra l)) = 3 - firstFreeColIndex s"
    "deleteGraphColumn (graphFilter (getScanConfig s extra l)) \<longleftrightarrow> graphsToFilter s \<noteq> None \<and> 3 \<notin> set extra"
    "locatedTriplesOf (getScanConfig s extra l) = l" by auto
qed

lemma sorted_columns:
  assumes "ff \<le> 3" "\<forall>c\<in>set rest. 4 \<le> c" "sorted_wrt (<) rest"
  shows "sorted ([ff..<3] @ (if g then [3] else []) @ rest)"
  using assms by (auto simp: sorted_append sorted_wrt_mono_rel [where P = "(<)" and Q = "(\<le>)"] intro: less_imp_le)

lemma prepareLocatedTriples_eq:
  assumes "ff \<le> 3" "\<forall>c\<in>set rest. 4 \<le> c" "sorted_wrt (<) rest"
  shows "prepareLocatedTriples ([ff..<3] @ (if g then [3] else []) @ rest) = Inr (3 - ff, g)"
proof -
  let ?cols = "[ff..<3] @ (if g then [3] else []) @ rest"
  have n: "(if ?cols = [] \<or> hd ?cols > 3 then 0 else 3 - hd ?cols) = 3 - ff"
  proof (cases "ff = 3")
    case True
    then show ?thesis using assms(2) by (cases rest) auto
  next
    case False
    then have "ff < 3" using assms(1) by simp
    then show ?thesis by (simp add: upt_conv_Cons)
  qed
  have r: "3 \<notin> set rest" "3 \<notin> set [ff..<3]" using assms(2) by auto
  have f: "findIndex 3 ?cols = (if g then 3 - ff else length ?cols)"
    unfolding findIndex_append(1) [OF r(2)] using findIndex_append(2) [of 3 rest] findIndex_append(3) [OF r(1)] by simp
  show ?thesis
    unfolding prepareLocatedTriples_def n ADDITIONAL_COLUMN_GRAPH_ID_def f Let_def
    using sorted_columns [OF assms, of g] by simp
qed

section \<open>Reading a block\<close>

text \<open>The rows of the graphs that the scan asks for, with the columns of its result; duplicates are removed from a block
  only if the metadata says that there may be some.\<close>

definition wanted :: "'id ScanSpecification \<Rightarrow> 'id list \<Rightarrow> bool" where
  "wanted s row = (case graphsToFilter s of None \<Rightarrow> True | Some gs \<Rightarrow> row ! 3 \<in> gs)"

definition outColumns :: "'id ScanSpecification \<Rightarrow> nat list \<Rightarrow> nat list" where
  "outColumns s extra = [firstFreeColIndex s..<3] @ extra"

definition blockResult ::
    "'id ScanSpecification \<Rightarrow> nat list \<Rightarrow> 'id CompressedBlockMetadata \<Rightarrow> 'id list list \<Rightarrow> 'id list list" where
  "blockResult s extra b R =
     (let rows = map (proj (outColumns s extra)) (filter (wanted s) R)
      in if containsDuplicatesWithDifferentGraphs b then remdups_adj rows else rows)"

definition prefixFixed :: "nat \<Rightarrow> ('id::linorder) CompressedBlockMetadata \<Rightarrow> bool" where
  "prefixFixed ff b \<longleftrightarrow> take ff (firstTriple b) = take ff (lastTriple b)"

lemma prefixFixed_take: "prefixFixed ff b \<Longrightarrow> inBlock b t \<Longrightarrow> take ff t = take ff (firstTriple b)"
  using take_between [of "firstTriple b" t "lastTriple b" ff] by (simp add: prefixFixed_def inBlock_def)

lemma merge_step:
  fixes l :: "('id::{linorder,order_bot}) LocatedTriplesPerBlock"
  assumes "blockReadable file l b rows" "ff \<le> 3" "\<forall>c\<in>set rest. 4 \<le> c \<and> c < numColumnsOf b"
    and "hasUpdates l (metaBlockIndex b) \<Longrightarrow> g \<and> ff < 3 \<and> prefixFixed ff b"
  defines "cols \<equiv> [ff..<3] @ (if g then [3] else []) @ rest"
  shows "(if hasUpdates l (metaBlockIndex b)
          then mergeTriples l (metaBlockIndex b) (length cols) (map (proj cols) rows) (3 - ff) g
          else Inr (map (proj cols) rows)) = Inr (map (proj cols) (currentRows l b rows))"
proof (cases "ltMap l (metaBlockIndex b)")
  case None
  then show ?thesis by (simp add: hasUpdates_def currentRows_def updatesOf_def)
next
  case (Some lts)
  then have up: "updatesOf l b = lts" "hasUpdates l (metaBlockIndex b)" by (simp_all add: updatesOf_def hasUpdates_def)
  note g = assms(4) [OF up(2)]
  note ok = blockReadableD [OF assms(1)]
  have n: "3 - ff \<in> {1, 2, 3}" "3 - (3 - ff) = ff" using g by auto
  have rows: "\<forall>row\<in>set rows. length row = numColumnsOf b \<and> take ff row = take ff (firstTriple b)"
  proof
    fix row assume "row \<in> set rows"
    then have "length row = numColumnsOf b" "inBlock b (take 4 row)" using ok by auto
    moreover then have "take ff (take 4 row) = take ff (firstTriple b)" using prefixFixed_take g by blast
    ultimately show "length row = numColumnsOf b \<and> take ff row = take ff (firstTriple b)"
      using assms(2) by (simp add: min_absorb1)
  qed
  have lts: "\<forall>lt\<in>set lts. length (ltTriple lt) = 4 \<and> take ff (ltTriple lt) = take ff (firstTriple b)"
    using ok(7) prefixFixed_take g unfolding up(1) describes_def inBlock_def by blast
  have "mergeLoop (3 - ff) True (length cols) (map (proj cols) rows) lts =
      map (proj cols) (mergeLoop 3 True (numColumnsOf b) rows lts)"
    using mergeLoop_projected [OF n(1) ok(2) assms(3), of rows "take ff (firstTriple b)" lts] rows lts g
    by (simp add: cols_def n(2))
  moreover have "3 - ff + 1 \<le> length cols" using g by (simp add: cols_def)
  ultimately show ?thesis using n(1) g Some up
    by (auto simp: mergeTriples_def mergeTriplesImpl_def currentRows_def)
qed

lemma proj_append: "proj (xs @ ys) row = proj xs row @ proj ys row"
  by (simp add: proj_def)

lemma length_proj [simp]: "length (proj cols row) = length cols"
  by (simp add: proj_def)

lemma filter_graphs:
  fixes l :: "'id LocatedTriplesPerBlock"
  assumes "specOk s" "additionalOk extra" "\<And>gs row. graphInfo b = Some gs \<Longrightarrow> row \<in> set R \<Longrightarrow> row ! 3 \<in> set gs"
  defines "f \<equiv> graphFilter (getScanConfig s extra l)" and "cols \<equiv> scanColumns (getScanConfig s extra l)"
  shows "\<exists>p. filterByGraphIfNecessary ex f b (map (proj cols) R) = Inr (map (proj cols) (filter (wanted s) R), p)"
proof -
  note config = getScanConfig_eq [OF assms(1,2), of l, folded f_def cols_def]
  have des: "isDesiredRow f (proj cols row) = wanted s row" for row
  proof (cases "graphsToFilter s")
    case (Some gs)
    then have "cols = [firstFreeColIndex s..<3] @ 3 # payload extra" by (simp add: config(1) readsGraph_def)
    then have "proj cols row ! (3 - firstFreeColIndex s) = row ! 3" by (simp add: proj_def nth_append)
    then show ?thesis using Some config(2,3) by (simp add: isDesiredRow_def wanted_def)
  qed (simp add: isDesiredRow_def wanted_def config(2))
  have all: "filter (wanted s) R = R" if need: "\<not> blockNeedsFilteringByGraph f b"
  proof (cases "graphsToFilter s")
    case (Some gs)
    then obtain bs where "graphInfo b = Some bs" "set bs \<subseteq> gs"
      using need config(2) by (cases "graphInfo b") (auto simp: blockNeedsFilteringByGraph_def list_all_iff)
    then show ?thesis using assms(3) Some by (auto simp: filter_id_conv wanted_def)
  qed (simp add: wanted_def)
  have filt: "filter (isDesiredRow f) (map (proj cols) R) = map (proj cols) (filter (wanted s) R)"
    by (simp add: filter_map o_def des)
  show ?thesis
  proof (cases "blockNeedsFilteringByGraph f b")
    case True
    then show ?thesis by (auto simp: filterByGraphIfNecessary_def filt)
  next
    case False
    then have "list_all (isDesiredRow f) (map (proj cols) R)"
      using all by (auto simp: list_all_iff des filter_id_conv)
    then show ?thesis using False all by (auto simp: filterByGraphIfNecessary_def)
  qed
qed

lemma deleteColumn_proj:
  fixes s :: "'id ScanSpecification" and row :: "'id list"
  assumes "specOk s" "additionalOk extra" "graphsToFilter s \<noteq> None" "3 \<notin> set extra"
  shows "deleteColumn (3 - firstFreeColIndex s) (proj (scanColumns (getScanConfig s extra l)) row) =
    proj (outColumns s extra) row"
proof -
  have "payload extra = extra" using additional_split(1) [OF assms(2)] assms(4) by simp
  then show ?thesis using assms getScanConfig_eq(1) [OF assms(1,2), of l] firstFree_le [of s]
    by (simp add: deleteColumn_def proj_def outColumns_def readsGraph_def)
qed

lemma outColumns_scan:
  assumes "specOk s" "additionalOk extra" "\<not> (graphsToFilter s \<noteq> None \<and> 3 \<notin> set extra)"
  shows "scanColumns (getScanConfig s extra l) = outColumns s extra"
  using getScanConfig_eq(1) [OF assms(1,2), of l] additional_split(1) [OF assms(2)] assms(3)
  by (auto simp: outColumns_def readsGraph_def split: if_splits)

lemma proj_inj:
  assumes "take ff r = take ff r'" "proj ([ff..<3] @ extra) r = proj ([ff..<3] @ extra) r'"
    "ff \<le> 3" "3 \<le> length r" "3 \<le> length r'"
  shows "take 3 r = take 3 r'"
proof (rule nth_equalityI)
  fix i assume "i < length (take 3 r)"
  then have i: "i < 3" using assms(4) by simp
  show "take 3 r ! i = take 3 r' ! i"
  proof (cases "i < ff")
    case True
    then show ?thesis using assms(1) i by (metis nth_take)
  next
    case False
    then have "proj [ff..<3] r = proj [ff..<3] r'" using assms(2) by (simp add: proj_append)
    then show ?thesis using False i by (auto simp: proj_def)
  qed
qed (use assms in simp)

lemma postprocess_ok:
  fixes l :: "'id LocatedTriplesPerBlock"
  assumes "specOk s" "additionalOk extra" "\<And>gs row. graphInfo b = Some gs \<Longrightarrow> row \<in> set R \<Longrightarrow> row ! 3 \<in> set gs"
    and "\<not> containsDuplicatesWithDifferentGraphs b \<Longrightarrow> distinct (map (take 3) R)"
    and "\<And>row. row \<in> set R \<Longrightarrow> take (firstFreeColIndex s) row = p \<and> 4 \<le> length row"
  defines "config \<equiv> getScanConfig s extra l"
  shows "\<exists>p. postprocessBlock ex (graphFilter config) b (length (scanColumns config)) (map (proj (scanColumns config)) R) =
    Inr (blockResult s extra b R, p)"
proof -
  let ?W = "filter (wanted s) R" and ?f = "graphFilter config" and ?cols = "scanColumns config"
  obtain q where q: "filterByGraphIfNecessary ex ?f b (map (proj ?cols) R) = Inr (map (proj ?cols) ?W, q)"
    unfolding config_def using filter_graphs [OF assms(1-3)] by blast
  note cfg = getScanConfig_eq [OF assms(1,2), of l, folded config_def]
  have removed: "(if deleteGraphColumn ?f
       then res_bind (ensure ContractViolation (graphColumn ?f < length ?cols)) (\<lambda>_.
              Inr (map (deleteColumn (graphColumn ?f)) (map (proj ?cols) ?W)))
       else Inr (map (proj ?cols) ?W)) = Inr (map (proj (outColumns s extra)) ?W)"
  proof (cases "graphsToFilter s \<noteq> None \<and> 3 \<notin> set extra")
    case True
    then have "graphColumn ?f < length ?cols" using cfg(1,3) firstFree_le [of s] by (simp add: readsGraph_def)
    then show ?thesis
      using True cfg(3,4) deleteColumn_proj [OF assms(1,2), of l, folded config_def] by (simp add: ensure_def)
  next
    case False
    then show ?thesis using outColumns_scan [OF assms(1,2) False, of l, folded config_def] cfg(4) by auto
  qed
  have dist: "distinct_adj (map (proj (outColumns s extra)) ?W)" if nd: "\<not> containsDuplicatesWithDifferentGraphs b"
  proof -
    have t3: "distinct (map (take 3) ?W)" using assms(4) [OF nd] by (rule distinct_map_filter)
    have "inj_on (proj (outColumns s extra)) (set ?W)"
    proof (rule inj_onI)
      fix r r' assume r: "r \<in> set ?W" "r' \<in> set ?W" "proj (outColumns s extra) r = proj (outColumns s extra) r'"
      have "take 3 r = take 3 r'"
        using assms(5) [of r] assms(5) [of r'] r firstFree_le [of s]
        by (intro proj_inj [of "firstFreeColIndex s" r r' extra]) (simp_all add: outColumns_def)
      then show "r = r'" using r t3 by (meson distinct_map inj_onD)
    qed
    then have "distinct (map (proj (outColumns s extra)) ?W)" using t3 by (simp add: distinct_map)
    then show ?thesis by (simp only: distinct_adj_altdef remdups_adj_distinct)
  qed
  show ?thesis
  proof -
    have "filterDuplicatesIfNecessary ex b (map (proj (outColumns s extra)) ?W) =
        Inr (blockResult s extra b R, containsDuplicatesWithDifferentGraphs b)"
      using dist by (cases "containsDuplicatesWithDifferentGraphs b")
        (simp_all add: filterDuplicatesIfNecessary_def blockResult_def)
    then show ?thesis by (simp add: postprocessBlock_def q removed split del: if_split)
  qed
qed

text \<open>A block that is skipped has no row of the desired graphs.\<close>

lemma skipped_empty:
  assumes "canBlockBeSkipped f b" "desiredGraphs f = graphsToFilter s"
    "\<And>gs row. graphInfo b = Some gs \<Longrightarrow> row \<in> set R \<Longrightarrow> row ! 3 \<in> set gs"
  shows "filter (wanted s) R = []"
  using assms by (auto simp: canBlockBeSkipped_def wanted_def filter_empty_conv split: option.splits)

lemma readAndDecompressBlock_ok:
  fixes l :: "('id::{linorder,order_bot}) LocatedTriplesPerBlock"
  assumes "blockReadable file l b rows" "specOk s" "additionalOk extra" "\<forall>c\<in>set extra. c < numColumnsOf b"
    and "prefixFixed (firstFreeColIndex s) b"
    and "hasUpdates l (metaBlockIndex b) \<Longrightarrow> readsGraph s extra \<and> firstFreeColIndex s < 3"
  shows "(\<exists>d. readAndDecompressBlock ex file b (getScanConfig s extra l) = Inr (Some d) \<and>
        decompressedBlock d = blockResult s extra b (currentRows l b rows)) \<or>
    (readAndDecompressBlock ex file b (getScanConfig s extra l) = Inr None \<and>
        blockResult s extra b (currentRows l b rows) = [])"
proof (cases "canBlockBeSkipped (graphFilter (getScanConfig s extra l)) b")
  case True
  have "filter (wanted s) (currentRows l b rows) = []"
    using skipped_empty [OF True getScanConfig_eq(2) [OF assms(2,3)]] currentRows_described(2) [OF assms(1)] by blast
  then show ?thesis using True by (simp add: readAndDecompressBlock_def blockResult_def)
next
  case False
  let ?config = "getScanConfig s extra l" and ?R = "currentRows l b rows" and ?ff = "firstFreeColIndex s"
  note ok = blockReadableD [OF assms(1)] and split = additional_split [OF assms(3)]
  note cfg = getScanConfig_eq [OF assms(2,3), of l]
  have pay: "\<forall>c\<in>set (payload extra). 4 \<le> c \<and> c < numColumnsOf b"
    using split(2) assms(4) by (auto simp: payload_def)
  have "\<forall>c\<in>set (scanColumns ?config). c < length (offsetsAndCompressedSize b)"
    using ok(2) pay by (auto simp: cfg(1) numColumnsOf_def)
  from read_columns [OF ok(1) this] obtain cs where cs: "readCompressedBlockFromFile b (scanColumns ?config) = Inr cs"
      "length cs = length (scanColumns ?config)"
      "decompressBlock file cs (numRows b) = Inr (map (proj (scanColumns ?config)) rows)" by blast
  have merge: "(if hasUpdates l (metaBlockIndex b)
          then mergeTriples l (metaBlockIndex b) (length (scanColumns ?config)) (map (proj (scanColumns ?config)) rows)
                 (3 - ?ff) (readsGraph s extra)
          else Inr (map (proj (scanColumns ?config)) rows)) = Inr (map (proj (scanColumns ?config)) ?R)"
    unfolding cfg(1) using assms(5,6) by (intro merge_step [OF assms(1) firstFree_le pay]) blast
  have rows: "take ?ff row = take ?ff (firstTriple b) \<and> 4 \<le> length row" if "row \<in> set ?R" for row
  proof -
    have "take ?ff (take 4 row) = take ?ff (firstTriple b)"
      using prefixFixed_take [OF assms(5)] currentRows_described(1) [OF assms(1) that] by blast
    moreover have "4 \<le> length row" using currentRows_set(3) [OF assms(1)] ok(2) that by simp
    ultimately show ?thesis using firstFree_le [of s] by (simp add: min_absorb1)
  qed
  obtain q where q: "postprocessBlock ex (graphFilter ?config) b (length (scanColumns ?config))
      (map (proj (scanColumns ?config)) ?R) = Inr (blockResult s extra b ?R, q)"
    using postprocess_ok [OF assms(2,3) currentRows_described(2) [OF assms(1)] currentRows_distinct [OF assms(1)] rows, where ex = ex and l = l]
    by blast
  have prep: "prepareLocatedTriples (scanColumns ?config) = Inr (3 - ?ff, readsGraph s extra)"
    unfolding cfg(1) by (rule prepareLocatedTriples_eq [OF firstFree_le split(2,3)])
  have "readAndDecompressBlock ex file b ?config = Inr (Some \<lparr>decompressedBlock = blockResult s extra b ?R,
      wasPostprocessed = q, containsUpdates = hasUpdates l (metaBlockIndex b)\<rparr>)"
    by (simp only: readAndDecompressBlock_def decompressAndPostprocessBlock_def cfg(5) Let_def False cs prep merge q
        res_bind_simps prod.case if_False)
  then show ?thesis by simp
qed

section \<open>Incomplete blocks\<close>

definition matchesSpec :: "'id ScanSpecification \<Rightarrow> 'id list \<Rightarrow> bool" where
  "matchesSpec s row \<longleftrightarrow> (col0Id s = None \<or> col0Id s = Some (row ! 0)) \<and> (col1Id s = None \<or> col1Id s = Some (row ! 1)) \<and>
     (col2Id s = None \<or> col2Id s = Some (row ! 2))"

lemma filter_interval:
  assumes "b \<le> e" "e \<le> length F" "\<And>k. k < length F \<Longrightarrow> P (F ! k) \<longleftrightarrow> b \<le> k \<and> k < e"
  shows "filter P F = map ((!) F) [b..<e]"
proof -
  have "[0..<length F] = [0..<b] @ [b..<e] @ [e..<length F]"
    using assms(1,2) by (metis append_assoc le_add_diff_inverse upt_add_eq_append zero_le)
  then have "F = map ((!) F) [0..<b] @ map ((!) F) [b..<e] @ map ((!) F) [e..<length F]"
    by (metis map_append map_nth)
  moreover have "filter P (map ((!) F) [0..<b]) = []" "filter P (map ((!) F) [e..<length F]) = []"
      "filter P (map ((!) F) [b..<e]) = map ((!) F) [b..<e]"
    using assms by (auto simp: filter_empty_conv filter_id_conv)
  ultimately show ?thesis by (metis append_Nil append_Nil2 filter_append)
qed

lemma take_less_nth:
  assumes "(x :: ('a::linorder) list) \<le> y" "take c x = take c y" "c < length x" "c < length y"
  shows "x ! c \<le> y ! c"
proof (rule ccontr)
  assume "\<not> x ! c \<le> y ! c"
  then have "[y ! c] < [x ! c]" by (simp add: Cons_less_Cons)
  then have "take c x @ [y ! c] < take c x @ [x ! c]" by (simp only: append_less_same)
  then have "take (Suc c) y < take (Suc c) x" using assms(2-4) by (simp add: take_Suc_conv_app_nth)
  then show False using take_mono_lex [OF assms(1), of "Suc c"] by simp
qed

definition sortedRows :: "('id::linorder) list list \<Rightarrow> bool" where
  "sortedRows F \<longleftrightarrow> sorted_wrt (\<lambda>r r'. take 4 r < take 4 r') F \<and> (\<forall>row\<in>set F. 4 \<le> length row)"

lemma sortedRows_column:
  assumes "sortedRows F" "k \<le> k'" "k' < length F" "take c (F ! k) = take c (F ! k')" "c < 4"
  shows "F ! k ! c \<le> F ! k' ! c"
proof (cases "k = k'")
  case False
  then have "take 4 (F ! k) < take 4 (F ! k')" using assms(1-3) by (auto simp: sortedRows_def sorted_wrt_iff_nth_less)
  moreover have len: "4 \<le> length (F ! k)" "4 \<le> length (F ! k')" using assms(1-3) by (auto simp: sortedRows_def)
  ultimately have "take 4 (F ! k) ! c \<le> take 4 (F ! k') ! c"
    using assms(4,5) by (intro take_less_nth) (simp_all add: min_def)
  then show ?thesis using assms(5) by simp
qed simp

lemma filterColumn_ok:
  assumes "sortedRows F" "b \<le> e" "e \<le> length F" "c < 4" "\<And>k. b \<le> k \<Longrightarrow> k < e \<Longrightarrow> take c (F ! k) = p"
    and "filterColumn F (Some i) c (b, e) = (b', e')"
  shows "b \<le> b'" "b' \<le> e'" "e' \<le> e" "\<And>k. b \<le> k \<Longrightarrow> k < e \<Longrightarrow> b' \<le> k \<and> k < e' \<longleftrightarrow> F ! k ! c = i"
proof -
  have mono: "F ! k ! c \<le> F ! k' ! c" if "b \<le> k" "k \<le> k'" "k' < e" for k k'
    using assms(1,3,4,5) that by (intro sortedRows_column) auto
  have b': "b' = lowerBound (\<lambda>k. F ! k ! c < i) b e" and e': "e' = lowerBound (\<lambda>k. \<not> i < F ! k ! c) b e"
    using assms(6) by (simp_all add: filterColumn_def)
  note lo = lowerBound_spec [of b e "\<lambda>k. F ! k ! c < i", OF assms(2), folded b']
  note hi = lowerBound_spec [of b e "\<lambda>k. \<not> i < F ! k ! c", OF assms(2), folded e']
  have L: "b \<le> b'" "b' \<le> e" "\<And>k. b \<le> k \<Longrightarrow> k < e \<Longrightarrow> k < b' \<longleftrightarrow> F ! k ! c < i"
    using lo mono by (meson order_le_less_trans)+
  have H: "b \<le> e'" "e' \<le> e" "\<And>k. b \<le> k \<Longrightarrow> k < e \<Longrightarrow> k < e' \<longleftrightarrow> \<not> i < F ! k ! c"
    using hi mono by (meson order_less_le_trans)+
  show "b \<le> b'" "e' \<le> e" by (fact L H)+
  show "b' \<le> e'"
  proof (rule ccontr)
    assume "\<not> b' \<le> e'"
    then have "e' < b'" "e' < e" using L(2) by auto
    then show False using L(3) [of e'] H(1) H(3) [of e'] by auto
  qed
  show "b' \<le> k \<and> k < e' \<longleftrightarrow> F ! k ! c = i" if "b \<le> k" "k < e" for k
    using L(3) [OF that] H(3) [OF that] by (auto simp: not_less)
qed

lemma narrow_ok:
  assumes "sortedRows F" "specOk s"
  defines "r \<equiv> filterColumn F (col2Id s) 2 (filterColumn F (col1Id s) 1 (filterColumn F (col0Id s) 0 (0, length F)))"
  shows "map ((!) F) [fst r..<snd r] = filter (matchesSpec s) F"
proof -
  have none: "filterColumn F None c x = x" for c x by (cases x) (simp add: filterColumn_def)
  have t1: "take 1 row = [row ! 0]" "take 2 row = [row ! 0, row ! 1]" if "row \<in> set F" for row
    using assms(1) that by (auto simp: sortedRows_def dest!: take4)
  show ?thesis
  proof (cases "col0Id s")
    case None
    then have "matchesSpec s = (\<lambda>_. True)" "r = (0, length F)" using assms(2) by (auto simp: specOk_def matchesSpec_def r_def none)
    then show ?thesis by (simp add: map_nth)
  next
    case (Some i)
    obtain b e where be: "filterColumn F (Some i) 0 (0, length F) = (b, e)" by fastforce
    note F0 = filterColumn_ok [OF assms(1) _ _ _ _ be, where p = "[]", simplified]
    show ?thesis
    proof (cases "col1Id s")
      case None
      then have r: "r = (b, e)" "matchesSpec s = (\<lambda>row. row ! 0 = i)"
        using assms(2) Some be by (auto simp: specOk_def matchesSpec_def r_def none)
      show ?thesis unfolding r using F0 by (intro filter_interval [symmetric]) auto
    next
      case s1: (Some j)
      obtain b1 e1 where be1: "filterColumn F (Some j) 1 (b, e) = (b1, e1)" by fastforce
      have "take 1 (F ! k) = [i]" if "b \<le> k" "k < e" for k
      proof -
        have "k < length F" using F0(3) that by linarith
        then show ?thesis using F0(4) [of k] t1(1) [OF nth_mem] that by auto
      qed
      note F1 = filterColumn_ok [OF assms(1) F0(2,3) _ this be1, simplified]
      have m1: "b1 \<le> k \<and> k < e1 \<longleftrightarrow> F ! k ! 0 = i \<and> F ! k ! 1 = j" if "k < length F" for k
        using F0(4) [OF that] F1(1,3) F1(4) [of k] by auto
      show ?thesis
      proof (cases "col2Id s")
        case None
        then have r: "r = (b1, e1)" "matchesSpec s = (\<lambda>row. row ! 0 = i \<and> row ! 1 = j)"
          using assms(2) Some s1 be be1 by (auto simp: specOk_def matchesSpec_def r_def none)
        show ?thesis unfolding r using F0 F1 m1 by (intro filter_interval [symmetric]) auto
      next
        case s2: (Some k2)
        obtain b2 e2 where be2: "filterColumn F (Some k2) 2 (b1, e1) = (b2, e2)" by fastforce
        have e1: "e1 \<le> length F" using F0 F1 by auto
        have "take 2 (F ! k) = [i, j]" if "b1 \<le> k" "k < e1" for k
          using m1 [of k] e1 that t1(2) [OF nth_mem, of k] by auto
        note F2 = filterColumn_ok [OF assms(1) F1(2) e1 _ this be2, simplified]
        have r: "r = (b2, e2)" "matchesSpec s = (\<lambda>row. row ! 0 = i \<and> row ! 1 = j \<and> row ! 2 = k2)"
          using assms(2) Some s1 s2 be be1 be2 by (auto simp: specOk_def matchesSpec_def r_def none)
        have "b2 \<le> k \<and> k < e2 \<longleftrightarrow> F ! k ! 0 = i \<and> F ! k ! 1 = j \<and> F ! k ! 2 = k2" if "k < length F" for k
          using m1 [OF that] F2(1,3) F2(4) [of k] by auto
        then show ?thesis unfolding r using F2 e1 by (intro filter_interval [symmetric]) auto
      qed
    qed
  qed
qed

lemma proj_all: "length row = w \<Longrightarrow> proj [0..<w] row = row"
  by (auto simp: proj_def map_nth)

lemma sortedRows_distinct: "sortedRows F \<Longrightarrow> distinct F"
proof (induction F)
  case (Cons row F)
  then have "take 4 row < take 4 r" if "r \<in> set F" for r using that by (auto simp: sortedRows_def)
  then have "row \<notin> set F" by blast
  then show ?case using Cons by (simp add: sortedRows_def)
qed simp

lemma currentRows_sortedRows: "blockReadable file l b rows \<Longrightarrow> sortedRows (currentRows l b rows)"
  using currentRows_set(2,3) blockReadableD(2) by (fastforce simp: sortedRows_def)

lemma sortedRows_filter: "sortedRows F \<Longrightarrow> sortedRows (filter P F)"
  by (auto simp: sortedRows_def intro: sorted_wrt_filter)

definition incompleteResult ::
    "'id ScanSpecification \<Rightarrow> nat list \<Rightarrow> 'id list list \<Rightarrow> 'id list list" where
  "incompleteResult s extra R = map (proj (outColumns s extra)) (filter (matchesSpec s) (filter (wanted s) R))"

lemma outColumns_manual:
  assumes "specOk s" "additionalOk extra"
  shows "filter (\<lambda>c. \<not> deleteGraphColumn (graphFilter (getScanConfig s extra l)) \<or> c \<noteq> 3)
    (scanColumns (getScanConfig s extra l)) = outColumns s extra"
proof (cases "graphsToFilter s \<noteq> None \<and> 3 \<notin> set extra")
  case True
  have "payload extra = extra" using additional_split(1) [OF assms(2)] True by simp
  then show ?thesis using True getScanConfig_eq(1,4) [OF assms, of l]
    by (auto simp: outColumns_def readsGraph_def filter_id_conv)
next
  case False
  then have "\<not> deleteGraphColumn (graphFilter (getScanConfig s extra l))" using getScanConfig_eq(4) [OF assms, of l] by simp
  then show ?thesis using outColumns_scan [OF assms False, of l] by simp
qed

lemma readPossiblyIncompleteBlock_ok:
  fixes l :: "('id::{linorder,order_bot}) LocatedTriplesPerBlock"
  assumes "blockReadable file l b rows" "specOk s" "additionalOk extra" "\<forall>c\<in>set extra. c < numColumnsOf b"
  shows "\<exists>opt :: 'id DecompressedBlockAndMetadata option. readPossiblyIncompleteBlock ex file s (getScanConfig s extra l) b details =
    Inr (incompleteResult s extra (currentRows l b rows), updateDetails opt details)"
proof -
  let ?w = "numColumnsOf b" and ?R = "currentRows l b rows" and ?F = "filter (wanted s) (currentRows l b rows)"
  define all where "all = \<lparr>col0Id = None, col1Id = None, col2Id = None, graphsToFilter = graphsToFilter s\<rparr>"
  note ok = blockReadableD [OF assms(1)] and cfg = getScanConfig_eq [OF assms(2,3), of l]
  have "specOk all" "additionalOk [3..<?w]" "\<forall>c\<in>set [3..<?w]. c < ?w" "prefixFixed (firstFreeColIndex all) b"
      "readsGraph all [3..<?w] \<and> firstFreeColIndex all < 3"
    using ok(2) by (auto simp: all_def specOk_def additionalOk_def prefixFixed_def readsGraph_def firstFreeColIndex_def)
  note read = readAndDecompressBlock_ok [OF assms(1) this, of ex]
  have F: "sortedRows ?F" using currentRows_sortedRows [OF assms(1)] by (rule sortedRows_filter)
  have cols: "outColumns all [3..<?w] = [0..<?w]"
    using ok(2) upt_add_eq_append [of 0 3 "?w - 3"] by (simp add: outColumns_def all_def firstFreeColIndex_def)
  have "map (proj [0..<?w]) ?F = ?F" using currentRows_set(3) [OF assms(1)] by (intro map_idI) (simp add: proj_all)
  moreover have wall: "wanted all = wanted s" by (auto simp: all_def wanted_def fun_eq_iff)
  ultimately have result: "blockResult all [3..<?w] b ?R = ?F"
    using sortedRows_distinct [OF F] wall by (simp add: blockResult_def cols remdups_adj_distinct Let_def)
  obtain opt where opt: "readAndDecompressBlock ex file b (getScanConfig all [3..<?w] l) = Inr opt"
      "(case opt of None \<Rightarrow> [] | Some d \<Rightarrow> decompressedBlock d) = ?F"
    using read unfolding result by fastforce
  have narrowed: "map (\<lambda>i. map (\<lambda>c. ?F ! i ! c) (outColumns s extra)) [bi..<ei] = incompleteResult s extra ?R"
    if "filterColumn ?F (col2Id s) 2 (filterColumn ?F (col1Id s) 1 (filterColumn ?F (col0Id s) 0 (0, length ?F))) = (bi, ei)" for bi ei
  proof -
    have "map (\<lambda>i. map (\<lambda>c. ?F ! i ! c) (outColumns s extra)) [bi..<ei] = map (proj (outColumns s extra)) (map ((!) ?F) [bi..<ei])"
      by (simp add: proj_def)
    also have "map ((!) ?F) [bi..<ei] = filter (matchesSpec s) ?F" using narrow_ok [OF F assms(2)] that by simp
    finally show ?thesis by (simp only: incompleteResult_def)
  qed
  have "ensure CorrectnessViolation (ADDITIONAL_COLUMN_GRAPH_ID < length (offsetsAndCompressedSize b)) = Inr ()"
    using ok(2) by (simp add: ADDITIONAL_COLUMN_GRAPH_ID_def numColumnsOf_def)
  then have "readPossiblyIncompleteBlock ex file s (getScanConfig s extra l) b details =
      Inr (incompleteResult s extra ?R, updateDetails opt details)"
    unfolding readPossiblyIncompleteBlock_def cfg(2,5) all_def [symmetric] ADDITIONAL_COLUMN_GRAPH_ID_def
      numColumnsOf_def [symmetric] Let_def opt(1) outColumns_manual [OF assms(2,3)]
    using narrowed opt(2) by (auto split: prod.splits simp: numColumnsOf_def)
  then show ?thesis by blast
qed

section \<open>Blocks one after the other\<close>

definition blocksSeen :: "LazyScanMetadata \<Rightarrow> nat" where
  "blocksSeen d = numBlocksRead d + numBlocksSkippedBecauseOfGraph d"

text \<open>Processing \<open>n\<close> blocks with the given rows.\<close>

definition stepOk ::
    "nat \<Rightarrow> 'r list \<Rightarrow> LimitOffsetClause \<times> 'r list list \<times> LazyScanMetadata \<Rightarrow> LimitOffsetClause \<times> 'r list list \<times> LazyScanMetadata \<Rightarrow> bool"
  where
  "stepOk n rows = (\<lambda>(lo, blocks, d) (lo', blocks', d').
     (\<forall>rest. concat blocks' @ applyLimitOffset lo' rest = concat blocks @ applyLimitOffset lo (rows @ rest)) \<and>
     (limitClause lo' = None \<longleftrightarrow> limitClause lo = None) \<and>
     (numElementsYielded d = length (concat blocks) \<longrightarrow> numElementsYielded d' = length (concat blocks')) \<and>
     (limitClause lo = None \<longrightarrow> blocksSeen d' = blocksSeen d + n))"

lemma stepOk_trans: "stepOk n rows x y \<Longrightarrow> stepOk m rows' y z \<Longrightarrow> stepOk (n + m) (rows @ rows') x z"
  by (auto simp: stepOk_def split: prod.splits)

lemma stepOk_refl: "stepOk 0 [] x x"
  by (auto simp: stepOk_def split: prod.splits)

lemma stepOk_skip: "stepOk 1 [] (lo, blocks, d) (lo, blocks, updateDetails None d)"
  by (simp add: stepOk_def updateDetails_def blocksSeen_def)

lemma updateDetails_simps [simp]:
  "blocksSeen (updateDetails opt d) = blocksSeen d + 1"
  "numElementsYielded (updateDetails opt d) = numElementsYielded d"
  by (auto simp: updateDetails_def blocksSeen_def split: option.splits)

lemma stepOk_yield:
  assumes "pruneBlock rows lo = (block, lo')"
  shows "stepOk 1 rows (lo, blocks, d) (lo', yieldBlock block (blocks, updateDetails opt d))"
proof -
  have "blocksSeen (snd (yieldBlock block (blocks, updateDetails opt d))) = blocksSeen d + 1"
    using updateDetails_simps(1) [of opt d] by (simp add: yieldBlock_def blocksSeen_def)
  then show ?thesis using pruneBlock_apply [OF assms] by (auto simp: stepOk_def yieldBlock_def)
qed

lemma stepOk_limit_zero:
  assumes "stepOk n rows x (lo', blocks', d')" "limitClause lo' = Some 0"
  shows "stepOk m (rows @ rows') x (lo', blocks', d')"
proof -
  have "applyLimitOffset lo' xs = []" for xs :: "'a list" using assms(2) by (simp add: applyLimitOffset_def)
  then show ?thesis using assms by (auto simp: stepOk_def split: prod.splits)
qed

definition neverCancelled :: "nat \<Rightarrow> bool" where
  "neverCancelled = (\<lambda>_. False)"

lemma throwIfCancelled_never [simp]: "throwIfCancelled neverCancelled d = Inr ()"
  by (simp add: throwIfCancelled_def neverCancelled_def)

lemma asyncParallelBlockGenerator_ok:
  fixes config :: "('id::{linorder,order_bot}) ScanImplConfig"
  assumes "\<And>b. b \<in> set bs \<Longrightarrow>
      (\<exists>d. readAndDecompressBlock ex file b config = Inr (Some d) \<and> decompressedBlock d = M b) \<or>
      (readAndDecompressBlock ex file b config = Inr None \<and> M b = [])"
  shows "\<exists>y. asyncParallelBlockGenerator ex file neverCancelled config bs lo out = Inr y \<and>
    stepOk (length bs) (concat (map M bs)) (lo, out) y"
  using assms
proof (induction bs arbitrary: lo out)
  case Nil
  then show ?case by (simp add: stepOk_refl)
next
  case (Cons b bs)
  obtain blocks d where out: "out = (blocks, d)" by fastforce
  have IH: "\<exists>y. asyncParallelBlockGenerator ex file neverCancelled config bs lo out = Inr y \<and>
      stepOk (length bs) (concat (map M bs)) (lo, out) y" for lo out
    using Cons by (intro Cons.IH) simp
  show ?case
  proof (cases "readAndDecompressBlock ex file b config = Inr None")
    case True
    let ?none = "None :: 'id DecompressedBlockAndMetadata option"
    have "M b = []" using True Cons.prems [of b] by auto
    moreover obtain y where y: "asyncParallelBlockGenerator ex file neverCancelled config bs lo (blocks, updateDetails ?none d) = Inr y"
        "stepOk (length bs) (concat (map M bs)) (lo, blocks, updateDetails ?none d) y"
      using IH [of lo "(blocks, updateDetails ?none d)"] by blast
    ultimately show ?thesis
      using True stepOk_trans [OF stepOk_skip y(2)] by (simp add: out Let_def)
  next
    case False
    then obtain e where e: "readAndDecompressBlock ex file b config = Inr (Some e)" "decompressedBlock e = M b"
      using Cons.prems [of b] by auto
    obtain block lo' where p: "pruneBlock (M b) lo = (block, lo')" by fastforce
    note step = stepOk_yield [OF p, of blocks d "Some e"]
    let ?out = "yieldBlock block (blocks, updateDetails (Some e) d)"
    obtain y where y: "asyncParallelBlockGenerator ex file neverCancelled config bs lo' ?out = Inr y"
        "stepOk (length bs) (concat (map M bs)) (lo', ?out) y" using IH by blast
    have "stepOk (Suc (length bs)) (M b @ concat (map M bs)) (lo, blocks, d) (lo', ?out)" if "limitClause lo' = Some 0"
      using stepOk_limit_zero [of 1 "M b" "(lo, blocks, d)" lo' "fst ?out" "snd ?out"] step that by simp
    moreover have "asyncParallelBlockGenerator ex file neverCancelled config (b # bs) lo out =
        (if limitClause lo' = Some 0 then Inr (lo', ?out) else Inr y)"
      using e p y(1) by (simp add: out Let_def)
    moreover have "stepOk (Suc (length bs)) (M b @ concat (map M bs)) (lo, blocks, d) y"
      using stepOk_trans [OF step y(2)] by simp
    ultimately show ?thesis unfolding out list.size list.map concat.simps
      by (metis add.right_neutral add_Suc_right)
  qed
qed

definition scanResult ::
    "'id ScanSpecification \<Rightarrow> nat list \<Rightarrow> ('id::{linorder,order_bot}) LocatedTriplesPerBlock
      \<Rightarrow> ('id CompressedBlockMetadata \<Rightarrow> 'id list list) \<Rightarrow> 'id CompressedBlockMetadata list \<Rightarrow> 'id list list" where
  "scanResult s extra l rowsOf bs =
     (if bs = [] then []
      else incompleteResult s extra (currentRows l (hd bs) (rowsOf (hd bs))) @
        (if 1 < length bs
         then concat (map (\<lambda>b. blockResult s extra b (currentRows l b (rowsOf b))) (butlast (tl bs))) @
              incompleteResult s extra (currentRows l (last bs) (rowsOf (last bs)))
         else []))"

lemma getIncompleteBlock_ok:
  fixes l :: "('id::{linorder,order_bot}) LocatedTriplesPerBlock"
  assumes "blockReadable file l b rows" "specOk s" "additionalOk extra" "\<forall>c\<in>set extra. c < numColumnsOf b"
  shows "\<exists>y. getIncompleteBlock ex file neverCancelled s (getScanConfig s extra l) b lo out = Inr y \<and>
    stepOk 1 (incompleteResult s extra (currentRows l b rows)) (lo, out) y"
proof -
  obtain blocks d where out: "out = (blocks, d)" by fastforce
  obtain opt :: "'id DecompressedBlockAndMetadata option"
    where "readPossiblyIncompleteBlock ex file s (getScanConfig s extra l) b d =
      Inr (incompleteResult s extra (currentRows l b rows), updateDetails opt d)"
    using readPossiblyIncompleteBlock_ok [OF assms] by blast
  moreover obtain block lo' where "pruneBlock (incompleteResult s extra (currentRows l b rows)) lo = (block, lo')" by fastforce
  ultimately show ?thesis using stepOk_yield by (fastforce simp: getIncompleteBlock_def out)
qed

lemma applyLimitOffset_length: "limitClause lo = Some n \<Longrightarrow> length (applyLimitOffset lo xs) \<le> n"
  by (simp add: applyLimitOffset_def)

lemma lazyScan_ok:
  fixes l :: "('id::{linorder,order_bot}) LocatedTriplesPerBlock"
  assumes "\<forall>b\<in>set bs. blockReadable file l b (rowsOf b) \<and> (\<forall>c\<in>set extra. c < numColumnsOf b)" "specOk s" "additionalOk extra"
    and "\<forall>b\<in>set (butlast (tl bs)). prefixFixed (firstFreeColIndex s) b \<and>
      (hasUpdates l (metaBlockIndex b) \<longrightarrow> readsGraph s extra \<and> firstFreeColIndex s < 3)"
  shows "\<exists>blocks d. lazyScan ex file neverCancelled s bs extra l lo = Inr (blocks, d) \<and>
    concat blocks = applyLimitOffset lo (scanResult s extra l rowsOf bs)"
proof (cases "bs = []")
  case True
  then show ?thesis by (simp add: lazyScan_def scanResult_def applyLimitOffset_def split: option.splits)
next
  case False
  let ?config = "getScanConfig s extra l" and ?I = "\<lambda>b. incompleteResult s extra (currentRows l b (rowsOf b))"
    and ?M = "\<lambda>b. blockResult s extra b (currentRows l b (rowsOf b))"
  have I: "\<exists>y. getIncompleteBlock ex file neverCancelled s ?config b lo out = Inr y \<and> stepOk 1 (?I b) (lo, out) y"
    if "b \<in> set bs" for b lo out
    using that assms(1) by (intro getIncompleteBlock_ok [OF _ assms(2,3)]) auto
  obtain y1 where y1: "getIncompleteBlock ex file neverCancelled s ?config (hd bs) lo ([], noDetails) = Inr y1"
      "stepOk 1 (?I (hd bs)) (lo, [], noDetails) y1" using I [OF hd_in_set [OF False], of lo "([], noDetails)"] by blast
  obtain lo1 out1 where y1': "y1 = (lo1, out1)" by (metis surj_pair)
  have mid: "(\<exists>d. readAndDecompressBlock ex file b ?config = Inr (Some d) \<and> decompressedBlock d = ?M b) \<or>
      (readAndDecompressBlock ex file b ?config = Inr None \<and> ?M b = [])" if "b \<in> set (butlast (tl bs))" for b
  proof -
    have "b \<in> set bs" by (rule list.set_sel(2) [OF False in_set_butlastD [OF that]])
    then show ?thesis using that assms(1,4) by (intro readAndDecompressBlock_ok [OF _ assms(2,3)]) auto
  qed
  have "\<exists>y. (if 1 < length bs
        then res_bind (asyncParallelBlockGenerator ex file neverCancelled ?config (butlast (tl bs)) lo1 out1)
               (\<lambda>(lo, out). getIncompleteBlock ex file neverCancelled s ?config (last bs) lo out)
        else Inr (lo1, out1)) = Inr y \<and>
      stepOk (length bs) (scanResult s extra l rowsOf bs) (lo, [], noDetails) y"
  proof (cases "1 < length bs")
    case True
    obtain y2 where y2: "asyncParallelBlockGenerator ex file neverCancelled ?config (butlast (tl bs)) lo1 out1 = Inr y2"
        "stepOk (length (butlast (tl bs))) (concat (map ?M (butlast (tl bs)))) (lo1, out1) y2"
      using asyncParallelBlockGenerator_ok [OF mid, where lo = lo1 and out = out1] by blast
    obtain lo2 out2 where y2': "y2 = (lo2, out2)" by (metis surj_pair)
    obtain y3 where y3: "getIncompleteBlock ex file neverCancelled s ?config (last bs) lo2 out2 = Inr y3"
        "stepOk 1 (?I (last bs)) (lo2, out2) y3" using I [OF last_in_set [OF False], of lo2 out2] by blast
    have "1 + (length (butlast (tl bs)) + 1) = length bs" using True by simp
    moreover have "stepOk (1 + (length (butlast (tl bs)) + 1)) (scanResult s extra l rowsOf bs) (lo, [], noDetails) y3"
      using stepOk_trans [OF y1(2) [unfolded y1'] stepOk_trans [OF y2(2) [unfolded y2'] y3(2)]] False True
      by (simp add: scanResult_def)
    ultimately show ?thesis using True y2(1) y2' y3(1) by simp
  next
    case F: False
    then have "length bs = 1" using False by (metis One_nat_def length_0_conv linorder_neqE_nat less_one)
    then show ?thesis using y1(2) F y1' False by (simp add: scanResult_def)
  qed
  then obtain lo' blocks d where y: "(if 1 < length bs
        then res_bind (asyncParallelBlockGenerator ex file neverCancelled ?config (butlast (tl bs)) lo1 out1)
               (\<lambda>(lo, out). getIncompleteBlock ex file neverCancelled s ?config (last bs) lo out)
        else Inr (lo1, out1)) = Inr (lo', blocks, d)"
      "stepOk (length bs) (scanResult s extra l rowsOf bs) (lo, [], noDetails) (lo', blocks, d)" by (metis prod_cases3)
  have empty: "applyLimitOffset lo' [] = ([] :: 'id list list)" by (simp add: applyLimitOffset_def split: option.splits)
  then have c: "concat blocks = applyLimitOffset lo (scanResult s extra l rowsOf bs)"
    using y(2) by (fastforce simp: stepOk_def dest: spec [where x = "[]"])
  have n: "numElementsYielded d = length (concat blocks)" using y(2) by (simp add: stepOk_def noDetails_def)
  have "numElementsYielded d \<le> k" if "limitClause lo = Some k" for k
    unfolding n c using that by (rule applyLimitOffset_length)
  moreover have "length bs = numBlocksRead d + numBlocksSkippedBecauseOfGraph d \<or> \<not> isUnconstrained lo'"
    using y(2) by (auto simp: stepOk_def isUnconstrained_def blocksSeen_def noDetails_def)
  ultimately have "lazyScan ex file neverCancelled s bs extra l lo = Inr (blocks, d)"
    using False y1(1) y1' y(1) by (simp add: lazyScan_def Let_def split: option.splits)
  then show ?thesis using c by blast
qed

end
