(* ===== verification/ScanCorrectness.thy ===== *)
theory ScanCorrectness
  imports CompressedRelation "HOL-Library.Extended_Nat"
begin

text \<open>
  The correctness of the scan that \<open>CompressedRelation\<close> models: the blocks that are chosen for a specification, the
  rows that are put together from the first, the middle and the last blocks, and the triples of a whole
  permutation after its updates.
\<close>

section \<open>The relevant blocks\<close>

definition ascending :: "('id::linorder) CompressedBlockMetadata list \<Rightarrow> bool" where
  "ascending bs \<longleftrightarrow> sorted_wrt (\<lambda>b b'. lastTriple b < firstTriple b' \<and> metaBlockIndex b < metaBlockIndex b') bs \<and>
     (\<forall>b\<in>set bs. firstTriple b \<le> lastTriple b \<and> length (firstTriple b) = 4 \<and> length (lastTriple b) = 4)"

definition overlaps :: "('id::{linorder,order_bot,order_top}) ScanSpecification \<Rightarrow> 'id CompressedBlockMetadata \<Rightarrow> bool" where
  "overlaps s b \<longleftrightarrow> keyFirst s \<le> lastTriple b \<and> firstTriple b \<le> keyLast s"

lemma ascending_filter: "ascending bs \<Longrightarrow> ascending (filter P bs)"
  by (auto simp: ascending_def intro: sorted_wrt_filter)

lemma ascending_append: "ascending (xs @ ys) \<Longrightarrow> ascending xs \<and> ascending ys"
  by (auto simp: ascending_def sorted_wrt_append)

lemma ascending_nth:
  assumes "ascending bs" "i \<le> j" "j < length bs"
  shows "lastTriple (bs ! i) \<le> lastTriple (bs ! j)" "firstTriple (bs ! i) \<le> firstTriple (bs ! j)"
proof -
  have le: "firstTriple (bs ! k) \<le> lastTriple (bs ! k)" if "k < length bs" for k using assms(1) that by (simp add: ascending_def)
  have "i = j \<or> lastTriple (bs ! i) < firstTriple (bs ! j)"
    using assms by (cases "i = j") (simp_all add: ascending_def sorted_wrt_iff_nth_less)
  then show "lastTriple (bs ! i) \<le> lastTriple (bs ! j)" "firstTriple (bs ! i) \<le> firstTriple (bs ! j)"
    using le [of i] le [of j] assms(2,3) by (auto intro: order_trans less_imp_le order_less_le_trans order_le_less_trans)
qed

lemma take_drop_interval:
  "u \<le> length xs \<Longrightarrow> take (u - k) (drop k xs) = map ((!) xs) [k..<u]"
  by (rule nth_equalityI) auto

lemma equalRangeBlocks_eq:
  assumes "ascending bs"
  shows "equalRangeBlocks s bs = filter (overlaps s) bs"
proof -
  define lower where "lower = lowerBound (\<lambda>i. lastTriple (bs ! i) < keyFirst s) 0 (length bs)"
  define upper where "upper = lowerBound (\<lambda>i. \<not> keyLast s < firstTriple (bs ! i)) 0 (length bs)"
  have lo: "i < lower \<longleftrightarrow> lastTriple (bs ! i) < keyFirst s" if "i < length bs" for i
    unfolding lower_def using that ascending_nth(1) [OF assms]
    by (intro lowerBound_spec(3)) (auto intro: order_le_less_trans)
  have mono: "\<not> keyLast s < firstTriple (bs ! i)" if "i \<le> j" "j < length bs" "\<not> keyLast s < firstTriple (bs ! j)" for i j
    using ascending_nth(2) [OF assms that(1,2)] that(3) by (auto intro: order_less_le_trans)
  have hi: "i < upper \<longleftrightarrow> \<not> keyLast s < firstTriple (bs ! i)" if "i < length bs" for i
    unfolding upper_def using that mono by (intro lowerBound_spec(3)) auto
  have up: "upper \<le> length bs" unfolding upper_def using mono by (intro lowerBound_spec(2)) auto
  have iff: "overlaps s (bs ! i) \<longleftrightarrow> lower \<le> i \<and> i < upper" if "i < length bs" for i
    using lo [OF that] hi [OF that] by (auto simp: overlaps_def not_less)
  have "filter (overlaps s) bs = map ((!) bs) [lower..<upper]"
  proof (cases "lower \<le> upper")
    case True
    then show ?thesis using up iff by (rule filter_interval)
  next
    case False
    then show ?thesis using iff by (auto simp: filter_empty_conv in_set_conv_nth)
  qed
  then show ?thesis
    using take_drop_interval [OF up, of lower] by (simp add: equalRangeBlocks_def Let_def lower_def upper_def)
qed

lemma concat_nonempty: "concat (filter (\<lambda>r. r \<noteq> []) xss) = concat xss"
  by (induction xss) auto

lemma getRelevantBlocks_eq:
  assumes "ascending (concat ranges)"
  shows "concat (getRelevantBlocks s ranges) = filter (overlaps s) (concat ranges)"
proof -
  have "concat (map (equalRangeBlocks s) ranges) = filter (overlaps s) (concat ranges)"
    using assms by (induction ranges) (auto dest!: ascending_append simp: equalRangeBlocks_eq)
  then show ?thesis by (simp add: getRelevantBlocks_def concat_nonempty)
qed

lemma checkOrderAndUniqueness_ok: "ascending bs \<Longrightarrow> checkOrderAndUniqueness bs = Inr ()"
proof (induction bs rule: checkOrderAndUniqueness.induct)
  case (1 b1 b2 bs)
  then have "ascending (b2 # bs)" "lastTriple b1 < firstTriple b2" "firstTriple b2 \<le> lastTriple b2"
      "metaBlockIndex b1 < metaBlockIndex b2" by (auto simp: ascending_def)
  then show ?case using 1 by (auto simp: ensure_def)
qed simp_all

definition inKey :: "('id::{linorder,order_bot,order_top}) ScanSpecification \<Rightarrow> 'id IdTriple \<Rightarrow> bool" where
  "inKey s t \<longleftrightarrow> keyFirst s \<le> t \<and> t \<le> keyLast s"

lemma key_prefix: "specOk s \<Longrightarrow> take (firstFreeColIndex s) (keyFirst s) = take (firstFreeColIndex s) (keyLast s)"
  by (auto simp: specOk_def keyFirst_def keyLast_def firstFreeColIndex_def orElse_def numeral_2_eq_2 numeral_3_eq_3)

lemma inKey_prefix: "specOk s \<Longrightarrow> inKey s t \<Longrightarrow> take (firstFreeColIndex s) t = take (firstFreeColIndex s) (keyFirst s)"
  using take_between [of "keyFirst s" t "keyLast s"] key_prefix [of s] by (simp add: inKey_def)

lemma inKey_matches:
  fixes row :: "('id::{linorder,order_bot,order_top}) list"
  assumes "specOk s" "4 \<le> length row"
  shows "inKey s (take 4 row) \<longleftrightarrow> matchesSpec s row"
proof
  obtain a b c d rs where row: "row = a # b # c # d # rs" using take4 [OF assms(2)] by blast
  show "matchesSpec s row" if "inKey s (take 4 row)"
    using inKey_prefix [OF assms(1) that] assms(1) unfolding row
    by (auto simp: specOk_def matchesSpec_def keyFirst_def firstFreeColIndex_def orElse_def numeral_2_eq_2 numeral_3_eq_3
        split: if_splits)
  show "inKey s (take 4 row)" if "matchesSpec s row"
    using that unfolding row
    by (auto simp: matchesSpec_def inKey_def keyFirst_def keyLast_def orElse_def Cons_le_Cons less_le split: option.splits)
qed

lemma masked_prefix:
  assumes "take n t = take n t'" "n \<le> 3" "3 \<le> length t" "3 \<le> length t'"
  shows "getMaskedTriple t n = getMaskedTriple t' n" "\<exists>x. getMaskedTriple t n = Inr x"
proof -
  have "t ! i = t' ! i" if "i < n" for i using assms(1) that by (metis nth_take)
  moreover have "n = 0 \<or> n = 1 \<or> n = 2 \<or> n = 3" using assms(2) by linarith
  ultimately show "getMaskedTriple t n = getMaskedTriple t' n" "\<exists>x. getMaskedTriple t n = Inr x"
    by (auto simp: getMaskedTriple_def)
qed

lemma consistent_ok:
  assumes "specOk s" "inKey s (lastTriple b)" "inKey s (firstTriple b')" "length (lastTriple b) = 4" "length (firstTriple b') = 4"
  shows "isConsistentWith b b' (firstFreeColIndex s) = Inr True"
proof -
  have "take (firstFreeColIndex s) (lastTriple b) = take (firstFreeColIndex s) (firstTriple b')"
    using inKey_prefix [OF assms(1)] assms(2,3) by metis
  from masked_prefix [OF this firstFree_le] show ?thesis using assms(4,5) by (auto simp: isConsistentWith_def)
qed

lemma constant_ok:
  assumes "specOk s" "inKey s (firstTriple b)" "inKey s (lastTriple b)" "length (lastTriple b) = 4" "length (firstTriple b) = 4"
  shows "containsInconsistentTriples b (firstFreeColIndex s) = Inr False" "prefixFixed (firstFreeColIndex s) b"
proof -
  have "take (firstFreeColIndex s) (firstTriple b) = take (firstFreeColIndex s) (lastTriple b)"
    using inKey_prefix [OF assms(1)] assms(2,3) by metis
  from this masked_prefix [OF this firstFree_le]
  show "containsInconsistentTriples b (firstFreeColIndex s) = Inr False" "prefixFixed (firstFreeColIndex s) b"
    using assms(4,5) by (auto simp: containsInconsistentTriples_def prefixFixed_def)
qed

lemma checkBlockConsistency_ok:
  fixes bs :: "('id::{linorder,order_bot,order_top}) CompressedBlockMetadata list"
  assumes "ascending bs" "\<forall>b\<in>set bs. overlaps s b" "specOk s" "0 < i \<Longrightarrow> bs \<noteq> [] \<Longrightarrow> keyFirst s \<le> firstTriple (hd bs)"
  shows "checkBlockConsistency i bs (firstFreeColIndex s) = Inr ()"
  using assms
proof (induction i bs "firstFreeColIndex s" rule: checkBlockConsistency.induct)
  case (1 i b1 b2 bs)
  have asc: "ascending (b2 # bs)" "lastTriple b1 < firstTriple b2" "firstTriple b1 \<le> lastTriple b1"
      "length (firstTriple b1) = 4" "length (lastTriple b1) = 4" "length (firstTriple b2) = 4"
    using 1(2) by (auto simp: ascending_def)
  have ov: "keyFirst s \<le> lastTriple b1" "firstTriple b2 \<le> keyLast s" using 1(3) by (auto simp: overlaps_def)
  have "keyFirst s \<le> firstTriple b2" "lastTriple b1 \<le> keyLast s" using ov asc(2) by (auto intro: order_trans less_imp_le)
  then have k: "inKey s (lastTriple b1)" "inKey s (firstTriple b2)" "0 < i \<Longrightarrow> inKey s (firstTriple b1)"
    using ov asc(3) 1(5) by (auto simp: inKey_def intro: order_trans)
  have "checkBlockConsistency (i + 1) (b2 # bs) (firstFreeColIndex s) = Inr ()"
    using 1(1,3) asc(1) k(2) assms(3) by (auto simp: inKey_def)
  then show ?case
    using consistent_ok [OF assms(3) k(1,2) asc(5,6)] constant_ok(1) [OF assms(3) k(3,1) asc(5,4)] by auto
qed simp_all

lemma middle_fixed:
  assumes "ascending bs" "\<forall>b\<in>set bs. overlaps s b" "specOk s" "b \<in> set (butlast (tl bs))"
  shows "inKey s (firstTriple b)" "inKey s (lastTriple b)"
proof -
  obtain j where "j < length (butlast (tl bs))" "b = butlast (tl bs) ! j" using assms(4) by (auto simp: in_set_conv_nth)
  then have j: "j + 2 < length bs" "b = bs ! (j + 1)" by (auto simp: nth_butlast nth_tl)
  then have "lastTriple (bs ! j) < firstTriple b" "lastTriple b < firstTriple (bs ! (j + 2))" "firstTriple b \<le> lastTriple b"
    using assms(1) by (auto simp: ascending_def sorted_wrt_iff_nth_less)
  moreover have "keyFirst s \<le> lastTriple (bs ! j)" "firstTriple (bs ! (j + 2)) \<le> keyLast s"
    using assms(2) j(1) by (auto simp: overlaps_def)
  ultimately show "inKey s (firstTriple b)" "inKey s (lastTriple b)"
    by (auto simp: inKey_def intro: order_trans less_imp_le)
qed

lemma makeScanSpecAndBlocks_ok:
  assumes "ascending (concat ranges)" "specOk s"
  shows "\<exists>sb. makeScanSpecAndBlocks s ranges = Inr sb \<and> scanSpec sb = s \<and>
    concat (blockMetadata sb) = filter (overlaps s) (concat ranges)"
  using checkOrderAndUniqueness_ok [OF assms(1)] getRelevantBlocks_eq [OF assms(1), of s]
    checkBlockConsistency_ok [OF ascending_filter [OF assms(1)] _ assms(2), of "overlaps s" 0]
  by (simp add: makeScanSpecAndBlocks_def Let_def)

section \<open>The rows of the result\<close>

text \<open>Pieces of a sorted list, from some of which adjacent duplicates have been removed.\<close>

definition deduplicated :: "'a list \<Rightarrow> 'a list \<Rightarrow> bool" where
  "deduplicated p x \<longleftrightarrow> p = x \<or> p = remdups_adj x"

lemma sorted_wrt_remdups_adj: "sorted_wrt Q xs \<Longrightarrow> sorted_wrt Q (remdups_adj xs)"
  by (induction xs rule: remdups_adj.induct) auto

lemma deduplicatedD:
  assumes "deduplicated p x"
  shows "set p = set x" "sorted_wrt Q x \<Longrightarrow> sorted_wrt Q p"
  using assms by (auto simp: deduplicated_def intro: sorted_wrt_remdups_adj)

lemma deduplicated_concat_set: "list_all2 deduplicated ps xs \<Longrightarrow> set (concat ps) = set (concat xs)"
  by (induction rule: list_all2_induct) (auto dest: deduplicatedD(1))

lemma deduplicated_concat_sorted:
  "list_all2 deduplicated ps xs \<Longrightarrow> sorted_wrt Q (concat xs) \<Longrightarrow> sorted_wrt Q (concat ps)"
proof (induction rule: list_all2_induct)
  case (Cons p ps x xs)
  then have "\<forall>q\<in>set p. \<forall>c\<in>set (concat xs). Q q c" "sorted_wrt Q (concat xs)" "sorted_wrt Q p"
    using deduplicatedD [OF Cons.hyps(1)] by (auto simp: sorted_wrt_append)
  then show ?case using Cons.IH deduplicated_concat_set [OF Cons.hyps(2)] by (simp add: sorted_wrt_append)
qed simp

definition matchingRows ::
    "('id::{linorder,order_bot}) ScanSpecification \<Rightarrow> 'id LocatedTriplesPerBlock \<Rightarrow> ('id CompressedBlockMetadata \<Rightarrow> 'id list list)
      \<Rightarrow> 'id CompressedBlockMetadata \<Rightarrow> 'id list list" where
  "matchingRows s l rowsOf b = filter (matchesSpec s) (filter (wanted s) (currentRows l b (rowsOf b)))"

lemma split_ends: "1 < length xs \<Longrightarrow> xs = hd xs # butlast (tl xs) @ [last xs]"
  by (cases xs) (auto simp: append_butlast_last_id)

lemma scanResult_pieces:
  fixes bs :: "('id::{linorder,order_bot,order_top}) CompressedBlockMetadata list"
  assumes "\<forall>b\<in>set bs. blockReadable file l b (rowsOf b)" "ascending bs" "\<forall>b\<in>set bs. overlaps s b" "specOk s"
  shows "\<exists>ps. scanResult s extra l rowsOf bs = concat ps \<and>
    list_all2 deduplicated ps (map (\<lambda>b. map (proj (outColumns s extra)) (matchingRows s l rowsOf b)) bs)"
proof (cases "1 < length bs")
  case False
  then consider "bs = []" | b where "bs = [b]" by (cases bs) auto
  then show ?thesis
  proof cases
    case (2 b)
    then show ?thesis
      by (intro exI [of _ "[map (proj (outColumns s extra)) (matchingRows s l rowsOf b)]"])
        (simp add: scanResult_def incompleteResult_def matchingRows_def deduplicated_def)
  qed (simp add: scanResult_def)
next
  case True
  define h where "h = (\<lambda>b. map (proj (outColumns s extra)) (matchingRows s l rowsOf b))"
  let ?M = "\<lambda>b. blockResult s extra b (currentRows l b (rowsOf b))"
  let ?ps = "h (hd bs) # map ?M (butlast (tl bs)) @ [h (last bs)]"
  have mid: "deduplicated (?M b) (h b)" if b: "b \<in> set (butlast (tl bs))" for b
  proof -
    have "bs \<noteq> []" using True by auto
    then have mem: "b \<in> set bs" by (rule list.set_sel(2) [OF _ in_set_butlastD [OF b]])
    then have ok: "blockReadable file l b (rowsOf b)" using assms(1) by blast
    have "matchesSpec s row" if "row \<in> set (currentRows l b (rowsOf b))" for row
    proof -
      have "inBlock b (take 4 row)" "4 \<le> length row"
        using currentRows_described(1) [OF ok that] currentRows_sortedRows [OF ok] that by (auto simp: sortedRows_def)
      then show ?thesis using middle_fixed [OF assms(2-4) b] inKey_matches [OF assms(4)]
        by (auto simp: inBlock_def inKey_def intro: order_trans)
    qed
    then have "matchingRows s l rowsOf b = filter (wanted s) (currentRows l b (rowsOf b))"
      by (auto simp: matchingRows_def intro!: filter_cong)
    then show ?thesis by (simp add: h_def blockResult_def deduplicated_def Let_def)
  qed
  have "scanResult s extra l rowsOf bs = concat ?ps"
    using True by (auto simp: scanResult_def h_def matchingRows_def incompleteResult_def)
  moreover have "list_all2 deduplicated ?ps (map h (hd bs # butlast (tl bs) @ [last bs]))"
  proof -
    have "list_all2 deduplicated (map ?M (butlast (tl bs))) (map h (butlast (tl bs)))"
      using mid by (simp add: list_all2_map1 list_all2_map2 list_all2_same)
    moreover have "deduplicated x x" for x :: "'id list list" by (simp add: deduplicated_def)
    ultimately show ?thesis by (simp add: list_all2_appendI)
  qed
  ultimately show ?thesis by (intro exI [of _ ?ps]) (simp only: h_def [symmetric] split_ends [OF True, symmetric] simp_thms)
qed

lemma matchingRows_sorted:
  fixes bs :: "('id::{linorder,order_bot}) CompressedBlockMetadata list"
  assumes "\<forall>b\<in>set bs. blockReadable file l b (rowsOf b)" "ascending bs"
  shows "sortedRows (concat (map (matchingRows s l rowsOf) bs))"
  using assms
proof (induction bs)
  case (Cons b bs)
  have asc: "ascending bs" "\<forall>b'\<in>set bs. lastTriple b < firstTriple b'" using Cons.prems(2) by (auto simp: ascending_def)
  have R: "inBlock b' (take 4 row)" if "b' \<in> set (b # bs)" "row \<in> set (matchingRows s l rowsOf b')" for b' row
    using currentRows_described(1) [of _ l b' "rowsOf b'"] Cons.prems(1) that by (auto simp: matchingRows_def)
  have "take 4 r < take 4 r'" if "r \<in> set (matchingRows s l rowsOf b)" "b' \<in> set bs" "r' \<in> set (matchingRows s l rowsOf b')" for r r' b'
    using R [of b r] R [of b' r'] asc(2) that by (auto simp: inBlock_def intro: order_le_less_trans order_less_le_trans)
  moreover have "sortedRows (matchingRows s l rowsOf b)"
    using Cons.prems(1) by (auto simp: matchingRows_def intro!: sortedRows_filter currentRows_sortedRows)
  ultimately show ?case using Cons.IH Cons.prems(1) asc(1) by (auto simp: sortedRows_def sorted_wrt_append)
qed (simp add: sortedRows_def)

lemma take_proj:
  fixes row :: "'id list"
  assumes "4 \<le> length row" "ff \<le> 3"
  shows "take (3 - ff) (proj ([ff..<3] @ extra) row) = drop ff (take 3 row)"
    and "take (4 - ff) (proj ([ff..<3] @ 3 # extra) row) = drop ff (take 4 row)"
proof -
  obtain a b c d rs where row: "row = a # b # c # d # rs" using take4 [OF assms(1)] by blast
  have up: "[2..<3] = [2::nat]" "[Suc 0..<3] = [1, 2::nat]" "[0..<3] = [0, 1, 2::nat]" by (simp_all add: upt_rec)
  have "ff = 0 \<or> ff = 1 \<or> ff = 2 \<or> ff = 3" using assms(2) by linarith
  then show "take (3 - ff) (proj ([ff..<3] @ extra) row) = drop ff (take 3 row)"
      "take (4 - ff) (proj ([ff..<3] @ 3 # extra) row) = drop ff (take 4 row)"
    by (auto simp: row proj_def up)
qed

lemma matching_prefix:
  fixes row :: "('id::{linorder,order_bot,order_top}) list"
  assumes "specOk s" "matchesSpec s row" "4 \<le> length row"
  shows "take (firstFreeColIndex s) row = take (firstFreeColIndex s) (keyFirst s)"
  using inKey_prefix [OF assms(1)] inKey_matches [OF assms(1,3)] assms(2) firstFree_le [of s] by (fastforce simp: min_absorb1)

lemma scanResult_sorted:
  fixes bs :: "('id::{linorder,order_bot,order_top}) CompressedBlockMetadata list"
  assumes "\<forall>b\<in>set bs. blockReadable file l b (rowsOf b)" "ascending bs" "\<forall>b\<in>set bs. overlaps s b" "specOk s" "additionalOk extra"
  defines "R \<equiv> scanResult s extra l rowsOf bs"
  shows "sorted_wrt (\<lambda>x y. take (3 - firstFreeColIndex s) x \<le> take (3 - firstFreeColIndex s) y) R"
    and "3 \<in> set extra \<Longrightarrow> sorted_wrt (\<lambda>x y. take (4 - firstFreeColIndex s) x < take (4 - firstFreeColIndex s) y) R"
    and "set R = proj (outColumns s extra) ` (\<Union>b\<in>set bs. set (matchingRows s l rowsOf b))"
proof -
  let ?out = "proj (outColumns s extra)" and ?ff = "firstFreeColIndex s"
  let ?L = "concat (map (matchingRows s l rowsOf) bs)"
  obtain ps where ps: "R = concat ps" "list_all2 deduplicated ps (map (\<lambda>b. map ?out (matchingRows s l rowsOf b)) bs)"
    using scanResult_pieces [OF assms(1-4), of extra] unfolding R_def by blast
  have L: "concat (map (\<lambda>b. map ?out (matchingRows s l rowsOf b)) bs) = map ?out ?L" by (simp add: map_concat o_def)
  note pieces = deduplicated_concat_set [OF ps(2), unfolded L, folded ps(1)]
    deduplicated_concat_sorted [OF ps(2), unfolded L, folded ps(1)]
  have srt: "sortedRows ?L" by (rule matchingRows_sorted [OF assms(1,2)])
  have row: "4 \<le> length r \<and> take ?ff r = take ?ff (keyFirst s)" if "r \<in> set ?L" for r
    using srt that matching_prefix [OF assms(4), of r] by (auto simp: sortedRows_def matchingRows_def)
  have lt: "drop ?ff (take 4 r) < drop ?ff (take 4 r')" if "r \<in> set ?L" "r' \<in> set ?L" "take 4 r < take 4 r'" for r r'
  proof -
    have "take ?ff (take 4 r) = take ?ff (take 4 r')" using row that firstFree_le [of s] by (simp add: min_absorb1)
    from drop_less_iff(1) [OF this] that(3) show ?thesis by simp
  qed
  show "set R = ?out ` (\<Union>b\<in>set bs. set (matchingRows s l rowsOf b))" using pieces(1) by auto
  show "sorted_wrt (\<lambda>x y. take (3 - ?ff) x \<le> take (3 - ?ff) y) R"
  proof (rule pieces(2), unfold sorted_wrt_map, rule sorted_wrt_mono_rel)
    show "sorted_wrt (\<lambda>r r'. take 4 r < take 4 r') ?L" using srt by (simp add: sortedRows_def)
    fix r r' assume r: "r \<in> set ?L" "r' \<in> set ?L" "take 4 r < take 4 r'"
    have "drop ?ff (take 4 r) \<le> drop ?ff (take 4 r')" using lt [OF r] by simp
    from take_mono_lex [OF this, of "3 - ?ff"] have "drop ?ff (take 3 r) \<le> drop ?ff (take 3 r')"
      using firstFree_le [of s] by (simp add: take_drop)
    then show "take (3 - ?ff) (?out r) \<le> take (3 - ?ff) (?out r')"
      using row [OF r(1)] row [OF r(2)] firstFree_le [of s] by (simp add: outColumns_def take_proj)
  qed
  show "sorted_wrt (\<lambda>x y. take (4 - ?ff) x < take (4 - ?ff) y) R" if three: "3 \<in> set extra"
  proof (rule pieces(2), unfold sorted_wrt_map, rule sorted_wrt_mono_rel)
    show "sorted_wrt (\<lambda>r r'. take 4 r < take 4 r') ?L" using srt by (simp add: sortedRows_def)
    fix r r' assume r: "r \<in> set ?L" "r' \<in> set ?L" "take 4 r < take 4 r'"
    have "extra = 3 # payload extra" using additional_split(1) [OF assms(5)] three by simp
    then have "outColumns s extra = [?ff..<3] @ 3 # payload extra" by (simp add: outColumns_def)
    then show "take (4 - ?ff) (?out r) < take (4 - ?ff) (?out r')"
      using lt [OF r] row [OF r(1)] row [OF r(2)] firstFree_le [of s] by (simp add: take_proj)
  qed
qed

section \<open>Permutations with updates\<close>

text \<open>A permutation of the index as it is built: \<open>orig\<close> is the metadata of its blocks, \<open>idx\<close> the rows of each block with
  \<open>w\<close> columns. Decompressing an empty range of the file gives nothing.\<close>

definition indexOk ::
    "('id::{linorder,order_bot}) columnFile \<Rightarrow> nat \<Rightarrow> 'id CompressedBlockMetadata list \<Rightarrow> 'id list list list \<Rightarrow> bool" where
  "indexOk file w orig idx \<longleftrightarrow> length idx = length orig \<and> 4 \<le> w \<and> blocksSorted orig \<and> file (0, 0) = Some [] \<and>
     (\<forall>i<length orig. storedRows file (orig ! i) (idx ! i) \<and> numColumnsOf (orig ! i) = w \<and> metaBlockIndex (orig ! i) = i \<and>
        length (firstTriple (orig ! i)) = 4 \<and> length (lastTriple (orig ! i)) = 4 \<and>
        sorted_wrt (\<lambda>r r'. take 4 r < take 4 r') (idx ! i) \<and> (\<forall>row\<in>set (idx ! i). inBlock (orig ! i) (take 4 row)) \<and>
        (\<forall>gs row. graphInfo (orig ! i) = Some gs \<longrightarrow> row \<in> set (idx ! i) \<longrightarrow> row ! 3 \<in> set gs) \<and>
        (\<not> containsDuplicatesWithDifferentGraphs (orig ! i) \<longrightarrow> distinct (map (take 3) (idx ! i))))"

definition locatedTriplesOk :: "('id::linorder) CompressedBlockMetadata list \<Rightarrow> 'id LocatedTriplesPerBlock \<Rightarrow> bool" where
  "locatedTriplesOk orig l \<longleftrightarrow> ltOk l \<and> originalMetadata l = Some orig \<and> locatedIn orig l \<and>
     (\<forall>lt\<in>locatedSet l. length (ltTriple lt) = 4)"

definition insertedTriples :: "'id LocatedTriplesPerBlock \<Rightarrow> 'id IdTriple set" where
  "insertedTriples l = ltTriple ` {lt \<in> locatedSet l. ltInsert lt}"

definition deletedTriples :: "'id LocatedTriplesPerBlock \<Rightarrow> 'id IdTriple set" where
  "deletedTriples l = ltTriple ` {lt \<in> locatedSet l. \<not> ltInsert lt}"

definition indexRows :: "'id list list list \<Rightarrow> 'id list set" where
  "indexRows idx = set (concat idx)"

text \<open>The triples after the updates: those of the index that are not deleted, and the inserted ones that are not in the
  index, with undefined values in the additional columns.\<close>

definition updatedRows :: "('id::order_bot) LocatedTriplesPerBlock \<Rightarrow> nat \<Rightarrow> 'id list list list \<Rightarrow> 'id list set" where
  "updatedRows l w idx =
     {row \<in> indexRows idx. take 4 row \<notin> deletedTriples l} \<union>
     {t @ replicate (w - 4) bot |t. t \<in> insertedTriples l \<and> t \<notin> take 4 ` indexRows idx}"

definition lastBlockOf :: "nat \<Rightarrow> ('id::linorder) LocatedTriples \<Rightarrow> 'id CompressedBlockMetadata" where
  "lastBlockOf n lts = updateGraphMetadata
     \<lparr>offsetsAndCompressedSize = replicate 4 (0, 0), numRows = 0, firstTriple = ltTriple (hd lts), lastTriple = ltTriple (last lts),
      graphInfo = Some [], containsDuplicatesWithDifferentGraphs = True, metaBlockIndex = n\<rparr> lts"

lemma augmented_blocks:
  assumes "originalMetadata l = Some orig" "getAugmentedMetadata (updateAugmentedMetadata l) = Inr m"
  shows "m = map (\<lambda>i. updateBlock l i (orig ! i)) [0..<length orig] @
      (case ltMap l (length orig) of None \<Rightarrow> [] | Some lts \<Rightarrow> [lastBlockOf (length orig) lts])"
    and "augments l orig m"
proof -
  have "map (\<lambda>(i, b). updateBlock l i b) (List.enumerate 0 orig) = map (\<lambda>i. updateBlock l i (orig ! i)) [0..<length orig]"
    by (rule nth_equalityI) (simp_all add: nth_enumerate_eq)
  then show "m = map (\<lambda>i. updateBlock l i (orig ! i)) [0..<length orig] @
      (case ltMap l (length orig) of None \<Rightarrow> [] | Some lts \<Rightarrow> [lastBlockOf (length orig) lts])"
    using assms by (cases "ltMap l (length orig)")
      (simp_all add: updateAugmentedMetadata_def getAugmentedMetadata_def Let_def lastBlockOf_def)
  show "augments l orig m"
    using updateAugmentedMetadata_nth [OF assms(1)] assms(2) by (auto simp: augments_def getAugmentedMetadata_def)
qed

lemma updateGraphMetadata_more [simp]:
  "offsetsAndCompressedSize (updateGraphMetadata b lts) = offsetsAndCompressedSize b"
  "metaBlockIndex (updateGraphMetadata b lts) = metaBlockIndex b"
  by (auto simp: updateGraphMetadata_def Let_def split: option.splits)

lemma updateBlock_fields:
  "offsetsAndCompressedSize (updateBlock l i b) = offsetsAndCompressedSize b"
  "metaBlockIndex (updateBlock l i b) = metaBlockIndex b" "numRows (updateBlock l i b) = numRows b"
  "ltMap l i = None \<Longrightarrow> updateBlock l i b = b"
  "ltMap l i \<noteq> None \<Longrightarrow> containsDuplicatesWithDifferentGraphs (updateBlock l i b)"
  by (auto simp: updateBlock_def split: option.splits)

lemma updatesOf_located:
  assumes "ltOk l" "lt \<in> set (updatesOf l b)"
  shows "ltBlock lt = metaBlockIndex b" "lt \<in> locatedSet l"
  using assms by (cases "ltMap l (metaBlockIndex b)"; fastforce simp: updatesOf_def locatedSet_def ltOk_def blockOkLt_def)+

lemma updates_sorted: "ltOk l \<Longrightarrow> sorted_wrt (\<lambda>x y. ltTriple x < ltTriple y) (updatesOf l b)"
  by (auto simp: updatesOf_def ltOk_def blockOkLt_def split: option.splits)

lemma indexOkD:
  assumes "indexOk file w orig idx" "i < length orig"
  shows "storedRows file (orig ! i) (idx ! i)" "numColumnsOf (orig ! i) = w" "metaBlockIndex (orig ! i) = i"
    "length (firstTriple (orig ! i)) = 4" "length (lastTriple (orig ! i)) = 4"
    "sorted_wrt (\<lambda>r r'. take 4 r < take 4 r') (idx ! i)" "\<forall>row\<in>set (idx ! i). inBlock (orig ! i) (take 4 row)"
    "graphInfo (orig ! i) = Some gs \<Longrightarrow> row \<in> set (idx ! i) \<Longrightarrow> row ! 3 \<in> set gs"
    "\<not> containsDuplicatesWithDifferentGraphs (orig ! i) \<Longrightarrow> distinct (map (take 3) (idx ! i))"
  using assms by (auto simp: indexOk_def)

lemma updates_described:
  assumes "locatedTriplesOk orig l" "augments l orig m" "m ! metaBlockIndex b = b"
  shows "\<forall>lt\<in>set (updatesOf l b). length (ltTriple lt) = 4 \<and> describes b lt"
proof
  fix lt assume lt: "lt \<in> set (updatesOf l b)"
  have "ltOk l" using assms(1) by (simp add: locatedTriplesOk_def)
  note loc = updatesOf_located [OF this lt]
  then show "length (ltTriple lt) = 4 \<and> describes b lt"
    using augments_describes [of l orig m lt] assms by (auto simp: locatedTriplesOk_def)
qed

lemma block_readable:
  assumes "indexOk file w orig idx" "locatedTriplesOk orig l" "augments l orig m" "i < length orig"
  shows "blockReadable file l (updateBlock l i (orig ! i)) (idx ! i)"
proof -
  let ?b = "updateBlock l i (orig ! i)"
  note ok = indexOkD [OF assms(1,4)]
  have l: "ltOk l" "locatedIn orig l" using assms(2) by (auto simp: locatedTriplesOk_def)
  note border = updateBlock_borders [OF l assms(4)]
  have idx: "metaBlockIndex ?b = i" using ok(3) by (simp add: updateBlock_fields)
  have "\<forall>lt\<in>set (updatesOf l ?b). length (ltTriple lt) = 4 \<and> describes ?b lt"
    using assms(3,4) idx by (intro updates_described [OF assms(2,3)]) (simp add: augments_def)
  moreover have "\<forall>row\<in>set (idx ! i). inBlock ?b (take 4 row)"
    using ok(7) border(1,2) by (auto simp: inBlock_def intro: order_trans)
  moreover have "row ! 3 \<in> set gs" if "graphInfo ?b = Some gs" "row \<in> set (idx ! i)" for gs row
    using updateBlock_graphs [OF that(1)] ok(8) that(2) by blast
  moreover have "hasUpdates l i \<longrightarrow> containsDuplicatesWithDifferentGraphs ?b" by (simp add: hasUpdates_def updateBlock_fields)
  moreover have "\<not> containsDuplicatesWithDifferentGraphs ?b \<longrightarrow> distinct (map (take 3) (idx ! i))"
    using ok(9) updateBlock_fields(4,5) by metis
  ultimately show ?thesis
    using ok(1,2,6) assms(1) updates_sorted [OF l(1)] idx
    by (auto simp: blockReadable_def storedRows_def numColumnsOf_def updateBlock_fields indexOk_def)
qed

lemma last_readable:
  assumes "indexOk file w orig idx" "locatedTriplesOk orig l" "augments l orig m" "ltMap l (length orig) = Some lts"
    "m ! length orig = lastBlockOf (length orig) lts"
  shows "blockReadable file l (lastBlockOf (length orig) lts) []"
proof -
  have "\<forall>lt\<in>set (updatesOf l (lastBlockOf (length orig) lts)). length (ltTriple lt) = 4 \<and>
      describes (lastBlockOf (length orig) lts) lt"
    using assms(5) by (intro updates_described [OF assms(2,3)]) (simp add: lastBlockOf_def)
  moreover have "ltOk l" using assms(2) by (simp add: locatedTriplesOk_def)
  ultimately show ?thesis
    using assms(1) updates_sorted [of l]
    by (simp add: blockReadable_def storedRows_def numColumnsOf_def lastBlockOf_def indexOk_def)
qed

definition rowsIn :: "'id list list list \<Rightarrow> 'id CompressedBlockMetadata \<Rightarrow> 'id list list" where
  "rowsIn idx b = (if metaBlockIndex b < length idx then idx ! metaBlockIndex b else [])"

lemma augmented_nth:
  assumes "indexOk file w orig idx" "locatedTriplesOk orig l" "getAugmentedMetadata (updateAugmentedMetadata l) = Inr m" "i < length m"
  shows "metaBlockIndex (m ! i) = i" "rowsIn idx (m ! i) = (if i < length orig then idx ! i else [])"
    "numColumnsOf (m ! i) = (if i < length orig then w else 4)" "blockReadable file l (m ! i) (rowsIn idx (m ! i))"
    "length (firstTriple (m ! i)) = 4" "length (lastTriple (m ! i)) = 4" "i \<le> length orig"
    "i = length orig \<Longrightarrow> ltMap l i \<noteq> None"
proof -
  have l: "ltOk l" "originalMetadata l = Some orig" "locatedIn orig l" "\<forall>lt\<in>locatedSet l. length (ltTriple lt) = 4"
    using assms(2) by (auto simp: locatedTriplesOk_def)
  note m = augmented_blocks [OF l(2) assms(3)]
  have len: "length idx = length orig" using assms(1) by (simp add: indexOk_def)
  have upd: "length (ltTriple lt) = 4" if "ltMap l j = Some lts" "lt \<in> set lts" for j lts lt
    using l(4) that by (auto simp: locatedSet_def)
  have ends: "hd lts \<in> set lts" "last lts \<in> set lts" if "ltMap l j = Some lts" for j lts
    using ltOk_block [OF l(1) that] by (auto simp: blockOkLt_def)
  have "metaBlockIndex (m ! i) = i \<and> rowsIn idx (m ! i) = (if i < length orig then idx ! i else []) \<and>
    numColumnsOf (m ! i) = (if i < length orig then w else 4) \<and> blockReadable file l (m ! i) (rowsIn idx (m ! i)) \<and>
    length (firstTriple (m ! i)) = 4 \<and> length (lastTriple (m ! i)) = 4 \<and> i \<le> length orig \<and> (i = length orig \<longrightarrow> ltMap l i \<noteq> None)"
  proof (cases "i < length orig")
    case True
    note ok = indexOkD [OF assms(1) True]
    have mi: "m ! i = updateBlock l i (orig ! i)" using True m(1) by (simp add: nth_append)
    have "length (firstTriple (m ! i)) = 4 \<and> length (lastTriple (m ! i)) = 4"
      using ok(4,5) upd ends unfolding mi by (auto simp: updateBlock_def min_def max_def split: option.splits)
    moreover have "metaBlockIndex (m ! i) = i" using ok(3) by (simp add: mi updateBlock_fields)
    moreover have "blockReadable file l (m ! i) (idx ! i)" unfolding mi by (rule block_readable [OF assms(1,2) m(2) True])
    ultimately show ?thesis using True len ok(2) by (simp add: rowsIn_def mi numColumnsOf_def updateBlock_fields)
  next
    case False
    then obtain lts where lts: "ltMap l (length orig) = Some lts" "i = length orig"
      using assms(4) m(1) by (cases "ltMap l (length orig)") auto
    then have mi: "m ! length orig = lastBlockOf (length orig) lts" using m(1) by (simp add: nth_append)
    have "blockReadable file l (lastBlockOf (length orig) lts) []" by (rule last_readable [OF assms(1,2) m(2) lts(1) mi])
    then show ?thesis using lts mi upd [OF lts(1)] ends [OF lts(1)] len
      by (simp add: lastBlockOf_def rowsIn_def numColumnsOf_def)
  qed
  then show "metaBlockIndex (m ! i) = i" "rowsIn idx (m ! i) = (if i < length orig then idx ! i else [])"
    "numColumnsOf (m ! i) = (if i < length orig then w else 4)" "blockReadable file l (m ! i) (rowsIn idx (m ! i))"
    "length (firstTriple (m ! i)) = 4" "length (lastTriple (m ! i)) = 4" "i \<le> length orig"
    "i = length orig \<Longrightarrow> ltMap l i \<noteq> None" by blast+
qed

lemma blocksSorted_less:
  assumes "blocksSorted bs" "i < j" "j < length bs"
  shows "lastTriple (bs ! i) < firstTriple (bs ! j)"
  using assms(2,3)
proof (induction j)
  case (Suc j)
  have step: "lastTriple (bs ! j) < firstTriple (bs ! Suc j)" "firstTriple (bs ! j) \<le> lastTriple (bs ! j)"
    using assms(1) Suc.prems by (auto simp: blocksSorted_def)
  show ?case
  proof (cases "i = j")
    case False
    then have "lastTriple (bs ! i) < firstTriple (bs ! j)" using Suc by simp
    then show ?thesis using step by (meson less_trans order_less_le_trans)
  qed (use step in simp)
qed simp

lemma augmented_ascending:
  assumes "indexOk file w orig idx" "locatedTriplesOk orig l" "getAugmentedMetadata (updateAugmentedMetadata l) = Inr m"
  shows "ascending m"
proof -
  have l: "ltOk l" "originalMetadata l = Some orig" "locatedIn orig l" using assms(2) by (auto simp: locatedTriplesOk_def)
  have "blocksSorted m"
    using augments_sorted [OF l(1,3) augmented_blocks(2) [OF l(2) assms(3)]] assms(1) by (simp add: indexOk_def)
  then show ?thesis
    using blocksSorted_less [of m] augmented_nth [OF assms]
    by (auto simp: ascending_def sorted_wrt_iff_nth_less in_set_conv_nth blocksSorted_def)
qed

lemma row_located:
  assumes "indexOk file w orig idx" "i < length orig" "row \<in> set (idx ! i)"
  shows "lowerBoundBlock orig (take 4 row) = i"
proof (rule ccontr)
  let ?k = "lowerBoundBlock orig (take 4 row)"
  assume "?k \<noteq> i"
  have b: "firstTriple (orig ! i) \<le> take 4 row" "take 4 row \<le> lastTriple (orig ! i)"
    using indexOkD(7) [OF assms(1,2)] assms(3) by (auto simp: inBlock_def)
  note spec = lowerBoundBlock_spec [where bs = orig and t = "take 4 row"]
  show False
  proof (cases "?k < i")
    case True
    then have "take 4 row \<le> lastTriple (orig ! ?k)" using spec(3) assms(2) by simp
    moreover have "lastTriple (orig ! ?k) < firstTriple (orig ! i)"
      using assms(1,2) True by (intro blocksSorted_less) (auto simp: indexOk_def)
    ultimately show False using b(1) by simp
  next
    case False
    then have "lastTriple (orig ! i) < take 4 row" using spec(2) [of i] \<open>?k \<noteq> i\<close> by simp
    then show False using b(2) by simp
  qed
qed

definition padRow :: "nat \<Rightarrow> ('id::order_bot) list \<Rightarrow> 'id list" where
  "padRow w row = row @ replicate (w - length row) bot"

lemma padRow_simps:
  assumes "4 \<le> length row"
  shows "matchesSpec s (padRow w row) = matchesSpec s row" "wanted s (padRow w row) = wanted s row"
    "\<forall>c\<in>set cols. c < length row \<Longrightarrow> proj cols (padRow w row) = proj cols row"
  using assms by (auto simp: padRow_def matchesSpec_def wanted_def proj_def nth_append split: option.splits)

lemma located_update:
  assumes "indexOk file w orig idx" "locatedTriplesOk orig l" "getAugmentedMetadata (updateAugmentedMetadata l) = Inr m"
    "lt \<in> locatedSet l"
  shows "lt \<in> set (updatesOf l (m ! ltBlock lt))" "ltBlock lt < length m" "ltBlock lt = lowerBoundBlock orig (ltTriple lt)"
proof -
  have l: "ltOk l" "originalMetadata l = Some orig" "locatedIn orig l" using assms(2) by (auto simp: locatedTriplesOk_def)
  show k: "ltBlock lt < length m"
    using augments_describes [OF l(1,3) augmented_blocks(2) [OF l(2) assms(3)] assms(4)] by simp
  obtain j lts where j: "ltMap l j = Some lts" "lt \<in> set lts" using assms(4) by (auto simp: locatedSet_def)
  then have "ltBlock lt = j" using ltOk_block [OF l(1) j(1)] by (auto simp: blockOkLt_def)
  then show "lt \<in> set (updatesOf l (m ! ltBlock lt))"
    using j augmented_nth(1) [OF assms(1-3) k] by (simp add: updatesOf_def)
  show "ltBlock lt = lowerBoundBlock orig (ltTriple lt)" using l(3) assms(4) by (simp add: locatedIn_def)
qed

lemma indexRows_nth: "length idx = n \<Longrightarrow> indexRows idx = (\<Union>i<n. set (idx ! i))"
  unfolding indexRows_def set_concat set_conv_nth [of idx] by auto

text \<open>The rows of a block in terms of all triples of the permutation.\<close>

lemma currentRows_global:
  assumes "indexOk file w orig idx" "locatedTriplesOk orig l" "getAugmentedMetadata (updateAugmentedMetadata l) = Inr m"
    "i < length m"
  shows "set (currentRows l (m ! i) (rowsIn idx (m ! i))) =
      {row \<in> set (rowsIn idx (m ! i)). take 4 row \<notin> deletedTriples l} \<union>
      {ltTriple lt @ replicate (numColumnsOf (m ! i) - 4) bot |lt.
         lt \<in> locatedSet l \<and> ltBlock lt = i \<and> ltInsert lt \<and> ltTriple lt \<notin> take 4 ` indexRows idx}"
proof -
  note nth = augmented_nth [OF assms] and loc = located_update [OF assms(1-3)]
  have ok: "ltOk l" "length idx = length orig" using assms(1,2) by (auto simp: locatedTriplesOk_def indexOk_def)
  have upd: "lt \<in> set (updatesOf l (m ! i)) \<longleftrightarrow> lt \<in> locatedSet l \<and> ltBlock lt = i" for lt
    using updatesOf_located [OF ok(1), of lt "m ! i"] nth(1) loc(1) [of lt] by auto
  have row: "i = lowerBoundBlock orig (take 4 row)" "row \<in> indexRows idx" if "row \<in> set (rowsIn idx (m ! i))" for row
    using row_located [OF assms(1), of i row] nth(2) that indexRows_nth [OF ok(2)] by (auto split: if_splits)
  have new: "ltTriple lt \<notin> take 4 ` set (rowsIn idx (m ! i)) \<longleftrightarrow> ltTriple lt \<notin> take 4 ` indexRows idx"
    if lt: "lt \<in> locatedSet l" "ltBlock lt = i" for lt
  proof -
    have "row \<in> set (rowsIn idx (m ! i))" if r: "row \<in> indexRows idx" "ltTriple lt = take 4 row" for row
    proof -
      obtain j where j: "j < length orig" "row \<in> set (idx ! j)" using r(1) indexRows_nth [OF ok(2)] by auto
      then have "j = i" using row_located [OF assms(1) j] loc(3) [OF lt(1)] lt(2) r(2) by simp
      then show ?thesis using j nth(2) by simp
    qed
    then show ?thesis using row(2) by blast
  qed
  have kept: "(\<forall>lt\<in>set (updatesOf l (m ! i)). \<not> ltInsert lt \<longrightarrow> ltTriple lt \<noteq> take 4 row) \<longleftrightarrow> take 4 row \<notin> deletedTriples l"
    if r: "row \<in> set (rowsIn idx (m ! i))" for row
  proof -
    have "ltBlock lt = i" if "lt \<in> locatedSet l" "ltTriple lt = take 4 row" for lt
      using loc(3) [OF that(1)] row(1) [OF r] that(2) by simp
    moreover have "take 4 row \<in> deletedTriples l \<longleftrightarrow> (\<exists>lt\<in>locatedSet l. \<not> ltInsert lt \<and> ltTriple lt = take 4 row)"
      by (force simp: deletedTriples_def)
    ultimately show ?thesis using upd by metis
  qed
  have A: "{row \<in> set (rowsIn idx (m ! i)). \<forall>lt\<in>set (updatesOf l (m ! i)). \<not> ltInsert lt \<longrightarrow> ltTriple lt \<noteq> take 4 row} =
      {row \<in> set (rowsIn idx (m ! i)). take 4 row \<notin> deletedTriples l}" using kept by blast
  have B: "{ltTriple lt @ replicate (numColumnsOf (m ! i) - 4) bot |lt.
         lt \<in> set (updatesOf l (m ! i)) \<and> ltInsert lt \<and> ltTriple lt \<notin> take 4 ` set (rowsIn idx (m ! i))} =
      {ltTriple lt @ replicate (numColumnsOf (m ! i) - 4) bot |lt.
         lt \<in> locatedSet l \<and> ltBlock lt = i \<and> ltInsert lt \<and> ltTriple lt \<notin> take 4 ` indexRows idx}"
    using new unfolding upd by blast
  show ?thesis unfolding currentRows_set(1) [OF nth(4)] A B ..
qed

lemma updatedRows_blocks:
  assumes "indexOk file w orig idx" "locatedTriplesOk orig l" "getAugmentedMetadata (updateAugmentedMetadata l) = Inr m"
  shows "updatedRows l w idx = padRow w ` (\<Union>b\<in>set m. set (currentRows l b (rowsIn idx b)))"
proof -
  note block = currentRows_global [OF assms] and nth = augmented_nth [OF assms] and loc = located_update [OF assms]
  have l: "originalMetadata l = Some orig" "\<forall>lt\<in>locatedSet l. length (ltTriple lt) = 4"
    using assms(2) by (auto simp: locatedTriplesOk_def)
  have len: "length idx = length orig" "length orig \<le> length m" "4 \<le> w"
    using assms(1) augmented_blocks(1) [OF l(1) assms(3)] by (auto simp: indexOk_def)
  have old: "padRow w row = row" if "i < length m" "row \<in> set (rowsIn idx (m ! i))" for i row
    using indexOkD(1,2) [OF assms(1), of i] nth(2) [OF that(1)] that(2)
    by (auto simp: storedRows_def numColumnsOf_def padRow_def split: if_splits)
  have new: "padRow w (ltTriple lt @ replicate (numColumnsOf (m ! ltBlock lt) - 4) bot) = ltTriple lt @ replicate (w - 4) bot"
    if "lt \<in> locatedSet l" for lt
    using nth(3) [OF loc(2) [OF that]] l(2) that len(3) by (auto simp: padRow_def replicate_add [symmetric])
  have idx: "row \<in> indexRows idx \<longleftrightarrow> (\<exists>i<length m. row \<in> set (rowsIn idx (m ! i)))" for row
    using nth(2) len(2) by (auto simp: indexRows_nth [OF len(1)] split: if_splits) (metis order_less_le_trans)
  show ?thesis
  proof (intro set_eqI iffI)
    fix x assume "x \<in> updatedRows l w idx"
    then consider "x \<in> indexRows idx" "take 4 x \<notin> deletedTriples l"
      | lt where "lt \<in> locatedSet l" "ltInsert lt" "ltTriple lt \<notin> take 4 ` indexRows idx" "x = ltTriple lt @ replicate (w - 4) bot"
      unfolding updatedRows_def insertedTriples_def by blast
    then show "x \<in> padRow w ` (\<Union>b\<in>set m. set (currentRows l b (rowsIn idx b)))"
    proof cases
      case 1
      then obtain i where i: "i < length m" "x \<in> set (rowsIn idx (m ! i))" using idx by blast
      then have "x \<in> set (currentRows l (m ! i) (rowsIn idx (m ! i)))" unfolding block [OF i(1)] using 1 by blast
      then show ?thesis using old [OF i] nth_mem [OF i(1)] by (metis UN_I image_eqI)
    next
      case 2
      then have "ltTriple lt @ replicate (numColumnsOf (m ! ltBlock lt) - 4) bot
          \<in> set (currentRows l (m ! ltBlock lt) (rowsIn idx (m ! ltBlock lt)))"
        unfolding block [OF loc(2) [OF 2(1)]] by blast
      then show ?thesis
        using nth_mem [OF loc(2) [OF 2(1)]] new [OF 2(1)] unfolding 2(4) by (intro image_eqI [OF _ UN_I]) simp_all
    qed
  next
    fix x assume "x \<in> padRow w ` (\<Union>b\<in>set m. set (currentRows l b (rowsIn idx b)))"
    then obtain b r where br: "b \<in> set m" "r \<in> set (currentRows l b (rowsIn idx b))" "x = padRow w r" by blast
    then obtain i where i: "i < length m" "b = m ! i" by (metis in_set_conv_nth)
    consider "r \<in> set (rowsIn idx (m ! i))" "take 4 r \<notin> deletedTriples l"
      | lt where "lt \<in> locatedSet l" "ltBlock lt = i" "ltInsert lt" "ltTriple lt \<notin> take 4 ` indexRows idx"
          "r = ltTriple lt @ replicate (numColumnsOf (m ! i) - 4) bot"
      using br(2) unfolding i(2) block [OF i(1)] by blast
    then show "x \<in> updatedRows l w idx"
    proof cases
      case 1
      then show ?thesis using old [OF i(1) 1(1)] idx i(1) br(3) unfolding updatedRows_def by auto
    next
      case 2
      then show ?thesis using new [OF 2(1)] br(3) unfolding updatedRows_def insertedTriples_def by blast
    qed
  qed
qed

lemma image_padRow:
  assumes "\<And>row. row \<in> B \<Longrightarrow> 4 \<le> length row \<and> (\<forall>c\<in>set cols. c < length row)"
  shows "proj cols ` {row \<in> B. matchesSpec s row \<and> wanted s row} =
    proj cols ` {row \<in> padRow w ` B. matchesSpec s row \<and> wanted s row}"
proof -
  have "{row \<in> padRow w ` B. matchesSpec s row \<and> wanted s row} = padRow w ` {row \<in> B. matchesSpec s row \<and> wanted s row}"
    using assms padRow_simps(1,2) by blast
  moreover have "proj cols (padRow w row) = proj cols row" if "row \<in> B" for row
    using assms [OF that] padRow_simps(3) by blast
  ultimately show ?thesis by (simp only: image_image) (intro image_cong; simp)
qed

lemma matching_overlaps:
  assumes "blockReadable file l b rows" "specOk s" "row \<in> set (currentRows l b rows)" "matchesSpec s row"
  shows "overlaps s b"
proof -
  have "inBlock b (take 4 row)" "4 \<le> length row"
    using currentRows_described(1) [OF assms(1,3)] currentRows_sortedRows [OF assms(1)] assms(3) by (auto simp: sortedRows_def)
  then show ?thesis using inKey_matches [OF assms(2)] assms(4)
    by (auto simp: inBlock_def inKey_def overlaps_def intro: order_trans)
qed

lemma augmented_readable:
  assumes "indexOk file w orig idx" "locatedTriplesOk orig l" "getAugmentedMetadata (updateAugmentedMetadata l) = Inr m" "b \<in> set m"
  shows "blockReadable file l b (rowsIn idx b)"
  using augmented_nth(4) [OF assms(1-3)] assms(4) by (auto simp: in_set_conv_nth)

lemma augmented_columns:
  assumes "indexOk file w orig idx" "locatedTriplesOk orig l" "getAugmentedMetadata (updateAugmentedMetadata l) = Inr m" "b \<in> set m"
    "c < (if ltMap l (length orig) = None then w else 4)"
  shows "c < numColumnsOf b"
proof -
  obtain i where i: "i < length m" "b = m ! i" using assms(4) by (auto simp: in_set_conv_nth)
  have "4 \<le> w" using assms(1) by (simp add: indexOk_def)
  then show ?thesis using augmented_nth(3,7,8) [OF assms(1-3) i(1)] i(2) assms(5) by (fastforce split: if_splits)
qed

lemma hasUpdates_located: "locatedTriplesOk orig l \<Longrightarrow> hasUpdates l i \<Longrightarrow> locatedSet l \<noteq> {}"
  by (auto simp: hasUpdates_def locatedSet_def locatedTriplesOk_def ltOk_def blockOkLt_def ex_in_conv [symmetric])
    (metis hd_in_set)

lemma middle_prefixFixed:
  assumes "ascending bs" "\<forall>b\<in>set bs. overlaps s b" "specOk s" "b \<in> set (butlast (tl bs))"
  shows "prefixFixed (firstFreeColIndex s) b"
proof -
  have "b \<in> set bs" using in_set_butlastD [OF assms(4)] by (metis list.sel(2) list.set_sel(2))
  then show ?thesis
    using constant_ok(2) [OF assms(3) middle_fixed [OF assms]] assms(1) by (auto simp: ascending_def)
qed

text \<open>The matching rows of the overlapping blocks are the matching rows of the permutation.\<close>

lemma matchingRows_updated:
  assumes "indexOk file w orig idx" "locatedTriplesOk orig l" "getAugmentedMetadata (updateAugmentedMetadata l) = Inr m"
    and "specOk s" "\<And>b. b \<in> set m \<Longrightarrow> \<forall>c\<in>set extra. c < numColumnsOf b"
  shows "proj (outColumns s extra) ` (\<Union>b\<in>set (filter (overlaps s) m). set (matchingRows s l (rowsIn idx) b)) =
    proj (outColumns s extra) ` {row \<in> updatedRows l w idx. matchesSpec s row \<and> wanted s row}"
proof -
  note readable = augmented_readable [OF assms(1-3)]
  let ?B = "\<Union>b\<in>set m. set (currentRows l b (rowsIn idx b))"
  have "overlaps s b" if "b \<in> set m" "row \<in> set (currentRows l b (rowsIn idx b))" "matchesSpec s row" for b row
    using matching_overlaps [OF readable [OF that(1)] assms(4) that(2,3)] .
  then have "(\<Union>b\<in>set (filter (overlaps s) m). set (matchingRows s l (rowsIn idx) b)) =
      {row \<in> ?B. matchesSpec s row \<and> wanted s row}"
    by (auto simp: matchingRows_def)
  moreover have "4 \<le> length row \<and> (\<forall>c\<in>set (outColumns s extra). c < length row)" if row: "row \<in> ?B" for row
  proof -
    obtain b where b: "b \<in> set m" "row \<in> set (currentRows l b (rowsIn idx b))" using row by blast
    have "length row = numColumnsOf b" "4 \<le> numColumnsOf b"
      using readable b currentRows_set(3) blockReadableD(2) by blast+
    then show ?thesis using assms(5) [OF b(1)] by (auto simp: outColumns_def)
  qed
  ultimately show ?thesis
    using image_padRow [of ?B "outColumns s extra" s w] updatedRows_blocks [OF assms(1-3)] by simp
qed

text \<open>The scan of the overlapping blocks succeeds.\<close>

lemma scan_blocks:
  assumes "indexOk file w orig idx" "locatedTriplesOk orig l" "getAugmentedMetadata (updateAugmentedMetadata l) = Inr m"
    and "specOk (scanSpec sb)" "additionalOk extra" "concat (blockMetadata sb) = filter (overlaps (scanSpec sb)) m"
    and "\<And>b. b \<in> set m \<Longrightarrow> \<forall>c\<in>set extra. c < numColumnsOf b"
    and "locatedSet l = {} \<or> readsGraph (scanSpec sb) extra \<and> col2Id (scanSpec sb) = None"
  shows "scan ex file neverCancelled sb extra l lo =
    Inr (applyLimitOffset lo (scanResult (scanSpec sb) extra l (rowsIn idx) (filter (overlaps (scanSpec sb)) m)))"
proof -
  let ?s = "scanSpec sb" and ?bs = "filter (overlaps (scanSpec sb)) m"
  have asc: "ascending ?bs" "\<forall>b\<in>set ?bs. overlaps ?s b"
    using ascending_filter augmented_ascending [OF assms(1-3)] by auto
  have "readsGraph ?s extra \<and> firstFreeColIndex ?s < 3" if "hasUpdates l i" for i
    using hasUpdates_located [OF assms(2) that] assms(8) by (auto simp: firstFreeColIndex_def)
  then have "\<exists>blocks d. lazyScan ex file neverCancelled ?s ?bs extra l lo = Inr (blocks, d) \<and>
      concat blocks = applyLimitOffset lo (scanResult ?s extra l (rowsIn idx) ?bs)"
    using augmented_readable [OF assms(1-3)] assms(7) middle_prefixFixed [OF asc assms(4)]
    by (intro lazyScan_ok [OF _ assms(4,5)]) auto
  then obtain blocks d where "lazyScan ex file neverCancelled ?s ?bs extra l lo = Inr (blocks, d)"
      "concat blocks = applyLimitOffset lo (scanResult ?s extra l (rowsIn idx) ?bs)" by blast
  then show ?thesis by (simp add: scan_def assms(6) convertBlockMetadataRangesToVector_def)
qed

text \<open>The scan of all blocks and the rows that it returns.\<close>

lemma scan_rows:
  assumes "indexOk file w orig idx" "locatedTriplesOk orig l" "getAugmentedMetadata (updateAugmentedMetadata l) = Inr m"
    and "makeScanSpecification c0 c1 c2 gs = Inr s" "additionalOk extra" "concat ranges = m"
    and "\<forall>c\<in>set extra. c < (if ltMap l (length orig) = None then w else 4)"
    and "locatedSet l = {} \<or> readsGraph s extra \<and> c2 = None"
  defines "rows \<equiv> scanResult s extra l (rowsIn idx) (filter (overlaps s) m)"
  shows "\<exists>sb. makeScanSpecAndBlocks s ranges = Inr sb \<and>
      (\<forall>lo. scan ex file neverCancelled sb extra l lo = Inr (applyLimitOffset lo rows))"
    and "set rows = proj (outColumns s extra) ` {row \<in> updatedRows l w idx. matchesSpec s row \<and> wanted s row}"
    and "sorted_wrt (\<lambda>x y. take (3 - firstFreeColIndex s) x \<le> take (3 - firstFreeColIndex s) y) rows"
    and "3 \<in> set extra \<Longrightarrow> sorted_wrt (\<lambda>x y. take (4 - firstFreeColIndex s) x < take (4 - firstFreeColIndex s) y) rows"
proof -
  have spec: "specOk s" "col2Id s = c2" using assms(4) by (auto simp: makeScanSpecification_ok Let_def split: if_splits)
  have asc: "ascending (concat ranges)" unfolding assms(6) by (rule augmented_ascending [OF assms(1-3)])
  obtain sb where sb: "makeScanSpecAndBlocks s ranges = Inr sb" "scanSpec sb = s" "concat (blockMetadata sb) = filter (overlaps s) m"
    using makeScanSpecAndBlocks_ok [OF asc spec(1)] assms(6) by auto
  let ?bs = "filter (overlaps s) m"
  have cols: "\<forall>c\<in>set extra. c < numColumnsOf b" if "b \<in> set m" for b
    using augmented_columns [OF assms(1-3) that] assms(7) by blast
  have bs: "\<forall>b\<in>set ?bs. blockReadable file l b (rowsIn idx b)" "ascending ?bs" "\<forall>b\<in>set ?bs. overlaps s b"
    using asc assms(6) ascending_filter augmented_readable [OF assms(1-3)] by auto
  have "scan ex file neverCancelled sb extra l lo = Inr (applyLimitOffset lo rows)" for lo
    using scan_blocks [OF assms(1-3), of sb extra] sb spec assms(5,8) cols by (simp add: rows_def)
  then show "\<exists>sb. makeScanSpecAndBlocks s ranges = Inr sb \<and>
      (\<forall>lo. scan ex file neverCancelled sb extra l lo = Inr (applyLimitOffset lo rows))" using sb(1) by blast
  show "set rows = proj (outColumns s extra) ` {row \<in> updatedRows l w idx. matchesSpec s row \<and> wanted s row}"
    unfolding rows_def scanResult_sorted(3) [OF bs spec(1) assms(5)] by (rule matchingRows_updated [OF assms(1-3) spec(1) cols])
  show "sorted_wrt (\<lambda>x y. take (3 - firstFreeColIndex s) x \<le> take (3 - firstFreeColIndex s) y) rows"
    "3 \<in> set extra \<Longrightarrow> sorted_wrt (\<lambda>x y. take (4 - firstFreeColIndex s) x < take (4 - firstFreeColIndex s) y) rows"
    unfolding rows_def using scanResult_sorted(1,2) [OF bs spec(1) assms(5)] by blast+
qed

section \<open>Properties\<close>


text \<open>An example: three blocks with two triples each.\<close>

definition exampleRows :: "nat list list list" where
  "exampleRows = [[[1, 1, 1, 0], [1, 2, 1, 0]], [[1, 3, 1, 0], [1, 3, 2, 5]], [[1, 4, 1, 0], [2, 1, 1, 0]]]"

definition exampleIdx :: "(nat \<Rightarrow> 'id) \<Rightarrow> 'id list list list" where
  "exampleIdx f = map (map (map f)) exampleRows"

definition exampleMeta :: "(nat \<Rightarrow> 'id) \<Rightarrow> nat \<Rightarrow> nat list list \<Rightarrow> 'id CompressedBlockMetadata" where
  "exampleMeta f i rows = \<lparr>offsetsAndCompressedSize = map (\<lambda>c. (int (4 * i + c), 1)) [0..<4], numRows = length rows,
     firstTriple = map f (take 4 (hd rows)), lastTriple = map f (take 4 (last rows)), graphInfo = None,
     containsDuplicatesWithDifferentGraphs = False, metaBlockIndex = i\<rparr>"

definition exampleOrig :: "(nat \<Rightarrow> 'id) \<Rightarrow> 'id CompressedBlockMetadata list" where
  "exampleOrig f = map (\<lambda>i. exampleMeta f i (exampleRows ! i)) [0..<3]"

definition exampleColumns :: "(nat \<Rightarrow> 'id) \<Rightarrow> 'id columnFile" where
  "exampleColumns f = (\<lambda>(offset, size). if size = 0 then Some []
     else Some (map (\<lambda>row. f (row ! (nat offset mod 4))) (exampleRows ! (nat offset div 4))))"

definition exampleUpdates :: "(nat \<Rightarrow> 'id) \<Rightarrow> 'id LocatedTriplesPerBlock" where
  "exampleUpdates f = \<lparr>numTriples = 3,
     ltMap = [0 \<mapsto> [\<lparr>ltBlock = 0, ltTriple = map f [1, 2, 1, 0], ltInsert = False\<rparr>],
              1 \<mapsto> [\<lparr>ltBlock = 1, ltTriple = map f [1, 2, 2, 0], ltInsert = True\<rparr>],
              3 \<mapsto> [\<lparr>ltBlock = 3, ltTriple = map f [3, 0, 0, 0], ltInsert = True\<rparr>]],
     augmentedMetadata = None, originalMetadata = Some (exampleOrig f)\<rparr>"

lemma exampleOrig_eq:
  "exampleOrig f = [exampleMeta f 0 (exampleRows ! 0), exampleMeta f 1 (exampleRows ! 1), exampleMeta f 2 (exampleRows ! 2)]"
  by (simp add: exampleOrig_def upt_rec numeral_2_eq_2 [symmetric])

lemma all3: "(\<forall>i<3. P (i::nat)) \<longleftrightarrow> P 0 \<and> P 1 \<and> P 2"
  by (auto simp: less_Suc_eq numeral_3_eq_3 numeral_2_eq_2)

lemma all4: "(\<forall>i<4. P (i::nat)) \<longleftrightarrow> P 0 \<and> P 1 \<and> P 2 \<and> P 3"
  by (auto simp: less_Suc_eq numeral_eq_Suc)

lemmas example_simps = exampleOrig_eq exampleMeta_def exampleRows_def exampleIdx_def Cons_less_Cons Cons_le_Cons

lemma example_length: "length exampleRows = 3"
  by (simp add: exampleRows_def)

lemma example_blocks: "length (exampleOrig f) = 3" "\<And>i. i < 3 \<Longrightarrow> exampleOrig f ! i = exampleMeta f i (exampleRows ! i)"
    "\<And>i. i < 3 \<Longrightarrow> exampleIdx f ! i = map (map f) (exampleRows ! i)"
  using example_length by (simp_all add: exampleOrig_def exampleIdx_def)

lemma example_stored: "i < 3 \<Longrightarrow> storedRows (exampleColumns f) (exampleMeta f i (exampleRows ! i)) (map (map f) (exampleRows ! i))"
proof -
  assume i: "i < 3"
  have "\<forall>rows\<in>set exampleRows. \<forall>row\<in>set rows. length row = 4" by (simp add: exampleRows_def)
  then have len: "\<forall>row\<in>set (exampleRows ! i). length row = 4" using i example_length by (metis nth_mem)
  have "nat (int (4 * i + c)) mod 4 = c" "nat (int (4 * i + c)) div 4 = i" if "c < 4" for c
    using that by (simp_all only: nat_int) simp_all
  then show ?thesis using len
    by (auto simp: storedRows_def exampleMeta_def exampleColumns_def split_beta)
qed

lemma example_indexOk: "indexOk (exampleColumns enat) 4 (exampleOrig enat) (exampleIdx enat)"
proof -
  have "blocksSorted (exampleOrig enat)"
  proof -
    have "firstTriple (exampleOrig enat ! i) \<le> lastTriple (exampleOrig enat ! i)" if "i < 3" for i
      using that by (simp add: numeral_3_eq_3 less_Suc_eq) (auto simp: example_simps)
    moreover have "lastTriple (exampleOrig enat ! i) < firstTriple (exampleOrig enat ! Suc i)" if "Suc i < 3" for i
      using that by (simp add: numeral_3_eq_3 less_Suc_eq) (auto simp: example_simps)
    ultimately show ?thesis by (simp add: blocksSorted_def example_blocks)
  qed
  moreover have "sorted_wrt (\<lambda>r r'. take 4 r < take 4 r') (exampleIdx enat ! i) \<and>
      (\<forall>row\<in>set (exampleIdx enat ! i). inBlock (exampleOrig enat ! i) (take 4 row)) \<and>
      length (firstTriple (exampleOrig enat ! i)) = 4 \<and> length (lastTriple (exampleOrig enat ! i)) = 4 \<and>
      distinct (map (take 3) (exampleIdx enat ! i))" if "i < 3" for i
    using that by (simp add: numeral_3_eq_3 less_Suc_eq) (auto simp: example_simps inBlock_def)
  moreover have "exampleColumns enat (0, 0) = Some []" by (simp add: exampleColumns_def)
  moreover have "length (exampleIdx enat) = 3" by (simp add: exampleIdx_def example_length)
  ultimately show ?thesis
    using example_stored [of _ enat]
    by (simp add: indexOk_def example_blocks) (simp add: numColumnsOf_def exampleMeta_def)
qed

lemma locatedSet_ran: "locatedSet l = \<Union> (set ` ran (ltMap l))"
  by (auto simp: locatedSet_def ran_def)

lemma example_located:
  "locatedSet (exampleUpdates f) = {\<lparr>ltBlock = 0, ltTriple = map f [1, 2, 1, 0], ltInsert = False\<rparr>,
     \<lparr>ltBlock = 1, ltTriple = map f [1, 2, 2, 0], ltInsert = True\<rparr>, \<lparr>ltBlock = 3, ltTriple = map f [3, 0, 0, 0], ltInsert = True\<rparr>}"
  by (simp add: locatedSet_ran exampleUpdates_def)

lemma example_locatedTriplesOk: "locatedTriplesOk (exampleOrig enat) (exampleUpdates enat)"
proof -
  have "ltOk (exampleUpdates enat)" by (auto simp: ltOk_def exampleUpdates_def blockOkLt_def)
  moreover have "locatedIn (exampleOrig enat) (exampleUpdates enat)"
    by (simp add: locatedIn_def example_located lowerBoundBlock_def example_simps)
  ultimately show ?thesis by (simp add: locatedTriplesOk_def example_located) (simp add: exampleUpdates_def)
qed

definition exampleSpec :: "enat ScanSpecification" where
  "exampleSpec = \<lparr>col0Id = Some 1, col1Id = None, col2Id = None, graphsToFilter = Some {0}\<rparr>"

lemma updatedRows_lists:
  assumes "deletedTriples l = set D" "insertedTriples l = set I"
  shows "proj cols ` {row \<in> updatedRows l w idx. P row} = set (map (proj cols) (filter P
    (filter (\<lambda>row. take 4 row \<notin> set D) (concat idx) @
     map (\<lambda>t. t @ replicate (w - 4) bot) (filter (\<lambda>t. t \<notin> set (map (take 4) (concat idx))) I))))"
  using assms by (auto simp: updatedRows_def indexRows_def)

lemma example_result:
  "proj (outColumns exampleSpec []) ` {row \<in> updatedRows (exampleUpdates enat) 4 (exampleIdx enat).
     matchesSpec exampleSpec row \<and> wanted exampleSpec row} = {[1, 1], [2, 2], [3, 1], [4, 1]}"
proof -
  have d: "deletedTriples (exampleUpdates enat) = set [map enat [1, 2, 1, 0]]"
    unfolding deletedTriples_def example_located by force
  have i: "insertedTriples (exampleUpdates enat) = set [map enat [1, 2, 2, 0], map enat [3, 0, 0, 0]]"
    unfolding insertedTriples_def example_located by force
  have "outColumns exampleSpec [] = [1, 2]"
    by (simp add: outColumns_def exampleSpec_def firstFreeColIndex_def upt_rec numeral_2_eq_2)
  then show ?thesis unfolding updatedRows_lists [OF d i]
    by (simp add: exampleSpec_def exampleIdx_def exampleRows_def matchesSpec_def wanted_def proj_def one_enat_def zero_enat_def
        numeral_eq_enat insert_commute)
qed


definition oneUpdate :: "bool \<Rightarrow> nat \<Rightarrow> nat IdTriple \<Rightarrow> nat LocatedTriplesPerBlock" where
  "oneUpdate ins b t = \<lparr>numTriples = 1, ltMap = [b \<mapsto> [\<lparr>ltBlock = b, ltTriple = t, ltInsert = ins\<rparr>]],
     augmentedMetadata = None, originalMetadata = Some (exampleOrig id)\<rparr>"

definition exampleScan :: "nat LocatedTriplesPerBlock \<Rightarrow> nat list list result" where
  "exampleScan l = res_bind (getAugmentedMetadata (updateAugmentedMetadata l)) (\<lambda>m.
     scan True (exampleColumns id) neverCancelled
       \<lparr>scanSpec = \<lparr>col0Id = Some 1, col1Id = None, col2Id = None, graphsToFilter = None\<rparr>, blockMetadata = [m],
        sizeBlockMetadata = length m\<rparr> [] l \<lparr>limitClause = None, offsetClause = 0\<rparr>)"


end
