(* ===== verification/ConcurrentCache.thy ===== *)
theory ConcurrentCache
  imports Cache
begin

text \<open>
  The cache of \<open>util/ConcurrentCache.h\<close> that several threads share. \<open>ConcurrentCache\<close> is a template
  over the cache, so the operations of the cache are a parameter. Everything that happens under one of the two
  locks is one step: a call of \<open>computeOnce\<close> or \<open>computeOncePinned\<close> is a sequence of steps of its
  thread, between which the steps of other threads may come. The objects of type \<open>ResultInProgress\<close> that
  threads share are the elements of a list, and a pointer to one is its position. A call carries what its function
  computes, a value or an exception, so a computation that does not end is one whose next step is never taken. A
  step that is not possible, because the thread has to wait, has returned, or because the cache does not
  return, has no result.
\<close>

section \<open>Results in progress\<close>

datatype CacheStatus = cachedNotPinned | cachedPinned | computed | notInCacheAndNotComputed

datatype Status = IN_PROGRESS | FINISHED | ABORTED

record 'v ResultInProgress =
  ripStatus :: Status
  ripResult :: "'v option"

definition makeResultInProgress :: "'v ResultInProgress" where
  "makeResultInProgress = \<lparr>ripStatus = IN_PROGRESS, ripResult = None\<rparr>"

definition finishResult :: "'v option \<Rightarrow> 'v ResultInProgress \<Rightarrow> 'v ResultInProgress result" where
  "finishResult v r =
     res_bind (ensure ContractViolation (ripStatus r = IN_PROGRESS)) (\<lambda>_.
       Inr \<lparr>ripStatus = FINISHED, ripResult = v\<rparr>)"

definition abortResult :: "'v ResultInProgress \<Rightarrow> 'v ResultInProgress result" where
  "abortResult r =
     res_bind (ensure ContractViolation (ripStatus r = IN_PROGRESS)) (\<lambda>_. Inr (r\<lparr>ripStatus := ABORTED\<rparr>))"

text \<open>\<open>getResult\<close> waits while the computation is in progress. The exception
  \<open>WaitedForResultWhichThenFailedException\<close> is the error \<open>RuntimeError\<close>.\<close>

definition getResult :: "'v ResultInProgress \<Rightarrow> 'v option result option" where
  "getResult r =
     (case ripStatus r of
        IN_PROGRESS \<Rightarrow> None
      | ABORTED \<Rightarrow> Some (Inl RuntimeError)
      | FINISHED \<Rightarrow> Some (Inr (ripResult r)))"

section \<open>The operations of the cache\<close>

text \<open>An operation may raise an exception and change the cache; one that makes room may not return.\<close>

datatype cacheAction =
    ClearUnpinnedOnly
  | ClearAll
  | MakeRoomAsMuchAsPossible MemorySize
  | SetMaxSize MemorySize
  | SetMaxNumEntries nat
  | SetMaxSizeSingleEntry MemorySize
  | Wait nat                                \<comment> \<open>time passes\<close>

record ('k, 'v, 'c) CacheOps =
  opContainsPinned :: "'k \<Rightarrow> 'c \<Rightarrow> bool"
  opContainsNonPinned :: "'k \<Rightarrow> 'c \<Rightarrow> bool"
  opLookup :: "'k \<Rightarrow> 'c \<Rightarrow> 'v option result \<times> 'c"
  opPinIfExists :: "'k \<Rightarrow> 'c \<Rightarrow> bool result \<times> 'c"
  opInsert :: "'k \<Rightarrow> 'v \<Rightarrow> 'c \<Rightarrow> (unit result \<times> 'c) option"
  opInsertPinned :: "'k \<Rightarrow> 'v \<Rightarrow> 'c \<Rightarrow> (unit result \<times> 'c) option"
  opAct :: "cacheAction \<Rightarrow> 'c \<Rightarrow> (unit result \<times> 'c) option"

definition getCacheStatus :: "('k, 'v, 'c) CacheOps \<Rightarrow> 'c \<Rightarrow> 'k \<Rightarrow> CacheStatus" where
  "getCacheStatus ops c k =
     (if opContainsPinned ops k c then cachedPinned
      else if opContainsNonPinned ops k c then cachedNotPinned
      else computed)"

section \<open>State\<close>

record ('k, 'v) Call =
  callKey :: 'k
  callPinned :: bool
  callOnlyReadFromCache :: bool
  callCompute :: "'v result"
  callSuitable :: "'v \<Rightarrow> bool"

text \<open>The places between the steps of \<open>computeOnceImpl\<close>; the number is the result in progress.\<close>

datatype 'v Pc =
    Begin
  | Computing nat
  | Moving nat 'v                      \<comment> \<open>before \<open>moveFromInProgressToCache\<close>\<close>
  | Erasing nat 'v                     \<comment> \<open>the result is not suitable for the cache\<close>
  | Finishing nat 'v "'v option"       \<comment> \<open>before \<open>finish\<close>\<close>
  | Catching nat error                 \<comment> \<open>at the begin of the exception handler\<close>
  | Aborting nat error                 \<comment> \<open>before \<open>abort\<close>\<close>
  | Waiting nat
  | FallbackComputing
  | FallbackInserting 'v
  | Returned "('v option \<times> CacheStatus) result"

record ('k, 'v) Thread =
  threadCall :: "('k, 'v) Call"
  threadPc :: "'v Pc"

record ('k, 'v, 'c) ConcurrentCache =
  ccCache :: 'c
  inProgress :: "'k \<rightharpoonup> bool \<times> nat"
  ccResults :: "'v ResultInProgress list"
  ccThreads :: "('k, 'v) Thread list"

definition makeConcurrentCache :: "'c \<Rightarrow> ('k, 'v, 'c) ConcurrentCache" where
  "makeConcurrentCache c = \<lparr>ccCache = c, inProgress = Map.empty, ccResults = [], ccThreads = []\<rparr>"

section \<open>Steps\<close>

definition goto :: "nat \<Rightarrow> 'v Pc \<Rightarrow> ('k, 'v, 'c) ConcurrentCache \<Rightarrow> ('k, 'v, 'c) ConcurrentCache" where
  "goto i pc s = s\<lparr>ccThreads := (ccThreads s)[i := (ccThreads s ! i)\<lparr>threadPc := pc\<rparr>]\<rparr>"

text \<open>The first critical section of \<open>computeOnceImpl\<close>.\<close>

definition determine ::
    "('k, 'v, 'c) CacheOps \<Rightarrow> nat \<Rightarrow> ('k, 'v) Call \<Rightarrow> ('k, 'v, 'c) ConcurrentCache \<Rightarrow> ('k, 'v, 'c) ConcurrentCache" where
  "determine ops i call s =
     (let key = callKey call; status = getCacheStatus ops (ccCache s) key;
          (pin, c) = (if callPinned call then opPinIfExists ops key (ccCache s) else (Inr True, ccCache s))
      in case pin of
           Inl e \<Rightarrow> goto i (Returned (Inl e)) (s\<lparr>ccCache := c\<rparr>)
         | Inr _ \<Rightarrow>
             if status \<noteq> computed
             then (let (v, c') = opLookup ops key c
                   in goto i (Returned (res_bind v (\<lambda>v. Inr (v, status)))) (s\<lparr>ccCache := c'\<rparr>))
             else if callOnlyReadFromCache call
             then goto i (Returned (Inr (None, notInCacheAndNotComputed))) (s\<lparr>ccCache := c\<rparr>)
             else (case inProgress s key of
                     Some (p, r) \<Rightarrow>
                       goto i (Waiting r) (s\<lparr>ccCache := c, inProgress := (inProgress s)(key \<mapsto> (p \<or> callPinned call, r))\<rparr>)
                   | None \<Rightarrow>
                       goto i (Computing (length (ccResults s)))
                         (s\<lparr>ccCache := c, ccResults := ccResults s @ [makeResultInProgress],
                            inProgress := (inProgress s)(key \<mapsto> (callPinned call, length (ccResults s)))\<rparr>)))"

text \<open>An exception of the insertion leaves the entry of the result in progress.\<close>

definition moveFromInProgressToCache ::
    "('k, 'v, 'c) CacheOps \<Rightarrow> 'k \<Rightarrow> 'v \<Rightarrow> ('k, 'v, 'c) ConcurrentCache \<Rightarrow> (unit result \<times> ('k, 'v, 'c) ConcurrentCache) option" where
  "moveFromInProgressToCache ops key v s =
     (case inProgress s key of
        None \<Rightarrow> Some (Inl ContractViolation, s)
      | Some (pinned, _) \<Rightarrow>
          (case (if pinned then opInsertPinned ops key v (ccCache s) else opInsert ops key v (ccCache s)) of
             None \<Rightarrow> None
           | Some (Inl e, c) \<Rightarrow> Some (Inl e, s\<lparr>ccCache := c\<rparr>)
           | Some (Inr _, c) \<Rightarrow> Some (Inr (), s\<lparr>ccCache := c, inProgress := (inProgress s)(key := None)\<rparr>)))"

definition tryInsertIfNotPresent ::
    "('k, 'v, 'c) CacheOps \<Rightarrow> bool \<Rightarrow> 'k \<Rightarrow> 'v \<Rightarrow> 'c \<Rightarrow> (unit result \<times> 'c) option" where
  "tryInsertIfNotPresent ops pinned key v c =
     (if pinned
      then (case opPinIfExists ops key c of
              (Inl e, c') \<Rightarrow> Some (Inl e, c')
            | (Inr present, c') \<Rightarrow> if present then Some (Inr (), c') else opInsertPinned ops key v c')
      else if opContainsPinned ops key c \<or> opContainsNonPinned ops key c then Some (Inr (), c)
      else opInsert ops key v c)"

definition eraseInProgress :: "'k \<Rightarrow> ('k, 'v, 'c) ConcurrentCache \<Rightarrow> ('k, 'v, 'c) ConcurrentCache" where
  "eraseInProgress key s = s\<lparr>inProgress := (inProgress s)(key := None)\<rparr>"

text \<open>The next step of a thread in \<open>computeOnceImpl\<close>.\<close>

definition threadStep ::
    "('k, 'v, 'c) CacheOps \<Rightarrow> nat \<Rightarrow> ('k, 'v, 'c) ConcurrentCache \<Rightarrow> ('k, 'v, 'c) ConcurrentCache option" where
  "threadStep ops i s =
     (if length (ccThreads s) \<le> i then None
      else let call = threadCall (ccThreads s ! i); key = callKey call
      in case threadPc (ccThreads s ! i) of
        Begin \<Rightarrow> Some (determine ops i call s)
      | Computing r \<Rightarrow>
          (case callCompute call of
             Inl e \<Rightarrow> Some (goto i (Catching r e) s)
           | Inr v \<Rightarrow>
               if callSuitable call v then Some (goto i (Moving r v) s)
               else if callPinned call then Some (goto i (Catching r ContractViolation) s)
               else Some (goto i (Erasing r v) s))
      | Moving r v \<Rightarrow>
          (case moveFromInProgressToCache ops key v s of
             None \<Rightarrow> None
           | Some (Inl e, s') \<Rightarrow> Some (goto i (Catching r e) s')
           | Some (Inr _, s') \<Rightarrow> Some (goto i (Finishing r v (Some v)) s'))
      | Erasing r v \<Rightarrow> Some (goto i (Finishing r v None) (eraseInProgress key s))
      | Finishing r v result \<Rightarrow>
          (case finishResult result (ccResults s ! r) of
             Inl e \<Rightarrow> Some (goto i (Catching r e) s)
           | Inr r' \<Rightarrow> Some (goto i (Returned (Inr (Some v, computed))) (s\<lparr>ccResults := (ccResults s)[r := r']\<rparr>)))
      | Catching r e \<Rightarrow> Some (goto i (Aborting r e) (eraseInProgress key s))
      | Aborting r e \<Rightarrow>
          (case abortResult (ccResults s ! r) of
             Inl e' \<Rightarrow> Some (goto i (Returned (Inl e')) s)
           | Inr r' \<Rightarrow> Some (goto i (Returned (Inl e)) (s\<lparr>ccResults := (ccResults s)[r := r']\<rparr>)))
      | Waiting r \<Rightarrow>
          (case getResult (ccResults s ! r) of
             None \<Rightarrow> None
           | Some (Inl e) \<Rightarrow> Some (goto i (Returned (Inl e)) s)
           | Some (Inr (Some v)) \<Rightarrow> Some (goto i (Returned (Inr (Some v, computed))) s)
           | Some (Inr None) \<Rightarrow> Some (goto i FallbackComputing s))
      | FallbackComputing \<Rightarrow>
          (case callCompute call of
             Inl e \<Rightarrow> Some (goto i (Returned (Inl e)) s)
           | Inr v \<Rightarrow>
               if callSuitable call v then Some (goto i (FallbackInserting v) s)
               else if callPinned call then Some (goto i (Returned (Inl ContractViolation)) s)
               else Some (goto i (Returned (Inr (Some v, computed))) s))
      | FallbackInserting v \<Rightarrow>
          (case tryInsertIfNotPresent ops (callPinned call) key v (ccCache s) of
             None \<Rightarrow> None
           | Some (Inl e, c) \<Rightarrow> Some (goto i (Returned (Inl e)) (s\<lparr>ccCache := c\<rparr>))
           | Some (Inr _, c) \<Rightarrow> Some (goto i (Returned (Inr (Some v, computed))) (s\<lparr>ccCache := c\<rparr>)))
      | Returned result \<Rightarrow> None)"

section \<open>The other operations\<close>

definition computeButDontStore ::
    "('k, 'v, 'c) CacheOps \<Rightarrow> ('k, 'v) Call \<Rightarrow> 'c \<Rightarrow> ('v option \<times> CacheStatus) result \<times> 'c" where
  "computeButDontStore ops call c =
     (let (v, c') = opLookup ops (callKey call) c
      in (res_bind v (\<lambda>v. case v of
            Some _ \<Rightarrow> Inr (v, cachedNotPinned)
          | None \<Rightarrow>
              if callOnlyReadFromCache call then Inr (None, notInCacheAndNotComputed)
              else res_bind (callCompute call) (\<lambda>v. Inr (Some v, computed))), c'))"

definition getIfContained ::
    "('k, 'v, 'c) CacheOps \<Rightarrow> 'k \<Rightarrow> 'c \<Rightarrow> ('v option \<times> CacheStatus) option result \<times> 'c" where
  "getIfContained ops key c =
     (let status = getCacheStatus ops c key
      in if status = computed then (Inr None, c)
         else let (v, c') = opLookup ops key c in (res_bind v (\<lambda>v. Inr (Some (v, status))), c'))"

definition newThread :: "('k, 'v) Call \<Rightarrow> ('k, 'v, 'c) ConcurrentCache \<Rightarrow> ('k, 'v, 'c) ConcurrentCache" where
  "newThread call s = s\<lparr>ccThreads := ccThreads s @ [\<lparr>threadCall = call, threadPc = Begin\<rparr>]\<rparr>"

datatype ('k, 'v) ccAction =
    Step nat
  | ComputeOnce "('k, 'v) Call"
  | ComputeButDontStore "('k, 'v) Call"
  | TryInsertIfNotPresent bool 'k 'v
  | GetIfContained 'k
  | Act cacheAction

fun ccStep ::
    "('k, 'v, 'c) CacheOps \<Rightarrow> ('k, 'v) ccAction \<Rightarrow> ('k, 'v, 'c) ConcurrentCache \<Rightarrow> ('k, 'v, 'c) ConcurrentCache option" where
  "ccStep ops (Step i) s = threadStep ops i s"
| "ccStep ops (ComputeOnce call) s = Some (newThread call s)"
| "ccStep ops (ComputeButDontStore call) s = Some (s\<lparr>ccCache := snd (computeButDontStore ops call (ccCache s))\<rparr>)"
| "ccStep ops (TryInsertIfNotPresent pinned key v) s =
     map_option (\<lambda>(_, c). s\<lparr>ccCache := c\<rparr>) (tryInsertIfNotPresent ops pinned key v (ccCache s))"
| "ccStep ops (GetIfContained key) s = Some (s\<lparr>ccCache := snd (getIfContained ops key (ccCache s))\<rparr>)"
| "ccStep ops (Act a) s = map_option (\<lambda>(_, c). s\<lparr>ccCache := c\<rparr>) (opAct ops a (ccCache s))"

inductive ccReachable ::
    "('k, 'v, 'c) CacheOps \<Rightarrow> (('k, 'v) ccAction \<Rightarrow> bool) \<Rightarrow> 'c \<Rightarrow> ('k, 'v, 'c) ConcurrentCache \<Rightarrow> bool"
  for ops allowed c where
  init: "ccReachable ops allowed c (makeConcurrentCache c)"
| step: "ccReachable ops allowed c s \<Longrightarrow> allowed a \<Longrightarrow> ccStep ops a s = Some s' \<Longrightarrow> ccReachable ops allowed c s'"

section \<open>The owner of a result in progress\<close>

text \<open>The thread that has created a result in progress owns it until it has finished or aborted it; the result
  is registered in the map until the thread has moved it to the cache or erased it.\<close>

fun owned :: "'v Pc \<Rightarrow> nat option" where
  "owned (Computing r) = Some r"
| "owned (Moving r v) = Some r"
| "owned (Erasing r v) = Some r"
| "owned (Finishing r v x) = Some r"
| "owned (Catching r e) = Some r"
| "owned (Aborting r e) = Some r"
| "owned _ = None"

fun registered :: "'v Pc \<Rightarrow> nat option" where
  "registered (Computing r) = Some r"
| "registered (Moving r v) = Some r"
| "registered (Erasing r v) = Some r"
| "registered (Catching r e) = Some r"
| "registered _ = None"

definition pcOf :: "('k, 'v, 'c) ConcurrentCache \<Rightarrow> nat \<Rightarrow> 'v Pc" where
  "pcOf s i = threadPc (ccThreads s ! i)"

definition callOf :: "('k, 'v, 'c) ConcurrentCache \<Rightarrow> nat \<Rightarrow> ('k, 'v) Call" where
  "callOf s i = threadCall (ccThreads s ! i)"

abbreviation keyOf :: "('k, 'v, 'c) ConcurrentCache \<Rightarrow> nat \<Rightarrow> 'k" where
  "keyOf s i \<equiv> callKey (callOf s i)"

abbreviation numThreads :: "('k, 'v, 'c) ConcurrentCache \<Rightarrow> nat" where
  "numThreads s \<equiv> length (ccThreads s)"

lemma registered_owned: "registered pc = Some r \<Longrightarrow> owned pc = Some r"
  by (cases pc) auto

lemma goto_simps [simp]:
  "i < numThreads s \<Longrightarrow> pcOf (goto i pc s) j = (if j = i then pc else pcOf s j)"
  "i < numThreads s \<Longrightarrow> callOf (goto i pc s) j = callOf s j"
  "numThreads (goto i pc s) = numThreads s"
  "ccCache (goto i pc s) = ccCache s" "inProgress (goto i pc s) = inProgress s" "ccResults (goto i pc s) = ccResults s"
  by (auto simp: goto_def pcOf_def callOf_def nth_list_update)

lemma thread_simps [simp]:
  "pcOf (s\<lparr>ccCache := c\<rparr>) i = pcOf s i" "callOf (s\<lparr>ccCache := c\<rparr>) i = callOf s i"
  "pcOf (s\<lparr>inProgress := m\<rparr>) i = pcOf s i" "callOf (s\<lparr>inProgress := m\<rparr>) i = callOf s i"
  "pcOf (s\<lparr>ccResults := rs\<rparr>) i = pcOf s i" "callOf (s\<lparr>ccResults := rs\<rparr>) i = callOf s i"
  by (simp_all add: pcOf_def callOf_def)

definition ccInv :: "('k, 'v, 'c) ConcurrentCache \<Rightarrow> bool" where
  "ccInv s \<longleftrightarrow>
     (\<forall>i<numThreads s. \<forall>r. owned (pcOf s i) = Some r \<longrightarrow>
        r < length (ccResults s) \<and> ripStatus (ccResults s ! r) = IN_PROGRESS) \<and>
     (\<forall>i<numThreads s. \<forall>j<numThreads s. \<forall>r. owned (pcOf s i) = Some r \<longrightarrow> owned (pcOf s j) = Some r \<longrightarrow> i = j) \<and>
     (\<forall>i<numThreads s. \<forall>r. registered (pcOf s i) = Some r \<longrightarrow> (\<exists>p. inProgress s (keyOf s i) = Some (p, r))) \<and>
     (\<forall>k p r. inProgress s k = Some (p, r) \<longrightarrow> (\<exists>i<numThreads s. registered (pcOf s i) = Some r \<and> keyOf s i = k)) \<and>
     (\<forall>i<numThreads s. \<forall>r. pcOf s i = Waiting r \<longrightarrow> r < length (ccResults s) \<and>
        (ripStatus (ccResults s ! r) = IN_PROGRESS \<longrightarrow> (\<exists>j<numThreads s. owned (pcOf s j) = Some r \<and> keyOf s j = keyOf s i)))"

lemma ccInvD:
  assumes "ccInv s" "i < numThreads s"
  shows "owned (pcOf s i) = Some r \<Longrightarrow> r < length (ccResults s)"
    and "owned (pcOf s i) = Some r \<Longrightarrow> ripStatus (ccResults s ! r) = IN_PROGRESS"
    and "owned (pcOf s i) = Some r \<Longrightarrow> j < numThreads s \<Longrightarrow> owned (pcOf s j) = Some r \<Longrightarrow> i = j"
    and "registered (pcOf s i) = Some r \<Longrightarrow> \<exists>p. inProgress s (keyOf s i) = Some (p, r)"
    and "pcOf s i = Waiting r \<Longrightarrow> r < length (ccResults s)"
    and "pcOf s i = Waiting r \<Longrightarrow> ripStatus (ccResults s ! r) = IN_PROGRESS \<Longrightarrow>
      \<exists>j<numThreads s. owned (pcOf s j) = Some r \<and> keyOf s j = keyOf s i"
  using assms unfolding ccInv_def by blast+

lemma ccInvI:
  assumes "\<And>i r. i < numThreads s \<Longrightarrow> owned (pcOf s i) = Some r \<Longrightarrow>
      r < length (ccResults s) \<and> ripStatus (ccResults s ! r) = IN_PROGRESS"
    and "\<And>i j r. i < numThreads s \<Longrightarrow> j < numThreads s \<Longrightarrow> owned (pcOf s i) = Some r \<Longrightarrow> owned (pcOf s j) = Some r \<Longrightarrow> i = j"
    and "\<And>i r. i < numThreads s \<Longrightarrow> registered (pcOf s i) = Some r \<Longrightarrow> \<exists>p. inProgress s (keyOf s i) = Some (p, r)"
    and "\<And>k p r. inProgress s k = Some (p, r) \<Longrightarrow> \<exists>i<numThreads s. registered (pcOf s i) = Some r \<and> keyOf s i = k"
    and "\<And>i r. i < numThreads s \<Longrightarrow> pcOf s i = Waiting r \<Longrightarrow> r < length (ccResults s) \<and>
      (ripStatus (ccResults s ! r) = IN_PROGRESS \<longrightarrow> (\<exists>j<numThreads s. owned (pcOf s j) = Some r \<and> keyOf s j = keyOf s i))"
  shows "ccInv s"
  using assms unfolding ccInv_def by blast

lemma ccInv_registered:
  assumes "ccInv s" "inProgress s k = Some (p, r)"
  shows "\<exists>i<numThreads s. registered (pcOf s i) = Some r \<and> keyOf s i = k"
  using assms unfolding ccInv_def by blast

lemma ccInv_one_owner:
  assumes "ccInv s" "i < numThreads s" "j < numThreads s" "registered (pcOf s i) = Some r" "registered (pcOf s j) = Some r'"
    and "keyOf s i = keyOf s j"
  shows "i = j"
  using ccInvD(3,4) [OF assms(1)] assms(2-) registered_owned by (metis option.inject prod.inject)

text \<open>What the invariant needs of a step of a thread: it changes only its own place, the entry of its own key and
  the result that it owns, or waits for a registered result.\<close>

definition ownStep :: "nat \<Rightarrow> ('k, 'v, 'c) ConcurrentCache \<Rightarrow> ('k, 'v, 'c) ConcurrentCache \<Rightarrow> bool" where
  "ownStep i s s' \<longleftrightarrow> i < numThreads s \<and> numThreads s' = numThreads s \<and> callOf s' = callOf s \<and>
     (\<forall>j. j \<noteq> i \<longrightarrow> pcOf s' j = pcOf s j) \<and> length (ccResults s) \<le> length (ccResults s') \<and>
     (\<forall>r<length (ccResults s). owned (pcOf s i) \<noteq> Some r \<longrightarrow> ccResults s' ! r = ccResults s ! r) \<and>
     (\<forall>k. k \<noteq> keyOf s i \<longrightarrow> inProgress s' k = inProgress s k) \<and>
     (\<forall>r. owned (pcOf s' i) = Some r \<longrightarrow> r < length (ccResults s') \<and> ripStatus (ccResults s' ! r) = IN_PROGRESS \<and>
        (owned (pcOf s i) = Some r \<or> length (ccResults s) \<le> r)) \<and>
     (\<forall>r. owned (pcOf s i) = Some r \<longrightarrow> owned (pcOf s' i) = Some r \<or> ripStatus (ccResults s' ! r) \<noteq> IN_PROGRESS) \<and>
     (\<forall>r. registered (pcOf s' i) = Some r \<longrightarrow> (\<exists>p. inProgress s' (keyOf s i) = Some (p, r)) \<and>
        (registered (pcOf s i) = Some r \<or> inProgress s (keyOf s i) = None)) \<and>
     (registered (pcOf s' i) = None \<longrightarrow>
        (if registered (pcOf s i) = None
         then map_option snd (inProgress s' (keyOf s i)) = map_option snd (inProgress s (keyOf s i))
         else inProgress s' (keyOf s i) = None)) \<and>
     (\<forall>r. pcOf s' i = Waiting r \<longrightarrow> (\<exists>p. inProgress s (keyOf s i) = Some (p, r)))"

lemma ownStepD:
  assumes "ownStep i s s'"
  shows "i < numThreads s" "numThreads s' = numThreads s" "callOf s' = callOf s"
    and "j \<noteq> i \<Longrightarrow> pcOf s' j = pcOf s j" "length (ccResults s) \<le> length (ccResults s')"
    and "r < length (ccResults s) \<Longrightarrow> owned (pcOf s i) \<noteq> Some r \<Longrightarrow> ccResults s' ! r = ccResults s ! r"
    and "k \<noteq> keyOf s i \<Longrightarrow> inProgress s' k = inProgress s k"
    and "owned (pcOf s' i) = Some r \<Longrightarrow> r < length (ccResults s') \<and> ripStatus (ccResults s' ! r) = IN_PROGRESS"
    and "owned (pcOf s' i) = Some r \<Longrightarrow> owned (pcOf s i) = Some r \<or> length (ccResults s) \<le> r"
    and "owned (pcOf s i) = Some r \<Longrightarrow> owned (pcOf s' i) = Some r \<or> ripStatus (ccResults s' ! r) \<noteq> IN_PROGRESS"
    and "registered (pcOf s' i) = Some r \<Longrightarrow> \<exists>p. inProgress s' (keyOf s i) = Some (p, r)"
    and "registered (pcOf s' i) = Some r \<Longrightarrow> registered (pcOf s i) = Some r \<or> inProgress s (keyOf s i) = None"
    and "registered (pcOf s' i) = None \<Longrightarrow> registered (pcOf s i) = None \<Longrightarrow>
      map_option snd (inProgress s' (keyOf s i)) = map_option snd (inProgress s (keyOf s i))"
    and "registered (pcOf s' i) = None \<Longrightarrow> registered (pcOf s i) \<noteq> None \<Longrightarrow> inProgress s' (keyOf s i) = None"
    and "pcOf s' i = Waiting r \<Longrightarrow> \<exists>p. inProgress s (keyOf s i) = Some (p, r)"
  using assms unfolding ownStep_def by presburger+

lemma step_owned:
  assumes inv: "ccInv s" and step: "ownStep i s s'" and j: "j < numThreads s'" "owned (pcOf s' j) = Some r"
  shows "r < length (ccResults s') \<and> ripStatus (ccResults s' ! r) = IN_PROGRESS"
proof (cases "j = i")
  case False
  then have r: "owned (pcOf s j) = Some r" "j < numThreads s" using j ownStepD(2,4) [OF step] by auto
  then have "owned (pcOf s i) \<noteq> Some r" using ccInvD(3) [OF inv ownStepD(1) [OF step] _ r(2,1)] False by auto
  then show ?thesis
    using ccInvD(1,2) [OF inv r(2,1)] ownStepD(5,6) [OF step] by simp
qed (use j ownStepD(8) [OF step] in blast)

lemma step_one_owner:
  assumes inv: "ccInv s" and step: "ownStep i s s'" and "j < numThreads s'" "k < numThreads s'"
    and "owned (pcOf s' j) = Some r" "owned (pcOf s' k) = Some r"
  shows "j = k"
proof -
  have own: "j = i" if "j < numThreads s'" "owned (pcOf s' i) = Some r" "owned (pcOf s' j) = Some r" for j
  proof (rule ccontr)
    assume ji: "j \<noteq> i"
    then have r: "owned (pcOf s j) = Some r" "j < numThreads s" using that ownStepD(2,4) [OF step] by auto
    then have "owned (pcOf s i) = Some r" using ccInvD(1) [OF inv r(2,1)] ownStepD(9) [OF step that(2)] by auto
    then show False using ccInvD(3) [OF inv ownStepD(1) [OF step] _ r(2,1)] ji by blast
  qed
  show ?thesis
  proof (cases "j = i \<or> k = i")
    case False
    then show ?thesis using assms(3-6) ownStepD(2,4) [OF step] ccInvD(3) [OF inv, of j r k] by simp
  qed (use assms(3-6) own in blast)
qed

lemma step_registered:
  assumes inv: "ccInv s" and step: "ownStep i s s'" and j: "j < numThreads s'" "registered (pcOf s' j) = Some r"
  shows "\<exists>p. inProgress s' (keyOf s' j) = Some (p, r)"
proof (cases "j = i")
  case True
  then show ?thesis using ownStepD(11) [OF step, of r] j(2) unfolding ownStepD(3) [OF step] by simp
next
  case False
  then have r: "j < numThreads s" "registered (pcOf s j) = Some r" using j ownStepD(2,4) [OF step] by auto
  then obtain p where p: "inProgress s (keyOf s j) = Some (p, r)" using ccInvD(4) [OF inv] by blast
  show ?thesis
  proof (cases "keyOf s j = keyOf s i")
    case True
    have "registered (pcOf s i) \<noteq> Some r'" for r'
      using ccInv_one_owner [OF inv ownStepD(1) [OF step] r(1) _ r(2), of r'] True False by auto
    moreover from this have "registered (pcOf s' i) \<noteq> Some r'" for r' using ownStepD(12) [OF step, of r'] p True by auto
    ultimately have "registered (pcOf s i) = None" "registered (pcOf s' i) = None" by (metis not_None_eq)+
    from ownStepD(13) [OF step this(2,1)] show ?thesis using p True unfolding ownStepD(3) [OF step] by auto
  next
    case False
    then show ?thesis using p ownStepD(7) [OF step False] unfolding ownStepD(3) [OF step] by simp
  qed
qed

lemma step_inProgress:
  assumes inv: "ccInv s" and step: "ownStep i s s'" and k: "inProgress s' k = Some (p, r)"
  shows "\<exists>j<numThreads s'. registered (pcOf s' j) = Some r \<and> keyOf s' j = k"
proof (cases "k = keyOf s i \<and> registered (pcOf s' i) \<noteq> None")
  case True
  then show ?thesis using ownStepD(1-3,11) [OF step] k by auto
next
  case False
  then obtain p' where "inProgress s k = Some (p', r)" "k = keyOf s i \<Longrightarrow> registered (pcOf s i) = None"
    using k ownStepD(7,13,14) [OF step]
    by (cases "k = keyOf s i"; cases "registered (pcOf s i)"; cases "inProgress s k") auto
  moreover from this obtain j where j: "j < numThreads s" "registered (pcOf s j) = Some r" "keyOf s j = k"
    using ccInv_registered [OF inv] by blast
  ultimately have "j \<noteq> i" by auto
  then show ?thesis using ownStepD(2-4) [OF step] j by (intro exI [of _ j]) simp
qed

lemma step_waiting:
  assumes inv: "ccInv s" and step: "ownStep i s s'" and j: "j < numThreads s'" "pcOf s' j = Waiting r"
  shows "r < length (ccResults s') \<and> (ripStatus (ccResults s' ! r) = IN_PROGRESS \<longrightarrow>
    (\<exists>k<numThreads s'. owned (pcOf s' k) = Some r \<and> keyOf s' k = keyOf s' j))"
proof -
  consider "j = i" "\<exists>p. inProgress s (keyOf s i) = Some (p, r)" | "j \<noteq> i" "pcOf s j = Waiting r"
    using j(2) ownStepD(4,15) [OF step] by (cases "j = i") auto
  then have r: "r < length (ccResults s) \<and> (ripStatus (ccResults s ! r) = IN_PROGRESS \<longrightarrow>
      (\<exists>k<numThreads s. owned (pcOf s k) = Some r \<and> keyOf s k = keyOf s j))"
  proof cases
    case 1
    then obtain k where "k < numThreads s" "registered (pcOf s k) = Some r" "keyOf s k = keyOf s j"
      using ccInv_registered [OF inv] by blast
    then show ?thesis using registered_owned ccInvD(1) [OF inv, of k r] by blast
  next
    case 2
    then show ?thesis using ccInvD(5,6) [OF inv, of j r] j(1) ownStepD(2) [OF step] by simp
  qed
  have "\<exists>k<numThreads s'. owned (pcOf s' k) = Some r \<and> keyOf s' k = keyOf s' j"
    if prog: "ripStatus (ccResults s' ! r) = IN_PROGRESS"
  proof -
    have "ripStatus (ccResults s ! r) = IN_PROGRESS"
      using prog ownStepD(6) [OF step, of r] r ccInvD(2) [OF inv ownStepD(1) [OF step]]
      by (cases "owned (pcOf s i) = Some r") auto
    then obtain k where k: "k < numThreads s" "owned (pcOf s k) = Some r" "keyOf s k = keyOf s j" using r by blast
    then have "owned (pcOf s' k) = Some r" using ownStepD(4,10) [OF step] prog by (cases "k = i") auto
    then show ?thesis using k ownStepD(2,3) [OF step] by auto
  qed
  then show ?thesis using r ownStepD(5) [OF step] by auto
qed

lemma ccInv_step: "ccInv s \<Longrightarrow> ownStep i s s' \<Longrightarrow> ccInv s'"
  by (intro ccInvI) (blast dest: step_owned step_one_owner step_registered step_inProgress step_waiting)+

lemma ccInv_init: "ccInv (makeConcurrentCache c)"
  by (simp add: ccInv_def makeConcurrentCache_def)

lemma newThread_simps [simp]:
  "numThreads (newThread call s) = Suc (numThreads s)" "ccCache (newThread call s) = ccCache s"
  "inProgress (newThread call s) = inProgress s" "ccResults (newThread call s) = ccResults s"
  "j < numThreads s \<Longrightarrow> pcOf (newThread call s) j = pcOf s j" "j < numThreads s \<Longrightarrow> callOf (newThread call s) j = callOf s j"
  "pcOf (newThread call s) (numThreads s) = Begin" "callOf (newThread call s) (numThreads s) = call"
  by (auto simp: newThread_def pcOf_def callOf_def nth_append)

lemma ccInv_call:
  assumes inv: "ccInv s"
  shows "ccInv (newThread call s)"
proof (rule ccInvI)
  fix j k r assume "j < numThreads (newThread call s)" "k < numThreads (newThread call s)"
    "owned (pcOf (newThread call s) j) = Some r" "owned (pcOf (newThread call s) k) = Some r"
  then show "j = k" using ccInvD(3) [OF inv] by (auto simp: less_Suc_eq)
next
  fix k p r assume "inProgress (newThread call s) k = Some (p, r)"
  then obtain j where "j < numThreads s" "registered (pcOf s j) = Some r" "keyOf s j = k"
    using ccInv_registered [OF inv, of k p r] by auto
  then show "\<exists>j<numThreads (newThread call s). registered (pcOf (newThread call s) j) = Some r \<and> keyOf (newThread call s) j = k"
    by (intro exI [of _ j]) simp
next
  fix j r assume j: "j < numThreads (newThread call s)" "pcOf (newThread call s) j = Waiting r"
  then have j': "j < numThreads s" "pcOf s j = Waiting r" by (auto simp: less_Suc_eq)
  have "\<exists>k<numThreads (newThread call s). owned (pcOf (newThread call s) k) = Some r \<and> keyOf (newThread call s) k = keyOf s j"
    if prog: "ripStatus (ccResults s ! r) = IN_PROGRESS"
  proof -
    obtain k where "k < numThreads s" "owned (pcOf s k) = Some r" "keyOf s k = keyOf s j"
      using ccInvD(6) [OF inv j' prog] by blast
    then show ?thesis by (intro exI [of _ k]) simp
  qed
  then show "r < length (ccResults (newThread call s)) \<and> (ripStatus (ccResults (newThread call s) ! r) = IN_PROGRESS \<longrightarrow>
      (\<exists>k<numThreads (newThread call s). owned (pcOf (newThread call s) k) = Some r \<and>
        keyOf (newThread call s) k = keyOf (newThread call s) j))"
    using ccInvD(5) [OF inv j'] j' by simp
qed (use ccInvD(1,2,4) [OF inv] in \<open>auto simp: less_Suc_eq\<close>)

lemma threadStep_eq:
  "threadStep ops i s = (if numThreads s \<le> i then None else case pcOf s i of
        Begin \<Rightarrow> Some (determine ops i (callOf s i) s)
      | Computing r \<Rightarrow>
          (case callCompute (callOf s i) of
             Inl e \<Rightarrow> Some (goto i (Catching r e) s)
           | Inr v \<Rightarrow>
               if callSuitable (callOf s i) v then Some (goto i (Moving r v) s)
               else if callPinned (callOf s i) then Some (goto i (Catching r ContractViolation) s)
               else Some (goto i (Erasing r v) s))
      | Moving r v \<Rightarrow>
          (case moveFromInProgressToCache ops (keyOf s i) v s of
             None \<Rightarrow> None
           | Some (Inl e, s') \<Rightarrow> Some (goto i (Catching r e) s')
           | Some (Inr _, s') \<Rightarrow> Some (goto i (Finishing r v (Some v)) s'))
      | Erasing r v \<Rightarrow> Some (goto i (Finishing r v None) (eraseInProgress (keyOf s i) s))
      | Finishing r v result \<Rightarrow>
          (case finishResult result (ccResults s ! r) of
             Inl e \<Rightarrow> Some (goto i (Catching r e) s)
           | Inr r' \<Rightarrow> Some (goto i (Returned (Inr (Some v, computed))) (s\<lparr>ccResults := (ccResults s)[r := r']\<rparr>)))
      | Catching r e \<Rightarrow> Some (goto i (Aborting r e) (eraseInProgress (keyOf s i) s))
      | Aborting r e \<Rightarrow>
          (case abortResult (ccResults s ! r) of
             Inl e' \<Rightarrow> Some (goto i (Returned (Inl e')) s)
           | Inr r' \<Rightarrow> Some (goto i (Returned (Inl e)) (s\<lparr>ccResults := (ccResults s)[r := r']\<rparr>)))
      | Waiting r \<Rightarrow>
          (case getResult (ccResults s ! r) of
             None \<Rightarrow> None
           | Some (Inl e) \<Rightarrow> Some (goto i (Returned (Inl e)) s)
           | Some (Inr (Some v)) \<Rightarrow> Some (goto i (Returned (Inr (Some v, computed))) s)
           | Some (Inr None) \<Rightarrow> Some (goto i FallbackComputing s))
      | FallbackComputing \<Rightarrow>
          (case callCompute (callOf s i) of
             Inl e \<Rightarrow> Some (goto i (Returned (Inl e)) s)
           | Inr v \<Rightarrow>
               if callSuitable (callOf s i) v then Some (goto i (FallbackInserting v) s)
               else if callPinned (callOf s i) then Some (goto i (Returned (Inl ContractViolation)) s)
               else Some (goto i (Returned (Inr (Some v, computed))) s))
      | FallbackInserting v \<Rightarrow>
          (case tryInsertIfNotPresent ops (callPinned (callOf s i)) (keyOf s i) v (ccCache s) of
             None \<Rightarrow> None
           | Some (Inl e, c) \<Rightarrow> Some (goto i (Returned (Inl e)) (s\<lparr>ccCache := c\<rparr>))
           | Some (Inr _, c) \<Rightarrow> Some (goto i (Returned (Inr (Some v, computed))) (s\<lparr>ccCache := c\<rparr>)))
      | Returned result \<Rightarrow> None)"
  by (simp only: threadStep_def Let_def pcOf_def callOf_def)

lemma determine_own:
  assumes "ccInv s" "i < numThreads s" "pcOf s i = Begin"
  shows "ownStep i s (determine ops i (callOf s i) s)"
  using assms(2,3)
  by (auto simp: ownStep_def determine_def Let_def split_beta nth_append makeResultInProgress_def
       split: sum.splits option.splits prod.splits)


lemma complete_simps:
  "ripStatus r = IN_PROGRESS \<Longrightarrow> finishResult v r = Inr \<lparr>ripStatus = FINISHED, ripResult = v\<rparr>"
  "ripStatus r = IN_PROGRESS \<Longrightarrow> abortResult r = Inr (r\<lparr>ripStatus := ABORTED\<rparr>)"
  by (simp_all add: finishResult_def abortResult_def)

lemma aborted_not_finished: "r\<lparr>ripStatus := ABORTED\<rparr> \<noteq> \<lparr>ripStatus = FINISHED, ripResult = v\<rparr>"
  by (cases r) simp

lemma threadStep_own:
  assumes "ccInv s" "threadStep ops i s = Some s'"
  shows "ownStep i s s'"
proof -
  have i: "i < numThreads s" using assms(2) by (auto simp: threadStep_eq split: if_splits)
  note inv = ccInvD [OF assms(1) i]
  show ?thesis
    using assms(2) i inv(1,2,4) determine_own [OF assms(1) i, of ops]
    by (cases "pcOf s i")
      (auto simp: threadStep_eq ownStep_def eraseInProgress_def complete_simps moveFromInProgressToCache_def
        split: sum.splits option.splits prod.splits if_splits)
qed


lemma ccInv_cache: "ccInv (s\<lparr>ccCache := c\<rparr>) = ccInv s"
  by (simp add: ccInv_def)

lemma reachable_ccInv: "ccReachable ops allowed c s \<Longrightarrow> ccInv s"
proof (induction rule: ccReachable.induct)
  case (step s a s')
  then show ?case
    by (cases a) (auto simp: ccInv_cache intro: ccInv_call ccInv_step threadStep_own)
qed (rule ccInv_init)

section \<open>Every call returns\<close>

text \<open>The number of steps that a thread has left.\<close>

fun stepsLeft :: "'v Pc \<Rightarrow> nat" where
  "stepsLeft Begin = 6"
| "stepsLeft (Computing r) = 5"
| "stepsLeft (Moving r v) = 4"
| "stepsLeft (Erasing r v) = 4"
| "stepsLeft (Finishing r v x) = 3"
| "stepsLeft (Catching r e) = 2"
| "stepsLeft (Aborting r e) = 1"
| "stepsLeft (Waiting r) = 3"
| "stepsLeft FallbackComputing = 2"
| "stepsLeft (FallbackInserting v) = 1"
| "stepsLeft (Returned x) = 0"

definition totalSteps :: "('k, 'v, 'c) ConcurrentCache \<Rightarrow> nat" where
  "totalSteps s = (\<Sum>i<numThreads s. stepsLeft (pcOf s i))"

lemma threadStep_decreases:
  assumes "threadStep ops i s = Some s'"
  shows "i < numThreads s \<and> numThreads s' = numThreads s \<and> stepsLeft (pcOf s' i) < stepsLeft (pcOf s i) \<and>
    (\<forall>j. j \<noteq> i \<longrightarrow> pcOf s' j = pcOf s j)"
proof -
  have i: "i < numThreads s" using assms by (auto simp: threadStep_eq split: if_splits)
  then show ?thesis
    using assms
    by (cases "pcOf s i")
      (auto simp: threadStep_eq eraseInProgress_def moveFromInProgressToCache_def determine_def Let_def
        split: sum.splits option.splits prod.splits if_splits)
qed

lemma totalSteps_decreases: "threadStep ops i s = Some s' \<Longrightarrow> totalSteps s' < totalSteps s"
  using threadStep_decreases [of ops i s s'] unfolding totalSteps_def
  by (auto intro!: sum_strict_mono_ex1) (metis order.refl order_less_imp_le)+

text \<open>A result stays registered until its owner removes it, and the wish to pin it is kept.\<close>

lemma threadStep_entry:
  assumes "threadStep ops i s = Some s'"
  shows "inProgress s k = Some (p, r) \<Longrightarrow> (\<exists>p'. inProgress s' k = Some (p', r) \<and> (p \<longrightarrow> p')) \<or>
      inProgress s' k = None \<and> k = keyOf s i \<and> registered (pcOf s i) \<noteq> None"
    and "inProgress s' k = Some (p', r') \<Longrightarrow> (\<exists>p. inProgress s k = Some (p, r')) \<or> r' = length (ccResults s)"
proof -
  have "i < numThreads s" using assms by (auto simp: threadStep_eq split: if_splits)
  then show "inProgress s k = Some (p, r) \<Longrightarrow> (\<exists>p'. inProgress s' k = Some (p', r) \<and> (p \<longrightarrow> p')) \<or>
      inProgress s' k = None \<and> k = keyOf s i \<and> registered (pcOf s i) \<noteq> None"
    and "inProgress s' k = Some (p', r') \<Longrightarrow> (\<exists>p. inProgress s k = Some (p, r')) \<or> r' = length (ccResults s)"
    using assms
    by (cases "pcOf s i"; auto simp: threadStep_eq eraseInProgress_def moveFromInProgressToCache_def determine_def Let_def
        split: sum.splits option.splits prod.splits if_splits)+
qed

section \<open>The contract of the cache\<close>

text \<open>What the proofs use of the cache: \<open>stored\<close> is the map of its entries, \<open>pinnedKeys\<close> are the keys of the pinned
  ones. No operation of a thread removes a pinned entry or changes a value, and all of them return.\<close>

locale shared_cache =
  fixes ops :: "('k, 'v, 'c) CacheOps" and cinv :: "'c \<Rightarrow> bool" and stored :: "'c \<Rightarrow> 'k \<rightharpoonup> 'v"
    and pinnedKeys :: "'c \<Rightarrow> 'k set" and actOk :: "cacheAction \<Rightarrow> bool"
  assumes pinned_law: "cinv c \<Longrightarrow> opContainsPinned ops k c \<longleftrightarrow> k \<in> pinnedKeys c"
    and contains_law: "cinv c \<Longrightarrow> opContainsPinned ops k c \<or> opContainsNonPinned ops k c \<longleftrightarrow> k \<in> dom (stored c)"
    and lookup_law: "cinv c \<Longrightarrow> \<exists>c'. opLookup ops k c = (Inr (stored c k), c') \<and> cinv c' \<and> stored c' = stored c \<and>
      pinnedKeys c' = pinnedKeys c"
    and pin_law: "cinv c \<Longrightarrow> \<exists>c'. opPinIfExists ops k c = (Inr (k \<in> dom (stored c)), c') \<and> cinv c' \<and> stored c' = stored c \<and>
      pinnedKeys c' = pinnedKeys c \<union> ({k} \<inter> dom (stored c))"
    and insert_law: "cinv c \<Longrightarrow> \<exists>x c'. opInsert ops k v c = Some (x, c') \<and> cinv c' \<and> pinnedKeys c \<subseteq> pinnedKeys c' \<and>
      (\<forall>k' w. stored c' k' = Some w \<longrightarrow> stored c k' = Some w \<or> k' = k \<and> w = v)"
    and insertPinned_law: "cinv c \<Longrightarrow> \<exists>x c'. opInsertPinned ops k v c = Some (x, c') \<and> cinv c' \<and> pinnedKeys c \<subseteq> pinnedKeys c' \<and>
      (\<forall>k' w. stored c' k' = Some w \<longrightarrow> stored c k' = Some w \<or> k' = k \<and> w = v) \<and> (x = Inr () \<longrightarrow> k \<in> pinnedKeys c')"
    and act_law: "cinv c \<Longrightarrow> actOk a \<Longrightarrow> \<exists>x c'. opAct ops a c = Some (x, c') \<and> cinv c' \<and> stored c' \<subseteq>\<^sub>m stored c \<and>
      (a \<noteq> ClearAll \<longrightarrow> pinnedKeys c \<subseteq> pinnedKeys c')"
begin

lemma tryInsert_law:
  assumes "cinv c"
  shows "\<exists>x c'. tryInsertIfNotPresent ops pinned k v c = Some (x, c') \<and> cinv c' \<and> pinnedKeys c \<subseteq> pinnedKeys c' \<and>
    (\<forall>k' w. stored c' k' = Some w \<longrightarrow> stored c k' = Some w \<or> k' = k \<and> w = v) \<and> (pinned \<longrightarrow> x = Inr () \<longrightarrow> k \<in> pinnedKeys c')"
proof -
  obtain c' where c': "opPinIfExists ops k c = (Inr (k \<in> dom (stored c)), c')" "cinv c'" "stored c' = stored c"
    "pinnedKeys c' = pinnedKeys c \<union> ({k} \<inter> dom (stored c))" using pin_law [OF assms] by blast
  consider (pin) "pinned" "k \<in> dom (stored c)" | (new) "pinned" "k \<notin> dom (stored c)"
    | (present) "\<not> pinned" "k \<in> dom (stored c)" | (absent) "\<not> pinned" "k \<notin> dom (stored c)" by blast
  then show ?thesis
  proof cases
    case pin
    then show ?thesis using c' by (auto simp: tryInsertIfNotPresent_def)
  next
    case new
    then show ?thesis using insertPinned_law [OF c'(2), of k v] c' by (auto simp: tryInsertIfNotPresent_def)
  next
    case present
    then show ?thesis using contains_law [OF assms, of k] assms by (simp add: tryInsertIfNotPresent_def)
  next
    case absent
    then show ?thesis using contains_law [OF assms, of k] insert_law [OF assms, of k v] by (auto simp: tryInsertIfNotPresent_def)
  qed
qed

lemma move_law:
  assumes "cinv (ccCache s)" "inProgress s k = Some (p, r)"
  shows "\<exists>x c'. moveFromInProgressToCache ops k v s =
      Some (x, s\<lparr>ccCache := c', inProgress := (if x = Inr () then (inProgress s)(k := None) else inProgress s)\<rparr>) \<and>
    cinv c' \<and> pinnedKeys (ccCache s) \<subseteq> pinnedKeys c' \<and>
    (\<forall>k' w. stored c' k' = Some w \<longrightarrow> stored (ccCache s) k' = Some w \<or> k' = k \<and> w = v) \<and>
    (p \<longrightarrow> x = Inr () \<longrightarrow> k \<in> pinnedKeys c')"
proof -
  obtain x c' where ins: "(if p then opInsertPinned ops k v (ccCache s) else opInsert ops k v (ccCache s)) = Some (x, c')"
      "cinv c'" "pinnedKeys (ccCache s) \<subseteq> pinnedKeys c'" "p \<longrightarrow> x = Inr () \<longrightarrow> k \<in> pinnedKeys c'"
      "\<forall>k' w. stored c' k' = Some w \<longrightarrow> stored (ccCache s) k' = Some w \<or> k' = k \<and> w = v"
    using insert_law [OF assms(1), of k v] insertPinned_law [OF assms(1), of k v] by (cases p) auto
  then show ?thesis using assms(2) by (cases x) (auto simp: moveFromInProgressToCache_def)
qed

text \<open>A thread that does not wait can make its next step, and so a state in which none can has only returned calls.\<close>

lemma busy_steps:
  assumes "ccInv s" "cinv (ccCache s)" "i < numThreads s" "\<And>r. pcOf s i \<noteq> Waiting r" "\<And>x. pcOf s i \<noteq> Returned x"
  shows "threadStep ops i s \<noteq> None"
proof -
  have "\<exists>x s'. moveFromInProgressToCache ops (keyOf s i) v s = Some (x, s')" if "pcOf s i = Moving r v" for r v
    using ccInvD(4) [OF assms(1,3), of r] that move_law [OF assms(2), of "keyOf s i" _ r v] by fastforce
  moreover have "\<exists>x c. tryInsertIfNotPresent ops (callPinned (callOf s i)) (keyOf s i) v (ccCache s) = Some (x, c)" for v
    using tryInsert_law [OF assms(2)] by blast
  ultimately show ?thesis using assms(3-5)
    by (cases "pcOf s i") (fastforce simp: threadStep_eq split: sum.splits option.splits prod.splits)+
qed

lemma stuck_returned:
  assumes "ccInv s" "cinv (ccCache s)" "\<And>i. threadStep ops i s = None" "i < numThreads s"
  shows "\<exists>x. pcOf s i = Returned x"
proof (rule ccontr)
  assume "\<nexists>x. pcOf s i = Returned x"
  then obtain r where r: "pcOf s i = Waiting r" using busy_steps [OF assms(1,2,4)] assms(3) by auto
  then have "ripStatus (ccResults s ! r) = IN_PROGRESS"
    using assms(3) [of i] assms(4) by (auto simp: threadStep_eq getResult_def split: Status.splits option.splits)
  then obtain j where "j < numThreads s" "owned (pcOf s j) = Some r" using ccInvD(6) [OF assms(1,4) r] by blast
  then show False using busy_steps [OF assms(1,2), of j] assms(3) by (cases "pcOf s j") auto
qed

section \<open>The returned values\<close>

text \<open>The effect of a step on the cache.\<close>

lemma determine_cache:
  assumes "cinv (ccCache s)"
  shows "cinv (ccCache (determine ops i call s)) \<and> pinnedKeys (ccCache s) \<subseteq> pinnedKeys (ccCache (determine ops i call s)) \<and>
    stored (ccCache (determine ops i call s)) = stored (ccCache s)"
proof -
  obtain c where c: "opPinIfExists ops (callKey call) (ccCache s) = (Inr (callKey call \<in> dom (stored (ccCache s))), c)"
      "cinv c" "stored c = stored (ccCache s)" "pinnedKeys (ccCache s) \<subseteq> pinnedKeys c"
    using pin_law [OF assms, of "callKey call"] by auto
  obtain c' where c': "opLookup ops (callKey call) (ccCache s) = (Inr (stored (ccCache s) (callKey call)), c')" "cinv c'"
      "stored c' = stored (ccCache s)" "pinnedKeys c' = pinnedKeys (ccCache s)" using lookup_law [OF assms] by blast
  obtain c'' where c'': "opLookup ops (callKey call) c = (Inr (stored c (callKey call)), c'')" "cinv c''"
      "stored c'' = stored c" "pinnedKeys c'' = pinnedKeys c" using lookup_law [OF c(2)] by blast
  show ?thesis using assms c c' c'' by (auto simp: determine_def Let_def split: option.splits)
qed

lemma thread_cache:
  assumes "ccInv s" "cinv (ccCache s)" "threadStep ops i s = Some s'"
  shows "cinv (ccCache s') \<and> pinnedKeys (ccCache s) \<subseteq> pinnedKeys (ccCache s') \<and>
    (\<forall>k w. stored (ccCache s') k = Some w \<longrightarrow> stored (ccCache s) k = Some w \<or>
       k = keyOf s i \<and> ((\<exists>r. pcOf s i = Moving r w) \<or> pcOf s i = FallbackInserting w))"
proof -
  have i: "i < numThreads s" using assms(3) by (auto simp: threadStep_eq split: if_splits)
  note ins = tryInsert_law [OF assms(2), of "callPinned (callOf s i)" "keyOf s i"]
  show ?thesis
  proof (cases "pcOf s i")
    case Begin
    then show ?thesis using determine_cache [OF assms(2), of i "callOf s i"] assms(3) i by (simp add: threadStep_eq)
  next
    case (Moving r v)
    then obtain p where p: "inProgress s (keyOf s i) = Some (p, r)" using ccInvD(4) [OF assms(1) i, of r] by auto
    obtain x c' where c': "moveFromInProgressToCache ops (keyOf s i) v s = Some (x, s\<lparr>ccCache := c',
        inProgress := if x = Inr () then (inProgress s)(keyOf s i := None) else inProgress s\<rparr>)"
      "cinv c'" "pinnedKeys (ccCache s) \<subseteq> pinnedKeys c'"
      "\<forall>k' w. stored c' k' = Some w \<longrightarrow> stored (ccCache s) k' = Some w \<or> k' = keyOf s i \<and> w = v"
      using move_law [OF assms(2) p, of v] by blast
    then have "ccCache s' = c'" using Moving assms(3) i by (cases x) (auto simp: threadStep_eq)
    then show ?thesis using c'(2-4) Moving by blast
  next
    case (FallbackInserting v)
    from ins [of v] obtain x c' where c': "tryInsertIfNotPresent ops (callPinned (callOf s i)) (keyOf s i) v (ccCache s) = Some (x, c')"
      "cinv c'" "pinnedKeys (ccCache s) \<subseteq> pinnedKeys c'"
      "\<forall>k' w. stored c' k' = Some w \<longrightarrow> stored (ccCache s) k' = Some w \<or> k' = keyOf s i \<and> w = v" by blast
    then have "ccCache s' = c'" using FallbackInserting assms(3) i by (cases x) (auto simp: threadStep_eq)
    then show ?thesis using c'(2-4) FallbackInserting by blast
  qed (use assms(2,3) i in \<open>auto simp: threadStep_eq eraseInProgress_def split: sum.splits option.splits if_splits\<close>)
qed

end

text \<open>What holds for a thread: the values that it handles are valid for its key, and a pinned call that has its
  value in the cache has it pinned. It holds for waiting threads as well when the owner of the result finishes.\<close>

definition threadOk :: "('k \<Rightarrow> 'v \<Rightarrow> bool) \<Rightarrow> 'k set \<Rightarrow> ('k, 'v) Call \<Rightarrow> 'v Pc \<Rightarrow> bool" where
  "threadOk valid pins call pc \<longleftrightarrow> (\<forall>v. callCompute call = Inr v \<longrightarrow> valid (callKey call) v) \<and>
     (case pc of
        Moving r v \<Rightarrow> valid (callKey call) v
      | Erasing r v \<Rightarrow> valid (callKey call) v \<and> \<not> callPinned call
      | Finishing r v x \<Rightarrow> valid (callKey call) v \<and>
          (if x = None then \<not> callPinned call else x = Some v \<and> (callPinned call \<longrightarrow> callKey call \<in> pins))
      | FallbackInserting v \<Rightarrow> valid (callKey call) v
      | Returned (Inr (Some v, status)) \<Rightarrow> valid (callKey call) v \<and> (callPinned call \<longrightarrow> callKey call \<in> pins)
      | Returned (Inr (None, status)) \<Rightarrow> callOnlyReadFromCache call \<and> status = notInCacheAndNotComputed
      | _ \<Rightarrow> True)"

definition waitOk :: "('k \<Rightarrow> 'v \<Rightarrow> bool) \<Rightarrow> 'k set \<Rightarrow> ('k, 'v, 'c) ConcurrentCache \<Rightarrow> nat \<Rightarrow> bool" where
  "waitOk valid pins s i \<longleftrightarrow> (\<forall>r. pcOf s i = Waiting r \<longrightarrow>
     (\<forall>v. ccResults s ! r = \<lparr>ripStatus = FINISHED, ripResult = Some v\<rparr> \<longrightarrow>
        valid (keyOf s i) v \<and> (callPinned (callOf s i) \<longrightarrow> keyOf s i \<in> pins)) \<and>
     (callPinned (callOf s i) \<longrightarrow> (\<forall>p. inProgress s (keyOf s i) = Some (p, r) \<longrightarrow> p) \<and>
        (\<forall>j<numThreads s. \<forall>v w. pcOf s j = Finishing r v (Some w) \<longrightarrow> keyOf s i \<in> pins)))"

definition registerOk :: "('k, 'v, 'c) ConcurrentCache \<Rightarrow> nat \<Rightarrow> bool" where
  "registerOk s i \<longleftrightarrow> (\<forall>r. registered (pcOf s i) = Some r \<longrightarrow> callPinned (callOf s i) \<longrightarrow>
     inProgress s (keyOf s i) = Some (True, r))"

lemma registerOk_step:
  assumes inv: "ccInv s" and step: "threadStep ops i s = Some s'" and ok: "\<And>j. j < numThreads s \<Longrightarrow> registerOk s j" and j: "j < numThreads s"
  shows "registerOk s' j"
proof -
  note own = threadStep_own [OF inv step]
  show ?thesis
  proof (cases "j = i")
    case True
    then show ?thesis using step j ok [OF j] ccInvD(2) [OF inv j]
      by (cases "pcOf s i"; auto simp: registerOk_def threadStep_eq complete_simps eraseInProgress_def moveFromInProgressToCache_def determine_def Let_def
        split: sum.splits option.splits prod.splits if_splits)
  next
    case False
    then have same: "pcOf s' j = pcOf s j" "callOf s' = callOf s" using ownStepD(3,4) [OF own] by auto
    have "registered (pcOf s i) = None" if "registered (pcOf s j) = Some r" "keyOf s j = keyOf s i" for r
      using ccInv_one_owner [OF inv j ownStepD(1) [OF own] that(1)] that(2) False by (metis not_None_eq)
    then show ?thesis unfolding registerOk_def same using ok [OF j] threadStep_entry(1) [OF step, of "keyOf s j" True]
      by (auto simp: registerOk_def)
  qed
qed

lemma threadOk_mono: "threadOk valid pins call pc \<Longrightarrow> pins \<subseteq> pins' \<Longrightarrow> threadOk valid pins' call pc"
  by (auto simp: threadOk_def split: Pc.splits sum.splits option.splits if_splits)

context shared_cache
begin

lemma determine_threadOk:
  assumes "cinv (ccCache s)" "i < numThreads s" "pcOf s i = Begin" "\<And>k v. stored (ccCache s) k = Some v \<Longrightarrow> valid k v"
    and "threadOk valid (pinnedKeys (ccCache s)) (callOf s i) Begin"
  shows "threadOk valid (pinnedKeys (ccCache (determine ops i (callOf s i) s))) (callOf s i) (pcOf (determine ops i (callOf s i) s) i)"
proof -
  let ?k = "keyOf s i"
  obtain c where c: "opPinIfExists ops ?k (ccCache s) = (Inr (?k \<in> dom (stored (ccCache s))), c)" "cinv c"
      "stored c = stored (ccCache s)" "pinnedKeys c = pinnedKeys (ccCache s) \<union> ({?k} \<inter> dom (stored (ccCache s)))"
    using pin_law [OF assms(1)] by blast
  obtain c' where c': "opLookup ops ?k (ccCache s) = (Inr (stored (ccCache s) ?k), c')" using lookup_law [OF assms(1)] by blast
  obtain c'' where c'': "opLookup ops ?k c = (Inr (stored c ?k), c'')" "pinnedKeys c'' = pinnedKeys c"
    using lookup_law [OF c(2)] by blast
  have status: "getCacheStatus ops (ccCache s) ?k = computed \<longleftrightarrow> stored (ccCache s) ?k = None"
    using contains_law [OF assms(1), of ?k] by (auto simp: getCacheStatus_def)
  show ?thesis
    using assms(2,4,5) c c' c'' status
    by (auto simp: determine_def Let_def threadOk_def split: option.splits)
qed

lemma threadOk_step:
  assumes inv: "ccInv s" "cinv (ccCache s)" and step: "threadStep ops i s = Some s'"
    and valid: "\<And>k v. stored (ccCache s) k = Some v \<Longrightarrow> valid k v"
    and ok: "threadOk valid (pinnedKeys (ccCache s)) (callOf s i) (pcOf s i)" "registerOk s i" "waitOk valid (pinnedKeys (ccCache s)) s i"
  shows "threadOk valid (pinnedKeys (ccCache s')) (callOf s i) (pcOf s' i)"
proof -
  have i: "i < numThreads s" using step by (auto simp: threadStep_eq split: if_splits)
  show ?thesis
  proof (cases "pcOf s i")
    case Begin
    then show ?thesis using determine_threadOk [OF inv(2) i] valid ok(1) step i by (simp add: threadStep_eq)
  next
    case (Moving r v)
    then obtain p where p: "inProgress s (keyOf s i) = Some (p, r)" "callPinned (callOf s i) \<longrightarrow> p"
      using ccInvD(4) [OF inv(1) i, of r] ok(2) by (auto simp: registerOk_def)
    obtain x c' where "moveFromInProgressToCache ops (keyOf s i) v s = Some (x, s\<lparr>ccCache := c',
        inProgress := if x = Inr () then (inProgress s)(keyOf s i := None) else inProgress s\<rparr>)"
      "p \<longrightarrow> x = Inr () \<longrightarrow> keyOf s i \<in> pinnedKeys c'"
      using move_law [OF inv(2) p(1), of v] by blast
    then show ?thesis using Moving step i ok(1) p(2) by (cases x) (auto simp: threadStep_eq threadOk_def)
  next
    case (FallbackInserting v)
    then show ?thesis using tryInsert_law [OF inv(2), of "callPinned (callOf s i)" "keyOf s i" v] step i ok(1)
      by (auto simp: threadStep_eq threadOk_def split: sum.splits)
  next
    case (Waiting r)
    obtain st x where r: "ccResults s ! r = \<lparr>ripStatus = st, ripResult = x\<rparr>" by (cases "ccResults s ! r") auto
    then show ?thesis using Waiting step i ok(1,3)
      by (auto simp: threadStep_eq threadOk_def waitOk_def getResult_def split: Status.splits option.splits)
  qed (use ok(1) step i ccInvD(2) [OF inv(1) i] in
        \<open>auto simp: threadStep_eq threadOk_def complete_simps eraseInProgress_def split: sum.splits if_splits\<close>)
qed

text \<open>A waiting thread has the key of the owner of its result.\<close>

lemma waiting_key:
  assumes "ccInv s" "i < numThreads s" "owned (pcOf s i) = Some r" "j < numThreads s" "pcOf s j = Waiting r"
  shows "keyOf s j = keyOf s i"
  using ccInvD(6) [OF assms(1,4,5) ccInvD(2) [OF assms(1-3)]] ccInvD(3) [OF assms(1,2,3)] by metis

lemma finished_by:
  assumes inv: "ccInv s" and step: "threadStep ops i s = Some s'" and r: "r < length (ccResults s)"
    and "ccResults s' ! r = \<lparr>ripStatus = FINISHED, ripResult = Some v\<rparr>"
  shows "ccResults s ! r = ccResults s' ! r \<or> (\<exists>w. pcOf s i = Finishing r w (Some v))"
proof -
  have i: "i < numThreads s" using step by (auto simp: threadStep_eq split: if_splits)
  show ?thesis
    using assms(4) step i r ccInvD(1,2) [OF inv i]
    by (cases "pcOf s i")
      (auto simp: threadStep_eq complete_simps eraseInProgress_def moveFromInProgressToCache_def determine_def Let_def nth_append
        nth_list_update aborted_not_finished split: sum.splits option.splits prod.splits if_splits)
qed

lemma starts_finishing:
  assumes inv: "ccInv s" and step: "threadStep ops i s = Some s'" and "pcOf s' i = Finishing r v (Some w)"
  shows "pcOf s i = Moving r v"
proof -
  have i: "i < numThreads s" using step by (auto simp: threadStep_eq split: if_splits)
  then show ?thesis
    using assms(2,3) by (cases "pcOf s i")
      (auto simp: threadStep_eq eraseInProgress_def moveFromInProgressToCache_def determine_def Let_def
        split: sum.splits option.splits prod.splits if_splits)
qed

lemma starts_waiting:
  assumes inv: "ccInv s" and step: "threadStep ops i s = Some s'" and "pcOf s' i = Waiting r"
  shows "\<exists>p. inProgress s (keyOf s i) = Some (p, r) \<and> inProgress s' (keyOf s i) = Some (p \<or> callPinned (callOf s i), r) \<and>
    ccResults s' = ccResults s"
proof -
  have i: "i < numThreads s" using step by (auto simp: threadStep_eq split: if_splits)
  then show ?thesis
    using assms(2,3) by (cases "pcOf s i")
      (auto simp: threadStep_eq eraseInProgress_def moveFromInProgressToCache_def determine_def Let_def
        split: sum.splits option.splits prod.splits if_splits)
qed

lemma waitOk_new:
  assumes inv: "ccInv s" and step: "threadStep ops i s = Some s'"
  shows "waitOk valid pins s' i"
  unfolding waitOk_def
proof (intro allI impI)
  fix r assume w: "pcOf s' i = Waiting r"
  obtain p where p: "inProgress s (keyOf s i) = Some (p, r)" "inProgress s' (keyOf s i) = Some (p \<or> callPinned (callOf s i), r)"
    "ccResults s' = ccResults s" using starts_waiting [OF inv step w] by blast
  obtain j where j: "j < numThreads s" "registered (pcOf s j) = Some r" using ccInv_registered [OF inv p(1)] by blast
  note own = threadStep_own [OF inv step] and inv' = ccInv_step [OF inv threadStep_own [OF inv step]]
  have "j \<noteq> i" using j(2) step w starts_waiting [OF inv step w]
    by (auto simp: threadStep_eq eraseInProgress_def moveFromInProgressToCache_def
        split: if_splits Pc.splits sum.splits option.splits prod.splits)
  then have j': "j < numThreads s'" "registered (pcOf s' j) = Some r" using j ownStepD(2,4) [OF own] by auto
  have "pcOf s' k \<noteq> Finishing r v (Some x)" if "k < numThreads s'" for k v x
    using ccInvD(3) [OF inv' j'(1) registered_owned [OF j'(2)] that] j'(2) by auto
  moreover have "ripStatus (ccResults s ! r) = IN_PROGRESS" using ccInvD(2) [OF inv j(1) registered_owned [OF j(2)]] .
  ultimately show "(\<forall>v. ccResults s' ! r = \<lparr>ripStatus = FINISHED, ripResult = Some v\<rparr> \<longrightarrow>
        valid (keyOf s' i) v \<and> (callPinned (callOf s' i) \<longrightarrow> keyOf s' i \<in> pins)) \<and>
     (callPinned (callOf s' i) \<longrightarrow> (\<forall>p. inProgress s' (keyOf s' i) = Some (p, r) \<longrightarrow> p) \<and>
        (\<forall>j<numThreads s'. \<forall>v w. pcOf s' j = Finishing r v (Some w) \<longrightarrow> keyOf s' i \<in> pins))"
    using p ownStepD(3) [OF own] by auto
qed

lemma waitOk_step:
  assumes inv: "ccInv s" "cinv (ccCache s)" and step: "threadStep ops i s = Some s'" and j: "j < numThreads s" "j \<noteq> i"
    and ok: "threadOk valid (pinnedKeys (ccCache s)) (callOf s i) (pcOf s i)" "waitOk valid (pinnedKeys (ccCache s)) s j"
  shows "waitOk valid (pinnedKeys (ccCache s')) s' j"
  unfolding waitOk_def
proof (intro allI impI conjI)
  note own = threadStep_own [OF inv(1) step] and cache = thread_cache [OF inv step]
  fix r assume "pcOf s' j = Waiting r"
  then have w: "pcOf s j = Waiting r" using j(2) ownStepD(4) [OF own] by simp
  have r: "r < length (ccResults s)" using ccInvD(5) [OF inv(1) j(1) w] .
  { fix v assume v: "ccResults s' ! r = \<lparr>ripStatus = FINISHED, ripResult = Some v\<rparr>"
    have "valid (keyOf s j) v \<and> (callPinned (callOf s j) \<longrightarrow> keyOf s j \<in> pinnedKeys (ccCache s'))"
    proof (cases "ccResults s ! r = ccResults s' ! r")
      case True
      then show ?thesis using ok(2) w v cache by (auto simp: waitOk_def)
    next
      case False
      then obtain x where x: "pcOf s i = Finishing r x (Some v)" using finished_by [OF inv(1) step r v] by blast
      moreover have "keyOf s j = keyOf s i" using waiting_key [OF inv(1) ownStepD(1) [OF own] _ j(1) w] x by simp
      ultimately show ?thesis using ok w ownStepD(1) [OF own] cache by (auto simp: waitOk_def threadOk_def)
    qed }
  note fin = this
  show "valid (keyOf s' j) v" if "ccResults s' ! r = \<lparr>ripStatus = FINISHED, ripResult = Some v\<rparr>" for v
    using fin [OF that] ownStepD(3) [OF own] by simp
  show "keyOf s' j \<in> pinnedKeys (ccCache s')"
    if "ccResults s' ! r = \<lparr>ripStatus = FINISHED, ripResult = Some v\<rparr>" "callPinned (callOf s' j)" for v
    using fin [OF that(1)] that(2) ownStepD(3) [OF own] by simp
  assume "callPinned (callOf s' j)"
  then have pin: "callPinned (callOf s j)" using ownStepD(3) [OF own] by simp
  show p if p': "inProgress s' (keyOf s' j) = Some (p, r)" for p
  proof -
    obtain p0 where p0: "inProgress s (keyOf s j) = Some (p0, r)"
      using threadStep_entry(2) [OF step] p' r ownStepD(3) [OF own] by fastforce
    then have "p0" using ok(2) w pin by (auto simp: waitOk_def)
    then show ?thesis using threadStep_entry(1) [OF step p0] p' ownStepD(3) [OF own] by auto
  qed
  show "keyOf s' j \<in> pinnedKeys (ccCache s')" if k: "k < numThreads s'" "pcOf s' k = Finishing r v (Some x)" for k v x
  proof (cases "k = i")
    case False
    then show ?thesis using k ownStepD(2-4) [OF own] ok(2) w pin cache by (auto simp: waitOk_def)
  next
    case True
    note m = starts_finishing [OF inv(1) step k(2) [unfolded True]]
    obtain p where p: "inProgress s (keyOf s i) = Some (p, r)" using ccInvD(4) [OF inv(1) ownStepD(1) [OF own]] m by auto
    have key: "keyOf s j = keyOf s i" using waiting_key [OF inv(1) ownStepD(1) [OF own] _ j(1) w] m by simp
    then have "p" using p ok(2) w pin by (auto simp: waitOk_def)
    obtain y c' where "moveFromInProgressToCache ops (keyOf s i) v s = Some (y, s\<lparr>ccCache := c',
        inProgress := if y = Inr () then (inProgress s)(keyOf s i := None) else inProgress s\<rparr>)"
      "p \<longrightarrow> y = Inr () \<longrightarrow> keyOf s i \<in> pinnedKeys c'" using move_law [OF inv(2) p, of v] by blast
    then have "keyOf s i \<in> pinnedKeys (ccCache s')"
      using \<open>p\<close> m step k(2) True ownStepD(1) [OF own] by (cases y) (auto simp: threadStep_eq)
    then show ?thesis using key ownStepD(3) [OF own] by simp
  qed
qed

end

fun validAction :: "('k \<Rightarrow> 'v \<Rightarrow> bool) \<Rightarrow> (cacheAction \<Rightarrow> bool) \<Rightarrow> ('k, 'v) ccAction \<Rightarrow> bool" where
  "validAction valid actOk (ComputeOnce call) \<longleftrightarrow> (\<forall>v. callCompute call = Inr v \<longrightarrow> valid (callKey call) v)"
| "validAction valid actOk (TryInsertIfNotPresent pinned k v) \<longleftrightarrow> valid k v"
| "validAction valid actOk (Act a) \<longleftrightarrow> actOk a \<and> a \<noteq> ClearAll"
| "validAction valid actOk _ \<longleftrightarrow> True"

lemma waitOk_mono: "waitOk valid pins s i \<Longrightarrow> pins \<subseteq> pins' \<Longrightarrow> waitOk valid pins' (s\<lparr>ccCache := c\<rparr>) i"
  unfolding waitOk_def by (simp add: subset_iff) blast

lemma waitOk_newThread: "i < numThreads s \<Longrightarrow> waitOk valid pins s i \<Longrightarrow> waitOk valid pins (newThread call s) i"
  unfolding waitOk_def by (auto simp: less_Suc_eq)

context shared_cache
begin

definition ccOk :: "('k \<Rightarrow> 'v \<Rightarrow> bool) \<Rightarrow> ('k, 'v, 'c) ConcurrentCache \<Rightarrow> bool" where
  "ccOk valid s \<longleftrightarrow> ccInv s \<and> cinv (ccCache s) \<and> (\<forall>k v. stored (ccCache s) k = Some v \<longrightarrow> valid k v) \<and>
     (\<forall>i<numThreads s. threadOk valid (pinnedKeys (ccCache s)) (callOf s i) (pcOf s i) \<and> registerOk s i \<and>
        waitOk valid (pinnedKeys (ccCache s)) s i)"

lemma ccOk_thread:
  assumes "ccOk valid s" "threadStep ops i s = Some s'"
  shows "ccOk valid s'"
proof -
  have ok: "ccInv s" "cinv (ccCache s)" "\<And>k v. stored (ccCache s) k = Some v \<Longrightarrow> valid k v"
      "\<And>j. j < numThreads s \<Longrightarrow> threadOk valid (pinnedKeys (ccCache s)) (callOf s j) (pcOf s j)"
      "\<And>j. j < numThreads s \<Longrightarrow> registerOk s j" "\<And>j. j < numThreads s \<Longrightarrow> waitOk valid (pinnedKeys (ccCache s)) s j"
    using assms(1) by (auto simp: ccOk_def)
  note own = threadStep_own [OF ok(1) assms(2)] and cache = thread_cache [OF ok(1,2) assms(2)]
  have i: "i < numThreads s" using ownStepD(1) [OF own] .
  have "valid k v" if v: "stored (ccCache s') k = Some v" for k v
  proof -
    consider "stored (ccCache s) k = Some v" | r where "k = keyOf s i" "pcOf s i = Moving r v"
      | "k = keyOf s i" "pcOf s i = FallbackInserting v" using cache v by blast
    then show ?thesis using ok(3) ok(4) [OF i] by cases (auto simp: threadOk_def)
  qed
  moreover have "threadOk valid (pinnedKeys (ccCache s')) (callOf s' j) (pcOf s' j)" if "j < numThreads s" for j
  proof (cases "j = i")
    case True
    then show ?thesis using threadOk_step [OF ok(1,2) assms(2) ok(3) ok(4-6) [OF i]] ownStepD(3) [OF own] by simp
  next
    case False
    then show ?thesis using threadOk_mono [OF ok(4) [OF that]] cache ownStepD(3,4) [OF own] by simp
  qed
  moreover have "registerOk s' j" if "j < numThreads s" for j by (rule registerOk_step [OF ok(1) assms(2) ok(5) that])
  moreover have "waitOk valid (pinnedKeys (ccCache s')) s' j" if "j < numThreads s" for j
    using waitOk_new [OF ok(1) assms(2)] waitOk_step [OF ok(1,2) assms(2) that _ ok(4) [OF i] ok(6) [OF that]]
    by (cases "j = i") auto
  ultimately show ?thesis using ccInv_step [OF ok(1) own] cache ownStepD(2) [OF own] by (simp add: ccOk_def)
qed

lemma ccOk_cache:
  assumes "ccOk valid s" "cinv c" "pinnedKeys (ccCache s) \<subseteq> pinnedKeys c"
    and "\<And>k w. stored c k = Some w \<Longrightarrow> stored (ccCache s) k = Some w \<or> valid k w"
  shows "ccOk valid (s\<lparr>ccCache := c\<rparr>)"
proof -
  have "valid k v" if "stored c k = Some v" for k v using assms(1) assms(4) [OF that] by (auto simp: ccOk_def)
  moreover have "threadOk valid (pinnedKeys c) (callOf s i) (pcOf s i)" "registerOk (s\<lparr>ccCache := c\<rparr>) i"
      "waitOk valid (pinnedKeys c) (s\<lparr>ccCache := c\<rparr>) i" if "i < numThreads s" for i
  proof -
    have "threadOk valid (pinnedKeys (ccCache s)) (callOf s i) (pcOf s i)" "registerOk s i"
      "waitOk valid (pinnedKeys (ccCache s)) s i" using assms(1) that by (auto simp: ccOk_def)
    from threadOk_mono [OF this(1) assms(3)] this(2) waitOk_mono [OF this(3) assms(3), of c]
    show "threadOk valid (pinnedKeys c) (callOf s i) (pcOf s i)" "registerOk (s\<lparr>ccCache := c\<rparr>) i"
        "waitOk valid (pinnedKeys c) (s\<lparr>ccCache := c\<rparr>) i" by (simp_all add: registerOk_def)
  qed
  ultimately show ?thesis using assms(1,2) by (simp add: ccOk_def ccInv_cache)
qed

lemma ccOk_newThread:
  assumes "ccOk valid s" "\<forall>v. callCompute call = Inr v \<longrightarrow> valid (callKey call) v"
  shows "ccOk valid (newThread call s)"
proof -
  have "threadOk valid pins (callOf (newThread call s) i) (pcOf (newThread call s) i) \<and> registerOk (newThread call s) i \<and>
      waitOk valid pins (newThread call s) i" if "i < Suc (numThreads s)" "pins = pinnedKeys (ccCache s)" for i pins
  proof (cases "i = numThreads s")
    case True
    then show ?thesis using assms(2) by (simp add: threadOk_def registerOk_def waitOk_def)
  next
    case False
    then show ?thesis using assms(1) that waitOk_newThread [of i s valid pins call] by (simp add: ccOk_def registerOk_def)
  qed
  then show ?thesis using assms(1) ccInv_call [of s call] by (simp add: ccOk_def)
qed

lemma environment_cache:
  assumes "cinv c"
  shows "cinv (snd (computeButDontStore ops call c))" "stored (snd (computeButDontStore ops call c)) = stored c"
    and "pinnedKeys (snd (computeButDontStore ops call c)) = pinnedKeys c"
    and "cinv (snd (getIfContained ops k c))" "stored (snd (getIfContained ops k c)) = stored c"
    and "pinnedKeys (snd (getIfContained ops k c)) = pinnedKeys c"
  using lookup_law [OF assms, of "callKey call"] lookup_law [OF assms, of k] assms
  by (auto simp: computeButDontStore_def getIfContained_def Let_def)

lemma ccOk_step:
  assumes "ccOk valid s" "validAction valid actOk a" "ccStep ops a s = Some s'"
  shows "ccOk valid s'"
proof -
  have c: "cinv (ccCache s)" using assms(1) by (simp add: ccOk_def)
  show ?thesis
  proof (cases a)
    case (Step i)
    then show ?thesis using assms ccOk_thread by simp
  next
    case (ComputeOnce call)
    then show ?thesis using assms ccOk_newThread by auto
  next
    case (ComputeButDontStore call)
    then show ?thesis using assms(1,3) environment_cache [OF c] by (auto intro: ccOk_cache)
  next
    case (TryInsertIfNotPresent p k v)
    obtain x c' where "tryInsertIfNotPresent ops p k v (ccCache s) = Some (x, c')" "cinv c'"
      "pinnedKeys (ccCache s) \<subseteq> pinnedKeys c'"
      "\<forall>k' w. stored c' k' = Some w \<longrightarrow> stored (ccCache s) k' = Some w \<or> k' = k \<and> w = v" using tryInsert_law [OF c] by blast
    then show ?thesis using assms TryInsertIfNotPresent by (auto intro!: ccOk_cache)
  next
    case (GetIfContained k)
    then show ?thesis using assms(1,3) environment_cache [OF c] by (auto intro: ccOk_cache)
  next
    case (Act b)
    then obtain x c' where c': "opAct ops b (ccCache s) = Some (x, c')" "cinv c'" "stored c' \<subseteq>\<^sub>m stored (ccCache s)"
      "pinnedKeys (ccCache s) \<subseteq> pinnedKeys c'" using act_law [OF c, of b] assms(2) by auto
    have "stored (ccCache s) k = Some w" if "stored c' k = Some w" for k w
      using c'(3) that by (metis domI map_le_def)
    then show ?thesis using assms(1,3) Act c' by (auto intro!: ccOk_cache)
  qed
qed

lemma reachable_ccOk:
  assumes "ccReachable ops (validAction valid actOk) c s" "cinv c" "stored c = Map.empty"
  shows "ccOk valid s"
  using assms(1)
proof induction
  case init
  show ?case using assms(2,3) ccInv_init by (simp add: ccOk_def) (simp add: makeConcurrentCache_def)
qed (rule ccOk_step)

lemma reachable_cinv:
  assumes "ccReachable ops allowed c s" "cinv c" "\<And>a. allowed (Act a) \<Longrightarrow> actOk a"
  shows "cinv (ccCache s)"
  using assms(1)
proof induction
  case init
  show ?case using assms(2) by (simp add: makeConcurrentCache_def)
next
  case (step s a s')
  note inv = reachable_ccInv [OF step(1)]
  show ?case
  proof (cases a)
    case (Step i)
    then show ?thesis using thread_cache [OF inv step.IH, of i s'] step(3) by simp
  next
    case (TryInsertIfNotPresent p k v)
    then show ?thesis using tryInsert_law [OF step.IH, of p k v] step(3) by auto
  next
    case (Act b)
    then show ?thesis using act_law [OF step.IH, of b] step(2,3) assms(3) by auto
  qed (use step(3) environment_cache [OF step.IH] step.IH in auto)
qed

end

end
