(* ===== verification/SharedLruCache.thy ===== *)
theory SharedLruCache
  imports ConcurrentCache
begin

text \<open>
  The concurrent cache over the LRU cache, as the engine uses it for the results of queries
  (\<open>QueryResultCache\<close>): the LRU cache fulfils the contract of \<open>ConcurrentCache\<close>, with either queue, and the
  properties of the shared cache follow. The state of the LRU cache is the \<open>FlexibleCache\<close> and the time of the
  clock. The sizes in the limits are below \<open>2 ^ 63\<close>; then an exception is raised before the cache is changed, except that
  \<open>setMaxSize\<close> and \<open>setMaxNumEntries\<close> have already set the new limit.
\<close>

section \<open>The LRU cache as a shared cache\<close>

type_synonym ('k, 'v, 'pq, 'h) lruState = "('k, 'v, 'pq, 'h) FlexibleCache \<times> nat"

definition flexibleOps ::
    "('k, 'v, 'pq, 'h, nat) queueOps \<Rightarrow> ('v \<Rightarrow> MemorySize) \<Rightarrow> ('k, 'v, ('k, 'v, 'pq, 'h) lruState) CacheOps" where
  "flexibleOps ops sz =
     \<lparr>opContainsPinned = (\<lambda>k (c, t). containsPinned k c),
      opContainsNonPinned = (\<lambda>k (c, t). containsNonPinned k c),
      opLookup = (\<lambda>k (c, t). case lookupCache ops (\<lambda>_ _. t) k c of Inl e \<Rightarrow> (Inl e, c, t) | Inr (v, c') \<Rightarrow> (Inr v, c', t)),
      opPinIfExists = (\<lambda>k (c, t). case containsAndMakePinnedIfExists ops sz k c of
        Inl e \<Rightarrow> (Inl e, c, t) | Inr (b, c') \<Rightarrow> (Inr b, c', t)),
      opInsert = (\<lambda>k v (c, t). case insertCache ops sz (\<lambda>_. t) k v c of
        None \<Rightarrow> None | Some (Inl e) \<Rightarrow> Some (Inl e, c, t) | Some (Inr (_, c')) \<Rightarrow> Some (Inr (), c', t)),
      opInsertPinned = (\<lambda>k v (c, t). case insertPinned ops sz k v c of
        None \<Rightarrow> None | Some (Inl e) \<Rightarrow> Some (Inl e, c, t) | Some (Inr (_, c')) \<Rightarrow> Some (Inr (), c', t)),
      opAct = (\<lambda>a (c, t). case a of
        ClearUnpinnedOnly \<Rightarrow> Some (Inr (), clearUnpinnedOnly ops c, t)
      | ClearAll \<Rightarrow> Some (Inr (), clearAll ops c, t)
      | MakeRoomAsMuchAsPossible n \<Rightarrow> (case makeRoomAsMuchAsPossible ops sz n c of
          None \<Rightarrow> None | Some (Inl e) \<Rightarrow> Some (Inl e, c, t) | Some (Inr (_, c')) \<Rightarrow> Some (Inr (), c', t))
      | SetMaxSize n \<Rightarrow> (case setMaxSize ops sz n c of
          None \<Rightarrow> None | Some (Inl e) \<Rightarrow> Some (Inl e, c\<lparr>maxSize := n\<rparr>, t) | Some (Inr c') \<Rightarrow> Some (Inr (), c', t))
      | SetMaxNumEntries n \<Rightarrow> (case setMaxNumEntries ops sz n c of
          None \<Rightarrow> None | Some (Inl e) \<Rightarrow> Some (Inl e, c\<lparr>maxNumEntries := n\<rparr>, t) | Some (Inr c') \<Rightarrow> Some (Inr (), c', t))
      | SetMaxSizeSingleEntry n \<Rightarrow> Some (Inr (), setMaxSizeSingleEntry n c, t)
      | Wait d \<Rightarrow> Some (Inr (), c, t + d))\<rparr>"

fun actionOk :: "cacheAction \<Rightarrow> bool" where
  "actionOk (SetMaxSize n) \<longleftrightarrow> n < 2 ^ 63"
| "actionOk (SetMaxSizeSingleEntry n) \<longleftrightarrow> n < 2 ^ 63"
| "actionOk _ \<longleftrightarrow> True"

definition sharedOk ::
    "('pq \<Rightarrow> bool) \<Rightarrow> ('pq \<Rightarrow> 'h \<rightharpoonup> nat \<times> ('k, 'v) Entry) \<Rightarrow> ('v \<Rightarrow> MemorySize) \<Rightarrow> ('k, 'v, 'pq, 'h) lruState \<Rightarrow> bool" where
  "sharedOk qinv contents sz = (\<lambda>(c, t). lruOk qinv contents sz t c \<and> totalSizeNonPinned c + totalSizePinned c < 2 ^ 64 \<and>
     maxSizeSingleEntry c < 2 ^ 63)"

definition storedMap :: "('pq \<Rightarrow> 'h \<rightharpoonup> nat \<times> ('k, 'v) Entry) \<Rightarrow> ('k, 'v, 'pq, 'h) lruState \<Rightarrow> 'k \<rightharpoonup> 'v" where
  "storedMap contents = (\<lambda>(c, t) k. case pinnedMap c k of Some v \<Rightarrow> Some v | None \<Rightarrow> map_option snd (cacheView contents c k))"

definition pinnedSet :: "('k, 'v, 'pq, 'h) lruState \<Rightarrow> 'k set" where
  "pinnedSet = (\<lambda>(c, t). dom (pinnedMap c))"

lemma storedMap_mono:
  assumes "pinnedMap c' = pinnedMap c" "cacheView contents c' \<subseteq>\<^sub>m cacheView contents c"
  shows "storedMap contents (c', t') \<subseteq>\<^sub>m storedMap contents (c, t)"
proof -
  have "cacheView contents c' k = Some x \<Longrightarrow> cacheView contents c k = Some x" for k x
    using assms(2) by (metis domI map_le_def)
  then show ?thesis using assms(1) by (auto simp: storedMap_def map_le_def split: option.splits)
qed

text \<open>The queues with the time as the score.\<close>

locale clocked_cache = cache_queue ops qinv contents sz
  for ops :: "('pq, 'h, nat, ('k, 'v) Entry) PQOps" and qinv contents sz
begin

lemma shared_contains:
  assumes "cacheOk qinv contents sz c"
  shows "containsPinned k c \<or> containsNonPinned k c \<longleftrightarrow> k \<in> dom (storedMap contents (c, t))"
proof -
  have "accessMap c k = None \<longleftrightarrow> cacheView contents c k = None" using okD(7) [OF assms] by (metis domIff)
  then show ?thesis by (auto simp: storedMap_def containsPinned_def containsNonPinned_def domIff split: option.splits)
qed

lemma shared_lookup:
  fixes t :: nat
  assumes "sharedOk qinv contents sz (c, t)"
  shows "\<exists>c'. lookupCache ops (\<lambda>_ _. t) k c = Inr (storedMap contents (c, t) k, c') \<and> sharedOk qinv contents sz (c', t) \<and>
    storedMap contents (c', t) = storedMap contents (c, t) \<and> pinnedMap c' = pinnedMap c"
proof -
  have lru: "lruOk qinv contents sz t c" using assms by (simp add: sharedOk_def)
  then have ok: "cacheOk qinv contents sz c" "\<And>s v. cacheView contents c k = Some (s, v) \<Longrightarrow> s \<le> t"
    by (auto simp: lruOk_def)
  from lookup_law [OF ok(1), of k "\<lambda>_ _. t"] ok(2) obtain c' where c': "lookupCache ops (\<lambda>_ _. t) k c =
      Inr (if containsPinned k c then pinnedMap c k else map_option snd (cacheView contents c k), c')" "sameRest c c'"
    "totalSizeNonPinned c' = totalSizeNonPinned c"
    "cacheView contents c' = (case pinnedMap c k of Some _ \<Rightarrow> cacheView contents c
      | None \<Rightarrow> (case cacheView contents c k of None \<Rightarrow> cacheView contents c
        | Some (s, v) \<Rightarrow> (cacheView contents c)(k \<mapsto> (t, v))))" by auto
  have "storedMap contents (c', t) = storedMap contents (c, t)"
    using c'(2,4) by (auto simp: storedMap_def sameRest_def fun_eq_iff split: option.splits)
  moreover have "lookupCache ops (\<lambda>_ _. t) k c = Inr (storedMap contents (c, t) k, c')"
    using c'(1) by (auto simp: storedMap_def containsPinned_def split: option.splits)
  moreover have "lruOk qinv contents sz t c'" using lru_lookup [OF lru _ c'(1)] by simp
  ultimately show ?thesis using c'(2,3) assms by (auto simp: sharedOk_def sameRest_def)
qed

lemma pin_succeeds:
  assumes ok: "cacheOk qinv contents sz c" and bound: "totalSizeNonPinned c + totalSizePinned c < 2 ^ 64"
  shows "\<exists>b c'. containsAndMakePinnedIfExists ops sz k c = Inr (b, c') \<and> maxSizeSingleEntry c' = maxSizeSingleEntry c"
proof (cases "pinnedMap c k = None \<and> accessMap c k \<noteq> None")
  case True
  then obtain h where h: "accessMap c k = Some h" by blast
  then obtain s v where sv: "contents (entries c) h = Some (s, \<lparr>entKey = k, entValue = v\<rparr>)"
    using linkedD(1) [OF okD(2) [OF ok]] by blast
  from erase_law [OF okD(1) [OF ok]] sv obtain q where
    q: "pqErase ops h (entries c) = Inr q" "qinv q" "contents q = (contents (entries c))(h := None)" by blast
  have "sz v \<le> totalSizeNonPinned c" using ok_remove [OF ok sv q(2,3)] by auto
  then show ?thesis
    using True h q(1) handle_law [OF okD(1) [OF ok] sv] bound ok
    by (auto simp: containsAndMakePinnedIfExists_def Let_def minusMemory_eq plusMemory_eq cacheOk_def)
qed (auto simp: containsAndMakePinnedIfExists_def)

lemma shared_pin:
  assumes "sharedOk qinv contents sz (c, t)"
  shows "\<exists>c'. containsAndMakePinnedIfExists ops sz k c = Inr (k \<in> dom (storedMap contents (c, t)), c') \<and>
    sharedOk qinv contents sz (c', t) \<and> storedMap contents (c', t) = storedMap contents (c, t) \<and>
    dom (pinnedMap c') = dom (pinnedMap c) \<union> ({k} \<inter> dom (storedMap contents (c, t)))"
proof -
  have lru: "lruOk qinv contents sz t c" and bound: "totalSizeNonPinned c + totalSizePinned c < 2 ^ 64"
    using assms by (simp_all add: sharedOk_def)
  then have ok: "cacheOk qinv contents sz c" by (simp add: lruOk_def)
  obtain b c' where run: "containsAndMakePinnedIfExists ops sz k c = Inr (b, c')" and
      single: "maxSizeSingleEntry c' = maxSizeSingleEntry c"
    using pin_succeeds [OF ok bound] by blast
  note pin = pin_law [OF ok run]
  have dis: "pinnedMap c k = None" if "cacheView contents c k = Some x" for x
    using ok okD(7) [OF ok] that by (auto simp: cacheOk_def)
  have "b = (k \<in> dom (storedMap contents (c, t)))"
    using pin shared_contains [OF ok, of k t] by (simp add: containsKey_def)
  moreover have "storedMap contents (c', t) = storedMap contents (c, t)"
    using pin dis by (auto simp: storedMap_def fun_eq_iff split: option.splits)
  moreover have "dom (pinnedMap c') = dom (pinnedMap c) \<union> ({k} \<inter> dom (storedMap contents (c, t)))"
    using pin dis by (auto simp: storedMap_def split: option.splits if_splits)
  moreover have "lruOk qinv contents sz t c'"
    using lruOk_evicted [OF lru, of c'] pin lru by (auto simp: lruOk_def map_le_def cacheBounded_def)
  ultimately show ?thesis using run pin bound assms single by (auto simp: sharedOk_def)
qed

lemma stored_evicted:
  assumes "evicted contents c c1" "pinnedMap c' = pinnedMap c" "cacheView contents c' = (cacheView contents c1)(k \<mapsto> (s, v))"
    and "storedMap contents (c', t) k' = Some w"
  shows "storedMap contents (c, t') k' = Some w \<or> k' = k \<and> w = v"
proof -
  have "cacheView contents c1 k' = Some x \<Longrightarrow> cacheView contents c k' = Some x" for x
    using assms(1) by (metis domI evicted_def map_le_def)
  then show ?thesis using assms(2-4) by (auto simp: storedMap_def split: option.splits if_splits)
qed

lemma shared_insert:
  assumes "sharedOk qinv contents sz (c, t)"
  shows "\<exists>x. insertCache ops sz (\<lambda>_. t) k v c = Some x \<and> (\<forall>r c'. x = Inr (r, c') \<longrightarrow>
    sharedOk qinv contents sz (c', t) \<and> pinnedMap c' = pinnedMap c \<and>
    (\<forall>k' w. storedMap contents (c', t) k' = Some w \<longrightarrow> storedMap contents (c, t) k' = Some w \<or> k' = k \<and> w = v))"
proof (cases "\<not> containsKey k c \<and> sz v \<le> maxSizeSingleEntry c \<and> totalSizePinned c + sz v \<le> maxSize c")
  case True
  have lru: "lruOk qinv contents sz t c" using assms by (simp add: sharedOk_def)
  then have ok: "cacheOk qinv contents sz c" "cacheBounded c" "maxSize c < 2 ^ 63" by (auto simp: lruOk_def)
  obtain c1 c' where c': "insertCache ops sz (\<lambda>_. t) k v c = Some (Inr (Some v, c'))" "evicted contents c c1" "sameRest c c'"
    "cacheView contents c' = (cacheView contents c1)(k \<mapsto> (t, v))" "totalSizeNonPinned c' + totalSizePinned c' \<le> maxSize c'"
    using cache_insert_law [OF ok, of k v "\<lambda>_. t"] True by blast
  moreover have "sharedOk qinv contents sz (c', t)"
    using lru_insert [OF lru _ c'(1)] c'(3,5) ok(3) assms by (auto simp: sharedOk_def sameRest_def)
  ultimately show ?thesis using stored_evicted [OF c'(2) _ c'(4)] by (simp add: sameRest_def)
next
  case False
  have lru: "lruOk qinv contents sz t c" using assms by (simp add: sharedOk_def)
  consider "containsKey k c" | "\<not> containsKey k c" "maxSizeSingleEntry c < sz v"
    | "\<not> containsKey k c" "sz v \<le> maxSizeSingleEntry c" "maxSize c < totalSizePinned c"
    | "\<not> containsKey k c" "sz v \<le> maxSizeSingleEntry c" "totalSizePinned c \<le> maxSize c" "maxSize c < totalSizePinned c + sz v"
    using False by linarith
  then show ?thesis using lru_insert_outcome [OF lru, where key = k and v = v and score = "\<lambda>_. t"] assms by cases auto
qed

lemma shared_insertPinned:
  assumes "sharedOk qinv contents sz (c, t)"
  shows "\<exists>x. insertPinned ops sz k v c = Some x \<and> x \<noteq> Inl OverflowError \<and> (\<forall>r c'. x = Inr (r, c') \<longrightarrow>
    sharedOk qinv contents sz (c', t) \<and> pinnedMap c' = (pinnedMap c)(k \<mapsto> v) \<and>
    (\<forall>k' w. storedMap contents (c', t) k' = Some w \<longrightarrow> storedMap contents (c, t) k' = Some w \<or> k' = k \<and> w = v))"
proof -
  have lru: "lruOk qinv contents sz t c" and single: "maxSizeSingleEntry c < 2 ^ 63" using assms by (simp_all add: sharedOk_def)
  then have ok: "cacheOk qinv contents sz c" "cacheBounded c" "maxSize c < 2 ^ 63" by (auto simp: lruOk_def)
  have "\<exists>x. insertPinned ops sz k v c = Some x \<and> x \<noteq> Inl OverflowError \<and>
      (\<forall>r c'. x = Inr (r, c') \<longrightarrow> totalSizeNonPinned c' + totalSizePinned c' < 2 ^ 64 \<and> maxSizeSingleEntry c' = maxSizeSingleEntry c)"
  proof (cases "containsKey k c \<or> maxSizeSingleEntry c < sz v \<or> maxSize c < totalSizePinned c")
    case True
    then show ?thesis using makeRoomIfFits_law(1) [OF ok, of "sz v"] by (auto simp: insertPinned_def)
  next
    case False
    obtain b c1 where c1: "makeRoomIfFits ops sz (sz v) c = Some (Inr (b, c1))"
      using makeRoomIfFits_law [OF ok, of "sz v"] False
      by (cases "totalSizePinned c + sz v \<le> maxSize c") (auto simp: not_le less_diff_conv2)
    have r: "lruOk qinv contents sz t c1" "sameRest c c1" using lru_room [OF lru c1] by auto
    then have "totalSizeNonPinned c1 + totalSizePinned c1 < 2 ^ 63" "totalSizePinned c1 < 2 ^ 64"
      using False ok(3) by (auto simp: lruOk_def cacheBounded_def sameRest_def cacheOk_def)
    then show ?thesis using c1 False single r(2)
      by (auto simp: insertPinned_def plusMemory_eq sameRest_def)
  qed
  then obtain x where x: "insertPinned ops sz k v c = Some x" "x \<noteq> Inl OverflowError"
    "\<And>r c'. x = Inr (r, c') \<Longrightarrow> totalSizeNonPinned c' + totalSizePinned c' < 2 ^ 64 \<and> maxSizeSingleEntry c' = maxSizeSingleEntry c"
    by blast
  have "sharedOk qinv contents sz (c', t) \<and> pinnedMap c' = (pinnedMap c)(k \<mapsto> v) \<and>
      (\<forall>k' w. storedMap contents (c', t) k' = Some w \<longrightarrow> storedMap contents (c, t) k' = Some w \<or> k' = k \<and> w = v)"
    if "x = Inr (r, c')" for r c'
  proof -
    note law = insertPinned_law [OF ok x(1) [unfolded that]]
    have "cacheView contents c' k' = Some y \<Longrightarrow> cacheView contents c k' = Some y" for k' y
      using law by (metis domI map_le_def)
    then have "storedMap contents (c', t) k' = Some w \<Longrightarrow> storedMap contents (c, t) k' = Some w \<or> k' = k \<and> w = v" for k' w
      using law by (auto simp: storedMap_def split: option.splits if_splits)
    then show ?thesis using law x(3) [OF that] single lruOk_evicted [OF lru, of c'] ok(3) by (auto simp: sharedOk_def)
  qed
  then show ?thesis using x by blast
qed

lemma shared_smaller:
  assumes "sharedOk qinv contents sz (c, t)" "lruOk qinv contents sz t c'" "maxSizeSingleEntry c' = maxSizeSingleEntry c"
    and "totalSizeNonPinned c' + totalSizePinned c' \<le> totalSizeNonPinned c + totalSizePinned c" "pinnedMap c' = pinnedMap c"
    and "cacheView contents c' \<subseteq>\<^sub>m cacheView contents c"
  shows "sharedOk qinv contents sz (c', t) \<and> storedMap contents (c', t) \<subseteq>\<^sub>m storedMap contents (c, t) \<and>
    pinnedSet (c, t) \<subseteq> pinnedSet (c', t)"
  using assms storedMap_mono [OF assms(5,6)] by (simp add: sharedOk_def pinnedSet_def)

lemma shared_clear:
  assumes ok: "sharedOk qinv contents sz (c, t)"
  shows "sharedOk qinv contents sz (clearUnpinnedOnly ops c, t) \<and>
      storedMap contents (clearUnpinnedOnly ops c, t) \<subseteq>\<^sub>m storedMap contents (c, t) \<and>
      pinnedSet (c, t) \<subseteq> pinnedSet (clearUnpinnedOnly ops c, t)"
    and "sharedOk qinv contents sz (clearAll ops c, t) \<and> storedMap contents (clearAll ops c, t) = Map.empty"
proof -
  have lru: "lruOk qinv contents sz t c" using ok by (simp add: sharedOk_def)
  then have c: "cacheOk qinv contents sz c" "maxSize c < 2 ^ 63" by (simp_all add: lruOk_def)
  note clear = clear_ok [OF c(1)]
  have "lruOk qinv contents sz t (clearUnpinnedOnly ops c)" "lruOk qinv contents sz t (clearAll ops c)"
    using clear c(2) by (simp_all add: lruOk_def) (simp_all add: clearUnpinnedOnly_def clearAll_def cacheBounded_def)
  note lru' = this
  have un: "totalSizeNonPinned (clearUnpinnedOnly ops c) = 0" "totalSizePinned (clearUnpinnedOnly ops c) = totalSizePinned c"
      "pinnedMap (clearUnpinnedOnly ops c) = pinnedMap c" "maxSizeSingleEntry (clearUnpinnedOnly ops c) = maxSizeSingleEntry c"
      "totalSizeNonPinned (clearAll ops c) = 0" "totalSizePinned (clearAll ops c) = 0"
      "pinnedMap (clearAll ops c) = Map.empty" "maxSizeSingleEntry (clearAll ops c) = maxSizeSingleEntry c"
    by (simp_all add: clearUnpinnedOnly_def clearAll_def)
  show "sharedOk qinv contents sz (clearUnpinnedOnly ops c, t) \<and>
      storedMap contents (clearUnpinnedOnly ops c, t) \<subseteq>\<^sub>m storedMap contents (c, t) \<and>
      pinnedSet (c, t) \<subseteq> pinnedSet (clearUnpinnedOnly ops c, t)"
    using clear un lru'(1) by (intro shared_smaller [OF ok]) simp_all
  show "sharedOk qinv contents sz (clearAll ops c, t) \<and> storedMap contents (clearAll ops c, t) = Map.empty"
    using clear un lru'(2) ok by (simp add: sharedOk_def storedMap_def fun_eq_iff)
qed

text \<open>Making room after a change of the limits.\<close>

lemma shared_limit:
  assumes ok: "cacheOk qinv contents sz c" "totalSizeNonPinned c + totalSizePinned c < 2 ^ 64"
  shows "maxSize c < totalSizePinned c \<Longrightarrow> makeRoomIfFits ops sz 0 c = Some (Inl UnderflowError)"
    and "totalSizePinned c \<le> maxSize c \<Longrightarrow> \<exists>c'. makeRoomIfFits ops sz 0 c = Some (Inr (True, c')) \<and> evicted contents c c' \<and>
      totalSizeNonPinned c' \<le> totalSizeNonPinned c"
proof -
  have max: "maxSize c < 2 ^ 64" using ok by (simp add: cacheOk_def)
  obtain c' where "makeRoomLoop ops sz 0 0 c = Some (Inr c')" "evicted contents c c'" "totalSizeNonPinned c' \<le> totalSizeNonPinned c"
    using makeRoomLoop_law [OF ok(1), of 0 0] ok(2) by auto
  then show "maxSize c < totalSizePinned c \<Longrightarrow> makeRoomIfFits ops sz 0 c = Some (Inl UnderflowError)"
    and "totalSizePinned c \<le> maxSize c \<Longrightarrow> \<exists>c'. makeRoomIfFits ops sz 0 c = Some (Inr (True, c')) \<and> evicted contents c c' \<and>
      totalSizeNonPinned c' \<le> totalSizeNonPinned c"
    by (auto simp: makeRoomIfFits_def minusMemory_eq [OF max])
qed

lemma shared_setMaxSize:
  assumes ok: "sharedOk qinv contents sz (c, t)" and n: "n < 2 ^ 63"
  shows "\<exists>x c'. opAct (flexibleOps ops sz) (SetMaxSize n) (c, t) = Some (x, c') \<and> sharedOk qinv contents sz c' \<and>
    storedMap contents c' \<subseteq>\<^sub>m storedMap contents (c, t) \<and> pinnedSet (c, t) \<subseteq> pinnedSet c'"
proof -
  let ?c = "c\<lparr>maxSize := n\<rparr>"
  have lru: "lruOk qinv contents sz t c" using ok by (simp add: sharedOk_def)
  have view: "cacheView contents ?c = cacheView contents c" by (simp add: cacheView_def)
  have c: "cacheOk qinv contents sz ?c" "totalSizeNonPinned ?c + totalSizePinned ?c < 2 ^ 64"
    using lru ok n by (simp_all add: lruOk_def cacheOk_def sharedOk_def cacheView_def)
  show ?thesis
  proof (cases "totalSizePinned ?c \<le> maxSize ?c")
    case True
    then obtain c' where c': "setMaxSize ops sz n c = Some (Inr c')" "evicted contents ?c c'" "totalSizeNonPinned c' \<le> totalSizeNonPinned c"
      using shared_limit(2) [OF c] by (auto simp: setMaxSize_def)
    have "sharedOk qinv contents sz (c', t) \<and> storedMap contents (c', t) \<subseteq>\<^sub>m storedMap contents (c, t) \<and>
        pinnedSet (c, t) \<subseteq> pinnedSet (c', t)"
      using c'(2,3) lru_setMaxSize [OF lru n c'(1)]
      by (intro shared_smaller [OF ok]) (simp_all add: evicted_def sameRest_def view)
    then show ?thesis using c'(1) by (simp add: flexibleOps_def)
  next
    case False
    then have err: "setMaxSize ops sz n c = Some (Inl UnderflowError)" using shared_limit(1) [OF c] by (simp add: setMaxSize_def)
    have "lruOk qinv contents sz t ?c" using lru c(1) n False by (auto simp: lruOk_def view cacheBounded_def)
    then have "sharedOk qinv contents sz (?c, t) \<and> storedMap contents (?c, t) \<subseteq>\<^sub>m storedMap contents (c, t) \<and>
        pinnedSet (c, t) \<subseteq> pinnedSet (?c, t)"
      by (intro shared_smaller [OF ok]) (simp_all add: view)
    then show ?thesis using err by (simp add: flexibleOps_def)
  qed
qed

lemma shared_setMaxNumEntries:
  assumes ok: "sharedOk qinv contents sz (c, t)"
  shows "\<exists>x c'. opAct (flexibleOps ops sz) (SetMaxNumEntries n) (c, t) = Some (x, c') \<and> sharedOk qinv contents sz c' \<and>
    storedMap contents c' \<subseteq>\<^sub>m storedMap contents (c, t) \<and> pinnedSet (c, t) \<subseteq> pinnedSet c'"
proof -
  let ?c = "c\<lparr>maxNumEntries := n\<rparr>"
  have lru: "lruOk qinv contents sz t c" using ok by (simp add: sharedOk_def)
  have view: "cacheView contents ?c = cacheView contents c" by (simp add: cacheView_def)
  have lru': "lruOk qinv contents sz t ?c" using lru by (auto simp: lruOk_def cacheOk_def cacheBounded_def view)
  then have c: "cacheOk qinv contents sz ?c" "totalSizeNonPinned ?c + totalSizePinned ?c < 2 ^ 64"
    using ok by (simp_all add: lruOk_def sharedOk_def)
  show ?thesis
  proof (cases "totalSizePinned ?c \<le> maxSize ?c")
    case True
    then obtain c' where c': "setMaxNumEntries ops sz n c = Some (Inr c')" "evicted contents ?c c'"
        "totalSizeNonPinned c' \<le> totalSizeNonPinned c"
      using shared_limit(2) [OF c] by (auto simp: setMaxNumEntries_def)
    have "sharedOk qinv contents sz (c', t) \<and> storedMap contents (c', t) \<subseteq>\<^sub>m storedMap contents (c, t) \<and>
        pinnedSet (c, t) \<subseteq> pinnedSet (c', t)"
      using c'(2,3) lru_setMaxNumEntries [OF lru c'(1)]
      by (intro shared_smaller [OF ok]) (simp_all add: evicted_def sameRest_def view)
    then show ?thesis using c'(1) by (simp add: flexibleOps_def)
  next
    case False
    then have err: "setMaxNumEntries ops sz n c = Some (Inl UnderflowError)" using shared_limit(1) [OF c] by (simp add: setMaxNumEntries_def)
    have "sharedOk qinv contents sz (?c, t) \<and> storedMap contents (?c, t) \<subseteq>\<^sub>m storedMap contents (c, t) \<and>
        pinnedSet (c, t) \<subseteq> pinnedSet (?c, t)"
      using lru' by (intro shared_smaller [OF ok]) (simp_all add: view)
    then show ?thesis using err by (simp add: flexibleOps_def)
  qed
qed

lemma shared_act:
  assumes ok: "sharedOk qinv contents sz (c, t)" "actionOk a"
  shows "\<exists>x c'. opAct (flexibleOps ops sz) a (c, t) = Some (x, c') \<and> sharedOk qinv contents sz c' \<and>
    storedMap contents c' \<subseteq>\<^sub>m storedMap contents (c, t) \<and> (a \<noteq> ClearAll \<longrightarrow> pinnedSet (c, t) \<subseteq> pinnedSet c')"
proof (cases a)
  case (MakeRoomAsMuchAsPossible n)
  have lru: "lruOk qinv contents sz t c" using ok by (simp add: sharedOk_def)
  then have c: "cacheOk qinv contents sz c" by (simp add: lruOk_def)
  obtain b c' where c': "makeRoomAsMuchAsPossible ops sz n c = Some (Inr (b, c'))" "cacheOk qinv contents sz c'"
    "evicted contents c c'" "totalSizeNonPinned c' \<le> totalSizeNonPinned c" using shrink_law [OF c] by blast
  then have "lruOk qinv contents sz t c'" using lru
    by (intro lruOk_evicted [OF lru]) (auto simp: evicted_def sameRest_def lruOk_def cacheBounded_def)
  then have "sharedOk qinv contents sz (c', t) \<and> storedMap contents (c', t) \<subseteq>\<^sub>m storedMap contents (c, t) \<and>
      pinnedSet (c, t) \<subseteq> pinnedSet (c', t)"
    using c' by (intro shared_smaller [OF ok(1)]) (simp_all add: evicted_def sameRest_def)
  then show ?thesis using c'(1) MakeRoomAsMuchAsPossible by (simp add: flexibleOps_def)
next
  case (SetMaxSizeSingleEntry n)
  have view: "cacheView contents (setMaxSizeSingleEntry n c) = cacheView contents c"
    by (simp add: setMaxSizeSingleEntry_def cacheView_def)
  then have "storedMap contents (setMaxSizeSingleEntry n c, t) = storedMap contents (c, t)"
    by (auto simp: storedMap_def setMaxSizeSingleEntry_def fun_eq_iff split: option.splits)
  moreover have "sharedOk qinv contents sz (setMaxSizeSingleEntry n c, t)"
    using ok SetMaxSizeSingleEntry
    by (simp add: sharedOk_def lruOk_def cacheOk_def view) (auto simp: setMaxSizeSingleEntry_def cacheBounded_def)
  ultimately have "sharedOk qinv contents sz (setMaxSizeSingleEntry n c, t) \<and>
      storedMap contents (setMaxSizeSingleEntry n c, t) \<subseteq>\<^sub>m storedMap contents (c, t)" by simp
  then show ?thesis using SetMaxSizeSingleEntry by (simp add: flexibleOps_def pinnedSet_def) (simp add: setMaxSizeSingleEntry_def)
next
  case (Wait d)
  have "sharedOk qinv contents sz (c, t + d)" "storedMap contents (c, t + d) = storedMap contents (c, t)"
    using ok by (auto simp: sharedOk_def lruOk_def storedMap_def intro: trans_le_add1)
  then show ?thesis using Wait by (simp add: flexibleOps_def pinnedSet_def)
next
  case (SetMaxSize n)
  then show ?thesis using shared_setMaxSize [OF ok(1), of n] ok(2) by simp
next
  case (SetMaxNumEntries n)
  then show ?thesis using shared_setMaxNumEntries [OF ok(1), of n] by simp
qed (use shared_clear [OF ok(1)] in \<open>simp_all add: flexibleOps_def\<close>)

lemma shared_flexible: "shared_cache (flexibleOps ops sz) (sharedOk qinv contents sz) (storedMap contents) pinnedSet actionOk"
proof
  fix c :: "('k, 'v, 'pq, 'h) lruState" and k
  assume ok: "sharedOk qinv contents sz c"
  obtain d t where c: "c = (d, t)" by (cases c)
  have "cacheOk qinv contents sz d" using ok by (simp add: c sharedOk_def lruOk_def)
  from shared_contains [OF this, of k t]
  show "opContainsPinned (flexibleOps ops sz) k c \<or> opContainsNonPinned (flexibleOps ops sz) k c \<longleftrightarrow> k \<in> dom (storedMap contents c)"
    by (simp add: c flexibleOps_def)
  show "opContainsPinned (flexibleOps ops sz) k c \<longleftrightarrow> k \<in> pinnedSet c"
    by (auto simp: c flexibleOps_def pinnedSet_def containsPinned_def)
  show "\<exists>c'. opLookup (flexibleOps ops sz) k c = (Inr (storedMap contents c k), c') \<and> sharedOk qinv contents sz c' \<and>
      storedMap contents c' = storedMap contents c \<and> pinnedSet c' = pinnedSet c"
    using shared_lookup [OF ok [unfolded c], of k] by (auto simp: c flexibleOps_def pinnedSet_def)
  show "\<exists>c'. opPinIfExists (flexibleOps ops sz) k c = (Inr (k \<in> dom (storedMap contents c)), c') \<and> sharedOk qinv contents sz c' \<and>
      storedMap contents c' = storedMap contents c \<and> pinnedSet c' = pinnedSet c \<union> ({k} \<inter> dom (storedMap contents c))"
    using shared_pin [OF ok [unfolded c], of k] by (auto simp: c flexibleOps_def pinnedSet_def)
  fix v
  obtain x where x: "insertCache ops sz (\<lambda>_. t) k v d = Some x" "\<And>r c'. x = Inr (r, c') \<Longrightarrow>
      sharedOk qinv contents sz (c', t) \<and> pinnedMap c' = pinnedMap d \<and>
      (\<forall>k' w. storedMap contents (c', t) k' = Some w \<longrightarrow> storedMap contents (d, t) k' = Some w \<or> k' = k \<and> w = v)"
    using shared_insert [OF ok [unfolded c], of k v] by blast
  show "\<exists>x c'. opInsert (flexibleOps ops sz) k v c = Some (x, c') \<and> sharedOk qinv contents sz c' \<and> pinnedSet c \<subseteq> pinnedSet c' \<and>
      (\<forall>k' w. storedMap contents c' k' = Some w \<longrightarrow> storedMap contents c k' = Some w \<or> k' = k \<and> w = v)"
    using x(1) x(2) [of "fst (projr x)" "snd (projr x)"] ok by (cases x) (simp_all add: c flexibleOps_def pinnedSet_def split_beta)
  obtain y where y: "insertPinned ops sz k v d = Some y" "\<And>r c'. y = Inr (r, c') \<Longrightarrow>
      sharedOk qinv contents sz (c', t) \<and> pinnedMap c' = (pinnedMap d)(k \<mapsto> v) \<and>
      (\<forall>k' w. storedMap contents (c', t) k' = Some w \<longrightarrow> storedMap contents (d, t) k' = Some w \<or> k' = k \<and> w = v)"
    using shared_insertPinned [OF ok [unfolded c], of k v] by blast
  show "\<exists>x c'. opInsertPinned (flexibleOps ops sz) k v c = Some (x, c') \<and> sharedOk qinv contents sz c' \<and> pinnedSet c \<subseteq> pinnedSet c' \<and>
      (\<forall>k' w. storedMap contents c' k' = Some w \<longrightarrow> storedMap contents c k' = Some w \<or> k' = k \<and> w = v) \<and>
      (x = Inr () \<longrightarrow> k \<in> pinnedSet c')"
    using y(1) y(2) [of "fst (projr y)" "snd (projr y)"] ok
    by (cases y) (simp_all add: c flexibleOps_def pinnedSet_def split_beta subset_insertI)
next
  fix c :: "('k, 'v, 'pq, 'h) lruState" and a
  assume "sharedOk qinv contents sz c" "actionOk a"
  then show "\<exists>x c'. opAct (flexibleOps ops sz) a c = Some (x, c') \<and> sharedOk qinv contents sz c' \<and>
      storedMap contents c' \<subseteq>\<^sub>m storedMap contents c \<and> (a \<noteq> ClearAll \<longrightarrow> pinnedSet c \<subseteq> pinnedSet c')"
    using shared_act by (cases c) blast
qed

end

interpretation treeClocked: clocked_cache treeOps treeInv treeContents sz for sz
  by unfold_locales

interpretation sharedTree: shared_cache "flexibleOps treeOps sz" "sharedOk treeInv treeContents sz" "storedMap treeContents"
  pinnedSet actionOk for sz
  by (rule treeClocked.shared_flexible)

lemma heap_clocked: "topIsMinimal pick \<Longrightarrow> clocked_cache (heapOps pick dflt) heapInv heapContents"
  by (intro clocked_cache.intro heap_cache_queue)

lemma heap_shared:
  "topIsMinimal pick \<Longrightarrow> shared_cache (flexibleOps (heapOps pick dflt) sz) (sharedOk heapInv heapContents sz)
    (storedMap heapContents) pinnedSet actionOk"
  by (rule clocked_cache.shared_flexible [OF heap_clocked])

interpretation sharedHeap: shared_cache "flexibleOps (heapOps firstTop dflt) sz" "sharedOk heapInv heapContents sz"
  "storedMap heapContents" pinnedSet actionOk for dflt sz
  by (rule heap_shared [OF firstTop_minimal])

lemma heap_initial:
  assumes "limit < 2 ^ 63" "single < 2 ^ 63"
  shows "sharedOk heapInv heapContents sz (makeFlexibleCache num limit single makeHeapBasedPQ, t)"
    and "storedMap heapContents (makeFlexibleCache num limit single makeHeapBasedPQ, t) = Map.empty"
proof -
  have "lruReachable (heapOps firstTop undefined) sz makeHeapBasedPQ t (makeFlexibleCache num limit single makeHeapBasedPQ)"
    using assms by (intro lruReachable.init) simp_all
  from heap_reachable [OF firstTop_minimal this]
  show "sharedOk heapInv heapContents sz (makeFlexibleCache num limit single makeHeapBasedPQ, t)"
    using assms by (simp add: sharedOk_def makeFlexibleCache_def)
  show "storedMap heapContents (makeFlexibleCache num limit single makeHeapBasedPQ, t) = Map.empty"
    by (simp add: storedMap_def makeFlexibleCache_def cacheView_def view_def fun_eq_iff)
qed

fun ccRun ::
    "('k, 'v, 'c) CacheOps \<Rightarrow> ('k, 'v) ccAction list \<Rightarrow> ('k, 'v, 'c) ConcurrentCache \<Rightarrow> ('k, 'v, 'c) ConcurrentCache option" where
  "ccRun ops [] s = Some s"
| "ccRun ops (a # as) s = Option.bind (ccStep ops a s) (ccRun ops as)"

definition exampleShared :: "(nat, nat, (nat, nat, (nat, (nat, nat) Entry) HeapBasedPQ, nat) lruState) ConcurrentCache" where
  "exampleShared = makeConcurrentCache (makeFlexibleCache 2 100 50 makeHeapBasedPQ, 0)"

definition exampleCall :: "bool \<Rightarrow> nat \<Rightarrow> nat \<Rightarrow> (nat, nat) Call" where
  "exampleCall pinned k v = \<lparr>callKey = k, callPinned = pinned, callOnlyReadFromCache = False, callCompute = Inr v,
     callSuitable = (\<lambda>_. True)\<rparr>"

definition exampleResults :: "(nat, nat) ccAction list \<Rightarrow> (nat option \<times> CacheStatus) result option list option" where
  "exampleResults as = map_option (\<lambda>s. map (\<lambda>th. case threadPc th of Returned x \<Rightarrow> Some x | _ \<Rightarrow> None) (ccThreads s))
     (ccRun (flexibleOps exampleHeapOps id) as exampleShared)"

lemmas cache_eval = insertCache_def insertPinned_def makeFlexibleCache_def containsKey_def containsPinned_def containsNonPinned_def
  makeRoomIfFits_def minusMemory_def bytes_def makeRoomLoop.simps needsRoom_def heapOps_def makeHeapBasedPQ_def
  plusMemory_def size_t_max_def heapInsert_def handleValue_def containsAndMakePinnedIfExists_def lookupCache_def flexibleOps_def

lemmas shared_eval = exampleResults_def exampleShared_def exampleCall_def makeConcurrentCache_def newThread_def threadStep_def
  determine_def getCacheStatus_def goto_def makeResultInProgress_def moveFromInProgressToCache_def tryInsertIfNotPresent_def
  eraseInProgress_def finishResult_def abortResult_def getResult_def Let_def

lemma ccRun_reachable:
  "ccReachable ops allowed c s \<Longrightarrow> \<forall>a\<in>set as. allowed a \<Longrightarrow> ccRun ops as s = Some s' \<Longrightarrow> ccReachable ops allowed c s'"
proof (induction as arbitrary: s)
  case (Cons a as)
  then obtain s1 where "ccStep ops a s = Some s1" "ccRun ops as s1 = Some s'" by (auto simp: bind_eq_Some_conv)
  then show ?case using Cons.IH [of s1] Cons.prems(1,2) ccReachable.step [of ops allowed c s a s1] by simp
qed simp

lemma exampleShared_reachable:
  assumes "ccRun (flexibleOps exampleHeapOps id) as exampleShared = Some s" "\<forall>a\<in>set as. allowed a"
  shows "ccReachable (flexibleOps exampleHeapOps id) allowed (makeFlexibleCache 2 100 50 makeHeapBasedPQ, 0) s"
  using ccRun_reachable [OF ccReachable.init assms(2) assms(1) [unfolded exampleShared_def]] .

fun runThreads ::
    "('k, 'v, 'c) CacheOps \<Rightarrow> nat list \<Rightarrow> ('k, 'v, 'c) ConcurrentCache \<Rightarrow> ('k, 'v, 'c) ConcurrentCache option" where
  "runThreads ops [] s = Some s"
| "runThreads ops (i # is) s = Option.bind (threadStep ops i s) (runThreads ops is)"

lemma runThreads_bound: "runThreads ops is s = Some s' \<Longrightarrow> length is + totalSteps s' \<le> totalSteps s \<and> numThreads s' = numThreads s"
proof (induction "is" arbitrary: s)
  case (Cons i "is")
  then obtain s1 where "threadStep ops i s = Some s1" "runThreads ops is s1 = Some s'" by (auto simp: bind_eq_Some_conv)
  then show ?case using Cons.IH [of s1] totalSteps_decreases [of ops i s s1] threadStep_decreases [of ops i s s1] by auto
qed simp

lemma totalSteps_le: "totalSteps s \<le> 6 * numThreads s"
proof -
  have "stepsLeft pc \<le> 6" for pc :: "'b Pc" by (cases pc) auto
  then have "totalSteps s \<le> (\<Sum>i<numThreads s. 6)" unfolding totalSteps_def by (intro sum_mono) auto
  then show ?thesis by (simp add: mult.commute)
qed

lemma runThreads_reachable:
  "ccReachable ops allowed c s \<Longrightarrow> (\<And>i. allowed (Step i)) \<Longrightarrow> runThreads ops is s = Some s' \<Longrightarrow> ccReachable ops allowed c s'"
proof (induction "is" arbitrary: s)
  case (Cons i "is")
  then obtain s1 where "threadStep ops i s = Some s1" "runThreads ops is s1 = Some s'" by (auto simp: bind_eq_Some_conv)
  then show ?case using Cons.IH [of s1] Cons.prems(1,2) ccReachable.step [of ops allowed c s "Step i" s1] by auto
qed simp

text \<open>Two calls for the same key, the second of which is to pin the result.\<close>

abbreviation exampleStart :: "(nat, nat) ccAction list" where
  "exampleStart \<equiv> [ComputeOnce (exampleCall False 1 30), ComputeOnce (exampleCall True 1 30), Step 0, Step 1]"

lemma example_start:
  "\<exists>s. ccRun (flexibleOps exampleHeapOps id) exampleStart exampleShared = Some s \<and> numThreads s = 2 \<and> pcOf s 0 = Computing 0 \<and>
     pcOf s 1 = Waiting 0 \<and> keyOf s 1 = 1 \<and> ripStatus (ccResults s ! 0) = IN_PROGRESS \<and>
     (\<exists>s'. runThreads (flexibleOps exampleHeapOps id) [0, 0, 0, 1] s = Some s' \<and> numThreads s' = 2 \<and>
        pcOf s' 0 = Returned (Inr (Some 30, computed)) \<and> pcOf s' 1 = Returned (Inr (Some 30, computed)))"
  by (simp add: shared_eval cache_eval pcOf_def callOf_def)

lemma returned_stuck:
  assumes "numThreads s = 2" "pcOf s 0 = Returned x" "pcOf s 1 = Returned y"
  shows "threadStep ops i s = None"
proof -
  consider "2 \<le> i" | "i = 0" | "i = 1" by linarith
  then show ?thesis
  proof cases
    case 1
    then show ?thesis using assms(1) by (simp add: threadStep_def)
  next
    case 2
    then show ?thesis using assms(1,2) unfolding threadStep_eq by simp
  next
    case 3
    then show ?thesis using assms(1,3) unfolding threadStep_eq by simp
  qed
qed

lemma example_end:
  "\<exists>s. ccRun (flexibleOps exampleHeapOps id) (exampleStart @ [Step 0, Step 0, Step 0, Step 1]) exampleShared = Some s \<and>
     numThreads s = 2 \<and> pcOf s 1 = Returned (Inr (Some 30, computed)) \<and> keyOf s 1 = 1 \<and> callPinned (callOf s 1)"
  by (simp add: shared_eval cache_eval pcOf_def callOf_def)

section \<open>Properties\<close>

text \<open>C9: Whatever the threads do, at most one of them computes the result of a key for the others, its contract checks
  hold when it moves the result to the cache, finishes or aborts, and a thread that waits has an owner of the
  same key to wait for until the result is finished or aborted.\<close>

theorem concurrent_cache_protocol:
  assumes "ccReachable ops allowed c s" "i < numThreads s"
  shows "(\<forall>j<numThreads s. registered (pcOf s i) \<noteq> None \<longrightarrow> registered (pcOf s j) \<noteq> None \<longrightarrow> keyOf s i = keyOf s j \<longrightarrow> i = j) \<and>
    (\<forall>r v. pcOf s i = Moving r v \<longrightarrow> (\<exists>p. inProgress s (keyOf s i) = Some (p, r))) \<and>
    (\<forall>r v x s'. pcOf s i = Finishing r v x \<longrightarrow> threadStep ops i s = Some s' \<longrightarrow>
       pcOf s' i = Returned (Inr (Some v, computed)) \<and> ccResults s' ! r = \<lparr>ripStatus = FINISHED, ripResult = x\<rparr>) \<and>
    (\<forall>r e s'. pcOf s i = Aborting r e \<longrightarrow> threadStep ops i s = Some s' \<longrightarrow>
       pcOf s' i = Returned (Inl e) \<and> ripStatus (ccResults s' ! r) = ABORTED) \<and>
    (\<forall>r. pcOf s i = Waiting r \<longrightarrow> ripStatus (ccResults s ! r) = IN_PROGRESS \<longrightarrow>
       (\<exists>j<numThreads s. owned (pcOf s j) = Some r \<and> keyOf s j = keyOf s i))"
proof -
  have inv: "ccInv s" by (rule reachable_ccInv [OF assms(1)])
  note D = ccInvD [OF inv assms(2)]
  have "i = j" if "j < numThreads s" "registered (pcOf s i) \<noteq> None" "registered (pcOf s j) \<noteq> None" "keyOf s i = keyOf s j" for j
    using ccInv_one_owner [OF inv assms(2) that(1)] that(2-4) by blast
  moreover have "\<exists>p. inProgress s (keyOf s i) = Some (p, r)" if "pcOf s i = Moving r v" for r v using D(4) that by simp
  moreover have "pcOf s' i = Returned (Inr (Some v, computed)) \<and> ccResults s' ! r = \<lparr>ripStatus = FINISHED, ripResult = x\<rparr>"
    if "pcOf s i = Finishing r v x" "threadStep ops i s = Some s'" for r v x s'
    using D(1,2) [of r] that assms(2) by (auto simp: threadStep_eq complete_simps)
  moreover have "pcOf s' i = Returned (Inl e) \<and> ripStatus (ccResults s' ! r) = ABORTED"
    if "pcOf s i = Aborting r e" "threadStep ops i s = Some s'" for r e s'
    using D(1,2) [of r] that assms(2) by (auto simp: threadStep_eq complete_simps)
  ultimately show ?thesis using D(6) by blast
qed

theorem concurrent_cache_protocol_witness:
  "\<exists>s. ccRun (flexibleOps exampleHeapOps id) exampleStart exampleShared = Some s \<and> pcOf s 1 = Waiting 0 \<and>
     (\<exists>j<2. owned (pcOf s j) = Some 0 \<and> keyOf s j = 1)"
proof -
  obtain s where s: "ccRun (flexibleOps exampleHeapOps id) exampleStart exampleShared = Some s" "numThreads s = 2"
    "pcOf s 1 = Waiting 0" "keyOf s 1 = 1" "ripStatus (ccResults s ! 0) = IN_PROGRESS" using example_start by blast
  have "ccReachable (flexibleOps exampleHeapOps id) (\<lambda>_. True) (makeFlexibleCache 2 100 50 makeHeapBasedPQ, 0) s"
    by (rule exampleShared_reachable [OF s(1)]) simp
  then have "\<exists>j<2. owned (pcOf s j) = Some 0 \<and> keyOf s j = 1"
    using concurrent_cache_protocol [of _ _ _ s 1] s(2-5) by fastforce
  then show ?thesis using s(1,3) by blast
qed

text \<open>C7: The calls on the shared LRU cache return: from every reachable state, whatever the order in which the threads make
  their steps, there are at most six steps for each call, and when no thread can make a step, all calls have returned. No
  thread waits forever for a result, as long as the computations themselves end.\<close>

theorem concurrent_calls_return:
  assumes "topIsMinimal pick" "limit < 2 ^ 63" "single < 2 ^ 63" "\<forall>a. allowed (Act a) \<longrightarrow> actionOk a" "\<forall>i. allowed (Step i)"
    and "ccReachable (flexibleOps (heapOps pick dflt) sz) allowed (makeFlexibleCache num limit single makeHeapBasedPQ, t) s"
    and "runThreads (flexibleOps (heapOps pick dflt) sz) is s = Some s'"
  shows "length is \<le> 6 * numThreads s \<and>
    ((\<forall>i. threadStep (flexibleOps (heapOps pick dflt) sz) i s' = None) \<longrightarrow> (\<forall>i<numThreads s. \<exists>x. pcOf s' i = Returned x))"
proof -
  note shared = heap_shared [OF assms(1), of dflt sz]
  have r: "ccReachable (flexibleOps (heapOps pick dflt) sz) allowed (makeFlexibleCache num limit single makeHeapBasedPQ, t) s'"
    using runThreads_reachable [OF assms(6) _ assms(7)] assms(5) by blast
  have "sharedOk heapInv heapContents sz (ccCache s')"
    using shared_cache.reachable_cinv [OF shared r heap_initial(1) [OF assms(2,3)]] assms(4) by blast
  then have "\<exists>x. pcOf s' i = Returned x"
    if "\<And>i. threadStep (flexibleOps (heapOps pick dflt) sz) i s' = None" "i < numThreads s'" for i
    using shared_cache.stuck_returned [OF shared reachable_ccInv [OF r]] that by blast
  then show ?thesis using runThreads_bound [OF assms(7)] totalSteps_le [of s] by auto
qed

theorem concurrent_calls_return_witness:
  "\<exists>s s'. ccRun (flexibleOps exampleHeapOps id) exampleStart exampleShared = Some s \<and>
     runThreads (flexibleOps exampleHeapOps id) [0, 0, 0, 1] s = Some s' \<and> (\<exists>x. pcOf s' 0 = Returned x) \<and> (\<exists>x. pcOf s' 1 = Returned x)"
proof -
  obtain s s' where s: "ccRun (flexibleOps exampleHeapOps id) exampleStart exampleShared = Some s" "numThreads s = 2"
    "runThreads (flexibleOps exampleHeapOps id) [0, 0, 0, 1] s = Some s'" "numThreads s' = 2"
    "pcOf s' 0 = Returned (Inr (Some 30, computed))" "pcOf s' 1 = Returned (Inr (Some 30, computed))" using example_start by blast
  have r: "ccReachable (flexibleOps exampleHeapOps id) (\<lambda>a. \<forall>b. a = Act b \<longrightarrow> actionOk b)
      (makeFlexibleCache 2 100 50 makeHeapBasedPQ, 0) s"
    by (rule exampleShared_reachable [OF s(1)]) simp
  have "(\<exists>x. pcOf s' 0 = Returned x) \<and> (\<exists>x. pcOf s' 1 = Returned x)"
    using concurrent_calls_return [OF firstTop_minimal _ _ _ _ r s(3)] returned_stuck [OF s(4-6)] s(2) by simp
  then show ?thesis using s(1,3) by blast
qed

text \<open>C6: Let all values that the calls compute and that are inserted from outside be valid for their keys. Then every value
  that a call on the shared LRU cache returns, and every value in the cache, is valid for its key, and a call returns no value
  only if it was told to read from the cache only. If the call was to pin the result, the result is pinned in the
  cache as long as the cache is not cleared completely, also if another thread that did not want to pin it has computed it.\<close>

theorem concurrent_results:
  assumes "topIsMinimal pick" "limit < 2 ^ 63" "single < 2 ^ 63"
    and "ccReachable (flexibleOps (heapOps pick dflt) sz) (validAction valid actionOk) (makeFlexibleCache num limit single makeHeapBasedPQ, t) s"
    and "i < numThreads s" "pcOf s i = Returned (Inr (result, status))"
  shows "(case result of
        Some v \<Rightarrow> valid (keyOf s i) v \<and> (callPinned (callOf s i) \<longrightarrow> containsPinned (keyOf s i) (fst (ccCache s)))
      | None \<Rightarrow> callOnlyReadFromCache (callOf s i) \<and> status = notInCacheAndNotComputed) \<and>
    (\<forall>k v. storedMap heapContents (ccCache s) k = Some v \<longrightarrow> valid k v)"
proof -
  note shared = heap_shared [OF assms(1), of dflt sz]
  have ok: "shared_cache.ccOk (sharedOk heapInv heapContents sz) (storedMap heapContents) pinnedSet valid s"
    using shared_cache.reachable_ccOk [OF shared assms(4)] heap_initial [OF assms(2,3)] by blast
  then have "threadOk valid (pinnedSet (ccCache s)) (callOf s i) (Returned (Inr (result, status)))"
    using assms(5,6) by (auto simp: shared_cache.ccOk_def [OF shared])
  moreover have "\<forall>k v. storedMap heapContents (ccCache s) k = Some v \<longrightarrow> valid k v"
    using ok by (simp add: shared_cache.ccOk_def [OF shared])
  moreover have "k \<in> pinnedSet (ccCache s) \<longleftrightarrow> containsPinned k (fst (ccCache s))" for k
    by (auto simp: pinnedSet_def containsPinned_def split: prod.splits)
  ultimately show ?thesis by (auto simp: threadOk_def split: option.splits)
qed

theorem concurrent_results_witness:
  "\<exists>s. ccRun (flexibleOps exampleHeapOps id) (exampleStart @ [Step 0, Step 0, Step 0, Step 1]) exampleShared = Some s \<and>
     pcOf s 1 = Returned (Inr (Some 30, computed)) \<and> containsPinned 1 (fst (ccCache s))"
proof -
  obtain s where s: "ccRun (flexibleOps exampleHeapOps id) (exampleStart @ [Step 0, Step 0, Step 0, Step 1]) exampleShared = Some s"
    "numThreads s = 2" "pcOf s 1 = Returned (Inr (Some 30, computed))" "keyOf s 1 = 1" "callPinned (callOf s 1)"
    using example_end by blast
  have r: "ccReachable (flexibleOps exampleHeapOps id) (validAction (\<lambda>k v. v = 30) actionOk)
      (makeFlexibleCache 2 100 50 makeHeapBasedPQ, 0) s"
    by (rule exampleShared_reachable [OF s(1)]) (simp add: exampleCall_def)
  have "containsPinned 1 (fst (ccCache s))"
    using concurrent_results [OF firstTop_minimal _ _ r _ s(3)] s(2,4,5) by simp
  then show ?thesis using s(1,3) by blast
qed


end
