(* ===== verification/Spec2Isabelle.thy ===== *)
theory Spec2Isabelle
  imports Prelude ValueId SetOfIntervals JoinAlgorithms GallopingJoin SpecialOptionalJoin FindUndefRanges LocatedTriples BlankNodeManager LocalVocab DeltaTriples TripleSerializer PriorityQueue Cache LruCache ValueIdComparators ScanCorrectness SharedLruCache
begin

text \<open>
  A verification of core components of QLever, a SPARQL engine in C++ (\<open>src/src\<close>).

  \<^bold>\<open>The program.\<close> QLever answers SPARQL queries on an index of RDF triples. Every term is an id of 64 bits
  (\<open>global/ValueId.h\<close>), and a triple with its graph is a row of four ids. The index stores the triples in six permutations,
  each as a sorted sequence of compressed blocks with metadata (\<open>index/CompressedRelation.cpp\<close>). Updates are not
  written into the blocks: \<open>index/DeltaTriples.cpp\<close> keeps the inserted and deleted triples, located in the blocks of
  each permutation (\<open>index/LocatedTriples.cpp\<close>), and a scan merges them into the rows that it reads. Words
  and blank nodes that are not in the vocabulary of the index get ids from a local vocabulary (\<open>engine/LocalVocab.cpp\<close>) and a
  manager of blank nodes (\<open>util/BlankNodeManager.cpp\<close>). The operations of a query join sorted tables
  (\<open>util/JoinAlgorithms\<close>), compare ids and find ranges of them in sorted columns (\<open>global/ValueIdComparators.h\<close>), and represent sets
  of rows as intervals (\<open>engine/sparqlExpressions/SetOfIntervals.cpp\<close>). Their results are kept in a cache
  (\<open>util/Cache.h\<close>) that all queries share (\<open>util/ConcurrentCache.h\<close>).

  \<^bold>\<open>The theories\<close>, in the order of their dependencies. A record models a struct or a class, a datatype an enumeration, and a function or
  definition a function of the same name unless its comment says otherwise.

  \<^item> \<open>Prelude\<close>: machine words, errors as values (\<open>'a result\<close> is a sum whose left part is the exception), three-way comparison.

  \<^item> \<open>BinarySearch\<close>: \<open>std::partition_point\<close> and the bounds that the sources search with it.

  \<^item> \<open>BitUtils\<close>, \<open>ValueId\<close> (\<open>util/BitUtils.h\<close>, \<open>util/NBitInteger.h\<close>, \<open>global/ValueId.h\<close>): ids at their width of 64 bits with four bits for
  the datatype. The factories and \<open>visit\<close> are inverse on the values that fit, the three-way comparison with its special cases for the two
  types of strings is a linear order on keys, and equal ids have equal hashes.

  \<^item> \<open>ValueIdComparators\<close> (\<open>global/ValueIdComparators.h\<close>): comparison of ids by their values, with doubles as bit patterns of IEEE 754
  and integers of 60 bits, and the search for the ranges of a sorted list. The ranges are exactly the positions that compare true,
  with the exceptions for NaN and Booleans that are shown by examples.

  \<^item> \<open>SetOfIntervals\<close> (\<open>engine/sparqlExpressions/SetOfIntervals.cpp\<close>): the operations are those of a Boolean algebra of bounded sets; the
  locale \<open>bounded_set_algebra\<close> derives De Morgan's laws from its contract.

  \<^item> \<open>JoinAlgorithms\<close>, \<open>FindUndefRanges\<close>, \<open>GallopingJoin\<close>, \<open>SpecialOptionalJoin\<close> (\<open>util/JoinAlgorithms\<close>): the joins of sorted tables as
  functions that return the sequence of the calls of their row actions. The locales \<open>row_order\<close> and \<open>zipper_join\<close>
  state what the zipper join needs of the order and of the search for rows with undefined values; the searches of
  \<open>FindUndefRanges.h\<close> fulfil it. The joins call the action for exactly the compatible pairs of rows.

  \<^item> \<open>LocatedTriples\<close> (\<open>index/LocatedTriples.cpp\<close>): adding and erasing are the operations on a set of located triples, merging a block gives
  the sorted rows without the deleted and with the inserted ones, and the augmented metadata describes the blocks after the updates.

  \<^item> \<open>BlankNodeManager\<close>, \<open>LocalVocab\<close>: state machines of all managers and vocabularies of a process, as inductive step relations, with
  the generator of random numbers as a stream of block indices. Indices are fresh and within their range, blocks are freed exactly when their last user
  is destroyed, and indices of words stay valid.

  \<^item> \<open>DeltaTriples\<close>, \<open>TripleSerializer\<close> (\<open>index/DeltaTriples.cpp\<close>, \<open>util/Serializer/TripleSerializer.h\<close>): insertion and deletion in all six
  permutations refine two disjoint sets of triples; the file of the updates restores them.

  \<^item> \<open>LimitOffset\<close>, \<open>CompressedRelation\<close>, \<open>ScanCorrectness\<close> (\<open>parser/data/LimitOffsetClause.h\<close>, \<open>index/CompressedRelation.cpp\<close>,
  \<open>index/ScanSpecification.h\<close>): the choice of blocks for a scan specification, reading, decompressing and merging them, filters
  by graph, duplicates, limit and offset. The scan of a permutation with updates returns exactly the matching rows of the index without the deleted and
  with the inserted triples.

  \<^item> \<open>PriorityQueue\<close>, \<open>MemorySize\<close>, \<open>Cache\<close>, \<open>LruCache\<close> (\<open>util/PriorityQueue.h\<close>, \<open>util/MemorySize/MemorySize.h\<close>, \<open>util/Cache.h\<close>,
  \<open>util/LruCache.h\<close>): the locale \<open>priority_queue\<close> is the contract that both queues fulfil and from which \<open>cache_queue\<close>
  derives the behaviour of the cache: its totals, its evictions, and that its loops end.

  \<^item> \<open>ConcurrentCache\<close>, \<open>SharedLruCache\<close> (\<open>util/ConcurrentCache.h\<close>): the interleaved steps of threads that compute each result only
  once. The locale \<open>shared_cache\<close> is the contract of the cache, and the LRU cache fulfils it with both queues. All calls return, and a pinned result is pinned.

  This theory composes the updates with the scan: what a scan of a permutation returns after triples have been inserted and deleted.

  \<^bold>\<open>Choices of the model.\<close> Numbers of type \<open>size_t\<close> that count elements in memory are natural numbers; where the width matters, the bound
  \<open>2 ^ 64\<close> is written out (\<open>MemorySize\<close>, \<open>LimitOffset\<close>, ids and offsets). Functions that loop are recursive functions with a proof of termination, except
  for the loops that make room in the cache and the search for an unused block of blank nodes: these are partial functions
  in the option monad, and theorems show that they return. There is no fuel. The largest element of the standard priority queue among equal
  scores is a parameter, and so are the order of words, the file of the index together with the compression library, the
  generator of random numbers, and the check for cancellation. Blocks that threads read ahead are read in their order, because the queue that hands them
  over restores it. A critical section of a mutex is one step.

  \<^bold>\<open>Not modelled\<close>: the grammar of SPARQL and its generated parser, the parser for RDF, the query planner and most operations of the engine, which
  depend on the cost estimates and result types of all others; the evaluation of expressions, which are templates over all kinds of arguments; the
  text index, the building of the index, files, network, and third-party libraries. The manifest lists every part with its reason.
\<close>

section \<open>Scans after updates\<close>

text \<open>The six permutations of an index hold the triples of \<open>T\<close>, and \<open>contents\<close> are the triples after the updates.\<close>

definition indexHolds ::
    "('id::{linorder,order_bot}) IdTriple set \<Rightarrow> (Permutation \<Rightarrow> 'id columnFile) \<Rightarrow> nat \<Rightarrow> 'id blockData \<Rightarrow>
     (Permutation \<Rightarrow> 'id list list list) \<Rightarrow> bool" where
  "indexHolds T files w blocks idx \<longleftrightarrow> (\<forall>t\<in>T. length t = 4) \<and>
     (\<forall>p. indexOk (files p) w (blocks p) (idx p) \<and> take 4 ` indexRows (idx p) = permuteTuple (toKeyOrder p) ` T)"

definition contents :: "'id IdTriple set \<Rightarrow> 'id DeltaTriples \<Rightarrow> 'id IdTriple set" where
  "contents T d = (T - dom (triplesDeleted d)) \<union> dom (triplesInserted d)"

text \<open>The scan of all blocks for the located triples \<open>l\<close> succeeds and returns the columns of the triples of \<open>S\<close> that match.\<close>

definition scanReturns ::
    "bool \<Rightarrow> ('id::{linorder,order_bot,order_top}) columnFile \<Rightarrow> 'id LocatedTriplesPerBlock \<Rightarrow> 'id ScanSpecification \<Rightarrow> nat list \<Rightarrow>
     'id IdTriple set \<Rightarrow> bool" where
  "scanReturns ex columns l s extra S \<longleftrightarrow>
     (\<exists>m sb rows. getAugmentedMetadata l = Inr m \<and> makeScanSpecAndBlocks s [m] = Inr sb \<and>
        (\<forall>lo. scan ex columns neverCancelled sb extra l lo = Inr (applyLimitOffset lo rows)) \<and>
        set rows = proj (outColumns s extra) ` {t \<in> S. matchesSpec s t \<and> wanted s t})"

lemma permuteTuple_length: "length (permuteTuple (toKeyOrder p) t) = 4"
  by (cases p) (simp_all add: permuteTuple_def)

lemma delta_locatedTriplesOk:
  assumes "deltaOk blocks d" "originalMetadata (locatedTriples d p) = Some (blocks p)"
  shows "locatedTriplesOk (blocks p) (locatedTriples d p)"
proof -
  have "ltOk (locatedTriples d p)" and set: "locatedSet (locatedTriples d p) =
      loc blocks p True ` dom (triplesInserted d) \<union> loc blocks p False ` dom (triplesDeleted d)"
    using assms(1) by (simp_all add: deltaOk_def modifyOk_def locatedOk_def)
  moreover have "locatedIn (blocks p) (locatedTriples d p)" "\<forall>lt\<in>locatedSet (locatedTriples d p). length (ltTriple lt) = 4"
    unfolding set locatedIn_def by (auto simp: loc_def permuteTuple_length)
  ultimately show ?thesis using assms(2) by (simp add: locatedTriplesOk_def)
qed

lemma delta_triples:
  assumes "deltaOk blocks d"
  shows "insertedTriples (locatedTriples d p) = permuteTuple (toKeyOrder p) ` dom (triplesInserted d)"
    "deletedTriples (locatedTriples d p) = permuteTuple (toKeyOrder p) ` dom (triplesDeleted d)"
proof -
  have set: "locatedSet (locatedTriples d p) =
      loc blocks p True ` dom (triplesInserted d) \<union> loc blocks p False ` dom (triplesDeleted d)"
    using assms by (simp add: deltaOk_def modifyOk_def locatedOk_def)
  have parts: "{lt \<in> locatedSet (locatedTriples d p). ltInsert lt} = loc blocks p True ` dom (triplesInserted d)"
    "{lt \<in> locatedSet (locatedTriples d p). \<not> ltInsert lt} = loc blocks p False ` dom (triplesDeleted d)"
    unfolding set by (auto simp: loc_def)
  show "insertedTriples (locatedTriples d p) = permuteTuple (toKeyOrder p) ` dom (triplesInserted d)"
    "deletedTriples (locatedTriples d p) = permuteTuple (toKeyOrder p) ` dom (triplesDeleted d)"
    unfolding insertedTriples_def deletedTriples_def parts by (simp_all add: image_image loc_def)
qed

lemma updatedRows_contents:
  assumes "indexHolds T files w blocks idx" "deltaOk blocks d"
  shows "take 4 ` updatedRows (locatedTriples d p) w (idx p) = permuteTuple (toKeyOrder p) ` contents T d"
proof -
  let ?f = "permuteTuple (toKeyOrder p)" and ?R = "indexRows (idx p)" and ?I = "dom (triplesInserted d)" and ?D = "dom (triplesDeleted d)"
  have rows: "take 4 ` ?R = ?f ` T" using assms(1) by (simp add: indexHolds_def)
  have len: "\<forall>t\<in>T \<union> ?I \<union> ?D. length t = 4" "?I \<inter> ?D = {}"
    using assms by (auto simp: indexHolds_def deltaOk_def modifyOk_def handlesOk_def)
  have inj: "inj_on ?f (T \<union> ?I \<union> ?D)" using len(1) permuteTuple_inj by (metis inj_onI)
  have keep: "take 4 ` {row \<in> ?R. take 4 row \<notin> ?f ` ?D} = ?f ` T - ?f ` ?D" unfolding rows [symmetric] by auto
  have new: "take 4 ` {t @ replicate (w - 4) bot |t. t \<in> ?f ` ?I \<and> t \<notin> take 4 ` ?R} = ?f ` ?I - ?f ` T"
    (is "take 4 ` ?N = _")
  proof -
    have "take 4 (t @ replicate (w - 4) bot) = t" if "t \<in> ?f ` ?I" for t using that by (auto simp: permuteTuple_length)
    moreover have "?N = (\<lambda>t. t @ replicate (w - 4) bot) ` (?f ` ?I - ?f ` T)" unfolding rows by blast
    ultimately show ?thesis by (simp add: image_image)
  qed
  have "?f ` T - ?f ` ?D = ?f ` (T - ?D)" by (rule inj_on_image_set_diff [OF inj, symmetric]) auto
  moreover have "?f ` ?I \<inter> ?f ` ?D = ?f ` (?I \<inter> ?D)" by (rule inj_on_image_Int [OF inj, symmetric]) auto
  moreover note len(2)
  ultimately show ?thesis unfolding updatedRows_def delta_triples [OF assms(2)] image_Un keep new contents_def by blast
qed

text \<open>The columns of the triple and its graph determine what a scan without additional columns returns.\<close>

lemma proj_quads:
  assumes "extra \<in> {[], [3]}"
  shows "proj (outColumns s extra) ` {row \<in> R. matchesSpec s row \<and> wanted s row} =
    proj (outColumns s extra) ` {t \<in> take 4 ` R. matchesSpec s t \<and> wanted s t}"
proof -
  have "\<forall>c\<in>set (outColumns s extra). c < 4" using assms by (auto simp: outColumns_def)
  then have p: "proj (outColumns s extra) (take 4 row) = proj (outColumns s extra) row" for row :: "'a list"
    by (simp add: proj_def)
  have m: "matchesSpec s (take 4 row) = matchesSpec s row" "wanted s (take 4 row) = wanted s row" for row :: "'a list"
    by (simp_all add: matchesSpec_def wanted_def split: option.splits)
  have "{t \<in> take 4 ` R. matchesSpec s t \<and> wanted s t} = take 4 ` {row \<in> R. matchesSpec s row \<and> wanted s row}"
    using m by blast
  then show ?thesis by (simp add: image_image p)
qed

lemma scan_contents:
  assumes "indexHolds T files w blocks idx" "deltaOk blocks d" "originalMetadata (locatedTriples d p) = Some (blocks p)"
    and "updateAugmentedMetadata (locatedTriples d p) = locatedTriples d p"
    and "makeScanSpecification c0 c1 None gs = Inr s" "extra \<in> {[], [3]}" "readsGraph s extra"
  shows "scanReturns ex (files p) (locatedTriples d p) s extra (permuteTuple (toKeyOrder p) ` contents T d)"
proof -
  have idx: "indexOk (files p) w (blocks p) (idx p)" using assms(1) by (simp add: indexHolds_def)
  note loc = delta_locatedTriplesOk [OF assms(2,3)]
  obtain m where m: "getAugmentedMetadata (locatedTriples d p) = Inr m"
    using assms(3) by (cases "augmentedMetadata (locatedTriples d p)") (simp_all add: getAugmentedMetadata_def)
  have pre: "getAugmentedMetadata (updateAugmentedMetadata (locatedTriples d p)) = Inr m" "additionalOk extra"
      "\<forall>c\<in>set extra. c < (if ltMap (locatedTriples d p) (length (blocks p)) = None then w else 4)"
    using m assms(4,6) idx by (auto simp: additionalOk_def indexOk_def)
  note scan = scan_rows [OF idx loc pre(1) assms(5) pre(2) _ pre(3), of "[m]"]
  let ?rows = "scanResult s extra (locatedTriples d p) (rowsIn (idx p)) (filter (overlaps s) m)"
  obtain sb where "makeScanSpecAndBlocks s [m] = Inr sb"
      "\<forall>lo. scan ex (files p) neverCancelled sb extra (locatedTriples d p) lo = Inr (applyLimitOffset lo ?rows)"
    using scan(1) assms(7) by auto
  moreover have "set ?rows = proj (outColumns s extra) ` {t \<in> permuteTuple (toKeyOrder p) ` contents T d. matchesSpec s t \<and> wanted s t}"
    using scan(2) assms(7)
    unfolding proj_quads [OF assms(6), of s "updatedRows (locatedTriples d p) w (idx p)"] updatedRows_contents [OF assms(1,2)] by simp
  ultimately show ?thesis unfolding scanReturns_def using m by blast
qed


text \<open>An example: an index of one triple, to which another one is added.\<close>

definition tinyRow :: "Permutation \<Rightarrow> enat list" where
  "tinyRow p = permuteTuple (toKeyOrder p) [1, 2, 3, 0]"

definition tinyFile :: "Permutation \<Rightarrow> enat columnFile" where
  "tinyFile p = (\<lambda>(offset, len). Some (if len = 0 then [] else [tinyRow p ! nat offset]))"

definition tinyBlocks :: "enat blockData" where
  "tinyBlocks p = [\<lparr>offsetsAndCompressedSize = map (\<lambda>c. (int c, 1)) [0..<4], numRows = 1, firstTriple = tinyRow p,
     lastTriple = tinyRow p, graphInfo = Some [0], containsDuplicatesWithDifferentGraphs = False, metaBlockIndex = 0\<rparr>]"

definition tinyDelta :: "enat DeltaTriples" where
  "tinyDelta = fold (\<lambda>p. setOriginalMetadataDelta p (tinyBlocks p)) allPermutations emptyDelta"

definition tinyOps :: "(enat, nat) IdOps" where
  "tinyOps = \<lparr>idView = (\<lambda>_. OtherId), idFromLocalVocabIndex = enat \<circ> snd, idFromBlankNodeIndex = enat\<rparr>"

lemma tiny_holds: "indexHolds {[1, 2, 3, 0]} tinyFile 4 tinyBlocks (\<lambda>p. [[tinyRow p]])"
proof -
  have len: "length (tinyRow p) = 4" "tinyRow p ! 3 = 0" for p
    by (cases p; simp add: tinyRow_def permuteTuple_def)+
  have "storedRows (tinyFile p) (tinyBlocks p ! 0) [tinyRow p]" for p
    by (auto simp: storedRows_def tinyBlocks_def tinyFile_def len)
  moreover have "tinyFile p (0, 0) = Some []" for p by (simp add: tinyFile_def)
  ultimately have "indexOk (tinyFile p) 4 (tinyBlocks p) [[tinyRow p]]" for p
    using len by (simp add: indexOk_def blocksSorted_def inBlock_def) (simp add: tinyBlocks_def numColumnsOf_def)
  then show ?thesis by (simp add: indexHolds_def indexRows_def len) (simp add: tinyRow_def)
qed

lemma tiny_delta: "deltaOk tinyBlocks tinyDelta" "originalMetadata (locatedTriples tinyDelta p) = Some (tinyBlocks p)"
    "contents {[1, 2, 3, 0]} tinyDelta = {[1, 2, 3, 0]}"
proof -
  have d: "tinyDelta = emptyDelta\<lparr>locatedTriples := \<lambda>p. setOriginalMetadata (tinyBlocks p) (locatedTriples emptyDelta p)\<rparr>"
    by (simp add: tinyDelta_def allPermutations_def setOriginalMetadataDelta_def emptyDelta_def fun_eq_iff)
      (metis Permutation.exhaust)
  show "deltaOk tinyBlocks tinyDelta"
    by (simp add: d deltaOk_def emptyDelta_def modifyOk_def handlesOk_def locatedOk_def ltOk_def locatedSet_def setOriginalMetadata_def)
  show "originalMetadata (locatedTriples tinyDelta p) = Some (tinyBlocks p)" by (simp add: d setOriginalMetadata_def)
  show "contents {[1, 2, 3, 0]} tinyDelta = {[1, 2, 3, 0]}" by (simp add: d contents_def emptyDelta_def)
qed


end
